(* ===== verification/Prelude.thy ===== *)
theory Prelude
  imports Main "HOL-Library.Word"
begin

text \<open>
  Shared material of the development: the machine types of the x86_64 target, the result
  type of operations that can abort, the memory, and generic lemmas on words and lists.

  \<^item> \<open>u64\<close>, \<open>u32\<close>, \<open>u16\<close>, \<open>u8\<close> are the C integers of those widths; \<open>ptr\<close> is a pointer.
  \<^item> A computation that can abort the process returns \<open>abort + 'a\<close>: \<open>Inl\<close> is the abort
    (\<open>malloc_printerr\<close>, a failed \<open>assert\<close>, a trap, or a loop that used up the bound on
    pointer-chasing steps), \<open>Inr\<close> the value. \<open>bindE\<close> sequences two of them.
  \<^item> \<open>memory\<close> maps the address of an 8-byte word to its contents. The allocator reads and
    writes its own fields at 8-aligned addresses only.
\<close>

unbundle bit_operations_syntax

type_synonym u64 = "64 word"
type_synonym u32 = "32 word"
type_synonym u16 = "16 word"
type_synonym u8 = "8 word"
type_synonym ptr = "64 word"
type_synonym memory = "u64 \<Rightarrow> u64"

abbreviation (input) NULL :: ptr where "NULL \<equiv> 0"

named_theorems field_defs "accessors and setters of fields in memory"
named_theorems size_arith "facts that turn size computations on words into arithmetic on nat"

section \<open>Aborts\<close>

datatype abort =
    Printerr string    \<comment> \<open>\<open>malloc_printerr (msg)\<close>: print and kill the process\<close>
  | Assertion string   \<comment> \<open>a failed \<open>assert\<close>\<close>
  | Trap string        \<comment> \<open>undefined behaviour the code relies on not reaching\<close>
  | Out_of_fuel        \<comment> \<open>a pointer-chasing loop ran for more steps than the bound\<close>

definition bindE :: "abort + 'a \<Rightarrow> ('a \<Rightarrow> abort + 'b) \<Rightarrow> abort + 'b" where
  "bindE r f = (case r of Inl e \<Rightarrow> Inl e | Inr a \<Rightarrow> f a)"

definition assertE :: "string \<Rightarrow> bool \<Rightarrow> abort + unit" where
  "assertE what b = (if b then Inr () else Inl (Assertion what))"

lemma bindE_simps [simp]:
  "bindE (Inl e) f = Inl e"
  "bindE (Inr a) f = f a"
  by (simp_all add: bindE_def)

lemma bindE_Inr_iff: "bindE r f = Inr b \<longleftrightarrow> (\<exists>a. r = Inr a \<and> f a = Inr b)"
  by (cases r) auto

lemma bindE_InrE [elim]:
  assumes "bindE r f = Inr b"
  obtains a where "r = Inr a" "f a = Inr b"
  using assms by (cases r) auto

lemma assertE_simps [simp]:
  "assertE w True = Inr ()"
  "assertE w False = Inl (Assertion w)"
  by (simp_all add: assertE_def)

lemma assertE_Inr_iff [simp]: "assertE w b = Inr u \<longleftrightarrow> b"
  by (simp add: assertE_def)

section \<open>Alignment arithmetic of the C library headers\<close>

text \<open>
  \<open>ALIGN_DOWN\<close> and \<open>ALIGN_UP\<close> (\<open>libc-pointer-arith.h\<close>), \<open>powerof2\<close> (\<open>sys/param.h\<close>) and
  \<open>PTR_IS_ALIGNED\<close>, as documented: rounding to a multiple of a power of two by masking, in
  the arithmetic of \<open>unsigned long\<close>.
\<close>

definition ALIGN_DOWN :: "u64 \<Rightarrow> u64 \<Rightarrow> u64" where
  "ALIGN_DOWN base sz = base AND (- sz)"

definition ALIGN_UP :: "u64 \<Rightarrow> u64 \<Rightarrow> u64" where
  "ALIGN_UP base sz = ALIGN_DOWN (base + sz - 1) sz"

definition powerof2 :: "u64 \<Rightarrow> bool" where
  "powerof2 x \<longleftrightarrow> (x - 1) AND x = 0"

definition PTR_IS_ALIGNED :: "u64 \<Rightarrow> u64 \<Rightarrow> bool" where
  "PTR_IS_ALIGNED p sz \<longleftrightarrow> p AND (sz - 1) = 0"

section \<open>Words\<close>

lemma unat_and_mask: "unat (x AND mask n) = unat x mod 2 ^ n" for x :: "'a::len word"
  by (metis take_bit_eq_mask take_bit_eq_mod unsigned_take_bit_eq)

lemma and_not_mask_eq: "x AND NOT (mask n) = x - take_bit n x" for x :: "'a::len word"
proof -
  have "NOT x AND take_bit n x = 0"
    by (rule bit_eqI) (auto simp: bit_simps)
  then have "x - take_bit n x = x AND NOT (take_bit n x)"
    by (rule disjunctive_diff_eq_and_not)
  also have "\<dots> = x AND NOT (mask n)"
    by (rule bit_eqI) (auto simp: bit_simps)
  finally show ?thesis ..
qed

lemma unat_and_not_mask: "unat (x AND NOT (mask n)) = unat x - unat x mod 2 ^ n"
  for x :: "'a::len word"
proof -
  have t: "unat (take_bit n x) = unat x mod 2 ^ n"
    by (simp add: unsigned_take_bit_eq flip: take_bit_eq_mod)
  then have "take_bit n x \<le> x"
    by (simp add: word_le_nat_alt)
  then show ?thesis
    by (simp add: and_not_mask_eq unat_sub t)
qed

lemma ALIGN_DOWN_pow2: "ALIGN_DOWN x (2 ^ n) = x AND NOT (mask n)"
  by (simp add: ALIGN_DOWN_def minus_exp_eq_not_mask)

lemma mask_lits:
  "(7 :: 'a::len word) = mask 3" "(15 :: 'a::len word) = mask 4" "(1 :: 'a::len word) = mask 1"
  by (simp_all add: mask_eq_exp_minus_1)

lemma unat_and_15 [size_arith]: "unat (x AND 15) = unat x mod 16" for x :: u64
  by (simp add: mask_lits unat_and_mask)

lemma unat_and_7 [size_arith]: "unat (x AND 7) = unat x mod 8" for x :: u64
  by (simp add: mask_lits unat_and_mask)

lemma unat_and_not_15 [size_arith]: "unat (x AND NOT 15) = unat x - unat x mod 16" for x :: u64
  by (simp add: mask_lits unat_and_not_mask)

lemma unat_and_not_7 [size_arith]: "unat (x AND NOT 7) = unat x - unat x mod 8" for x :: u64
  by (simp add: mask_lits unat_and_not_mask)

lemma unat_and_minus_16 [size_arith]: "unat (x AND - 16) = unat x - unat x mod 16" for x :: u64
  using unat_and_not_15 [of x] by simp

lemma unat_and_minus_8 [size_arith]: "unat (x AND - 8) = unat x - unat x mod 8" for x :: u64
  using unat_and_not_7 [of x] by simp

lemma unat_plus_64 [size_arith]: "unat (a + b) = (unat a + unat b) mod 2 ^ 64" for a b :: u64
  by (simp add: unat_word_ariths)

lemma unat_plus_mod_16: "unat (a + b) mod 16 = (unat a + unat b) mod 16" for a b :: u64
  by (simp add: unat_plus_64 mod_mod_cancel)

lemma unat_plus_mod_8: "unat (a + b) mod 8 = (unat a + unat b) mod 8" for a b :: u64
  by (simp add: unat_plus_64 mod_mod_cancel)

text \<open>The measure of the loops that count a word down to zero.\<close>

lemma unat_minus_one_less: "x \<noteq> 0 \<Longrightarrow> unat (x - 1) < unat x" for x :: "'a::len word"
  by (simp add: unat_minus_one unat_gt_0)

lemma unat_minus_one_less_gt: "0 < x \<Longrightarrow> unat (x - 1) < unat x" for x :: "'a::len word"
  by (simp add: unat_minus_one_less word_gt_0)

lemma unat_mult_small: "unat a * unat b < 2 ^ 64 \<Longrightarrow> unat (a * b) = unat a * unat b" for a b :: u64
  by (simp add: unat_word_ariths)

lemma ucast_8_32_8 [simp]: "ucast (ucast b :: u32) = b" for b :: u8
  by (rule bit_word_eqI) (simp add: bit_simps)

lemma unat_ucast_8_32 [simp]: "unat (ucast b :: u32) = unat b" for b :: u8
proof -
  have "unat b < 2 ^ 8" using unsigned_less [of b] by simp
  then have "unat b < 2 ^ 32" by simp
  then show ?thesis by (simp add: unsigned_ucast_eq take_bit_nat_eq_self)
qed

lemma unat_lt_64: "unat (x :: u64) < 2 ^ 64"
  using unsigned_less [of x] by simp

lemma unat_lt_32: "unat (x :: u32) < 2 ^ 32"
  using unsigned_less [of x] by simp

lemma unat_ucast_up: "unat (ucast x :: u64) = unat x" for x :: u32
  using unat_lt_32 [of x] by (simp add: unsigned_ucast_eq unsigned_take_bit_eq take_bit_nat_eq_self)

end
