(* ===== verification/Chunk.thy ===== *)
theory Chunk
  imports Prelude
begin

text \<open>
  Chunks: the layout of \<open>struct malloc_chunk\<close> in memory, the size conversions and the
  header macros of \<^verbatim>\<open>scalloc/src/scalloc.c\<close> (lines 1136 to 1496), for x86_64 without
  memory tagging (\<open>mtag_enabled\<close> is the macro \<open>false\<close> unless \<open>USE_MTAG\<close>): \<open>SIZE_SZ\<close> is 8
  and \<open>MALLOC_ALIGNMENT\<close> is 16.
\<close>

section \<open>Constants\<close>

abbreviation (input) SIZE_SZ :: u64 where "SIZE_SZ \<equiv> 8"
abbreviation (input) MALLOC_ALIGNMENT :: u64 where "MALLOC_ALIGNMENT \<equiv> 16"
abbreviation (input) MALLOC_ALIGN_MASK :: u64 where "MALLOC_ALIGN_MASK \<equiv> 15"
abbreviation (input) CHUNK_HDR_SZ :: u64 where "CHUNK_HDR_SZ \<equiv> 16"
abbreviation (input) MIN_CHUNK_SIZE :: u64 where "MIN_CHUNK_SIZE \<equiv> 32"
abbreviation (input) MINSIZE :: u64 where "MINSIZE \<equiv> 32"
abbreviation (input) PREV_INUSE :: u64 where "PREV_INUSE \<equiv> 1"
abbreviation (input) IS_MMAPPED :: u64 where "IS_MMAPPED \<equiv> 2"
abbreviation (input) NON_MAIN_ARENA :: u64 where "NON_MAIN_ARENA \<equiv> 4"
abbreviation (input) SIZE_BITS :: u64 where "SIZE_BITS \<equiv> 7"
abbreviation (input) SIZE_MAX :: u64 where "SIZE_MAX \<equiv> 0xFFFFFFFFFFFFFFFF"
abbreviation (input) PTRDIFF_MAX :: u64 where "PTRDIFF_MAX \<equiv> 0x7FFFFFFFFFFFFFFF"
abbreviation (input) sizeof_malloc_chunk :: u64 where "sizeof_malloc_chunk \<equiv> 48"

section \<open>Fields of a chunk\<close>

text \<open>\<open>struct malloc_chunk\<close>: six words at offsets 0, 8, 16, 24, 32 and 40.\<close>

definition prev_size :: "memory \<Rightarrow> ptr \<Rightarrow> u64" where
  [field_defs]: "prev_size m p = m p"

definition chunksize_nomask :: "memory \<Rightarrow> ptr \<Rightarrow> u64" where
  [field_defs]: "chunksize_nomask m p = m (p + 8)"

definition get_fd :: "memory \<Rightarrow> ptr \<Rightarrow> ptr" where
  [field_defs]: "get_fd m p = m (p + 16)"

definition get_bk :: "memory \<Rightarrow> ptr \<Rightarrow> ptr" where
  [field_defs]: "get_bk m p = m (p + 24)"

definition get_fd_nextsize :: "memory \<Rightarrow> ptr \<Rightarrow> ptr" where
  [field_defs]: "get_fd_nextsize m p = m (p + 32)"

definition get_bk_nextsize :: "memory \<Rightarrow> ptr \<Rightarrow> ptr" where
  [field_defs]: "get_bk_nextsize m p = m (p + 40)"

definition set_prev_size :: "memory \<Rightarrow> ptr \<Rightarrow> u64 \<Rightarrow> memory" where
  [field_defs]: "set_prev_size m p sz = m(p := sz)"

definition set_head :: "memory \<Rightarrow> ptr \<Rightarrow> u64 \<Rightarrow> memory" where
  [field_defs]: "set_head m p s = m(p + 8 := s)"

definition set_fd :: "memory \<Rightarrow> ptr \<Rightarrow> ptr \<Rightarrow> memory" where
  [field_defs]: "set_fd m p v = m(p + 16 := v)"

definition set_bk :: "memory \<Rightarrow> ptr \<Rightarrow> ptr \<Rightarrow> memory" where
  [field_defs]: "set_bk m p v = m(p + 24 := v)"

definition set_fd_nextsize :: "memory \<Rightarrow> ptr \<Rightarrow> ptr \<Rightarrow> memory" where
  [field_defs]: "set_fd_nextsize m p v = m(p + 32 := v)"

definition set_bk_nextsize :: "memory \<Rightarrow> ptr \<Rightarrow> ptr \<Rightarrow> memory" where
  [field_defs]: "set_bk_nextsize m p v = m(p + 40 := v)"

definition chunk2mem :: "ptr \<Rightarrow> ptr" where
  "chunk2mem p = p + CHUNK_HDR_SZ"

definition mem2chunk :: "ptr \<Rightarrow> ptr" where
  "mem2chunk mp = mp - CHUNK_HDR_SZ"

definition misaligned_mem :: "ptr \<Rightarrow> bool" where
  "misaligned_mem mp \<longleftrightarrow> mp AND MALLOC_ALIGN_MASK \<noteq> 0"

definition misaligned_chunk :: "ptr \<Rightarrow> bool" where
  "misaligned_chunk p \<longleftrightarrow> misaligned_mem (chunk2mem p)"

section \<open>Request sizes\<close>

definition request2size :: "u64 \<Rightarrow> u64" where
  "request2size req =
     (if req + SIZE_SZ + MALLOC_ALIGN_MASK < MINSIZE then MINSIZE
      else (req + SIZE_SZ + MALLOC_ALIGN_MASK) AND NOT MALLOC_ALIGN_MASK)"

definition checked_request2size :: "u64 \<Rightarrow> u64" where
  "checked_request2size req = (if req > PTRDIFF_MAX then SIZE_MAX else request2size req)"

section \<open>Header bits and physical neighbours\<close>

definition prev_inuse :: "memory \<Rightarrow> ptr \<Rightarrow> bool" where
  "prev_inuse m p \<longleftrightarrow> chunksize_nomask m p AND PREV_INUSE \<noteq> 0"

definition chunk_is_mmapped :: "memory \<Rightarrow> ptr \<Rightarrow> bool" where
  "chunk_is_mmapped m p \<longleftrightarrow> chunksize_nomask m p AND IS_MMAPPED \<noteq> 0"

definition chunk_main_arena :: "memory \<Rightarrow> ptr \<Rightarrow> bool" where
  "chunk_main_arena m p \<longleftrightarrow> chunksize_nomask m p AND NON_MAIN_ARENA = 0"

definition set_non_main_arena :: "memory \<Rightarrow> ptr \<Rightarrow> memory" where
  "set_non_main_arena m p = set_head m p (chunksize_nomask m p OR NON_MAIN_ARENA)"

definition chunksize :: "memory \<Rightarrow> ptr \<Rightarrow> u64" where
  "chunksize m p = chunksize_nomask m p AND NOT SIZE_BITS"

definition chunk_at_offset :: "ptr \<Rightarrow> u64 \<Rightarrow> ptr" where
  "chunk_at_offset p s = p + s"

definition next_chunk :: "memory \<Rightarrow> ptr \<Rightarrow> ptr" where
  "next_chunk m p = p + chunksize m p"

definition prev_chunk :: "memory \<Rightarrow> ptr \<Rightarrow> ptr" where
  "prev_chunk m p = p - prev_size m p"

definition inuse_bit_at_offset :: "memory \<Rightarrow> ptr \<Rightarrow> u64 \<Rightarrow> bool" where
  "inuse_bit_at_offset m p s \<longleftrightarrow> chunksize_nomask m (p + s) AND PREV_INUSE \<noteq> 0"

definition set_inuse_bit_at_offset :: "memory \<Rightarrow> ptr \<Rightarrow> u64 \<Rightarrow> memory" where
  "set_inuse_bit_at_offset m p s = set_head m (p + s) (chunksize_nomask m (p + s) OR PREV_INUSE)"

definition clear_inuse_bit_at_offset :: "memory \<Rightarrow> ptr \<Rightarrow> u64 \<Rightarrow> memory" where
  "clear_inuse_bit_at_offset m p s =
     set_head m (p + s) (chunksize_nomask m (p + s) AND NOT PREV_INUSE)"

definition inuse :: "memory \<Rightarrow> ptr \<Rightarrow> bool" where
  "inuse m p \<longleftrightarrow> inuse_bit_at_offset m p (chunksize m p)"

definition set_head_size :: "memory \<Rightarrow> ptr \<Rightarrow> u64 \<Rightarrow> memory" where
  "set_head_size m p s = set_head m p ((chunksize_nomask m p AND SIZE_BITS) OR s)"

definition set_foot :: "memory \<Rightarrow> ptr \<Rightarrow> u64 \<Rightarrow> memory" where
  "set_foot m p s = set_prev_size m (p + s) s"

definition memsize :: "memory \<Rightarrow> ptr \<Rightarrow> u64" where
  "memsize m p = chunksize m p - CHUNK_HDR_SZ + SIZE_SZ"

section \<open>Mmapped chunks\<close>

abbreviation (input) MMAP_HP :: u64 where "MMAP_HP \<equiv> 1"

definition mmap_is_hp :: "memory \<Rightarrow> ptr \<Rightarrow> bool" where
  "mmap_is_hp m p \<longleftrightarrow> prev_size m p AND MMAP_HP \<noteq> 0"

definition set_mmap_is_hp :: "memory \<Rightarrow> ptr \<Rightarrow> memory" where
  "set_mmap_is_hp m p = set_prev_size m p (prev_size m p OR MMAP_HP)"

definition prev_size_mmap :: "memory \<Rightarrow> ptr \<Rightarrow> u64" where
  "prev_size_mmap m p = prev_size m p AND NOT MMAP_HP"

definition mmap_base :: "memory \<Rightarrow> ptr \<Rightarrow> ptr" where
  "mmap_base m p = p - prev_size_mmap m p"

definition mmap_size :: "memory \<Rightarrow> ptr \<Rightarrow> u64" where
  "mmap_size m p = prev_size_mmap m p + chunksize m p + CHUNK_HDR_SZ"

section \<open>Bulk stores\<close>

text \<open>
  \<open>memset\<close> and \<open>memcpy\<close> of the C library on a destination whose address is a multiple of 8,
  on the word-granular memory: a trailing partial word keeps its high bytes (little endian).
\<close>

definition memset_at :: "memory \<Rightarrow> ptr \<Rightarrow> u8 \<Rightarrow> u64 \<Rightarrow> memory" where
  "memset_at m p c n =
     (let rep = ucast c * 0x0101010101010101 in
      (\<lambda>a. let off = a - p in
        if off AND 7 \<noteq> 0 \<or> n \<le> off then m a
        else if n - off \<ge> 8 then rep
        else (let k = 8 * unat (n - off) in (rep AND mask k) OR (m a AND NOT (mask k)))))"

definition memcpy_at :: "memory \<Rightarrow> ptr \<Rightarrow> ptr \<Rightarrow> u64 \<Rightarrow> memory" where
  "memcpy_at m dst src n =
     (\<lambda>a. let off = a - dst in
        if off AND 7 \<noteq> 0 \<or> n \<le> off then m a
        else if n - off \<ge> 8 then m (src + off)
        else (let k = 8 * unat (n - off) in (m (src + off) AND mask k) OR (m a AND NOT (mask k))))"

section \<open>Lemmas on sizes\<close>

lemma PTRDIFF_MAX_unat: "req \<le> PTRDIFF_MAX \<longleftrightarrow> unat req < 2 ^ 63"
  by (simp add: word_le_nat_alt) linarith

lemma unat_request2size:
  assumes "req \<le> PTRDIFF_MAX"
  shows "unat (request2size req) = max 32 ((unat req + 23) div 16 * 16)"
proof -
  have b: "unat req < 2 ^ 63" using assms by (simp only: PTRDIFF_MAX_unat)
  then have s: "unat (req + 8 + 15) = unat req + 23"
    by (simp add: unat_plus_64)
  then have d: "unat ((req + 8 + 15) AND NOT 15) = (unat req + 23) div 16 * 16"
    unfolding unat_and_not_15 s by (simp add: minus_mod_eq_div_mult)
  show ?thesis
    using d s by (auto simp: request2size_def word_less_nat_alt max_def)
qed

lemma chunksize_le_nomask: "unat (chunksize m p) \<le> unat (chunksize_nomask m p)"
  by (simp add: chunksize_def size_arith)

section \<open>Alignment and disjoint fields\<close>

definition aligned :: "ptr \<Rightarrow> bool" where
  "aligned p \<longleftrightarrow> p AND MALLOC_ALIGN_MASK = 0"

lemma aligned_iff: "aligned p \<longleftrightarrow> unat p mod 16 = 0"
  by (metis aligned_def unat_and_15 unat_eq_zero)

lemma aligned_offset: "aligned p \<Longrightarrow> unat (p + i) mod 16 = unat i mod 16"
  by (metis add_0 aligned_iff mod_add_left_eq unat_plus_mod_16)

lemma misaligned_chunk_iff: "misaligned_chunk p \<longleftrightarrow> \<not> aligned p"
proof -
  have "unat (p + 16) mod 16 = unat p mod 16"
    by (simp add: unat_plus_mod_16)
  then show ?thesis
    by (metis aligned_def aligned_iff chunk2mem_def misaligned_chunk_def misaligned_mem_def)
qed

lemma aligned_neq:
  assumes "aligned p" "aligned q" "unat i mod 16 \<noteq> unat j mod 16"
  shows "p + i \<noteq> q + j"
  using assms by (metis aligned_offset)

lemma aligned_field_neq [simp]:
  assumes "aligned p" "aligned q"
  shows "p + 16 \<noteq> q + 24" "p + 24 \<noteq> q + 16" "p + 16 \<noteq> q + 8" "p + 8 \<noteq> q + 16"
    "p + 8 \<noteq> q + 32" "p + 32 \<noteq> q + 8" "p + 40 \<noteq> q + 32" "p + 32 \<noteq> q + 40"
    "p \<noteq> q + 8" "p + 8 \<noteq> q" "p \<noteq> q + 24" "p + 24 \<noteq> q" "p \<noteq> q + 40" "p + 40 \<noteq> q"
    "p + 16 \<noteq> q + 40" "p + 40 \<noteq> q + 16" "p + 24 \<noteq> q + 32" "p + 32 \<noteq> q + 24"
  using aligned_neq [OF assms, of 16 24] aligned_neq [OF assms, of 24 16]
    aligned_neq [OF assms, of 16 8] aligned_neq [OF assms, of 8 16]
    aligned_neq [OF assms, of 8 32] aligned_neq [OF assms, of 32 8]
    aligned_neq [OF assms, of 40 32] aligned_neq [OF assms, of 32 40]
    aligned_neq [OF assms, of 0 8] aligned_neq [OF assms, of 8 0]
    aligned_neq [OF assms, of 0 24] aligned_neq [OF assms, of 24 0]
    aligned_neq [OF assms, of 0 40] aligned_neq [OF assms, of 40 0]
    aligned_neq [OF assms, of 16 40] aligned_neq [OF assms, of 40 16]
    aligned_neq [OF assms, of 24 32] aligned_neq [OF assms, of 32 24]
  by simp_all

end
