(* ===== verification/State.thy ===== *)
theory State
  imports Chunk
begin

text \<open>
  The state of the allocator: \<open>struct malloc_state\<close> (the arenas), \<open>struct malloc_par\<close>, the
  thread's cache and the other static variables of \<^verbatim>\<open>scalloc/src/scalloc.c\<close>, with the bin
  addressing, bin index, bin map and fast bin macros (lines 1548 to 1985).

  The words of an arena that the code also reads through chunk pointers (\<open>fastbinsY\<close>, \<open>top\<close>,
  \<open>last_remainder\<close> and the bin headers) live in \<open>memory\<close>, at their offsets in the struct
  (16, 96, 104 and 112), because a bin header is used as a chunk and \<open>initial_top\<close> really
  overlaps \<open>top\<close> and \<open>last_remainder\<close>. The scalar fields are maps from the arena's address.

  Everything outside \<^verbatim>\<open>scalloc/src\<close> that the code calls (the kernel, \<open>arena.c\<close>, the random
  source) is a field of the record \<open>sys\<close>; \<open>'k\<close> is the state of the kernel. The model follows
  the \<open>SINGLE_THREAD_P\<close> paths: one thread runs, so locks have no effect and a
  compare-and-exchange succeeds at its first attempt.
\<close>

section \<open>Parameters\<close>

datatype malloc_thp_mode_t =
    malloc_thp_mode_always
  | malloc_thp_mode_madvise
  | malloc_thp_mode_never
  | malloc_thp_mode_not_supported

record malloc_par =
  trim_threshold :: u64
  top_pad :: u64
  mmap_threshold :: u64
  arena_test :: u64
  arena_max :: u64
  thp_mode :: malloc_thp_mode_t
  thp_pagesize :: u64
  hp_pagesize :: u64
  hp_flags :: u32
  n_mmaps :: u32
  n_mmaps_max :: u32
  max_n_mmaps :: u32
  no_dyn_threshold :: u32
  mmapped_mem :: u64
  max_mmapped_mem :: u64
  sbrk_base :: ptr
  tcache_small_bins :: u64
  tcache_max_bytes :: u64
  tcache_count :: u64
  tcache_unsorted_limit :: u64

abbreviation (input) TCACHE_SMALL_BINS :: u64 where "TCACHE_SMALL_BINS \<equiv> 64"
abbreviation (input) TCACHE_LARGE_BINS :: u64 where "TCACHE_LARGE_BINS \<equiv> 12"
abbreviation (input) TCACHE_MAX_BINS :: u64 where "TCACHE_MAX_BINS \<equiv> 76"
abbreviation (input) TCACHE_FILL_COUNT :: u64 where "TCACHE_FILL_COUNT \<equiv> 7"
abbreviation (input) MAX_TCACHE_COUNT :: u64 where "MAX_TCACHE_COUNT \<equiv> 65535"
abbreviation (input) DEFAULT_MMAP_THRESHOLD_MAX :: u64 where "DEFAULT_MMAP_THRESHOLD_MAX \<equiv> 33554432"

definition tidx2csize :: "u64 \<Rightarrow> u64" where
  "tidx2csize idx = idx * MALLOC_ALIGNMENT + MINSIZE"

definition tidx2usize :: "u64 \<Rightarrow> u64" where
  "tidx2usize idx = idx * MALLOC_ALIGNMENT + MINSIZE - SIZE_SZ"

definition csize2tidx :: "u64 \<Rightarrow> u64" where
  "csize2tidx x = (x - MINSIZE) div MALLOC_ALIGNMENT"

definition MAX_TCACHE_SMALL_SIZE :: u64 where
  "MAX_TCACHE_SMALL_SIZE = tidx2csize (TCACHE_SMALL_BINS - 1)"

definition mp_init :: malloc_par where
  "mp_init = \<lparr>trim_threshold = 128 * 1024, top_pad = 0, mmap_threshold = 128 * 1024,
     arena_test = 8, arena_max = 0, thp_mode = malloc_thp_mode_not_supported,
     thp_pagesize = 0, hp_pagesize = 0, hp_flags = 0, n_mmaps = 0, n_mmaps_max = 65536,
     max_n_mmaps = 0, no_dyn_threshold = 0, mmapped_mem = 0, max_mmapped_mem = 0,
     sbrk_base = NULL, tcache_small_bins = TCACHE_SMALL_BINS,
     tcache_max_bytes = MAX_TCACHE_SMALL_SIZE + 1, tcache_count = TCACHE_FILL_COUNT,
     tcache_unsorted_limit = 0\<rparr>"

section \<open>The state\<close>

record 'k st =
  mem :: memory
  flags :: "ptr \<Rightarrow> u32"
  have_fastchunks :: "ptr \<Rightarrow> bool"
  binmap :: "ptr \<Rightarrow> u32 \<Rightarrow> u32"
  system_mem :: "ptr \<Rightarrow> u64"
  max_system_mem :: "ptr \<Rightarrow> u64"
  mp :: malloc_par
  global_max_fast :: u8
  perturb_byte :: u32
  tcache :: ptr
  num_slots :: "u64 \<Rightarrow> u16"
  tcache_shutting_down :: bool
  tcache_key :: u64
  errno :: u32
  dummy_var :: u32
  kern :: 'k

abbreviation (input) ENOMEM :: u32 where "ENOMEM \<equiv> 12"
abbreviation (input) EINVAL :: u32 where "EINVAL \<equiv> 22"

text \<open>
  What the code calls outside this directory. \<open>MORECORE\<close> is \<open>*__glibc_morecore\<close>
  (\<open>morecore.c\<close>); the heap functions belong to \<open>arena.c\<close>. \<open>loop_fuel\<close> bounds the number of
  steps of every loop that follows pointers; a run that exceeds it is \<open>Out_of_fuel\<close>.
\<close>

datatype advice = MADV_HUGEPAGE | MADV_DONTNEED

record 'k sys =
  main_arena :: ptr
  dl_pagesize :: u64
  have_mremap :: bool
  loop_fuel :: nat
  sys_morecore :: "u64 \<Rightarrow> memory \<times> 'k \<Rightarrow> ptr \<times> memory \<times> 'k"
  sys_mmap :: "u64 \<Rightarrow> u32 \<Rightarrow> memory \<times> 'k \<Rightarrow> ptr \<times> memory \<times> 'k"
  sys_munmap :: "ptr \<Rightarrow> u64 \<Rightarrow> memory \<times> 'k \<Rightarrow> memory \<times> 'k"
  sys_mremap :: "ptr \<Rightarrow> u64 \<Rightarrow> u64 \<Rightarrow> memory \<times> 'k \<Rightarrow> ptr \<times> memory \<times> 'k"
  sys_madvise :: "ptr \<Rightarrow> u64 \<Rightarrow> advice \<Rightarrow> memory \<times> 'k \<Rightarrow> memory \<times> 'k"
  sys_getrandom :: "'k \<Rightarrow> u64 option \<times> 'k"
  sys_random_bits :: "'k \<Rightarrow> u32 \<times> 'k"
  arena_for_chunk :: "'k st \<Rightarrow> ptr \<Rightarrow> ptr"
  heap_for_ptr :: "ptr \<Rightarrow> ptr"
  heap_ar_ptr :: "'k st \<Rightarrow> ptr \<Rightarrow> ptr"
  heap_size :: "'k st \<Rightarrow> ptr \<Rightarrow> u64"
  heap_mprotect_size :: "'k st \<Rightarrow> ptr \<Rightarrow> u64"
  heap_link :: "ptr \<Rightarrow> ptr \<Rightarrow> ptr \<Rightarrow> 'k st \<Rightarrow> 'k st"
  sizeof_heap_info :: u64
  grow_heap :: "ptr \<Rightarrow> u64 \<Rightarrow> 'k st \<Rightarrow> u32 \<times> 'k st"
  new_heap :: "u64 \<Rightarrow> u64 \<Rightarrow> 'k st \<Rightarrow> ptr \<times> 'k st"
  heap_trim :: "ptr \<Rightarrow> u64 \<Rightarrow> 'k st \<Rightarrow> 'k st"

abbreviation (input) MORECORE_FAILURE :: ptr where "MORECORE_FAILURE \<equiv> NULL"
abbreviation (input) MAP_FAILED :: ptr where "MAP_FAILED \<equiv> 0xFFFFFFFFFFFFFFFF"

definition MORECORE :: "'k sys \<Rightarrow> u64 \<Rightarrow> 'k st \<Rightarrow> ptr \<times> 'k st" where
  "MORECORE sy n s =
     (case sys_morecore sy n (mem s, kern s) of (r, m, k) \<Rightarrow> (r, s\<lparr>mem := m, kern := k\<rparr>))"

definition MMAP :: "'k sys \<Rightarrow> u64 \<Rightarrow> u32 \<Rightarrow> 'k st \<Rightarrow> ptr \<times> 'k st" where
  "MMAP sy sz fl s =
     (case sys_mmap sy sz fl (mem s, kern s) of (r, m, k) \<Rightarrow> (r, s\<lparr>mem := m, kern := k\<rparr>))"

definition madvise :: "'k sys \<Rightarrow> ptr \<Rightarrow> u64 \<Rightarrow> advice \<Rightarrow> 'k st \<Rightarrow> 'k st" where
  "madvise sy p sz ad s =
     (case sys_madvise sy p sz ad (mem s, kern s) of (m, k) \<Rightarrow> s\<lparr>mem := m, kern := k\<rparr>)"

text \<open>A write of memory only.\<close>

definition upd_mem :: "(memory \<Rightarrow> memory) \<Rightarrow> 'k st \<Rightarrow> 'k st" where
  "upd_mem f s = s\<lparr>mem := f (mem s)\<rparr>"

section \<open>Bins\<close>

abbreviation (input) NBINS :: u32 where "NBINS \<equiv> 128"
abbreviation (input) NSMALLBINS :: u32 where "NSMALLBINS \<equiv> 64"
abbreviation (input) MIN_LARGE_SIZE :: u64 where "MIN_LARGE_SIZE \<equiv> 1024"

definition bin_at :: "ptr \<Rightarrow> u32 \<Rightarrow> ptr" where
  "bin_at av i = (av + 112 + 8 * ucast ((i - 1) * 2)) - 16"

definition next_bin :: "ptr \<Rightarrow> ptr" where
  "next_bin b = b + 16"

definition unsorted_chunks :: "ptr \<Rightarrow> ptr" where
  "unsorted_chunks av = bin_at av 1"

definition initial_top :: "ptr \<Rightarrow> ptr" where
  "initial_top av = unsorted_chunks av"

definition get_top :: "memory \<Rightarrow> ptr \<Rightarrow> ptr" where
  [field_defs]: "get_top m av = m (av + 96)"

definition set_top :: "memory \<Rightarrow> ptr \<Rightarrow> ptr \<Rightarrow> memory" where
  [field_defs]: "set_top m av p = m(av + 96 := p)"

definition last_remainder :: "memory \<Rightarrow> ptr \<Rightarrow> ptr" where
  [field_defs]: "last_remainder m av = m (av + 104)"

definition set_last_remainder :: "memory \<Rightarrow> ptr \<Rightarrow> ptr \<Rightarrow> memory" where
  [field_defs]: "set_last_remainder m av p = m(av + 104 := p)"

definition in_smallbin_range :: "u64 \<Rightarrow> bool" where
  "in_smallbin_range sz \<longleftrightarrow> sz < MIN_LARGE_SIZE"

definition smallbin_index :: "u64 \<Rightarrow> u32" where
  "smallbin_index sz = drop_bit 4 (ucast sz :: u32)"

definition largebin_index_64 :: "u64 \<Rightarrow> u64" where
  "largebin_index_64 sz =
     (if drop_bit 6 sz \<le> 48 then 48 + drop_bit 6 sz
      else if drop_bit 9 sz \<le> 20 then 91 + drop_bit 9 sz
      else if drop_bit 12 sz \<le> 10 then 110 + drop_bit 12 sz
      else if drop_bit 15 sz \<le> 4 then 119 + drop_bit 15 sz
      else if drop_bit 18 sz \<le> 2 then 124 + drop_bit 18 sz
      else 126)"

definition largebin_index :: "u64 \<Rightarrow> u32" where
  "largebin_index sz = ucast (largebin_index_64 sz)"

definition bin_index :: "u64 \<Rightarrow> u32" where
  "bin_index sz = (if in_smallbin_range sz then smallbin_index sz else largebin_index sz)"

section \<open>The bin map\<close>

abbreviation (input) BINMAPSHIFT :: nat where "BINMAPSHIFT \<equiv> 5"
abbreviation (input) BINMAPSIZE :: u32 where "BINMAPSIZE \<equiv> 4"

definition idx2block :: "u32 \<Rightarrow> u32" where
  "idx2block i = drop_bit BINMAPSHIFT i"

definition idx2bit :: "u32 \<Rightarrow> u32" where
  "idx2bit i = push_bit (unat (i AND 31)) 1"

definition mark_bin :: "ptr \<Rightarrow> u32 \<Rightarrow> 'k st \<Rightarrow> 'k st" where
  "mark_bin av i s =
     s\<lparr>binmap := (binmap s)(av := (binmap s av)(idx2block i :=
        binmap s av (idx2block i) OR idx2bit i))\<rparr>"

definition unmark_bin :: "ptr \<Rightarrow> u32 \<Rightarrow> 'k st \<Rightarrow> 'k st" where
  "unmark_bin av i s =
     s\<lparr>binmap := (binmap s)(av := (binmap s av)(idx2block i :=
        binmap s av (idx2block i) AND NOT (idx2bit i)))\<rparr>"

definition get_binmap :: "'k st \<Rightarrow> ptr \<Rightarrow> u32 \<Rightarrow> u32" where
  "get_binmap s av i = binmap s av (idx2block i) AND idx2bit i"

section \<open>Fast bins\<close>

abbreviation (input) MAX_FAST_SIZE :: u64 where "MAX_FAST_SIZE \<equiv> 160"
abbreviation (input) NFASTBINS :: u32 where "NFASTBINS \<equiv> 10"
abbreviation (input) DEFAULT_MXFAST :: u64 where "DEFAULT_MXFAST \<equiv> 128"
abbreviation (input) FASTBIN_CONSOLIDATION_THRESHOLD :: u64 where
  "FASTBIN_CONSOLIDATION_THRESHOLD \<equiv> 65536"

definition fastbin_index :: "u64 \<Rightarrow> u32" where
  "fastbin_index sz = drop_bit 4 (ucast sz :: u32) - 2"

definition fastbin_addr :: "ptr \<Rightarrow> u32 \<Rightarrow> ptr" where
  "fastbin_addr av idx = av + 16 + 8 * ucast idx"

definition PROTECT_PTR :: "u64 \<Rightarrow> ptr \<Rightarrow> ptr" where
  "PROTECT_PTR pos p = drop_bit 12 pos XOR p"

definition REVEAL_PTR :: "u64 \<Rightarrow> ptr \<Rightarrow> ptr" where
  "REVEAL_PTR pos p = PROTECT_PTR pos p"

definition set_max_fast :: "u64 \<Rightarrow> 'k st \<Rightarrow> 'k st" where
  "set_max_fast v s = s\<lparr>global_max_fast := ucast
     (if v \<le> MALLOC_ALIGN_MASK - SIZE_SZ then MIN_CHUNK_SIZE div 2
      else (v + SIZE_SZ) AND NOT MALLOC_ALIGN_MASK)\<rparr>"

definition get_max_fast :: "'k st \<Rightarrow> abort + u64" where
  "get_max_fast s =
     (if ucast (global_max_fast s) > MAX_FAST_SIZE then Inl (Trap ''unreachable'')
      else Inr (ucast (global_max_fast s)))"

section \<open>Flags and initialisation\<close>

abbreviation (input) NONCONTIGUOUS_BIT :: u32 where "NONCONTIGUOUS_BIT \<equiv> 2"

definition contiguous :: "'k st \<Rightarrow> ptr \<Rightarrow> bool" where
  "contiguous s av \<longleftrightarrow> flags s av AND NONCONTIGUOUS_BIT = 0"

definition set_noncontiguous :: "ptr \<Rightarrow> 'k st \<Rightarrow> 'k st" where
  "set_noncontiguous av s = s\<lparr>flags := (flags s)(av := flags s av OR NONCONTIGUOUS_BIT)\<rparr>"

definition set_contiguous :: "ptr \<Rightarrow> 'k st \<Rightarrow> 'k st" where
  "set_contiguous av s = s\<lparr>flags := (flags s)(av := flags s av AND NOT NONCONTIGUOUS_BIT)\<rparr>"

definition set_have_fastchunks :: "ptr \<Rightarrow> bool \<Rightarrow> 'k st \<Rightarrow> 'k st" where
  "set_have_fastchunks av b s = s\<lparr>have_fastchunks := (have_fastchunks s)(av := b)\<rparr>"

definition add_system_mem :: "ptr \<Rightarrow> u64 \<Rightarrow> 'k st \<Rightarrow> 'k st" where
  "add_system_mem av n s = s\<lparr>system_mem := (system_mem s)(av := system_mem s av + n)\<rparr>"

definition set_errno :: "u32 \<Rightarrow> 'k st \<Rightarrow> 'k st" where
  "set_errno e s = s\<lparr>errno := e\<rparr>"

definition init_bins :: "ptr \<Rightarrow> memory \<Rightarrow> memory" where
  "init_bins av m =
     fold (\<lambda>i m. let bin = bin_at av (of_nat i) in set_fd (set_bk m bin bin) bin bin) [1..<128] m"

definition malloc_init_state :: "'k sys \<Rightarrow> ptr \<Rightarrow> 'k st \<Rightarrow> 'k st" where
  "malloc_init_state sy av s =
     (let s = upd_mem (init_bins av) s;
          s = (if av \<noteq> main_arena sy then set_noncontiguous av s else s);
          s = (if av = main_arena sy then set_max_fast DEFAULT_MXFAST s else s);
          s = set_have_fastchunks av False s
      in upd_mem (\<lambda>m. set_top m av (initial_top av)) s)"

section \<open>Perturbation and huge pages\<close>

definition alloc_perturb :: "ptr \<Rightarrow> u64 \<Rightarrow> 'k st \<Rightarrow> 'k st" where
  "alloc_perturb p n s =
     (if perturb_byte s \<noteq> 0
      then upd_mem (\<lambda>m. memset_at m p (ucast (perturb_byte s XOR 0xff)) n) s else s)"

definition free_perturb :: "ptr \<Rightarrow> u64 \<Rightarrow> 'k st \<Rightarrow> 'k st" where
  "free_perturb p n s =
     (if perturb_byte s \<noteq> 0 then upd_mem (\<lambda>m. memset_at m p (ucast (perturb_byte s)) n) s else s)"

definition madvise_thp :: "'k sys \<Rightarrow> ptr \<Rightarrow> u64 \<Rightarrow> 'k st \<Rightarrow> 'k st" where
  "madvise_thp sy p sz s =
     (if thp_mode (mp s) \<noteq> malloc_thp_mode_madvise then s
      else if thp_pagesize (mp s) = 0 \<or> sz < thp_pagesize (mp s) then s
      else if \<not> PTR_IS_ALIGNED p (dl_pagesize sy)
      then (let q = ALIGN_DOWN p (dl_pagesize sy) in madvise sy q (sz + (p - q)) MADV_HUGEPAGE s)
      else madvise sy p sz MADV_HUGEPAGE s)"

section \<open>The state at program start\<close>

text \<open>The static storage: all zero, except for the initialiser of \<open>mp_\<close>.\<close>

definition static_state :: "'k \<Rightarrow> 'k st" where
  "static_state k = \<lparr>mem = (\<lambda>_. 0), flags = (\<lambda>_. 0), have_fastchunks = (\<lambda>_. False),
     binmap = (\<lambda>_ _. 0), system_mem = (\<lambda>_. 0), max_system_mem = (\<lambda>_. 0), mp = mp_init,
     global_max_fast = 0, perturb_byte = 0, tcache = NULL, num_slots = (\<lambda>_. 0),
     tcache_shutting_down = False, tcache_key = 0, errno = 0, dummy_var = 0, kern = k\<rparr>"

text \<open>
  A system for computing examples: the main arena at 65536, pages of 4096 bytes, no memory to be
  had from the kernel, no other arena and at most 100 steps in a loop.
\<close>

definition bare_sys :: "'k sys" where
  "bare_sys = \<lparr>main_arena = 65536, dl_pagesize = 4096, have_mremap = False, loop_fuel = 100,
     sys_morecore = (\<lambda>_ (m, k). (NULL, m, k)), sys_mmap = (\<lambda>_ _ (m, k). (MAP_FAILED, m, k)),
     sys_munmap = (\<lambda>_ _ mk. mk), sys_mremap = (\<lambda>_ _ _ (m, k). (MAP_FAILED, m, k)),
     sys_madvise = (\<lambda>_ _ _ mk. mk), sys_getrandom = (\<lambda>k. (None, k)),
     sys_random_bits = (\<lambda>k. (0, k)), arena_for_chunk = (\<lambda>_ _. 65536), heap_for_ptr = (\<lambda>p. p),
     heap_ar_ptr = (\<lambda>_ _. NULL), heap_size = (\<lambda>_ _. 0), heap_mprotect_size = (\<lambda>_ _. 0),
     heap_link = (\<lambda>_ _ _ s. s), sizeof_heap_info = 64, grow_heap = (\<lambda>_ _ s. (- 1, s)),
     new_heap = (\<lambda>_ _ s. (NULL, s)), heap_trim = (\<lambda>_ _ s. s)\<rparr>"

end
