(* ===== verification/Bins.thy ===== *)
theory Bins
  imports State
begin

text \<open>
  The doubly linked bins: \<open>unlink_chunk\<close> (lines 1630 to 1666 of
  \<^verbatim>\<open>scalloc/src/scalloc.c\<close>), insertion between two neighbours, and the list abstraction
  \<open>bin_list m b xs\<close>: the circular list with header \<open>b\<close> holds exactly the chunks \<open>xs\<close>, front
  first. The lemmas say which list each pointer operation computes.
\<close>

section \<open>Operations\<close>

definition unlink_chunk :: "memory \<Rightarrow> ptr \<Rightarrow> abort + memory" where
  "unlink_chunk m p =
     (if chunksize m p \<noteq> prev_size m (next_chunk m p)
      then Inl (Printerr ''corrupted size vs. prev_size'')
      else (let fd = get_fd m p; bk = get_bk m p in
        if get_bk m fd \<noteq> p \<or> get_fd m bk \<noteq> p
        then Inl (Printerr ''corrupted double-linked list'')
        else (let m = set_bk m fd bk; m = set_fd m bk fd in
          if \<not> in_smallbin_range (chunksize_nomask m p) \<and> get_fd_nextsize m p \<noteq> NULL
          then
            (if get_bk_nextsize m (get_fd_nextsize m p) \<noteq> p
                \<or> get_fd_nextsize m (get_bk_nextsize m p) \<noteq> p
             then Inl (Printerr ''corrupted double-linked list (not small)'')
             else if get_fd_nextsize m fd = NULL
             then
               (if get_fd_nextsize m p = p
                then Inr (set_fd_nextsize (set_bk_nextsize m fd fd) fd fd)
                else (let m = set_fd_nextsize m fd (get_fd_nextsize m p);
                          m = set_bk_nextsize m fd (get_bk_nextsize m p);
                          m = set_bk_nextsize m (get_fd_nextsize m p) fd
                      in Inr (set_fd_nextsize m (get_bk_nextsize m p) fd)))
             else (let m = set_bk_nextsize m (get_fd_nextsize m p) (get_bk_nextsize m p)
                   in Inr (set_fd_nextsize m (get_bk_nextsize m p) (get_fd_nextsize m p))))
          else Inr m)))"

text \<open>
  The four stores that put \<open>p\<close> between \<open>bck\<close> and \<open>fwd\<close>, in the order used by
  \<open>_int_free_create_chunk\<close> and by the splits of \<open>_int_malloc\<close>.
\<close>

definition link_between :: "memory \<Rightarrow> ptr \<Rightarrow> ptr \<Rightarrow> ptr \<Rightarrow> memory" where
  "link_between m p bck fwd = set_bk (set_fd (set_fd (set_bk m p bck) p fwd) bck p) fwd p"

text \<open>\<open>p->fd_nextsize = p->bk_nextsize = NULL\<close> for a chunk of a large size.\<close>

definition clear_nextsize :: "memory \<Rightarrow> ptr \<Rightarrow> memory" where
  "clear_nextsize m p = set_bk_nextsize (set_fd_nextsize m p NULL) p NULL"

section \<open>Lists\<close>

fun links :: "memory \<Rightarrow> ptr list \<Rightarrow> bool" where
  "links m (x # y # zs) \<longleftrightarrow> get_fd m x = y \<and> get_bk m y = x \<and> links m (y # zs)"
| "links m _ \<longleftrightarrow> True"

definition bin_list :: "memory \<Rightarrow> ptr \<Rightarrow> ptr list \<Rightarrow> bool" where
  "bin_list m b xs \<longleftrightarrow>
     links m (b # xs @ [b]) \<and> distinct (b # xs) \<and> (\<forall>x \<in> set (b # xs). aligned x)"

lemma links_append:
  "links m (xs @ ys) \<longleftrightarrow> links m xs \<and> links m ys \<and>
     (xs \<noteq> [] \<and> ys \<noteq> [] \<longrightarrow> get_fd m (last xs) = hd ys \<and> get_bk m (hd ys) = last xs)"
proof (induction xs)
  case (Cons x xs)
  then show ?case by (cases xs; cases ys) auto
qed simp

lemma links_cong:
  assumes "\<And>x. x \<in> set (butlast xs) \<Longrightarrow> get_fd m' x = get_fd m x"
    and "\<And>x. x \<in> set (tl xs) \<Longrightarrow> get_bk m' x = get_bk m x"
  shows "links m' xs \<longleftrightarrow> links m xs"
  using assms
proof (induction m xs rule: links.induct)
  case (1 m x y zs)
  have "links m' (y # zs) \<longleftrightarrow> links m (y # zs)"
    by (rule "1.IH") (use "1.prems" in \<open>auto split: if_splits dest: list.set_sel(2)\<close>)
  then show ?case using "1.prems"(1) [of x] "1.prems"(2) [of y] by simp
qed simp_all

lemma bin_list_empty_iff: "bin_list m b [] \<longleftrightarrow> get_fd m b = b \<and> get_bk m b = b \<and> aligned b"
  by (auto simp: bin_list_def)

lemma bin_list_first: "bin_list m b (x # xs) \<Longrightarrow> get_fd m b = x \<and> get_bk m x = b"
  by (simp add: bin_list_def)

lemma bin_list_last: "bin_list m b (xs @ [x]) \<Longrightarrow> get_bk m b = x \<and> get_fd m x = b"
  by (simp add: bin_list_def links_append [of _ "b # xs @ [x]" "[b]", simplified])

lemma bin_list_aligned:
  assumes "bin_list m b xs"
  shows "aligned b" "x \<in> set xs \<Longrightarrow> aligned x"
  using assms by (auto simp: bin_list_def)

lemma bin_list_is_empty: "bin_list m b xs \<Longrightarrow> get_bk m b = b \<longleftrightarrow> xs = []"
proof (cases xs rule: rev_cases)
  case (snoc ys y)
  moreover assume "bin_list m b xs"
  ultimately show ?thesis using bin_list_last [of m b ys y] by (auto simp: bin_list_def)
qed (simp add: bin_list_empty_iff)

text \<open>The neighbours of an element, with the header at both ends.\<close>

lemma bin_list_neighbours:
  assumes "bin_list m b (xs @ p # ys)"
  shows "get_fd m p = hd (ys @ [b])" "get_bk m p = last (b # xs)"
    "get_bk m (hd (ys @ [b])) = p" "get_fd m (last (b # xs)) = p"
proof -
  have "links m ((b # xs) @ p # (ys @ [b]))" using assms by (simp add: bin_list_def)
  then have "links m (p # (ys @ [b]))" "get_fd m (last (b # xs)) = p" "get_bk m p = last (b # xs)"
    unfolding links_append by auto
  then show "get_fd m p = hd (ys @ [b])" "get_bk m p = last (b # xs)"
    "get_bk m (hd (ys @ [b])) = p" "get_fd m (last (b # xs)) = p"
    by (cases ys; simp)+
qed

text \<open>
  A store to the \<open>fd\<close> of the last cell of the front half and to the \<open>bk\<close> of the first cell of
  the back half leaves the links inside both halves alone.
\<close>

lemma last_notin_butlast: "distinct xs \<Longrightarrow> xs \<noteq> [] \<Longrightarrow> last xs \<notin> set (butlast xs)"
  by (induction xs) auto

lemma links_halves:
  assumes di: "distinct (b # xs @ ys)"
    and fd: "\<And>q. q \<in> set (b # xs @ ys) \<Longrightarrow> q \<noteq> last (b # xs) \<Longrightarrow> get_fd m' q = get_fd m q"
    and bk: "\<And>q. q \<in> set (b # xs @ ys) \<Longrightarrow> q \<noteq> hd (ys @ [b]) \<Longrightarrow> get_bk m' q = get_bk m q"
  shows "links m' (b # xs) = links m (b # xs)" "links m' (ys @ [b]) = links m (ys @ [b])"
proof -
  have l: "last (b # xs) \<notin> set (butlast (b # xs))"
    using di by (intro last_notin_butlast) auto
  have lys: "last (b # xs) \<notin> set ys"
    using di last_in_set [of "b # xs"] by (metis distinct_append append_Cons disjoint_iff list.distinct(1))
  have h: "hd (ys @ [b]) \<notin> set xs" "hd (ys @ [b]) \<notin> set (tl (ys @ [b]))"
    using di by (cases ys; auto)+
  show "links m' (b # xs) = links m (b # xs)"
  proof (rule links_cong)
    fix x assume "x \<in> set (butlast (b # xs))"
    then have "x \<in> set (b # xs)" "x \<noteq> last (b # xs)" using l by (blast dest: in_set_butlastD)+
    then show "get_fd m' x = get_fd m x" by (intro fd) auto
  next
    fix x assume "x \<in> set (tl (b # xs))"
    then show "get_bk m' x = get_bk m x" using h(1) by (intro bk) auto
  qed
  show "links m' (ys @ [b]) = links m (ys @ [b])"
  proof (rule links_cong)
    fix x assume "x \<in> set (butlast (ys @ [b]))"
    then show "get_fd m' x = get_fd m x" using lys by (intro fd) auto
  next
    fix x assume x: "x \<in> set (tl (ys @ [b]))"
    then have "x \<in> set (b # xs @ ys)" by (cases ys) auto
    then show "get_bk m' x = get_bk m x" using h(2) x by (intro bk) auto
  qed
qed

lemma bin_list_split:
  assumes "bin_list m b (xs @ ys)"
  shows "links m (b # xs)" "links m (ys @ [b])" "distinct (b # xs @ ys)"
    "\<forall>x \<in> set (b # xs @ ys). aligned x"
  using assms links_append [of m "b # xs" "ys @ [b]"] by (auto simp: bin_list_def)

section \<open>Linking and unlinking compute list insertion and removal\<close>

lemma get_set_bk_fd [simp]:
  assumes "aligned p" "aligned q"
  shows "get_fd (set_bk m p v) q = get_fd m q" "get_bk (set_fd m p v) q = get_bk m q"
    "get_fd (set_fd m p v) q = (if q = p then v else get_fd m q)"
    "get_bk (set_bk m p v) q = (if q = p then v else get_bk m q)"
  using assms by (auto simp: field_defs)

lemma bin_list_remove:
  assumes "bin_list m b (xs @ p # ys)"
  shows "bin_list (set_fd (set_bk m (get_fd m p) (get_bk m p)) (get_bk m p) (get_fd m p)) b (xs @ ys)"
proof -
  note nb = bin_list_neighbours [OF assms]
  define x y where "x = get_bk m p" and "y = get_fd m p"
  have xy: "last (b # xs) = x" "hd (ys @ [b]) = y" by (simp_all only: nb x_def y_def)
  let ?m = "set_fd (set_bk m y x) x y"
  have l: "links m (b # xs)" "links m (ys @ [b])"
    using assms links_append [of m "b # xs" "p # ys @ [b]"] links_append [of m "[p]" "ys @ [b]"]
    by (auto simp: bin_list_def)
  have al: "\<forall>q \<in> set (b # xs @ ys). aligned q" and di: "distinct (b # xs @ ys)"
    using assms by (auto simp: bin_list_def)
  have "x \<in> set (b # xs)" "y \<in> set (b # ys)"
    unfolding xy [symmetric] using last_in_set [of "b # xs"] by (auto simp: hd_append)
  then have al_xy: "aligned x" "aligned y" using al by auto
  have "links ?m (b # xs)" "links ?m (ys @ [b])"
    using l links_halves [OF di, of ?m m] al al_xy unfolding xy by auto
  moreover have "get_fd ?m x = y" "get_bk ?m y = x" using al_xy by auto
  ultimately have "links ?m ((b # xs) @ (ys @ [b]))"
    unfolding links_append xy by simp
  then show ?thesis using di al by (simp add: bin_list_def x_def y_def)
qed

lemma bin_list_insert:
  assumes "bin_list m b (xs @ ys)" "p \<notin> set (b # xs @ ys)" "aligned p"
    and ends: "last (b # xs) = bck" "hd (ys @ [b]) = fwd"
  shows "bin_list (link_between m p bck fwd) b (xs @ p # ys)"
proof -
  let ?m = "link_between m p bck fwd"
  note sp = bin_list_split [OF assms(1)]
  have in_set: "bck \<in> set (b # xs)" "fwd \<in> set (b # ys)"
    unfolding ends [symmetric] using last_in_set [of "b # xs"] by (auto simp: hd_append)
  then have alb: "aligned bck" "aligned fwd" and ne: "p \<noteq> bck" "p \<noteq> fwd"
    using sp(4) assms(2) by auto
  have val: "get_fd ?m q = (if q = bck then p else if q = p then fwd else get_fd m q)"
    "get_bk ?m q = (if q = fwd then p else if q = p then bck else get_bk m q)" if "aligned q" for q
    using that alb assms(3) ne by (auto simp: link_between_def)
  have same: "get_fd ?m q = get_fd m q" if "q \<in> set (b # xs @ ys)" "q \<noteq> last (b # xs)" for q
    using that sp(4) assms(2) unfolding ends by (auto simp: val)
  have same': "get_bk ?m q = get_bk m q" if "q \<in> set (b # xs @ ys)" "q \<noteq> hd (ys @ [b])" for q
    using that sp(4) assms(2) unfolding ends by (auto simp: val)
  have "links ?m (b # xs)" "links ?m (ys @ [b])"
    using sp(1,2) links_halves [OF sp(3) same same'] by simp_all
  then have "links ?m ((b # xs) @ [p] @ (ys @ [b]))"
    unfolding links_append using ends alb ne assms(3) by (auto simp: val)
  then show ?thesis
    using assms(2,3) sp(3,4) by (auto simp: bin_list_def)
qed

section \<open>Properties of unlinking\<close>

lemma unlink_small:
  assumes "in_smallbin_range (chunksize_nomask m p)" "1024 \<le> p"
    and "chunksize m p = prev_size m (next_chunk m p)"
    and "get_bk m (get_fd m p) = p" "get_fd m (get_bk m p) = p"
  shows "unlink_chunk m p
    = Inr (set_fd (set_bk m (get_fd m p) (get_bk m p)) (get_bk m p) (get_fd m p))"
proof -
  let ?m = "set_fd (set_bk m (get_fd m p) (get_bk m p)) (get_bk m p) (get_fd m p)"
  have ne: "m (p + 8) \<noteq> p" using assms(1,2) by (auto simp: in_smallbin_range_def chunksize_nomask_def)
  have "m (get_fd m p + 24) = p" "m (get_bk m p + 16) = p"
    using assms(4,5) unfolding get_bk_def [of m "get_fd m p"] get_fd_def [of m "get_bk m p"] by simp_all
  then have "p + 8 \<noteq> get_fd m p + 24" "p + 8 \<noteq> get_bk m p + 16" using ne by metis+
  then have "chunksize_nomask ?m p = chunksize_nomask m p"
    by (simp add: chunksize_nomask_def set_fd_def set_bk_def)
  then show ?thesis
    using assms by (simp add: unlink_chunk_def Let_def)
qed

lemma unlink_back: "unlink_chunk m p = Inr m' \<Longrightarrow> get_bk m (get_fd m p) = p"
  by (auto simp: unlink_chunk_def Let_def split: if_splits)

lemma unlink_checks:
  assumes "unlink_chunk m p = Inr m'"
  shows "chunksize m p = prev_size m (next_chunk m p)" "get_bk m (get_fd m p) = p"
    "get_fd m (get_bk m p) = p"
  using assms by (auto simp: unlink_chunk_def Let_def split: if_splits)

text \<open>
  C16: \<open>unlink_chunk\<close> of a chunk \<open>p\<close> of a small size (below 1024 bytes; large ones are treated
  with the skip list, in the theory of the large bins) refines the removal of a list element: on a well-formed circular bin that
  holds \<open>p\<close>, with a footer that matches its size, it succeeds, the bin then holds the same
  chunks in the same order without \<open>p\<close>, and only the two link words of the neighbours change.
\<close>
theorem unlink_removes_chunk:
  assumes "bin_list m b (xs @ p # ys)" "in_smallbin_range (chunksize_nomask m p)"
    and "prev_size m (next_chunk m p) = chunksize m p" "1024 \<le> p"
  shows "\<exists>m'. unlink_chunk m p = Inr m' \<and> bin_list m' b (xs @ ys) \<and>
    (\<forall>a. m' a \<noteq> m a \<longrightarrow> a = get_fd m p + 24 \<or> a = get_bk m p + 16)"
proof -
  note nb = bin_list_neighbours [OF assms(1)]
  have "get_bk m (get_fd m p) = p" "get_fd m (get_bk m p) = p" using nb by (simp_all only:)
  then have "unlink_chunk m p
    = Inr (set_fd (set_bk m (get_fd m p) (get_bk m p)) (get_bk m p) (get_fd m p))"
    using assms(2-4) by (intro unlink_small) simp_all
  then show ?thesis
    using bin_list_remove [OF assms(1)] by (auto simp: set_fd_def set_bk_def)
qed

text \<open>A bin with header 4096 that holds the 32-byte chunk at 8192.\<close>

definition example_bin :: memory where
  "example_bin = (\<lambda>_. 0)(4112 := 8192, 4120 := 8192, 8200 := 33, 8208 := 4096, 8216 := 4096, 8224 := 32)"

lemma unlink_removes_chunk_witness:
  "\<exists>m'. unlink_chunk example_bin 8192 = Inr m' \<and> bin_list m' 4096 []"
proof -
  have "bin_list example_bin 4096 ([] @ 8192 # [])"
    by (simp add: bin_list_def example_bin_def get_fd_def get_bk_def aligned_def)
  moreover have "in_smallbin_range (chunksize_nomask example_bin 8192)"
    "prev_size example_bin (next_chunk example_bin 8192) = chunksize example_bin 8192"
    by (simp_all add: example_bin_def in_smallbin_range_def chunksize_nomask_def prev_size_def
        next_chunk_def chunksize_def)
  ultimately show ?thesis using unlink_removes_chunk [of example_bin 4096 "[]" 8192 "[]"]
    by (auto simp: word_le_nat_alt)
qed

text \<open>
  The stores to the skip list, \<open>m1\<close> being the memory with \<open>p\<close> taken out of the list: each goes to a word
  that held \<open>p\<close>, or to one of the two links of \<open>fd\<close>, which is to take the place of \<open>p\<close>.
\<close>

lemma unlink_nextsize_stores:
  assumes u: "unlink_chunk m p = Inr m'" and fd: "get_fd m p \<noteq> p + 8"
    and m1: "m1 = set_fd (set_bk m (get_fd m p) (get_bk m p)) (get_bk m p) (get_fd m p)"
    and a: "m' a \<noteq> m1 a"
  shows "\<not> in_smallbin_range (chunksize_nomask m1 p)"
    "m1 a = p \<or> a = get_fd m p + 32 \<or> a = get_fd m p + 40"
proof -
  let ?fd = "get_fd m p" and ?F = "m1 (p + 32)" and ?B = "m1 (p + 40)"
  note ns = get_fd_nextsize_def get_bk_nextsize_def set_fd_nextsize_def set_bk_nextsize_def
  show "\<not> in_smallbin_range (chunksize_nomask m1 p)"
    using u a unfolding m1 unlink_chunk_def Let_def by (auto split: if_splits)
  have chk: "m1 (?F + 40) = p" "m1 (?B + 32) = p"
    and m': "m' = (if m1 (?fd + 32) = NULL
      then if ?F = p then m1(?fd + 40 := ?fd, ?fd + 32 := ?fd)
        else (let m = m1(?fd + 32 := ?F); m = m(?fd + 40 := m (p + 40)); m = m(m (p + 32) + 40 := ?fd)
              in m(m (p + 40) + 32 := ?fd))
      else (let m = m1(?F + 40 := ?B) in m(m (p + 40) + 32 := m (p + 32))))"
    using u a unfolding m1 [symmetric] unlink_chunk_def Let_def ns by (auto split: if_splits)
  have "?fd \<noteq> p - 8" using unlink_back [OF u] by (auto simp: get_bk_def get_fd_def add.commute [of 16])
  then have ne: "p + 32 \<noteq> ?fd + 40" "p + 40 \<noteq> ?fd + 32" using fd by (auto simp: algebra_simps)
  show "m1 a = p \<or> a = ?fd + 32 \<or> a = ?fd + 40"
  proof (cases "m1 (?fd + 32) = NULL \<and> ?F \<noteq> p")
    case True
    then have "p + 40 \<noteq> ?F + 40" by (metis add_right_cancel)
    then show ?thesis using m' a True chk ne by (auto simp: Let_def split: if_splits)
  next
    case False
    have "p + 32 \<noteq> ?F + 40"
    proof
      assume e: "p + 32 = ?F + 40"
      have "?F = p" using chk(1) unfolding e [symmetric] .
      then show False using e by simp
    qed
    then show ?thesis using m' a False chk by (auto simp: Let_def split: if_splits)
  qed
qed

text \<open>
  C17: the safe-unlinking guarantee, for a memory that an attacker may have overwritten at will:
  if \<open>unlink_chunk\<close> does not abort on a chunk \<open>p\<close> (an address of at least 1024, as every
  chunk has), then its footer agrees with its size, both neighbours pointed back to \<open>p\<close>, and
  every word the operation changed held the address of \<open>p\<close> before. So forged links of a small chunk cannot be
  used to overwrite a word that does not hold \<open>p\<close>. For a large chunk there is one exception, the
  two \<open>nextsize\<close> words of its successor \<open>fd\<close> in the list, and a hypothesis: \<open>fd\<close> is not \<open>p + 8\<close>,
  as it cannot be when links are aligned.
\<close>
theorem unlink_writes_only_back_pointers:
  assumes "unlink_chunk m p = Inr m'" "1024 \<le> p"
    and "\<not> in_smallbin_range (chunksize_nomask m p) \<longrightarrow> get_fd m p \<noteq> p + 8"
  shows "chunksize m p = prev_size m (next_chunk m p) \<and>
    get_bk m (get_fd m p) = p \<and> get_fd m (get_bk m p) = p \<and>
    (\<forall>a. m' a \<noteq> m a \<longrightarrow> m a = p \<or>
      \<not> in_smallbin_range (chunksize_nomask m p) \<and> (a = get_fd m p + 32 \<or> a = get_fd m p + 40))"
proof -
  note ok = unlink_checks [OF assms(1)]
  let ?m1 = "set_fd (set_bk m (get_fd m p) (get_bk m p)) (get_bk m p) (get_fd m p)"
  have first: "m a = p" if "?m1 a \<noteq> m a" for a
  proof -
    have "a = get_fd m p + 24 \<or> a = get_bk m p + 16"
      using that by (auto simp: set_fd_def set_bk_def split: if_splits)
    then show ?thesis using ok(2,3) by (auto simp: get_bk_def [of _ "get_fd _ _"] get_fd_def [of _ "get_bk _ _"])
  qed
  have "m a = p \<or> \<not> in_smallbin_range (chunksize_nomask m p) \<and> (a = get_fd m p + 32 \<or> a = get_fd m p + 40)"
    if a: "m' a \<noteq> m a" for a
  proof (cases "in_smallbin_range (chunksize_nomask m p)")
    case True
    then have "m' = ?m1" using unlink_small [OF True assms(2) ok] assms(1) by simp
    then show ?thesis using a first by blast
  next
    case False
    then have "get_fd m p \<noteq> p + 8" using assms(3) by blast
    then show ?thesis
      using unlink_nextsize_stores(2) [OF assms(1) _ refl, of a] first [of a] a False by metis
  qed
  then show ?thesis using ok by blast
qed

lemma unlink_writes_only_back_pointers_witness:
  "\<exists>m'. unlink_chunk example_bin 8192 = Inr m' \<and> (\<forall>a. m' a \<noteq> example_bin a \<longrightarrow> example_bin a = 8192)"
proof -
  have i: "in_smallbin_range (chunksize_nomask example_bin 8192)"
    by (simp add: example_bin_def in_smallbin_range_def chunksize_nomask_def)
  obtain m' where "unlink_chunk example_bin 8192 = Inr m'"
    by (simp add: unlink_chunk_def example_bin_def field_defs chunksize_def next_chunk_def
        in_smallbin_range_def)
  then show ?thesis using unlink_writes_only_back_pointers [of example_bin 8192 m'] i
    by (auto simp: word_le_nat_alt)
qed

end
