(* ===== verification/Free.thy ===== *)
theory Free
  imports Bins
begin

text \<open>
  Giving memory back: \<open>systrim\<close>, \<open>munmap_chunk\<close>, \<open>mremap_chunk\<close> (lines 2901 to 3047 of
  \<^verbatim>\<open>scalloc/src/scalloc.c\<close>) and the functions behind \<open>free\<close>: \<open>_int_free_chunk\<close>,
  \<open>_int_free_merge_chunk\<close>, \<open>_int_free_create_chunk\<close>, \<open>_int_free_maybe_consolidate\<close> and
  \<open>malloc_consolidate\<close> (lines 4505 to 4911).
\<close>

section \<open>Trimming top\<close>

definition systrim :: "'k sys \<Rightarrow> u64 \<Rightarrow> ptr \<Rightarrow> 'k st \<Rightarrow> u32 \<times> 'k st" where
  "systrim sy pad av s =
     (let top_size = chunksize (mem s) (get_top (mem s) av);
          top_area = top_size - MINSIZE - 1 in
      if top_area \<le> pad then (0, s)
      else
        (let extra = (if thp_pagesize (mp s) \<noteq> 0
                      then ALIGN_DOWN (top_area - pad) (thp_pagesize (mp s))
                      else ALIGN_DOWN (top_area - pad) (dl_pagesize sy)) in
         if extra = 0 then (0, s)
         else
           (case MORECORE sy 0 s of (current_brk, s) \<Rightarrow>
              if current_brk = get_top (mem s) av + top_size
              then
                (case MORECORE sy (- extra) s of (_, s) \<Rightarrow>
                 case MORECORE sy 0 s of (new_brk, s) \<Rightarrow>
                   if new_brk \<noteq> MORECORE_FAILURE
                   then
                     (let released = current_brk - new_brk in
                      if released \<noteq> 0
                      then
                        (let s = add_system_mem av (- released) s;
                             s = upd_mem (\<lambda>m. set_head m (get_top m av)
                                   ((top_size - released) OR PREV_INUSE)) s
                         in (1, s))
                      else (0, s))
                   else (0, s))
              else (0, s))))"

section \<open>Mmapped chunks\<close>

definition mmap_layout_bad :: "'k sys \<Rightarrow> u64 \<Rightarrow> u64 \<Rightarrow> u64 \<Rightarrow> u64 \<Rightarrow> bool" where
  "mmap_layout_bad sy pagesize mp_mem block total_size \<longleftrightarrow>
     (block OR total_size) AND (pagesize - 1) \<noteq> 0 \<or> \<not> powerof2 (mp_mem AND (pagesize - 1))"

definition munmap_chunk :: "'k sys \<Rightarrow> ptr \<Rightarrow> 'k st \<Rightarrow> abort + 'k st" where
  "munmap_chunk sy p s =
     bindE (assertE ''chunk_is_mmapped (p)'' (chunk_is_mmapped (mem s) p)) (\<lambda>_.
       let block = mmap_base (mem s) p; total_size = mmap_size (mem s) p in
       if mmap_layout_bad sy (dl_pagesize sy) (chunk2mem p) block total_size
       then Inl (Printerr ''munmap_chunk(): invalid pointer'')
       else
         (let s = s\<lparr>mp := (mp s)\<lparr>n_mmaps := n_mmaps (mp s) - 1,
                                  mmapped_mem := mmapped_mem (mp s) - total_size\<rparr>\<rparr> in
          case sys_munmap sy block total_size (mem s, kern s) of
            (m, k) \<Rightarrow> Inr (s\<lparr>mem := m, kern := k\<rparr>)))"

definition mremap_chunk :: "'k sys \<Rightarrow> ptr \<Rightarrow> u64 \<Rightarrow> 'k st \<Rightarrow> abort + ptr \<times> 'k st" where
  "mremap_chunk sy p new_size s =
     (let pagesize = (if mmap_is_hp (mem s) p then hp_pagesize (mp s) else dl_pagesize sy);
          offset = prev_size_mmap (mem s) p;
          sz = chunksize (mem s) p in
      bindE (assertE ''chunk_is_mmapped (p)'' (chunk_is_mmapped (mem s) p)) (\<lambda>_.
        let block = mmap_base (mem s) p; total_size = mmap_size (mem s) p in
        if mmap_layout_bad sy pagesize (chunk2mem p) block total_size
        then Inl (Printerr ''mremap_chunk(): invalid pointer'')
        else
          (let new_size = ALIGN_UP (new_size + offset + CHUNK_HDR_SZ) pagesize in
           if total_size = new_size then Inr (p, s)
           else
             (case sys_mremap sy block total_size new_size (mem s, kern s) of (cp, m, k) \<Rightarrow>
                let s = s\<lparr>mem := m, kern := k\<rparr> in
                if cp = MAP_FAILED then Inr (NULL, s)
                else
                  (let s = madvise_thp sy cp new_size s; p = cp + offset in
                   bindE (assertE ''!misaligned_chunk (p)'' (\<not> misaligned_chunk p)) (\<lambda>_.
                   bindE (assertE ''prev_size_mmap (p) == offset''
                            (prev_size_mmap (mem s) p = offset)) (\<lambda>_.
                   let s = upd_mem (\<lambda>m. set_head m p ((new_size - offset - CHUNK_HDR_SZ) OR IS_MMAPPED)) s;
                       new = mmapped_mem (mp s) + (new_size - sz - offset);
                       s = s\<lparr>mp := (mp s)\<lparr>mmapped_mem := new,
                              max_mmapped_mem := max (max_mmapped_mem (mp s)) new\<rparr>\<rparr>
                   in Inr (p, s))))))))"

section \<open>Consolidating fast bins\<close>

text \<open>One chunk of a fast bin; the result is the next chunk of the bin.\<close>

definition consolidate_chunk :: "ptr \<Rightarrow> ptr \<Rightarrow> ptr \<Rightarrow> 'k st \<Rightarrow> abort + ptr \<times> 'k st" where
  "consolidate_chunk av fb p s =
     (if misaligned_chunk p
      then Inl (Printerr ''malloc_consolidate(): unaligned fastbin chunk detected'')
      else if fastbin_addr av (fastbin_index (chunksize (mem s) p)) \<noteq> fb
      then Inl (Printerr ''malloc_consolidate(): invalid chunk size'')
      else
        (let nextp = REVEAL_PTR (p + 16) (get_fd (mem s) p);
             sz = chunksize (mem s) p;
             nextchunk = chunk_at_offset p sz;
             nextsize = chunksize (mem s) nextchunk in
         bindE
           (if \<not> prev_inuse (mem s) p
            then
              (let prevsize = prev_size (mem s) p;
                   sz = sz + prevsize;
                   p = chunk_at_offset p (- prevsize) in
               if chunksize (mem s) p \<noteq> prevsize
               then Inl (Printerr ''corrupted size vs. prev_size in fastbins'')
               else bindE (unlink_chunk (mem s) p) (\<lambda>m. Inr (p, sz, m)))
            else Inr (p, sz, mem s))
         (\<lambda>(p, sz, m).
           if nextchunk \<noteq> get_top m av
           then
             bindE
               (if \<not> inuse_bit_at_offset m nextchunk nextsize
                then bindE (unlink_chunk m nextchunk) (\<lambda>m. Inr (sz + nextsize, m))
                else Inr (sz, clear_inuse_bit_at_offset m nextchunk 0))
             (\<lambda>(sz, m).
               let unsorted_bin = unsorted_chunks av;
                   first_unsorted = get_fd m unsorted_bin;
                   m = set_fd m unsorted_bin p;
                   m = set_bk m first_unsorted p;
                   m = (if \<not> in_smallbin_range sz then clear_nextsize m p else m);
                   m = set_head m p (sz OR PREV_INUSE);
                   m = set_bk m p unsorted_bin;
                   m = set_fd m p first_unsorted;
                   m = set_foot m p sz
               in Inr (nextp, s\<lparr>mem := m\<rparr>))
           else
             (let sz = sz + nextsize;
                  m = set_head m p (sz OR PREV_INUSE);
                  m = set_top m av p
              in Inr (nextp, s\<lparr>mem := m\<rparr>)))))"

fun consolidate_chain :: "nat \<Rightarrow> ptr \<Rightarrow> ptr \<Rightarrow> ptr \<Rightarrow> 'k st \<Rightarrow> abort + 'k st" where
  "consolidate_chain 0 av fb p s = Inl Out_of_fuel"
| "consolidate_chain (Suc n) av fb p s =
     bindE (consolidate_chunk av fb p s) (\<lambda>(nextp, s).
       if nextp \<noteq> NULL then consolidate_chain n av fb nextp s else Inr s)"

fun consolidate_bins :: "'k sys \<Rightarrow> ptr \<Rightarrow> u32 list \<Rightarrow> 'k st \<Rightarrow> abort + 'k st" where
  "consolidate_bins sy av [] s = Inr s"
| "consolidate_bins sy av (i # is) s =
     (let fb = fastbin_addr av i;
          p = mem s fb;
          s = upd_mem (\<lambda>m. m(fb := NULL)) s in
      bindE (if p \<noteq> NULL then consolidate_chain (loop_fuel sy) av fb p s else Inr s)
        (\<lambda>s. consolidate_bins sy av is s))"

definition fastbin_indices :: "u32 list" where
  "fastbin_indices = [0, 1, 2, 3, 4, 5, 6, 7, 8, 9]"

definition malloc_consolidate :: "'k sys \<Rightarrow> ptr \<Rightarrow> 'k st \<Rightarrow> abort + 'k st" where
  "malloc_consolidate sy av s =
     consolidate_bins sy av fastbin_indices (set_have_fastchunks av False s)"

section \<open>Freeing\<close>

definition int_free_maybe_consolidate :: "'k sys \<Rightarrow> ptr \<Rightarrow> u64 \<Rightarrow> 'k st \<Rightarrow> abort + 'k st" where
  "int_free_maybe_consolidate sy av sz s =
     (if sz \<ge> FASTBIN_CONSOLIDATION_THRESHOLD
      then bindE (if have_fastchunks s av then malloc_consolidate sy av s else Inr s) (\<lambda>s.
        if av = main_arena sy
        then Inr (if chunksize (mem s) (get_top (mem s) av) \<ge> trim_threshold (mp s)
                  then snd (systrim sy (top_pad (mp s)) av s) else s)
        else (let heap = heap_for_ptr sy (get_top (mem s) av) in
              bindE (assertE ''heap->ar_ptr == av'' (heap_ar_ptr sy s heap = av)) (\<lambda>_.
                Inr (heap_trim sy heap (top_pad (mp s)) s))))
      else Inr s)"

definition int_free_create_chunk ::
  "ptr \<Rightarrow> ptr \<Rightarrow> u64 \<Rightarrow> ptr \<Rightarrow> u64 \<Rightarrow> 'k st \<Rightarrow> abort + u64 \<times> 'k st" where
  "int_free_create_chunk av p sz nextchunk nextsize s =
     (if nextchunk \<noteq> get_top (mem s) av
      then
        bindE
          (if \<not> inuse_bit_at_offset (mem s) nextchunk nextsize
           then bindE (unlink_chunk (mem s) nextchunk) (\<lambda>m. Inr (sz + nextsize, s\<lparr>mem := m\<rparr>))
           else Inr (sz, upd_mem (\<lambda>m. clear_inuse_bit_at_offset m nextchunk 0) s))
        (\<lambda>(sz, s).
          bindE
            (if \<not> in_smallbin_range sz
             then (let bck = unsorted_chunks av; fwd = get_fd (mem s) bck in
                   if get_bk (mem s) fwd \<noteq> bck
                   then Inl (Printerr ''free(): corrupted unsorted chunks'')
                   else Inr (bck, fwd, upd_mem (\<lambda>m. clear_nextsize m p) s))
             else (let chunk_index = smallbin_index sz; bck = bin_at av chunk_index;
                       fwd = get_fd (mem s) bck in
                   if get_bk (mem s) fwd \<noteq> bck
                   then Inl (Printerr ''free(): chunks in smallbin corrupted'')
                   else Inr (bck, fwd, mark_bin av chunk_index s)))
          (\<lambda>(bck, fwd, s).
            let s = upd_mem (\<lambda>m. link_between m p bck fwd) s;
                s = upd_mem (\<lambda>m. set_head m p (sz OR PREV_INUSE)) s;
                s = upd_mem (\<lambda>m. set_foot m p sz) s
            in Inr (sz, s)))
      else
        (let sz = sz + nextsize;
             s = upd_mem (\<lambda>m. set_head m p (sz OR PREV_INUSE)) s;
             s = upd_mem (\<lambda>m. set_top m av p) s
         in Inr (sz, s)))"

definition int_free_merge_chunk :: "'k sys \<Rightarrow> ptr \<Rightarrow> ptr \<Rightarrow> u64 \<Rightarrow> 'k st \<Rightarrow> abort + 'k st" where
  "int_free_merge_chunk sy av p sz s =
     (let nextchunk = chunk_at_offset p sz; top = get_top (mem s) av in
      if p = top then Inl (Printerr ''double free or corruption (top)'')
      else if contiguous s av \<and> nextchunk \<ge> top + chunksize (mem s) top
      then Inl (Printerr ''double free or corruption (out)'')
      else if \<not> prev_inuse (mem s) nextchunk
      then Inl (Printerr ''double free or corruption (!prev)'')
      else
        (let nextsize = chunksize (mem s) nextchunk in
         if chunksize_nomask (mem s) nextchunk \<le> CHUNK_HDR_SZ \<or> nextsize \<ge> system_mem s av
         then Inl (Printerr ''free(): invalid next size (normal)'')
         else
           (let s = free_perturb (chunk2mem p) (sz - CHUNK_HDR_SZ) s in
            bindE
              (if \<not> prev_inuse (mem s) p
               then
                 (let prevsize = prev_size (mem s) p;
                      sz = sz + prevsize;
                      p = chunk_at_offset p (- prevsize) in
                  if chunksize (mem s) p \<noteq> prevsize
                  then Inl (Printerr ''corrupted size vs. prev_size while consolidating'')
                  else bindE (unlink_chunk (mem s) p) (\<lambda>m. Inr (p, sz, s\<lparr>mem := m\<rparr>)))
               else Inr (p, sz, s))
            (\<lambda>(p, sz, s).
              bindE (int_free_create_chunk av p sz nextchunk nextsize s) (\<lambda>(sz, s).
                int_free_maybe_consolidate sy av sz s)))))"

definition fast_next_bad :: "'k st \<Rightarrow> ptr \<Rightarrow> ptr \<Rightarrow> u64 \<Rightarrow> bool" where
  "fast_next_bad s av p sz \<longleftrightarrow>
     chunksize_nomask (mem s) (chunk_at_offset p sz) \<le> CHUNK_HDR_SZ \<or>
     chunksize (mem s) (chunk_at_offset p sz) \<ge> system_mem s av"

definition int_free_fastbin :: "ptr \<Rightarrow> ptr \<Rightarrow> u64 \<Rightarrow> bool \<Rightarrow> 'k st \<Rightarrow> abort + 'k st" where
  "int_free_fastbin av p sz have_lock s =
     (if fast_next_bad s av p sz then Inl (Printerr ''free(): invalid next size (fast)'')
      else
        (let s = free_perturb (chunk2mem p) (sz - CHUNK_HDR_SZ) s;
             s = set_have_fastchunks av True s;
             idx = fastbin_index sz;
             fb = fastbin_addr av idx;
             old = mem s fb in
         if old = p then Inl (Printerr ''double free or corruption (fasttop)'')
         else
           (let s = upd_mem (\<lambda>m. set_fd m p (PROTECT_PTR (p + 16) old)) s;
                s = upd_mem (\<lambda>m. m(fb := p)) s in
            if have_lock \<and> old \<noteq> NULL \<and> fastbin_index (chunksize (mem s) old) \<noteq> idx
            then Inl (Printerr ''invalid fastbin entry (free)'')
            else Inr s)))"

definition int_free_chunk :: "'k sys \<Rightarrow> ptr \<Rightarrow> ptr \<Rightarrow> u64 \<Rightarrow> bool \<Rightarrow> 'k st \<Rightarrow> abort + 'k st" where
  "int_free_chunk sy av p sz have_lock s =
     bindE (get_max_fast s) (\<lambda>max_fast.
       if sz \<le> max_fast then int_free_fastbin av p sz have_lock s
       else if \<not> chunk_is_mmapped (mem s) p
       then (let err = errno s in
             bindE (int_free_merge_chunk sy av p sz s) (\<lambda>s. Inr (set_errno err s)))
       else
         (let err = errno s;
              sz_nomask = chunksize_nomask (mem s) p;
              s = (if no_dyn_threshold (mp s) = 0 \<and> sz_nomask > mmap_threshold (mp s)
                      \<and> sz_nomask \<le> DEFAULT_MMAP_THRESHOLD_MAX
                   then s\<lparr>mp := (mp s)\<lparr>mmap_threshold := chunksize (mem s) p,
                                       trim_threshold := 2 * chunksize (mem s) p\<rparr>\<rparr>
                   else s) in
          bindE (munmap_chunk sy p s) (\<lambda>s. Inr (set_errno err s))))"

end
