(* ===== verification/Sysmalloc.thy ===== *)
theory Sysmalloc
  imports Free
begin

text \<open>
  Getting memory from the system: \<open>sysmalloc_mmap\<close>, \<open>sysmalloc_mmap_fallback\<close> and
  \<open>sysmalloc\<close> (lines 2409 to 2900 of \<^verbatim>\<open>scalloc/src/scalloc.c\<close>), the last one split at its
  comments into the direct \<open>mmap\<close>, the growth of a non-main heap, the call of \<open>MORECORE\<close>, the
  adjustment of top and the final allocation. C's \<open>long\<close> values are kept as words and compared
  signed where the code compares them as \<open>long\<close>.
\<close>

abbreviation (input) MMAP_AS_MORECORE_SIZE :: u64 where "MMAP_AS_MORECORE_SIZE \<equiv> 1048576"

definition smax :: "u32 \<Rightarrow> u32 \<Rightarrow> u32" where
  "smax a b = (if a <s b then b else a)"

definition sysmalloc_mmap :: "'k sys \<Rightarrow> u64 \<Rightarrow> u64 \<Rightarrow> u32 \<Rightarrow> 'k st \<Rightarrow> ptr \<times> 'k st" where
  "sysmalloc_mmap sy nb pagesize extra_flags s =
     (let padding = MALLOC_ALIGNMENT - CHUNK_HDR_SZ;
          sz = ALIGN_UP (nb + padding + CHUNK_HDR_SZ) pagesize in
      case MMAP sy sz extra_flags s of (mm, s) \<Rightarrow>
        if mm = MAP_FAILED then (mm, s)
        else
          (let s = (if extra_flags = 0 then madvise_thp sy mm sz s else s);
               p = mm + padding;
               s = upd_mem (\<lambda>m. set_prev_size m p padding) s;
               s = upd_mem (\<lambda>m. set_head m p ((sz - padding - CHUNK_HDR_SZ) OR IS_MMAPPED)) s;
               s = (if extra_flags AND hp_flags (mp s) \<noteq> 0
                    then upd_mem (\<lambda>m. set_mmap_is_hp m p) s else s);
               new = n_mmaps (mp s) + 1;
               sum = mmapped_mem (mp s) + sz;
               s = s\<lparr>mp := (mp s)\<lparr>n_mmaps := new, max_n_mmaps := smax (max_n_mmaps (mp s)) new,
                      mmapped_mem := sum, max_mmapped_mem := max (max_mmapped_mem (mp s)) sum\<rparr>\<rparr>
           in (chunk2mem p, s)))"

definition sysmalloc_mmap_fallback ::
  "'k sys \<Rightarrow> u64 \<Rightarrow> u64 \<Rightarrow> u64 \<Rightarrow> u64 \<Rightarrow> u64 \<Rightarrow> u32 \<Rightarrow> ptr \<Rightarrow> 'k st \<Rightarrow> ptr \<times> u64 \<times> 'k st" where
  "sysmalloc_mmap_fallback sy sz0 nb old_size minsize pagesize extra_flags av s =
     (let sz = (if contiguous s av then ALIGN_UP (sz0 + old_size) pagesize else sz0);
          sz = (if sz < minsize then minsize else sz) in
      if sz \<le> nb then (MORECORE_FAILURE, sz0, s)
      else
        (case MMAP sy sz extra_flags s of (mbrk, s) \<Rightarrow>
           if mbrk = MAP_FAILED then (MAP_FAILED, sz0, s)
           else
             (let s = (if extra_flags = 0 then madvise_thp sy mbrk sz s else s);
                  s = set_noncontiguous av s
              in (mbrk, sz, s))))"

text \<open>The direct use of \<open>mmap\<close>: the memory, or whether it was tried.\<close>

definition sysmalloc_try_mmap ::
  "'k sys \<Rightarrow> u64 \<Rightarrow> ptr \<Rightarrow> 'k st \<Rightarrow> (ptr option \<times> bool) \<times> 'k st" where
  "sysmalloc_try_mmap sy nb av s =
     (if av = NULL \<or> (nb \<ge> mmap_threshold (mp s) \<and> n_mmaps (mp s) <s n_mmaps_max (mp s))
      then
        (case (if hp_pagesize (mp s) > 0 \<and> nb \<ge> hp_pagesize (mp s)
               then sysmalloc_mmap sy nb (hp_pagesize (mp s)) (hp_flags (mp s)) s
               else (MAP_FAILED, s)) of (mm, s) \<Rightarrow>
           if mm \<noteq> MAP_FAILED then ((Some mm, True), s)
           else (case sysmalloc_mmap sy nb (dl_pagesize sy) 0 s of (mm, s) \<Rightarrow>
                   if mm \<noteq> MAP_FAILED then ((Some mm, True), s) else ((None, True), s)))
      else ((None, False), s))"

text \<open>The branch for an arena other than the main one; a value is returned at once.\<close>

definition sysmalloc_heap ::
  "'k sys \<Rightarrow> u64 \<Rightarrow> ptr \<Rightarrow> bool \<Rightarrow> ptr \<Rightarrow> u64 \<Rightarrow> 'k st \<Rightarrow> abort + ptr option \<times> 'k st" where
  "sysmalloc_heap sy nb av tried_mmap old_top old_size s =
     (let old_heap = heap_for_ptr sy old_top;
          old_heap_size = heap_size sy s old_heap in
      case (if 0 <s MINSIZE + nb - old_size
            then grow_heap sy old_heap (MINSIZE + nb - old_size) s else (1, s)) of (r, s) \<Rightarrow>
      if 0 <s MINSIZE + nb - old_size \<and> r = 0
      then
        (let s = add_system_mem av (heap_size sy s old_heap - old_heap_size) s;
             s = upd_mem (\<lambda>m. set_head m old_top
                   ((old_heap + heap_size sy s old_heap - old_top) OR PREV_INUSE)) s
         in Inr (None, s))
      else
        (case new_heap sy (nb + (MINSIZE + sizeof_heap_info sy)) (top_pad (mp s)) s of (heap, s) \<Rightarrow>
           if heap \<noteq> NULL
           then
             (let s = heap_link sy heap av old_heap s;
                  s = add_system_mem av (heap_size sy s heap) s;
                  top = chunk_at_offset heap (sizeof_heap_info sy);
                  s = upd_mem (\<lambda>m. set_top m av top) s;
                  s = upd_mem (\<lambda>m. set_head m top
                        ((heap_size sy s heap - sizeof_heap_info sy) OR PREV_INUSE)) s;
                  old_size = (old_size - MINSIZE) AND NOT MALLOC_ALIGN_MASK;
                  s = upd_mem (\<lambda>m. set_head m (chunk_at_offset old_top (old_size + CHUNK_HDR_SZ))
                        (0 OR PREV_INUSE)) s in
              if old_size \<ge> MINSIZE
              then
                (let s = upd_mem (\<lambda>m. set_head m (chunk_at_offset old_top old_size)
                           (CHUNK_HDR_SZ OR PREV_INUSE)) s;
                     s = upd_mem (\<lambda>m. set_foot m (chunk_at_offset old_top old_size) CHUNK_HDR_SZ) s;
                     s = upd_mem (\<lambda>m. set_head m old_top
                           (old_size OR PREV_INUSE OR NON_MAIN_ARENA)) s in
                 bindE (int_free_chunk sy av old_top (chunksize (mem s) old_top) True s)
                   (\<lambda>s. Inr (None, s)))
              else
                (let s = upd_mem (\<lambda>m. set_head m old_top ((old_size + CHUNK_HDR_SZ) OR PREV_INUSE)) s;
                     s = upd_mem (\<lambda>m. set_foot m old_top (old_size + CHUNK_HDR_SZ)) s
                 in Inr (None, s)))
           else if \<not> tried_mmap
           then (case sysmalloc_mmap sy nb (dl_pagesize sy) 0 s of (mm, s) \<Rightarrow>
                   if mm \<noteq> MAP_FAILED then Inr (Some mm, s) else Inr (None, s))
           else Inr (None, s)))"

text \<open>
  The main arena: the amount to ask for, the call of \<open>MORECORE\<close> and the fallback to \<open>mmap\<close>.
  The result is \<open>brk\<close>, \<open>snd_brk\<close> and the size obtained.
\<close>

definition sysmalloc_brk ::
  "'k sys \<Rightarrow> u64 \<Rightarrow> ptr \<Rightarrow> u64 \<Rightarrow> 'k st \<Rightarrow> ptr \<times> ptr \<times> u64 \<times> 'k st" where
  "sysmalloc_brk sy nb av old_size s =
     (let sz = nb + top_pad (mp s) + MINSIZE;
          sz = (if contiguous s av then sz - old_size else sz) in
      case (if thp_pagesize (mp s) \<noteq> 0
            then (case MORECORE sy 0 s of (lastbrk, s) \<Rightarrow>
                    (ALIGN_UP (lastbrk + sz) (thp_pagesize (mp s)) - lastbrk, s))
            else (ALIGN_UP sz (dl_pagesize sy), s)) of (sz, s) \<Rightarrow>
      case (if 0 <s sz
            then (case MORECORE sy sz s of (brk, s) \<Rightarrow>
                    (brk, if brk \<noteq> MORECORE_FAILURE then madvise_thp sy brk sz s else s))
            else (MORECORE_FAILURE, s)) of (brk, s) \<Rightarrow>
      if brk = MORECORE_FAILURE
      then
        (case (if hp_pagesize (mp s) > 0
               then sysmalloc_mmap_fallback sy sz nb old_size (hp_pagesize (mp s))
                      (hp_pagesize (mp s)) (hp_flags (mp s)) av s
               else (MAP_FAILED, sz, s)) of (mbrk, sz, s) \<Rightarrow>
         case (if mbrk = MAP_FAILED
               then sysmalloc_mmap_fallback sy sz nb old_size MMAP_AS_MORECORE_SIZE
                      (dl_pagesize sy) 0 av s
               else (mbrk, sz, s)) of (mbrk, sz, s) \<Rightarrow>
           if mbrk \<noteq> MAP_FAILED then (mbrk, mbrk + sz, sz, s)
           else (MORECORE_FAILURE, MORECORE_FAILURE, sz, s))
      else (brk, MORECORE_FAILURE, sz, s))"

text \<open>
  The adjustments when the new space does not extend top: alignment of the first chunk, a
  second call of \<open>MORECORE\<close> up to a page boundary, and the fenceposts at the old top.
\<close>

definition sysmalloc_fencepost ::
  "'k sys \<Rightarrow> ptr \<Rightarrow> ptr \<Rightarrow> u64 \<Rightarrow> 'k st \<Rightarrow> abort + 'k st" where
  "sysmalloc_fencepost sy av old_top old_size s =
     (if old_size \<noteq> 0
      then
        (let old_size = (old_size - 2 * CHUNK_HDR_SZ) AND NOT MALLOC_ALIGN_MASK;
             s = upd_mem (\<lambda>m. set_head m old_top (old_size OR PREV_INUSE)) s;
             s = upd_mem (\<lambda>m. set_head m (chunk_at_offset old_top old_size)
                   (CHUNK_HDR_SZ OR PREV_INUSE)) s;
             s = upd_mem (\<lambda>m. set_head m (chunk_at_offset old_top (old_size + CHUNK_HDR_SZ))
                   (CHUNK_HDR_SZ OR PREV_INUSE)) s in
         if old_size \<ge> MINSIZE
         then int_free_chunk sy av old_top (chunksize (mem s) old_top) True s
         else Inr s)
      else Inr s)"

definition sysmalloc_correction ::
  "'k sys \<Rightarrow> ptr \<Rightarrow> u64 \<Rightarrow> ptr \<Rightarrow> ptr \<Rightarrow> ptr \<Rightarrow> u64 \<Rightarrow> 'k st
     \<Rightarrow> abort + ptr \<times> ptr \<times> u64 \<times> 'k st" where
  "sysmalloc_correction sy av old_size old_end brk snd_brk sz s =
     (if contiguous s av
      then
        (let s = (if old_size \<noteq> 0 then add_system_mem av (brk - old_end) s else s);
             front_misalign = chunk2mem brk AND MALLOC_ALIGN_MASK;
             (correction, aligned_brk) =
               (if front_misalign > 0
                then (MALLOC_ALIGNMENT - front_misalign, brk + (MALLOC_ALIGNMENT - front_misalign))
                else (0, brk));
             correction = correction + old_size;
             end_misalign = brk + sz + correction;
             correction = correction + (ALIGN_UP end_misalign (dl_pagesize sy) - end_misalign) in
         bindE (assertE ''correction >= 0'' (\<not> correction <s 0)) (\<lambda>_.
         case MORECORE sy correction s of (snd_brk, s) \<Rightarrow>
           if snd_brk = MORECORE_FAILURE
           then (case MORECORE sy 0 s of (snd_brk, s) \<Rightarrow> Inr (aligned_brk, snd_brk, 0, s))
           else Inr (aligned_brk, snd_brk, correction, madvise_thp sy snd_brk correction s)))
      else
        bindE (assertE ''chunk2mem (brk) aligned'' (chunk2mem brk AND MALLOC_ALIGN_MASK = 0)) (\<lambda>_.
          if snd_brk = MORECORE_FAILURE
          then (case MORECORE sy 0 s of (snd_brk, s) \<Rightarrow> Inr (brk, snd_brk, 0, s))
          else Inr (brk, snd_brk, 0, s)))"

definition sysmalloc_extend ::
  "'k sys \<Rightarrow> ptr \<Rightarrow> ptr \<Rightarrow> u64 \<Rightarrow> ptr \<Rightarrow> ptr \<Rightarrow> ptr \<Rightarrow> u64 \<Rightarrow> 'k st \<Rightarrow> abort + 'k st" where
  "sysmalloc_extend sy av old_top old_size old_end brk snd_brk sz s =
     (if brk \<noteq> MORECORE_FAILURE
      then
        (let s = (if sbrk_base (mp s) = NULL then s\<lparr>mp := (mp s)\<lparr>sbrk_base := brk\<rparr>\<rparr> else s);
             s = add_system_mem av sz s in
         if brk = old_end \<and> snd_brk = MORECORE_FAILURE
         then Inr (upd_mem (\<lambda>m. set_head m old_top ((sz + old_size) OR PREV_INUSE)) s)
         else if contiguous s av \<and> old_size \<noteq> 0 \<and> brk < old_end
         then Inl (Printerr ''break adjusted to free malloc space'')
         else
           bindE (sysmalloc_correction sy av old_size old_end brk snd_brk sz s)
             (\<lambda>(aligned_brk, snd_brk, correction, s).
                if snd_brk \<noteq> MORECORE_FAILURE
                then
                  (let s = upd_mem (\<lambda>m. set_top m av aligned_brk) s;
                       s = upd_mem (\<lambda>m. set_head m aligned_brk
                             ((snd_brk - aligned_brk + correction) OR PREV_INUSE)) s;
                       s = add_system_mem av correction s
                   in sysmalloc_fencepost sy av old_top old_size s)
                else Inr s))
      else Inr s)"

text \<open>\<open>max_system_mem\<close>, and the allocation from the new top.\<close>

definition sysmalloc_finish :: "'k sys \<Rightarrow> u64 \<Rightarrow> ptr \<Rightarrow> 'k st \<Rightarrow> ptr \<times> 'k st" where
  "sysmalloc_finish sy nb av s =
     (let s = (if system_mem s av > max_system_mem s av
               then s\<lparr>max_system_mem := (max_system_mem s)(av := system_mem s av)\<rparr> else s);
          p = get_top (mem s) av;
          sz = chunksize (mem s) p in
      if sz \<ge> nb + MINSIZE
      then
        (let remainder_size = sz - nb;
             remainder = chunk_at_offset p nb;
             s = upd_mem (\<lambda>m. set_top m av remainder) s;
             s = upd_mem (\<lambda>m. set_head m p (nb OR PREV_INUSE OR
                   (if av \<noteq> main_arena sy then NON_MAIN_ARENA else 0))) s;
             s = upd_mem (\<lambda>m. set_head m remainder (remainder_size OR PREV_INUSE)) s
         in (chunk2mem p, s))
      else (NULL, set_errno ENOMEM s))"

definition sysmalloc :: "'k sys \<Rightarrow> u64 \<Rightarrow> ptr \<Rightarrow> 'k st \<Rightarrow> abort + ptr \<times> 'k st" where
  "sysmalloc sy nb av s =
     (case sysmalloc_try_mmap sy nb av s of ((r, tried_mmap), s) \<Rightarrow>
      case r of Some mm \<Rightarrow> Inr (mm, s) | None \<Rightarrow>
      if av = NULL then Inr (NULL, s)
      else
        (let old_top = get_top (mem s) av;
             old_size = chunksize (mem s) old_top;
             old_end = chunk_at_offset old_top old_size in
         bindE (assertE ''old_top''
            ((old_top = initial_top av \<and> old_size = 0) \<or>
             (old_size \<ge> MINSIZE \<and> prev_inuse (mem s) old_top \<and>
              old_end AND (dl_pagesize sy - 1) = 0))) (\<lambda>_.
         bindE (assertE ''old_size < nb + MINSIZE'' (old_size < nb + MINSIZE)) (\<lambda>_.
         if av \<noteq> main_arena sy
         then bindE (sysmalloc_heap sy nb av tried_mmap old_top old_size s) (\<lambda>(r, s).
                case r of Some mm \<Rightarrow> Inr (mm, s) | None \<Rightarrow> Inr (sysmalloc_finish sy nb av s))
         else
           (case sysmalloc_brk sy nb av old_size s of (brk, snd_brk, sz, s) \<Rightarrow>
              bindE (sysmalloc_extend sy av old_top old_size old_end brk snd_brk sz s)
                (\<lambda>s. Inr (sysmalloc_finish sy nb av s)))))))"

end
