(* ===== verification/Tcache.thy ===== *)
theory Tcache
  imports State
begin

text \<open>
  The per-thread cache of \<^verbatim>\<open>scalloc/src/scalloc.c\<close> (lines 3055 to 3219): singly linked
  lists of chunks whose \<open>next\<close> words are masked (safe linking). \<open>tcache->entries\<close> is in
  memory, behind the 152 bytes of \<open>num_slots\<close>; \<open>num_slots\<close> itself is a field of the state.
  An entry overlays the user data of its chunk: \<open>next\<close> at offset 0, \<open>key\<close> at offset 8.
\<close>

abbreviation (input) sizeof_tcache :: u64 where "sizeof_tcache \<equiv> 760"

definition tcache_entry_addr :: "'k st \<Rightarrow> u64 \<Rightarrow> ptr" where
  "tcache_entry_addr s tc_idx = tcache s + 152 + 8 * tc_idx"

section \<open>The key\<close>

definition count_ones :: "u64 \<Rightarrow> nat" where
  "count_ones w = length (filter (bit w) [0..<64])"

definition tcache_key_bad :: "u64 \<Rightarrow> bool" where
  "tcache_key_bad key \<longleftrightarrow>
     key \<le> 0x1000000 \<or> key \<ge> 0xFFFFFFFFFFFFFFFF - 0x1000000 \<or>
     count_ones key < 16 \<or> count_ones key > 48"

fun tcache_key_loop :: "nat \<Rightarrow> 'k sys \<Rightarrow> u64 \<Rightarrow> 'k \<Rightarrow> abort + u64 \<times> 'k" where
  "tcache_key_loop 0 sy key k = Inl Out_of_fuel"
| "tcache_key_loop (Suc n) sy key k =
     (if tcache_key_bad key
      then (case sys_random_bits sy k of (r1, k) \<Rightarrow>
            case sys_random_bits sy k of (r2, k) \<Rightarrow>
              tcache_key_loop n sy (push_bit 32 (ucast r1) OR ucast r2) k)
      else Inr (key, k))"

definition tcache_key_initialize :: "'k sys \<Rightarrow> 'k st \<Rightarrow> abort + 'k st" where
  "tcache_key_initialize sy s =
     (case sys_getrandom sy (kern s) of (r, k) \<Rightarrow>
        bindE (tcache_key_loop (loop_fuel sy) sy (case r of None \<Rightarrow> 0 | Some key \<Rightarrow> key) k)
          (\<lambda>(key, k). Inr (s\<lparr>tcache_key := key, kern := k\<rparr>)))"

section \<open>Bins of large sizes\<close>

text \<open>
  \<open>__builtin_clz\<close> takes an \<open>unsigned int\<close>: its argument is truncated to 32 bits. (It is
  undefined at 0, where this model gives 32.)
\<close>

definition builtin_clz :: "u32 \<Rightarrow> nat" where
  "builtin_clz w = length (takeWhile (\<lambda>i. \<not> bit w i) (rev [0..<32]))"

definition large_csize2tidx :: "u64 \<Rightarrow> u64" where
  "large_csize2tidx nb =
     TCACHE_SMALL_BINS + of_nat (builtin_clz (ucast MAX_TCACHE_SMALL_SIZE))
       - of_nat (builtin_clz (ucast nb))"

section \<open>Putting and getting\<close>

definition tcache_put_n :: "ptr \<Rightarrow> u64 \<Rightarrow> ptr \<Rightarrow> bool \<Rightarrow> 'k st \<Rightarrow> 'k st" where
  "tcache_put_n chunk tc_idx ep mangled s =
     (let e = chunk2mem chunk;
          s = upd_mem (\<lambda>m. m(e + 8 := tcache_key s)) s;
          s = (if \<not> mangled
               then upd_mem (\<lambda>m. m(ep := e)) (upd_mem (\<lambda>m. m(e := PROTECT_PTR e (m ep))) s)
               else upd_mem (\<lambda>m. m(ep := PROTECT_PTR ep e))
                      (upd_mem (\<lambda>m. m(e := PROTECT_PTR e (REVEAL_PTR ep (m ep)))) s))
      in s\<lparr>num_slots := (num_slots s)(tc_idx := num_slots s tc_idx - 1)\<rparr>)"

definition tcache_get_n :: "u64 \<Rightarrow> ptr \<Rightarrow> bool \<Rightarrow> 'k st \<Rightarrow> abort + ptr \<times> 'k st" where
  "tcache_get_n tc_idx ep mangled s =
     (let e = (if \<not> mangled then mem s ep else REVEAL_PTR ep (mem s ep)) in
      if misaligned_mem e
      then Inl (Printerr ''malloc(): unaligned tcache chunk detected'')
      else
        (let s = (if \<not> mangled then upd_mem (\<lambda>m. m(ep := REVEAL_PTR e (m e))) s
                  else upd_mem (\<lambda>m. m(ep := PROTECT_PTR ep (REVEAL_PTR e (m e)))) s);
             s = s\<lparr>num_slots := (num_slots s)(tc_idx := num_slots s tc_idx + 1)\<rparr>;
             s = upd_mem (\<lambda>m. m(e + 8 := 0)) s
         in Inr (e, s)))"

definition tcache_put :: "ptr \<Rightarrow> u64 \<Rightarrow> 'k st \<Rightarrow> 'k st" where
  "tcache_put chunk tc_idx s = tcache_put_n chunk tc_idx (tcache_entry_addr s tc_idx) False s"

definition tcache_get :: "u64 \<Rightarrow> 'k st \<Rightarrow> abort + ptr \<times> 'k st" where
  "tcache_get tc_idx s = tcache_get_n tc_idx (tcache_entry_addr s tc_idx) False s"

fun tcache_location_loop :: "nat \<Rightarrow> memory \<Rightarrow> u64 \<Rightarrow> ptr \<Rightarrow> ptr \<Rightarrow> bool \<Rightarrow> abort + ptr \<times> bool" where
  "tcache_location_loop 0 m nb tep te mangled = Inl Out_of_fuel"
| "tcache_location_loop (Suc n) m nb tep te mangled =
     (if te \<noteq> NULL \<and> chunksize m (mem2chunk te) < nb
      then tcache_location_loop n m nb te (REVEAL_PTR te (m te)) True
      else Inr (tep, mangled))"

definition tcache_location_large :: "'k sys \<Rightarrow> u64 \<Rightarrow> u64 \<Rightarrow> 'k st \<Rightarrow> abort + ptr \<times> bool" where
  "tcache_location_large sy nb tc_idx s =
     (let tep = tcache_entry_addr s tc_idx in
      tcache_location_loop (loop_fuel sy) (mem s) nb tep (mem s tep) False)"

definition tcache_put_large :: "'k sys \<Rightarrow> ptr \<Rightarrow> u64 \<Rightarrow> 'k st \<Rightarrow> abort + 'k st" where
  "tcache_put_large sy chunk tc_idx s =
     bindE (tcache_location_large sy (chunksize (mem s) chunk) tc_idx s)
       (\<lambda>(entry, mangled). Inr (tcache_put_n chunk tc_idx entry mangled s))"

definition tcache_get_large :: "'k sys \<Rightarrow> u64 \<Rightarrow> u64 \<Rightarrow> 'k st \<Rightarrow> abort + ptr \<times> 'k st" where
  "tcache_get_large sy tc_idx nb s =
     bindE (tcache_location_large sy nb tc_idx s)
       (\<lambda>(entry, mangled).
          if (mangled \<and> REVEAL_PTR entry (mem s entry) = NULL) \<or> (\<not> mangled \<and> mem s entry = NULL)
          then Inr (NULL, s)
          else tcache_get_n tc_idx entry mangled s)"

end
