(* ===== verification/Malloc.thy ===== *)
theory Malloc
  imports Sysmalloc Tcache
begin

text \<open>
  \<open>_int_malloc\<close> (lines 3874 to 4499 of \<^verbatim>\<open>scalloc/src/scalloc.c\<close>), split at its comments:
  the fast bin, the small bin, the pass over the unsorted chunks with the placement of chunks in
  bins, the scan of a large bin, the search of the bin map, and top. A part returns
  \<open>Some p\<close> where the code returns \<open>p\<close> and \<open>None\<close> where control goes on.
\<close>

abbreviation (input) MAX_ITERS :: nat where "MAX_ITERS \<equiv> 10000"

definition main_bit :: "'k sys \<Rightarrow> ptr \<Rightarrow> u64" where
  "main_bit sy av = (if av \<noteq> main_arena sy then NON_MAIN_ARENA else 0)"

definition mark_non_main :: "'k sys \<Rightarrow> ptr \<Rightarrow> ptr \<Rightarrow> 'k st \<Rightarrow> 'k st" where
  "mark_non_main sy av p s =
     (if av \<noteq> main_arena sy then upd_mem (\<lambda>m. set_non_main_arena m p) s else s)"

section \<open>Fast bins\<close>

lemma tcache_put_num_slots:
  "num_slots (tcache_put p i s) = (num_slots s)(i := num_slots s i - 1)"
  by (simp add: tcache_put_def tcache_put_n_def Let_def upd_mem_def)

function fastbin_stash :: "u64 \<Rightarrow> ptr \<Rightarrow> 'k st \<Rightarrow> abort + 'k st" where
  "fastbin_stash tc_idx fb s =
     (if num_slots s tc_idx \<noteq> 0 \<and> mem s fb \<noteq> NULL
      then
        (if misaligned_chunk (mem s fb)
         then Inl (Printerr ''malloc(): unaligned fastbin chunk detected 3'')
         else if tc_idx \<noteq> csize2tidx (chunksize (mem s) (mem s fb))
         then Inl (Printerr ''malloc(): chunk size mismatch in fastbin'')
         else fastbin_stash tc_idx fb
                (tcache_put (mem s fb) tc_idx
                  (upd_mem (\<lambda>m. m(fb := REVEAL_PTR (mem s fb + 16) (get_fd m (mem s fb)))) s)))
      else Inr s)"
  by pat_completeness auto
termination
  by (relation "measure (\<lambda>(i, fb, s). unat (num_slots s i))")
    (auto simp: tcache_put_num_slots upd_mem_def unat_minus_one_less)

declare fastbin_stash.simps [simp del]

definition int_malloc_fastbin ::
  "ptr \<Rightarrow> u64 \<Rightarrow> u64 \<Rightarrow> 'k st \<Rightarrow> abort + ptr option \<times> 'k st" where
  "int_malloc_fastbin av nb bytes s =
     bindE (get_max_fast s) (\<lambda>max_fast.
       if nb \<le> max_fast
       then
         (let idx = fastbin_index nb; fb = fastbin_addr av idx; victim = mem s fb in
          if victim \<noteq> NULL
          then
            (if misaligned_chunk victim
             then Inl (Printerr ''malloc(): unaligned fastbin chunk detected 2'')
             else
               (let s = upd_mem (\<lambda>m. m(fb := REVEAL_PTR (victim + 16) (get_fd m victim))) s in
                if fastbin_index (chunksize (mem s) victim) \<noteq> idx
                then Inl (Printerr ''malloc(): memory corruption (fast)'')
                else
                  (let tc_idx = csize2tidx nb in
                   bindE (if tcache s \<noteq> NULL \<and> tc_idx < tcache_small_bins (mp s)
                          then fastbin_stash tc_idx fb s else Inr s)
                     (\<lambda>s. let p = chunk2mem victim in Inr (Some p, alloc_perturb p bytes s)))))
          else Inr (None, s))
       else Inr (None, s))"

section \<open>Small bins\<close>

text \<open>
  Taking the last chunk of a small bin: \<open>victim\<close> is unlinked at the tail without the checks of
  \<open>unlink_chunk\<close>. If the tail of the list were NULL the loop of the code would spin forever.
\<close>

definition smallbin_take :: "'k sys \<Rightarrow> ptr \<Rightarrow> ptr \<Rightarrow> ptr \<Rightarrow> u64 \<Rightarrow> 'k st \<Rightarrow> 'k st" where
  "smallbin_take sy av bin victim nb s =
     (let bck = get_bk (mem s) victim;
          s = upd_mem (\<lambda>m. set_inuse_bit_at_offset m victim nb) s;
          s = mark_non_main sy av victim s;
          s = upd_mem (\<lambda>m. set_bk m bin bck) s
      in upd_mem (\<lambda>m. set_fd m bck bin) s)"

lemma smallbin_take_num_slots [simp]: "num_slots (smallbin_take sy av bin v nb s) = num_slots s"
  by (simp add: smallbin_take_def Let_def upd_mem_def mark_non_main_def)

function smallbin_stash ::
  "'k sys \<Rightarrow> ptr \<Rightarrow> ptr \<Rightarrow> u64 \<Rightarrow> u64 \<Rightarrow> 'k st \<Rightarrow> abort + 'k st" where
  "smallbin_stash sy av bin nb tc_idx s =
     (if num_slots s tc_idx \<noteq> 0 \<and> get_bk (mem s) bin \<noteq> bin
      then
        (if get_bk (mem s) bin = NULL then Inl Out_of_fuel
         else smallbin_stash sy av bin nb tc_idx
                (tcache_put (get_bk (mem s) bin) tc_idx
                  (smallbin_take sy av bin (get_bk (mem s) bin) nb s)))
      else Inr s)"
  by pat_completeness auto
termination
  by (relation "measure (\<lambda>(sy, av, b, nb, i, s). unat (num_slots s i))")
    (auto simp: tcache_put_num_slots unat_minus_one_less)

declare smallbin_stash.simps [simp del]

definition int_malloc_smallbin ::
  "'k sys \<Rightarrow> ptr \<Rightarrow> u64 \<Rightarrow> u64 \<Rightarrow> 'k st \<Rightarrow> abort + ptr option \<times> 'k st" where
  "int_malloc_smallbin sy av nb bytes s =
     (let idx = smallbin_index nb; bin = bin_at av idx; victim = get_bk (mem s) bin in
      if victim \<noteq> bin
      then
        (let bck = get_bk (mem s) victim in
         if get_fd (mem s) bck \<noteq> victim
         then Inl (Printerr ''malloc(): smallbin double linked list corrupted'')
         else
           (let s = upd_mem (\<lambda>m. set_inuse_bit_at_offset m victim nb) s;
                s = upd_mem (\<lambda>m. set_bk m bin bck) s;
                s = upd_mem (\<lambda>m. set_fd m bck bin) s;
                s = mark_non_main sy av victim s;
                tc_idx = csize2tidx nb in
            bindE (if tcache s \<noteq> NULL \<and> tc_idx < tcache_small_bins (mp s)
                   then smallbin_stash sy av bin nb tc_idx s else Inr s)
              (\<lambda>s. let p = chunk2mem victim in Inr (Some p, alloc_perturb p bytes s))))
      else Inr (None, s))"

section \<open>Unsorted chunks\<close>

definition unsorted_checks :: "ptr \<Rightarrow> ptr \<Rightarrow> 'k st \<Rightarrow> abort + unit" where
  "unsorted_checks av victim s =
     (let m = mem s; bck = get_bk m victim; sz = chunksize m victim;
          next = chunk_at_offset victim sz in
      if sz \<le> CHUNK_HDR_SZ \<or> sz > system_mem s av
      then Inl (Printerr ''malloc(): invalid size (unsorted)'')
      else if chunksize_nomask m next < CHUNK_HDR_SZ \<or> chunksize_nomask m next > system_mem s av
      then Inl (Printerr ''malloc(): invalid next size (unsorted)'')
      else if prev_size m next AND NOT SIZE_BITS \<noteq> sz
      then Inl (Printerr ''malloc(): mismatching next->prev_size (unsorted)'')
      else if get_fd m bck \<noteq> victim \<or> get_fd m victim \<noteq> unsorted_chunks av
      then Inl (Printerr ''malloc(): unsorted double linked list corrupted'')
      else if prev_inuse m next
      then Inl (Printerr ''malloc(): invalid next->prev_inuse (unsorted)'')
      else Inr ())"

text \<open>Splitting the last remainder when it is the only unsorted chunk.\<close>

definition split_last_remainder :: "'k sys \<Rightarrow> ptr \<Rightarrow> u64 \<Rightarrow> ptr \<Rightarrow> u64 \<Rightarrow> 'k st \<Rightarrow> 'k st" where
  "split_last_remainder sy av nb victim sz s =
     (let remainder_size = sz - nb;
          remainder = chunk_at_offset victim nb;
          us = unsorted_chunks av;
          s = upd_mem (\<lambda>m. set_bk (set_fd m us remainder) us remainder) s;
          s = upd_mem (\<lambda>m. set_last_remainder m av remainder) s;
          s = upd_mem (\<lambda>m. set_bk (set_fd m remainder us) remainder us) s;
          s = (if \<not> in_smallbin_range remainder_size
               then upd_mem (\<lambda>m. clear_nextsize m remainder) s else s);
          s = upd_mem (\<lambda>m. set_head m victim (nb OR PREV_INUSE OR main_bit sy av)) s;
          s = upd_mem (\<lambda>m. set_head m remainder (remainder_size OR PREV_INUSE)) s
      in upd_mem (\<lambda>m. set_foot m remainder remainder_size) s)"

text \<open>The walk down the skip list of a large bin to the first size not above \<open>sz\<close>.\<close>

fun largebin_walk :: "nat \<Rightarrow> memory \<Rightarrow> u64 \<Rightarrow> ptr \<Rightarrow> abort + ptr" where
  "largebin_walk 0 m sz fwd = Inl Out_of_fuel"
| "largebin_walk (Suc n) m sz fwd =
     (if sz < chunksize_nomask m fwd
      then (let fwd = get_fd_nextsize m fwd in
            bindE (assertE ''chunk_main_arena (fwd)'' (chunk_main_arena m fwd))
              (\<lambda>_. largebin_walk n m sz fwd))
      else Inr fwd)"

text \<open>The neighbours for \<open>victim\<close> in its large bin, with the skip list updated.\<close>

definition largebin_place :: "'k sys \<Rightarrow> ptr \<Rightarrow> ptr \<Rightarrow> u64 \<Rightarrow> memory \<Rightarrow> abort + ptr \<times> ptr \<times> memory" where
  "largebin_place sy bin victim sz m =
     (let bck = bin; fwd = get_fd m bck in
      if fwd \<noteq> bck
      then
        (let sz = sz OR PREV_INUSE in
         bindE (assertE ''chunk_main_arena (bck->bk)'' (chunk_main_arena m (get_bk m bck))) (\<lambda>_.
         if sz < chunksize_nomask m (get_bk m bck)
         then
           (let fwd = bck; bck = get_bk m bck in
            if get_fd_nextsize m (get_bk_nextsize m (get_fd m fwd)) \<noteq> get_fd m fwd
            then Inl (Printerr ''malloc(): largebin double linked list corrupted (nextsize)'')
            else
              (let m = set_fd_nextsize m victim (get_fd m fwd);
                   m = set_bk_nextsize m victim (get_bk_nextsize m (get_fd m fwd));
                   m = set_fd_nextsize m (get_bk_nextsize m victim) victim;
                   m = set_bk_nextsize m (get_fd m fwd) victim
               in Inr (bck, fwd, m)))
         else
           bindE (assertE ''chunk_main_arena (fwd)'' (chunk_main_arena m fwd)) (\<lambda>_.
           bindE (largebin_walk (loop_fuel sy) m sz fwd) (\<lambda>fwd.
           bindE
             (if sz = chunksize_nomask m fwd then Inr (get_fd m fwd, m)
              else
                (let m' = set_fd_nextsize m victim fwd;
                     m' = set_bk_nextsize m' victim (get_bk_nextsize m' fwd) in
                 if get_fd_nextsize m' (get_bk_nextsize m' fwd) \<noteq> fwd
                 then Inl (Printerr ''malloc(): largebin double linked list corrupted (nextsize)'')
                 else
                   (let m' = set_bk_nextsize m' fwd victim;
                        m' = set_fd_nextsize m' (get_bk_nextsize m' victim) victim
                    in Inr (fwd, m'))))
             (\<lambda>(fwd, m).
               let bck = get_bk m fwd in
               if get_fd m bck \<noteq> fwd
               then Inl (Printerr ''malloc(): largebin double linked list corrupted (bk)'')
               else Inr (bck, fwd, m))))))
      else Inr (bck, fwd, set_fd_nextsize (set_bk_nextsize m victim victim) victim victim))"

definition place_in_bin :: "'k sys \<Rightarrow> ptr \<Rightarrow> ptr \<Rightarrow> u64 \<Rightarrow> 'k st \<Rightarrow> abort + 'k st" where
  "place_in_bin sy av victim sz s =
     bindE
       (if in_smallbin_range sz
        then (let victim_index = smallbin_index sz; bck = bin_at av victim_index in
              Inr (victim_index, bck, get_fd (mem s) bck, mem s))
        else (let victim_index = largebin_index sz in
              bindE (largebin_place sy (bin_at av victim_index) victim sz (mem s))
                (\<lambda>(bck, fwd, m). Inr (victim_index, bck, fwd, m))))
       (\<lambda>(victim_index, bck, fwd, m).
         let s = mark_bin av victim_index (s\<lparr>mem := m\<rparr>);
             s = upd_mem (\<lambda>m. set_fd (set_bk m victim bck) victim fwd) s
         in Inr (upd_mem (\<lambda>m. set_fd (set_bk m fwd victim) bck victim) s))"

text \<open>
  One chunk of the unsorted list. \<open>Ret\<close>: the code returns; \<open>Cached\<close>: the chunk went to the
  thread's cache (\<open>continue\<close>); \<open>Placed\<close>: it went to a bin. The loop state is the allocator's
  state, the number of chunks processed and \<open>return_cached\<close>.
\<close>

datatype unsorted_result = Ret ptr | Cached | Placed

definition unsorted_step ::
  "'k sys \<Rightarrow> ptr \<Rightarrow> u64 \<Rightarrow> u64 \<Rightarrow> u64 \<Rightarrow> u64 \<Rightarrow> u64 \<Rightarrow> bool \<Rightarrow> 'k st
     \<Rightarrow> abort + unsorted_result \<times> u64 \<times> bool \<times> 'k st" where
  "unsorted_step sy av nb bytes tc_idx tcache_nb count return_cached s =
     (let us = unsorted_chunks av; victim = get_bk (mem s) us; bck = get_bk (mem s) victim;
          sz = chunksize (mem s) victim in
      bindE (unsorted_checks av victim s) (\<lambda>_.
      if in_smallbin_range nb \<and> bck = us \<and> victim = last_remainder (mem s) av \<and> sz > nb + MINSIZE
      then
        (let s = split_last_remainder sy av nb victim sz s; p = chunk2mem victim
         in Inr (Ret p, count, return_cached, alloc_perturb p bytes s))
      else
        (let s = upd_mem (\<lambda>m. set_fd (set_bk m us bck) bck us) s in
         if sz = nb
         then
           (let s = upd_mem (\<lambda>m. set_inuse_bit_at_offset m victim sz) s;
                s = mark_non_main sy av victim s in
            if tcache_nb > 0 \<and> num_slots s tc_idx \<noteq> 0
            then Inr (Cached, count, True, tcache_put victim tc_idx s)
            else (let p = chunk2mem victim in
                  Inr (Ret p, count, return_cached, alloc_perturb p bytes s)))
         else
           bindE (place_in_bin sy av victim sz s) (\<lambda>s.
             let count = count + 1 in
             if return_cached \<and> tcache_unsorted_limit (mp s) > 0 \<and> count > tcache_unsorted_limit (mp s)
             then bindE (tcache_get tc_idx s) (\<lambda>(p, s). Inr (Ret p, count, return_cached, s))
             else Inr (Placed, count, return_cached, s)))))"

fun unsorted_loop ::
  "nat \<Rightarrow> 'k sys \<Rightarrow> ptr \<Rightarrow> u64 \<Rightarrow> u64 \<Rightarrow> u64 \<Rightarrow> u64 \<Rightarrow> nat \<Rightarrow> u64 \<Rightarrow> bool \<Rightarrow> 'k st
     \<Rightarrow> abort + ptr option \<times> u64 \<times> bool \<times> 'k st" where
  "unsorted_loop 0 sy av nb bytes tc_idx tcache_nb iters count cached s = Inl Out_of_fuel"
| "unsorted_loop (Suc n) sy av nb bytes tc_idx tcache_nb iters count cached s =
     (if get_bk (mem s) (unsorted_chunks av) = unsorted_chunks av then Inr (None, count, cached, s)
      else
        bindE (unsorted_step sy av nb bytes tc_idx tcache_nb count cached s)
          (\<lambda>(r, count, cached, s).
             case r of
               Ret p \<Rightarrow> Inr (Some p, count, cached, s)
             | Cached \<Rightarrow> unsorted_loop n sy av nb bytes tc_idx tcache_nb iters count cached s
             | Placed \<Rightarrow>
                 if Suc iters \<ge> MAX_ITERS then Inr (None, count, cached, s)
                 else unsorted_loop n sy av nb bytes tc_idx tcache_nb (Suc iters) count cached s))"

section \<open>Best fit\<close>

text \<open>
  Using a binned chunk of size \<open>sz\<close>: whole if the rest would be too small, else split with the
  rest put first in the unsorted list. Both searches end in this code; the scan of a large bin
  is entered for large requests only, so that its copy has no update of \<open>last_remainder\<close>.
\<close>

definition split_or_exhaust ::
  "'k sys \<Rightarrow> string \<Rightarrow> ptr \<Rightarrow> u64 \<Rightarrow> u64 \<Rightarrow> ptr \<Rightarrow> u64 \<Rightarrow> 'k st \<Rightarrow> abort + ptr \<times> 'k st" where
  "split_or_exhaust sy msg av nb bytes victim sz s =
     (let remainder_size = sz - nb in
      bindE (unlink_chunk (mem s) victim) (\<lambda>m.
        let s = s\<lparr>mem := m\<rparr> in
        bindE
          (if remainder_size < MINSIZE
           then Inr (mark_non_main sy av victim
                  (upd_mem (\<lambda>m. set_inuse_bit_at_offset m victim sz) s))
           else
             (let remainder = chunk_at_offset victim nb;
                  bck = unsorted_chunks av;
                  fwd = get_fd (mem s) bck in
              if get_bk (mem s) fwd \<noteq> bck then Inl (Printerr msg)
              else
                (let s = upd_mem (\<lambda>m. link_between m remainder bck fwd) s;
                     s = (if in_smallbin_range nb
                          then upd_mem (\<lambda>m. set_last_remainder m av remainder) s else s);
                     s = (if \<not> in_smallbin_range remainder_size
                          then upd_mem (\<lambda>m. clear_nextsize m remainder) s else s);
                     s = upd_mem (\<lambda>m. set_head m victim (nb OR PREV_INUSE OR main_bit sy av)) s;
                     s = upd_mem (\<lambda>m. set_head m remainder (remainder_size OR PREV_INUSE)) s
                 in Inr (upd_mem (\<lambda>m. set_foot m remainder remainder_size) s))))
          (\<lambda>s. let p = chunk2mem victim in Inr (p, alloc_perturb p bytes s))))"

fun largebin_fit :: "nat \<Rightarrow> memory \<Rightarrow> u64 \<Rightarrow> ptr \<Rightarrow> abort + ptr" where
  "largebin_fit 0 m nb victim = Inl Out_of_fuel"
| "largebin_fit (Suc n) m nb victim =
     (if chunksize m victim < nb then largebin_fit n m nb (get_bk_nextsize m victim)
      else Inr victim)"

definition int_malloc_largebin ::
  "'k sys \<Rightarrow> ptr \<Rightarrow> u64 \<Rightarrow> u64 \<Rightarrow> u32 \<Rightarrow> 'k st \<Rightarrow> abort + ptr option \<times> 'k st" where
  "int_malloc_largebin sy av nb bytes idx s =
     (let bin = bin_at av idx; victim = get_fd (mem s) bin in
      if victim \<noteq> bin \<and> chunksize_nomask (mem s) victim \<ge> nb
      then
        bindE (largebin_fit (loop_fuel sy) (mem s) nb (get_bk_nextsize (mem s) victim)) (\<lambda>victim.
          let m = mem s;
              sz = chunksize m victim;
              victim = (if victim \<noteq> get_bk m bin
                           \<and> chunksize_nomask m victim = chunksize_nomask m (get_fd m victim)
                        then get_fd m victim else victim) in
          bindE (split_or_exhaust sy ''malloc(): corrupted unsorted chunks'' av nb bytes victim sz s)
            (\<lambda>(p, s). Inr (Some p, s)))
      else Inr (None, s))"

section \<open>The search of the bin map\<close>

function next_block :: "(u32 \<Rightarrow> u32) \<Rightarrow> u32 \<Rightarrow> u32 option" where
  "next_block b block =
     (if block + 1 \<ge> BINMAPSIZE then None
      else if b (block + 1) = 0 then next_block b (block + 1)
      else Some (block + 1))"
  by pat_completeness auto

definition blocks_left :: "u32 \<Rightarrow> nat" where
  "blocks_left block = (if block = - 1 then 5 else 4 - unat block)"

lemma next_block_decr:
  assumes "\<not> 4 \<le> block + (1 :: u32)"
  shows "blocks_left (block + 1) < blocks_left block"
proof (cases "block = - 1")
  case True
  then show ?thesis by (simp add: blocks_left_def)
next
  case False
  then have "unat (block + 1) = unat block + 1"
    by (metis Suc_eq_plus1 add.commute add_eq_0_iff unatSuc)
  moreover have "unat (block + 1) < 4" using assms by (simp add: word_le_nat_alt)
  moreover have "block + 1 \<noteq> - 1"
  proof
    assume e: "block + 1 = - 1"
    show False using assms unfolding e by simp
  qed
  ultimately show ?thesis using False by (simp add: blocks_left_def)
qed

termination next_block
  by (relation "measure (\<lambda>(b, block). blocks_left block)") (use next_block_decr in auto)

declare next_block.simps [simp del]

fun find_bit :: "nat \<Rightarrow> u32 \<Rightarrow> ptr \<Rightarrow> u32 \<Rightarrow> abort + ptr \<times> u32" where
  "find_bit 0 bm bin bt = Inl (Assertion ''bit != 0'')"
| "find_bit (Suc n) bm bin bt =
     (if bt AND bm = 0 then find_bit n bm (next_bin bin) (push_bit 1 bt) else Inr (bin, bt))"

text \<open>
  The search from bin \<open>bin\<close>, whose bit in block \<open>block\<close> with contents \<open>bm\<close> is \<open>bt\<close>. At most
  32 shifts reach a set bit of \<open>bm\<close> (the bound of \<open>find_bit\<close>; after 32 shifts \<open>bit\<close> is 0 and
  the assertion of the code fails). Every round that goes on clears one of the 128 bits.
\<close>

fun binmap_search ::
  "nat \<Rightarrow> 'k sys \<Rightarrow> ptr \<Rightarrow> u64 \<Rightarrow> u64 \<Rightarrow> ptr \<Rightarrow> u32 \<Rightarrow> u32 \<Rightarrow> u32 \<Rightarrow> 'k st
     \<Rightarrow> abort + ptr option \<times> 'k st" where
  "binmap_search 0 sy av nb bytes bin block bm bt s = Inl Out_of_fuel"
| "binmap_search (Suc n) sy av nb bytes bin block bm bt s =
     (case (if bt > bm \<or> bt = 0
            then map_option (\<lambda>block. (bin_at av (push_bit BINMAPSHIFT block), block,
                   binmap s av block, 1)) (next_block (binmap s av) block)
            else Some (bin, block, bm, bt)) of
        None \<Rightarrow> Inr (None, s)
      | Some (bin, block, bm, bt) \<Rightarrow>
          bindE (find_bit 32 bm bin bt) (\<lambda>(bin, bt).
            let victim = get_bk (mem s) bin in
            if victim = bin
            then
              (let bm = bm AND NOT bt;
                   s = s\<lparr>binmap := (binmap s)(av := (binmap s av)(block := bm))\<rparr>
               in binmap_search n sy av nb bytes (next_bin bin) block bm (push_bit 1 bt) s)
            else
              (let sz = chunksize (mem s) victim in
               bindE (assertE ''size >= nb'' (sz \<ge> nb)) (\<lambda>_.
               bindE (split_or_exhaust sy ''malloc(): corrupted unsorted chunks 2''
                        av nb bytes victim sz s)
                 (\<lambda>(p, s). Inr (Some p, s))))))"

definition int_malloc_binmap ::
  "'k sys \<Rightarrow> ptr \<Rightarrow> u64 \<Rightarrow> u64 \<Rightarrow> u32 \<Rightarrow> 'k st \<Rightarrow> abort + ptr option \<times> 'k st" where
  "int_malloc_binmap sy av nb bytes idx s =
     (let idx = idx + 1; block = idx2block idx in
      binmap_search 129 sy av nb bytes (bin_at av idx) block (binmap s av block) (idx2bit idx) s)"

section \<open>Top\<close>

definition int_malloc_top ::
  "'k sys \<Rightarrow> ptr \<Rightarrow> u64 \<Rightarrow> u64 \<Rightarrow> 'k st \<Rightarrow> abort + ptr option \<times> 'k st" where
  "int_malloc_top sy av nb bytes s =
     (let victim = get_top (mem s) av; sz = chunksize (mem s) victim in
      if sz > system_mem s av then Inl (Printerr ''malloc(): corrupted top size'')
      else if sz \<ge> nb + MINSIZE
      then
        (let remainder_size = sz - nb;
             remainder = chunk_at_offset victim nb;
             s = upd_mem (\<lambda>m. set_top m av remainder) s;
             s = upd_mem (\<lambda>m. set_head m victim (nb OR PREV_INUSE OR main_bit sy av)) s;
             s = upd_mem (\<lambda>m. set_head m remainder (remainder_size OR PREV_INUSE)) s;
             p = chunk2mem victim
         in Inr (Some p, alloc_perturb p bytes s))
      else Inr (None, s))"

section \<open>The whole of \<open>_int_malloc\<close>\<close>

definition int_malloc_sys ::
  "'k sys \<Rightarrow> u64 \<Rightarrow> ptr \<Rightarrow> u64 \<Rightarrow> 'k st \<Rightarrow> abort + ptr \<times> 'k st" where
  "int_malloc_sys sy nb av bytes s =
     bindE (sysmalloc sy nb av s) (\<lambda>(p, s).
       Inr (p, if p \<noteq> NULL then alloc_perturb p bytes s else s))"

fun int_malloc_loop ::
  "nat \<Rightarrow> 'k sys \<Rightarrow> ptr \<Rightarrow> u64 \<Rightarrow> u64 \<Rightarrow> u64 \<Rightarrow> u64 \<Rightarrow> u64 \<Rightarrow> bool \<Rightarrow> 'k st
     \<Rightarrow> abort + ptr \<times> 'k st" where
  "int_malloc_loop 0 sy av nb bytes tc_idx tcache_nb count cached s = Inl Out_of_fuel"
| "int_malloc_loop (Suc n) sy av nb bytes tc_idx tcache_nb count cached s =
     bindE (unsorted_loop (loop_fuel sy) sy av nb bytes tc_idx tcache_nb 0 count cached s)
       (\<lambda>(r, count, cached, s).
         case r of Some p \<Rightarrow> Inr (p, s) | None \<Rightarrow>
         if cached then tcache_get tc_idx s
         else
           (let idx = bin_index nb in
            bindE (if \<not> in_smallbin_range nb then int_malloc_largebin sy av nb bytes idx s
                   else Inr (None, s)) (\<lambda>(r, s).
            case r of Some p \<Rightarrow> Inr (p, s) | None \<Rightarrow>
            bindE (int_malloc_binmap sy av nb bytes idx s) (\<lambda>(r, s).
            case r of Some p \<Rightarrow> Inr (p, s) | None \<Rightarrow>
            bindE (int_malloc_top sy av nb bytes s) (\<lambda>(r, s).
            case r of Some p \<Rightarrow> Inr (p, s) | None \<Rightarrow>
            if have_fastchunks s av
            then bindE (malloc_consolidate sy av s)
                   (int_malloc_loop n sy av nb bytes tc_idx tcache_nb count cached)
            else int_malloc_sys sy nb av bytes s)))))"

definition int_malloc :: "'k sys \<Rightarrow> ptr \<Rightarrow> u64 \<Rightarrow> 'k st \<Rightarrow> abort + ptr \<times> 'k st" where
  "int_malloc sy av bytes s =
     (if bytes > PTRDIFF_MAX then Inr (NULL, set_errno ENOMEM s)
      else
        (let nb = checked_request2size bytes in
         if av = NULL then int_malloc_sys sy nb av bytes s
         else
           bindE (int_malloc_fastbin av nb bytes s) (\<lambda>(r, s).
           case r of Some p \<Rightarrow> Inr (p, s) | None \<Rightarrow>
           bindE (if in_smallbin_range nb then int_malloc_smallbin sy av nb bytes s
                  else if have_fastchunks s av
                  then bindE (malloc_consolidate sy av s) (\<lambda>s. Inr (None, s))
                  else Inr (None, s)) (\<lambda>(r, s).
           case r of Some p \<Rightarrow> Inr (p, s) | None \<Rightarrow>
           let tc_idx = csize2tidx nb;
               tcache_nb = (if tcache s \<noteq> NULL \<and> tc_idx < tcache_small_bins (mp s) then nb else 0)
           in int_malloc_loop (loop_fuel sy) sy av nb bytes tc_idx tcache_nb 0 False s))))"

end
