(* ===== verification/Alloc.thy ===== *)
theory Alloc
  imports Malloc
begin

text \<open>
  The entry points of \<^verbatim>\<open>scalloc/src/scalloc.c\<close> and what stands between them and the arena:
  \<open>malloc\<close>, \<open>free\<close> with the double-free check, \<open>calloc\<close>, \<open>realloc\<close> and the aligned
  allocators (lines 3221 to 3870, 4913 to 5140, 5223 to 5246 and 5777 to 5795). The functions
  \<open>__libc_x\<close>, \<open>_int_x\<close> and \<open>_mid_x\<close> of the source are \<open>libc_x\<close>, \<open>int_x\<close> and \<open>mid_x\<close> here.
\<close>

section \<open>malloc\<close>

definition arena_assert :: "'k sys \<Rightarrow> ptr \<Rightarrow> ptr \<Rightarrow> 'k st \<Rightarrow> abort + unit" where
  "arena_assert sy av victim s =
     assertE ''arena_for_chunk (mem2chunk (victim))''
       (victim = NULL \<or> chunk_is_mmapped (mem s) (mem2chunk victim)
        \<or> av = arena_for_chunk sy s (mem2chunk victim))"

definition libc_malloc2 :: "'k sys \<Rightarrow> u64 \<Rightarrow> 'k st \<Rightarrow> abort + ptr \<times> 'k st" where
  "libc_malloc2 sy bytes s =
     bindE (int_malloc sy (main_arena sy) bytes s) (\<lambda>(victim, s).
     bindE (arena_assert sy (main_arena sy) victim s) (\<lambda>_. Inr (victim, s)))"

definition tcache_init :: "'k sys \<Rightarrow> 'k st \<Rightarrow> abort + 'k st" where
  "tcache_init sy s =
     (if tcache_shutting_down s then Inr s
      else
        bindE (libc_malloc2 sy sizeof_tcache s) (\<lambda>(t, s).
          let s = s\<lparr>tcache := t\<rparr> in
          if t \<noteq> NULL
          then Inr ((upd_mem (\<lambda>m. memset_at m t 0 sizeof_tcache) s)
                 \<lparr>num_slots := (\<lambda>i. if i < TCACHE_MAX_BINS then ucast (tcache_count (mp s)) else num_slots s i)\<rparr>)
          else Inr s))"

definition tcache_malloc_init :: "'k sys \<Rightarrow> u64 \<Rightarrow> 'k st \<Rightarrow> abort + ptr \<times> 'k st" where
  "tcache_malloc_init sy bytes s = bindE (tcache_init sy s) (libc_malloc2 sy bytes)"

definition libc_malloc :: "'k sys \<Rightarrow> u64 \<Rightarrow> 'k st \<Rightarrow> abort + ptr \<times> 'k st" where
  "libc_malloc sy bytes s =
     (let nb = checked_request2size bytes in
      if nb < tcache_max_bytes (mp s)
      then
        (let tc_idx = csize2tidx nb in
         if tcache s = NULL then tcache_malloc_init sy bytes s
         else if tc_idx < TCACHE_SMALL_BINS
         then (if mem s (tcache_entry_addr s tc_idx) \<noteq> NULL then tcache_get tc_idx s
               else libc_malloc2 sy bytes s)
         else
           bindE (tcache_get_large sy (large_csize2tidx nb) nb s) (\<lambda>(victim, s).
             if victim \<noteq> NULL then Inr (victim, s) else libc_malloc2 sy bytes s))
      else libc_malloc2 sy bytes s)"

section \<open>free\<close>

definition malloc_printerr_tail :: "string \<Rightarrow> 'k st \<Rightarrow> abort + 'k st" where
  "malloc_printerr_tail str s = (if dummy_var s \<noteq> 0 then Inr s else Inl (Printerr str))"

text \<open>
  \<open>tcache_double_free_verify\<close> walks every bin of the cache; the walk of a bin stops after
  \<open>tcache_count\<close> chunks.
\<close>

function verify_chain :: "memory \<Rightarrow> ptr \<Rightarrow> u64 \<Rightarrow> u64 \<Rightarrow> ptr \<Rightarrow> abort + unit" where
  "verify_chain m e limit cnt tmp =
     (if tmp = NULL then Inr ()
      else if cnt \<ge> limit then Inl (Printerr ''free(): too many chunks detected in tcache'')
      else if misaligned_mem tmp
      then Inl (Printerr ''free(): unaligned chunk detected in tcache 2'')
      else if tmp = e then Inl (Printerr ''free(): double free detected in tcache 2'')
      else verify_chain m e limit (cnt + 1) (REVEAL_PTR tmp (m tmp)))"
  by pat_completeness auto

lemma count_up_decr:
  assumes "\<not> limit \<le> (cnt :: u64)"
  shows "unat limit - unat (cnt + 1) < unat limit - unat cnt"
proof -
  have "unat (cnt + 1) = unat cnt + 1"
    using assms by (metis Suc_eq_plus1 add.commute add_eq_0_iff unatSuc word_order.extremum)
  then show ?thesis using assms by (simp add: word_le_nat_alt)
qed

termination verify_chain
  by (relation "measure (\<lambda>(m, e, limit, cnt, tmp). unat limit - unat cnt)")
    (use count_up_decr in auto)

declare verify_chain.simps [simp del]

fun verify_bins :: "u64 list \<Rightarrow> ptr \<Rightarrow> 'k st \<Rightarrow> abort + unit" where
  "verify_bins [] e s = Inr ()"
| "verify_bins (i # is) e s =
     bindE (verify_chain (mem s) e (tcache_count (mp s)) 0 (mem s (tcache_entry_addr s i)))
       (\<lambda>_. verify_bins is e s)"

definition tcache_indices :: "u64 list" where
  "tcache_indices = map of_nat [0..<76]"

definition add_overflows :: "u64 \<Rightarrow> u64 \<Rightarrow> bool" where
  "add_overflows a b \<longleftrightarrow> a + b < a"

definition free_to_arena :: "'k sys \<Rightarrow> ptr \<Rightarrow> u64 \<Rightarrow> 'k st \<Rightarrow> abort + 'k st" where
  "free_to_arena sy p sz s =
     (if add_overflows p (sz - MINSIZE)
      then malloc_printerr_tail ''free(): invalid size'' s
      else int_free_chunk sy (arena_for_chunk sy s p) p sz False s)"

text \<open>
  \<open>__libc_free\<close>; the retry of \<open>tcache_double_free_verify\<close> after clearing the key is the
  recursive call.
\<close>

fun libc_free_retry :: "nat \<Rightarrow> 'k sys \<Rightarrow> ptr \<Rightarrow> 'k st \<Rightarrow> abort + 'k st" where
  "libc_free_retry 0 sy mp_mem s = Inl Out_of_fuel"
| "libc_free_retry (Suc n) sy mp_mem s =
     (if mp_mem = NULL then Inr s
      else
        (let p = mem2chunk mp_mem; sz = chunksize (mem s) p in
         if misaligned_chunk p then malloc_printerr_tail ''free(): invalid pointer'' s
         else if sz < tcache_max_bytes (mp s) \<and> tcache s \<noteq> NULL
         then
           (let e = chunk2mem p in
            if mem s (e + 8) = tcache_key s
            then bindE (verify_bins tcache_indices e s)
                   (\<lambda>_. libc_free_retry n sy e (upd_mem (\<lambda>m. m(e + 8 := 0)) s))
            else
              (let tc_idx = csize2tidx sz in
               if tc_idx < TCACHE_SMALL_BINS
               then (if num_slots s tc_idx \<noteq> 0 then Inr (tcache_put p tc_idx s)
                     else free_to_arena sy p sz s)
               else
                 (let tc_idx = large_csize2tidx sz in
                  if sz \<ge> MINSIZE \<and> num_slots s tc_idx \<noteq> 0 then tcache_put_large sy p tc_idx s
                  else free_to_arena sy p sz s)))
         else free_to_arena sy p sz s))"

definition libc_free :: "'k sys \<Rightarrow> ptr \<Rightarrow> 'k st \<Rightarrow> abort + 'k st" where
  "libc_free sy = libc_free_retry (loop_fuel sy) sy"

fun shutdown_bin :: "nat \<Rightarrow> 'k sys \<Rightarrow> ptr \<Rightarrow> 'k st \<Rightarrow> abort + 'k st" where
  "shutdown_bin 0 sy ea s = Inl Out_of_fuel"
| "shutdown_bin (Suc n) sy ea s =
     (let e = mem s ea in
      if e = NULL then Inr s
      else if misaligned_mem e
      then Inl (Printerr ''tcache_thread_shutdown(): unaligned tcache chunk detected'')
      else bindE (libc_free sy e (upd_mem (\<lambda>m. m(ea := REVEAL_PTR e (m e))) s))
             (shutdown_bin n sy ea))"

fun shutdown_bins :: "'k sys \<Rightarrow> ptr list \<Rightarrow> 'k st \<Rightarrow> abort + 'k st" where
  "shutdown_bins sy [] s = Inr s"
| "shutdown_bins sy (a # as) s =
     bindE (shutdown_bin (loop_fuel sy) sy a s) (shutdown_bins sy as)"

definition tcache_thread_shutdown :: "'k sys \<Rightarrow> 'k st \<Rightarrow> abort + 'k st" where
  "tcache_thread_shutdown sy s =
     (let tcache_tmp = tcache s; s = s\<lparr>tcache_shutting_down := True\<rparr> in
      if tcache_tmp = NULL then Inr s
      else
        bindE (shutdown_bins sy (map (\<lambda>i. tcache_tmp + 152 + 8 * i) tcache_indices)
                 (s\<lparr>tcache := NULL\<rparr>))
          (libc_free sy tcache_tmp))"

section \<open>Usable size\<close>

definition musable :: "'k st \<Rightarrow> ptr \<Rightarrow> u64" where
  "musable s mp_mem =
     (let p = mem2chunk mp_mem in
      if chunk_is_mmapped (mem s) p then memsize (mem s) p
      else if inuse (mem s) p then memsize (mem s) p
      else 0)"

definition malloc_usable_size :: "'k st \<Rightarrow> ptr \<Rightarrow> u64" where
  "malloc_usable_size s mp_mem = (if mp_mem = NULL then 0 else musable s mp_mem)"

section \<open>calloc\<close>

definition tcache_calloc_hit :: "u64 \<Rightarrow> ptr \<times> 'k st \<Rightarrow> ptr \<times> 'k st" where
  "tcache_calloc_hit n r = (case r of (p, s) \<Rightarrow> (p, upd_mem (\<lambda>m. memset_at m p 0 n) s))"

definition calloc_oldtop :: "'k sys \<Rightarrow> ptr \<Rightarrow> 'k st \<Rightarrow> ptr \<times> u64" where
  "calloc_oldtop sy av s =
     (let oldtop = get_top (mem s) av;
          oldtopsize = chunksize (mem s) oldtop;
          fresh = sbrk_base (mp s) + max_system_mem s av - oldtop;
          oldtopsize = (if av = main_arena sy \<and> oldtopsize < fresh then fresh else oldtopsize) in
      if av \<noteq> main_arena sy
      then (let heap = heap_for_ptr sy oldtop;
                rest = heap + heap_mprotect_size sy s heap - oldtop in
            (oldtop, if oldtopsize < rest then rest else oldtopsize))
      else (oldtop, oldtopsize))"

definition libc_calloc2 :: "'k sys \<Rightarrow> u64 \<Rightarrow> 'k st \<Rightarrow> abort + ptr \<times> 'k st" where
  "libc_calloc2 sy sz s =
     (let av = main_arena sy; (oldtop, oldtopsize) = calloc_oldtop sy av s in
      bindE (int_malloc sy av sz s) (\<lambda>(r, s).
      bindE (arena_assert sy av r s) (\<lambda>_.
        if r = NULL then Inr (NULL, s)
        else
          (let p = mem2chunk r; csz = chunksize (mem s) p in
           if chunk_is_mmapped (mem s) p
           then Inr (r, if perturb_byte s \<noteq> 0 then upd_mem (\<lambda>m. memset_at m r 0 sz) s else s)
           else
             (let csz = (if perturb_byte s = 0 \<and> p = oldtop \<and> csz > oldtopsize
                         then oldtopsize else csz);
                  clearsize = csz - SIZE_SZ
              in Inr (r, upd_mem (\<lambda>m. memset_at m r 0 clearsize) s))))))"

definition tcache_calloc_init :: "'k sys \<Rightarrow> u64 \<Rightarrow> 'k st \<Rightarrow> abort + ptr \<times> 'k st" where
  "tcache_calloc_init sy bytes s = bindE (tcache_init sy s) (libc_calloc2 sy bytes)"

definition libc_calloc :: "'k sys \<Rightarrow> u64 \<Rightarrow> u64 \<Rightarrow> 'k st \<Rightarrow> abort + ptr \<times> 'k st" where
  "libc_calloc sy n elem_size s =
     (if unat n * unat elem_size \<ge> 2 ^ 64 then Inr (NULL, set_errno ENOMEM s)
      else
        (let bytes = n * elem_size; nb = checked_request2size bytes in
         if nb < tcache_max_bytes (mp s)
         then
           (if tcache s = NULL then tcache_calloc_init sy bytes s
            else
              (let tc_idx = csize2tidx nb in
               if tc_idx < TCACHE_SMALL_BINS
               then (if mem s (tcache_entry_addr s tc_idx) \<noteq> NULL
                     then bindE (tcache_get tc_idx s)
                            (\<lambda>r. Inr (tcache_calloc_hit (tidx2usize tc_idx) r))
                     else libc_calloc2 sy bytes s)
               else
                 bindE (tcache_get_large sy (large_csize2tidx nb) nb s) (\<lambda>(r, s).
                   if r \<noteq> NULL
                   then Inr (tcache_calloc_hit (memsize (mem s) (mem2chunk r)) (r, s))
                   else libc_calloc2 sy bytes s)))
         else libc_calloc2 sy bytes s))"

section \<open>realloc\<close>

text \<open>Giving back the end of a chunk that is larger than needed.\<close>

definition realloc_tail ::
  "'k sys \<Rightarrow> ptr \<Rightarrow> ptr \<Rightarrow> u64 \<Rightarrow> u64 \<Rightarrow> 'k st \<Rightarrow> abort + ptr \<times> 'k st" where
  "realloc_tail sy av newp newsize nb s =
     bindE (assertE ''newsize >= nb'' (newsize \<ge> nb)) (\<lambda>_.
       let remainder_size = newsize - nb in
       if remainder_size < MINSIZE
       then
         (let s = upd_mem (\<lambda>m. set_head_size m newp (newsize OR main_bit sy av)) s;
              s = upd_mem (\<lambda>m. set_inuse_bit_at_offset m newp newsize) s
          in Inr (chunk2mem newp, s))
       else
         (let remainder = chunk_at_offset newp nb;
              s = upd_mem (\<lambda>m. set_head_size m newp (nb OR main_bit sy av)) s;
              s = upd_mem (\<lambda>m. set_head m remainder
                    (remainder_size OR PREV_INUSE OR main_bit sy av)) s;
              s = upd_mem (\<lambda>m. set_inuse_bit_at_offset m remainder remainder_size) s in
          bindE (int_free_chunk sy av remainder (chunksize (mem s) remainder) True s)
            (\<lambda>s. Inr (chunk2mem newp, s))))"

definition realloc_move ::
  "'k sys \<Rightarrow> ptr \<Rightarrow> ptr \<Rightarrow> u64 \<Rightarrow> u64 \<Rightarrow> ptr \<Rightarrow> 'k st \<Rightarrow> abort + ptr \<times> 'k st" where
  "realloc_move sy av oldp oldsize nb next s =
     bindE (int_malloc sy av (nb - MALLOC_ALIGN_MASK) s) (\<lambda>(newmem, s).
       if newmem = NULL then Inr (NULL, s)
       else
         (let newp = mem2chunk newmem; newsize = chunksize (mem s) newp in
          if newp = next then realloc_tail sy av oldp (newsize + oldsize) nb s
          else
            (let oldmem = chunk2mem oldp; sz = memsize (mem s) oldp;
                 s = upd_mem (\<lambda>m. memcpy_at m newmem oldmem sz) s in
             bindE (int_free_chunk sy av oldp (chunksize (mem s) oldp) True s)
               (\<lambda>s. Inr (newmem, s)))))"

definition int_realloc ::
  "'k sys \<Rightarrow> ptr \<Rightarrow> ptr \<Rightarrow> u64 \<Rightarrow> u64 \<Rightarrow> 'k st \<Rightarrow> abort + ptr \<times> 'k st" where
  "int_realloc sy av oldp oldsize nb s =
     (if chunksize_nomask (mem s) oldp \<le> CHUNK_HDR_SZ \<or> oldsize \<ge> system_mem s av
         \<or> oldsize \<noteq> chunksize (mem s) oldp
      then Inl (Printerr ''realloc(): invalid old size'')
      else
        bindE (assertE ''!chunk_is_mmapped (oldp)'' (\<not> chunk_is_mmapped (mem s) oldp)) (\<lambda>_.
        let next = chunk_at_offset oldp oldsize; nextsize = chunksize (mem s) next in
        if chunksize_nomask (mem s) next \<le> CHUNK_HDR_SZ \<or> nextsize \<ge> system_mem s av
        then Inl (Printerr ''realloc(): invalid next size'')
        else if oldsize \<ge> nb then realloc_tail sy av oldp oldsize nb s
        else if next = get_top (mem s) av \<and> oldsize + nextsize \<ge> nb + MINSIZE
        then
          (let newsize = oldsize + nextsize;
               s = upd_mem (\<lambda>m. set_head_size m oldp (nb OR main_bit sy av)) s;
               s = upd_mem (\<lambda>m. set_top m av (chunk_at_offset oldp nb)) s;
               s = upd_mem (\<lambda>m. set_head m (get_top m av) ((newsize - nb) OR PREV_INUSE)) s
           in Inr (chunk2mem oldp, s))
        else if next \<noteq> get_top (mem s) av \<and> \<not> inuse (mem s) next \<and> oldsize + nextsize \<ge> nb
        then bindE (unlink_chunk (mem s) next)
               (\<lambda>m. realloc_tail sy av oldp (oldsize + nextsize) nb (s\<lparr>mem := m\<rparr>))
        else realloc_move sy av oldp oldsize nb next s))"

definition realloc_mmapped ::
  "'k sys \<Rightarrow> ptr \<Rightarrow> u64 \<Rightarrow> u64 \<Rightarrow> u64 \<Rightarrow> u64 \<Rightarrow> 'k st \<Rightarrow> abort + ptr \<times> 'k st" where
  "realloc_mmapped sy oldmem bytes usable oldsize nb s =
     (let oldp = mem2chunk oldmem in
      bindE (if have_mremap sy then mremap_chunk sy oldp nb s else Inr (NULL, s)) (\<lambda>(newp, s).
        if newp \<noteq> NULL then Inr (chunk2mem newp, s)
        else if bytes \<le> usable then Inr (oldmem, s)
        else
          bindE (libc_malloc sy bytes s) (\<lambda>(newmem, s).
            if newmem = NULL then Inr (NULL, s)
            else
              (let s = upd_mem (\<lambda>m. memcpy_at m newmem oldmem (oldsize - CHUNK_HDR_SZ)) s in
               bindE (munmap_chunk sy oldp s) (\<lambda>s. Inr (newmem, s))))))"

definition libc_realloc :: "'k sys \<Rightarrow> ptr \<Rightarrow> u64 \<Rightarrow> 'k st \<Rightarrow> abort + ptr \<times> 'k st" where
  "libc_realloc sy oldmem bytes s =
     (if oldmem = NULL then libc_malloc sy bytes s
      else if bytes = 0 then bindE (libc_free sy oldmem s) (\<lambda>s. Inr (NULL, s))
      else
        (let oldp = mem2chunk oldmem; usable = musable s oldmem in
         if bytes \<le> usable \<and> usable - bytes < 2 * SIZE_SZ then Inr (oldmem, s)
         else
           (let oldsize = chunksize (mem s) oldp in
            if oldp > - oldsize \<or> misaligned_chunk oldp
            then Inl (Printerr ''realloc(): invalid pointer'')
            else if bytes > PTRDIFF_MAX then Inr (NULL, set_errno ENOMEM s)
            else
              (let nb = checked_request2size bytes in
               if chunk_is_mmapped (mem s) oldp
               then realloc_mmapped sy oldmem bytes usable oldsize nb s
               else
                 (let ar_ptr = arena_for_chunk sy s oldp in
                  bindE (int_realloc sy ar_ptr oldp oldsize nb s) (\<lambda>(newp, s).
                  bindE (arena_assert sy ar_ptr newp s) (\<lambda>_. Inr (newp, s))))))))"

section \<open>Aligned allocation\<close>

text \<open>The worst-case request that \<open>_int_memalign\<close> passes to \<open>_int_malloc\<close>.\<close>

definition memalign_request :: "u64 \<Rightarrow> u64 \<Rightarrow> u64" where
  "memalign_request nb alignment = nb + alignment + MINSIZE"

text \<open>The first aligned chunk address in \<open>p\<close> that leaves room for a leading chunk.\<close>

definition memalign_brk :: "ptr \<Rightarrow> u64 \<Rightarrow> ptr" where
  "memalign_brk p alignment =
     (let brk = mem2chunk ((chunk2mem p + alignment - 1) AND (- alignment)) in
      if brk - p < MINSIZE then brk + alignment else brk)"

definition memalign_tail ::
  "'k sys \<Rightarrow> ptr \<Rightarrow> ptr \<Rightarrow> u64 \<Rightarrow> 'k st \<Rightarrow> abort + ptr \<times> 'k st" where
  "memalign_tail sy av p nb s =
     (if \<not> chunk_is_mmapped (mem s) p
      then
        (let sz = chunksize (mem s) p;
             nextchunk = chunk_at_offset p sz;
             nextsize = chunksize (mem s) nextchunk in
         if sz > nb \<and> (sz - nb \<ge> MINSIZE \<or> nextchunk = get_top (mem s) av
                        \<or> \<not> inuse_bit_at_offset (mem s) nextchunk nextsize)
         then
           (let remainder_size = sz - nb;
                remainder = chunk_at_offset p nb;
                s = upd_mem (\<lambda>m. set_head_size m p nb) s in
            bindE (int_free_create_chunk av remainder remainder_size nextchunk nextsize s)
              (\<lambda>(remainder_size, s).
            bindE (int_free_maybe_consolidate sy av remainder_size s)
              (\<lambda>s. Inr (chunk2mem p, s))))
         else Inr (chunk2mem p, s))
      else Inr (chunk2mem p, s))"

definition int_memalign ::
  "'k sys \<Rightarrow> ptr \<Rightarrow> u64 \<Rightarrow> u64 \<Rightarrow> 'k st \<Rightarrow> abort + ptr \<times> 'k st" where
  "int_memalign sy av alignment bytes s =
     (if bytes > PTRDIFF_MAX then Inr (NULL, set_errno ENOMEM s)
      else
        (let nb = checked_request2size bytes in
         bindE (int_malloc sy av (memalign_request nb alignment) s) (\<lambda>(r, s).
           if r = NULL then Inr (NULL, s)
           else
             (let p = mem2chunk r in
              if r mod alignment \<noteq> 0
              then
                (let newp = memalign_brk p alignment;
                     leadsize = newp - p;
                     newsize = chunksize (mem s) p - leadsize in
                 if chunk_is_mmapped (mem s) p
                 then
                   (let s = upd_mem (\<lambda>m. set_prev_size m newp (prev_size m p + leadsize)) s;
                        s = upd_mem (\<lambda>m. set_head m newp (newsize OR IS_MMAPPED)) s
                    in Inr (chunk2mem newp, s))
                 else
                   (let s = upd_mem (\<lambda>m. set_head m newp
                              (newsize OR PREV_INUSE OR main_bit sy av)) s;
                        s = upd_mem (\<lambda>m. set_inuse_bit_at_offset m newp newsize) s;
                        s = upd_mem (\<lambda>m. set_head_size m p (leadsize OR main_bit sy av)) s in
                    bindE (int_free_merge_chunk sy av p leadsize s) (\<lambda>s.
                    bindE (assertE ''newsize >= nb && aligned''
                             (newsize \<ge> nb \<and> chunk2mem newp mod alignment = 0)) (\<lambda>_.
                    memalign_tail sy av newp nb s))))
              else memalign_tail sy av p nb s))))"

fun tcache_align_walk ::
  "nat \<Rightarrow> memory \<Rightarrow> u64 \<Rightarrow> u64 \<Rightarrow> ptr \<Rightarrow> ptr \<Rightarrow> bool \<Rightarrow> abort + ptr \<times> ptr \<times> bool" where
  "tcache_align_walk 0 m nb alignment tep te mangled = Inl Out_of_fuel"
| "tcache_align_walk (Suc n) m nb alignment tep te mangled =
     (if te \<noteq> NULL \<and> (chunksize m (mem2chunk te) < nb \<or>
           chunksize m (mem2chunk te) = nb \<and> \<not> PTR_IS_ALIGNED te alignment)
      then tcache_align_walk n m nb alignment te (REVEAL_PTR te (m te)) True
      else Inr (tep, te, mangled))"

definition tcache_get_align ::
  "'k sys \<Rightarrow> u64 \<Rightarrow> u64 \<Rightarrow> 'k st \<Rightarrow> abort + ptr \<times> 'k st" where
  "tcache_get_align sy nb alignment s =
     (if nb < tcache_max_bytes (mp s)
      then
        (if tcache s = NULL then bindE (tcache_init sy s) (\<lambda>s. Inr (NULL, s))
         else
           (let tc_idx = csize2tidx nb;
                tc_idx = (if tc_idx \<ge> TCACHE_SMALL_BINS then large_csize2tidx nb else tc_idx);
                tep = tcache_entry_addr s tc_idx in
            bindE (tcache_align_walk (loop_fuel sy) (mem s) nb alignment tep (mem s tep) False)
              (\<lambda>(tep, te, mangled).
                 if te \<noteq> NULL \<and> chunksize (mem s) (mem2chunk te) = nb \<and> PTR_IS_ALIGNED te alignment
                 then tcache_get_n tc_idx tep mangled s
                 else Inr (NULL, s))))
      else Inr (NULL, s))"

text \<open>\<open>while (a < alignment) a <<= 1\<close>, from \<open>MALLOC_ALIGNMENT * 2\<close>.\<close>

fun round_up_pow2 :: "nat \<Rightarrow> u64 \<Rightarrow> u64 \<Rightarrow> abort + u64" where
  "round_up_pow2 0 a alignment = Inl Out_of_fuel"
| "round_up_pow2 (Suc n) a alignment =
     (if a < alignment then round_up_pow2 n (push_bit 1 a) alignment else Inr a)"

definition mid_memalign :: "'k sys \<Rightarrow> u64 \<Rightarrow> u64 \<Rightarrow> 'k st \<Rightarrow> abort + ptr \<times> 'k st" where
  "mid_memalign sy alignment bytes s =
     (if alignment \<le> MALLOC_ALIGNMENT then libc_malloc sy bytes s
      else
        (let alignment = (if alignment < MINSIZE then MINSIZE else alignment) in
         if alignment > SIZE_MAX div 2 + 1 then Inr (NULL, set_errno EINVAL s)
         else
           bindE (if \<not> powerof2 alignment
                  then round_up_pow2 64 (MALLOC_ALIGNMENT * 2) alignment
                  else Inr alignment) (\<lambda>alignment.
           bindE (tcache_get_align sy (checked_request2size bytes) alignment s) (\<lambda>(victim, s).
             if victim \<noteq> NULL then Inr (victim, s)
             else
               bindE (int_memalign sy (main_arena sy) alignment bytes s) (\<lambda>(p, s).
               bindE (arena_assert sy (main_arena sy) p s) (\<lambda>_. Inr (p, s)))))))"

definition libc_memalign :: "'k sys \<Rightarrow> u64 \<Rightarrow> u64 \<Rightarrow> 'k st \<Rightarrow> abort + ptr \<times> 'k st" where
  "libc_memalign = mid_memalign"

definition aligned_alloc :: "'k sys \<Rightarrow> u64 \<Rightarrow> u64 \<Rightarrow> 'k st \<Rightarrow> abort + ptr \<times> 'k st" where
  "aligned_alloc sy alignment bytes s =
     (if \<not> powerof2 alignment \<or> alignment = 0 then Inr (NULL, set_errno EINVAL s)
      else mid_memalign sy alignment bytes s)"

definition libc_valloc :: "'k sys \<Rightarrow> u64 \<Rightarrow> 'k st \<Rightarrow> abort + ptr \<times> 'k st" where
  "libc_valloc sy = mid_memalign sy (dl_pagesize sy)"

definition libc_pvalloc :: "'k sys \<Rightarrow> u64 \<Rightarrow> 'k st \<Rightarrow> abort + ptr \<times> 'k st" where
  "libc_pvalloc sy bytes s =
     (let pagesize = dl_pagesize sy in
      if add_overflows bytes (pagesize - 1) then Inr (NULL, set_errno ENOMEM s)
      else mid_memalign sy pagesize ((bytes + (pagesize - 1)) AND (- pagesize)) s)"

text \<open>\<open>posix_memalign\<close>: the error code and, on success, the value stored in \<open>*memptr\<close>.\<close>

definition posix_memalign ::
  "'k sys \<Rightarrow> u64 \<Rightarrow> u64 \<Rightarrow> 'k st \<Rightarrow> abort + (u32 \<times> ptr option) \<times> 'k st" where
  "posix_memalign sy alignment sz s =
     (if alignment mod 8 \<noteq> 0 \<or> \<not> powerof2 (alignment div 8) \<or> alignment = 0
      then Inr ((EINVAL, None), s)
      else
        bindE (mid_memalign sy alignment sz s) (\<lambda>(r, s).
          if r \<noteq> NULL then Inr ((0, Some r), s) else Inr ((ENOMEM, None), s)))"

end
