(* ===== verification/Mallopt.thy ===== *)
theory Mallopt
  imports Alloc
begin

text \<open>
  \<open>mallopt\<close> and the setters of the parameters (lines 5401 to 5606 of
  \<^verbatim>\<open>scalloc/src/scalloc.c\<close>), and the reports \<open>mallinfo\<close> with \<open>malloc_trim\<close> (lines 5148 to
  5352). The platform's huge page configuration used by \<open>do_set_hugetlb\<close> is an argument.
\<close>

section \<open>Setters\<close>

definition upd_mp :: "(malloc_par \<Rightarrow> malloc_par) \<Rightarrow> 'k st \<Rightarrow> 'k st" where
  "upd_mp f s = s\<lparr>mp := f (mp s)\<rparr>"

definition do_set_trim_threshold :: "u64 \<Rightarrow> 'k st \<Rightarrow> u32 \<times> 'k st" where
  "do_set_trim_threshold v s = (1, upd_mp (\<lambda>q. q\<lparr>trim_threshold := v, no_dyn_threshold := 1\<rparr>) s)"

definition do_set_top_pad :: "u64 \<Rightarrow> 'k st \<Rightarrow> u32 \<times> 'k st" where
  "do_set_top_pad v s = (1, upd_mp (\<lambda>q. q\<lparr>top_pad := v, no_dyn_threshold := 1\<rparr>) s)"

definition do_set_mmap_threshold :: "u64 \<Rightarrow> 'k st \<Rightarrow> u32 \<times> 'k st" where
  "do_set_mmap_threshold v s = (1, upd_mp (\<lambda>q. q\<lparr>mmap_threshold := v, no_dyn_threshold := 1\<rparr>) s)"

definition do_set_mmaps_max :: "u32 \<Rightarrow> 'k st \<Rightarrow> u32 \<times> 'k st" where
  "do_set_mmaps_max v s = (1, upd_mp (\<lambda>q. q\<lparr>n_mmaps_max := v, no_dyn_threshold := 1\<rparr>) s)"

definition do_set_mallopt_check :: "u32 \<Rightarrow> 'k st \<Rightarrow> u32 \<times> 'k st" where
  "do_set_mallopt_check v s = (1, s)"

definition do_set_perturb_byte :: "u32 \<Rightarrow> 'k st \<Rightarrow> u32 \<times> 'k st" where
  "do_set_perturb_byte v s = (1, s\<lparr>perturb_byte := v\<rparr>)"

definition do_set_arena_test :: "u64 \<Rightarrow> 'k st \<Rightarrow> u32 \<times> 'k st" where
  "do_set_arena_test v s = (1, upd_mp (\<lambda>q. q\<lparr>arena_test := v\<rparr>) s)"

definition do_set_arena_max :: "u64 \<Rightarrow> 'k st \<Rightarrow> u32 \<times> 'k st" where
  "do_set_arena_max v s = (1, upd_mp (\<lambda>q. q\<lparr>arena_max := v\<rparr>) s)"

definition do_set_tcache_max :: "u64 \<Rightarrow> 'k st \<Rightarrow> u32 \<times> 'k st" where
  "do_set_tcache_max v s =
     (if v > PTRDIFF_MAX then (0, s)
      else
        (let nb = request2size v;
             tc_idx = csize2tidx nb;
             tc_idx = (if tc_idx \<ge> TCACHE_SMALL_BINS then large_csize2tidx nb else tc_idx) in
         if tc_idx < TCACHE_MAX_BINS
         then
           (let s = (if tc_idx < TCACHE_SMALL_BINS
                     then upd_mp (\<lambda>q. q\<lparr>tcache_small_bins := tc_idx + 1\<rparr>) s else s)
            in (1, upd_mp (\<lambda>q. q\<lparr>tcache_max_bytes := nb + 1\<rparr>) s))
         else (0, s)))"

definition do_set_tcache_count :: "u64 \<Rightarrow> 'k st \<Rightarrow> u32 \<times> 'k st" where
  "do_set_tcache_count v s =
     (if v \<le> MAX_TCACHE_COUNT then (1, upd_mp (\<lambda>q. q\<lparr>tcache_count := v\<rparr>) s) else (0, s))"

definition do_set_tcache_unsorted_limit :: "u64 \<Rightarrow> 'k st \<Rightarrow> u32 \<times> 'k st" where
  "do_set_tcache_unsorted_limit v s = (1, upd_mp (\<lambda>q. q\<lparr>tcache_unsorted_limit := v\<rparr>) s)"

definition do_set_mxfast :: "u64 \<Rightarrow> 'k st \<Rightarrow> u32 \<times> 'k st" where
  "do_set_mxfast v s = (if v \<le> MAX_FAST_SIZE then (1, set_max_fast v s) else (0, s))"

definition do_set_hugetlb ::
  "malloc_thp_mode_t \<Rightarrow> u64 \<Rightarrow> (u64 \<Rightarrow> u64 \<times> u32) \<Rightarrow> u64 \<Rightarrow> 'k st \<Rightarrow> u32 \<times> 'k st" where
  "do_set_hugetlb thp_mode_now thp_pagesize_now hugepage_config v s =
     (if v = 1
      then
        (let s = upd_mp (\<lambda>q. q\<lparr>thp_mode := thp_mode_now\<rparr>) s in
         (0, if thp_mode (mp s) = malloc_thp_mode_madvise \<or> thp_mode (mp s) = malloc_thp_mode_always
             then upd_mp (\<lambda>q. q\<lparr>thp_pagesize := thp_pagesize_now\<rparr>) s else s))
      else if v \<ge> 2
      then (case hugepage_config (if v = 2 then 0 else v) of (ps, fl) \<Rightarrow>
              (0, upd_mp (\<lambda>q. q\<lparr>hp_pagesize := ps, hp_flags := fl\<rparr>) s))
      else (0, s))"

section \<open>mallopt\<close>

abbreviation (input) M_MXFAST :: u32 where "M_MXFAST \<equiv> 1"
abbreviation (input) M_TRIM_THRESHOLD :: u32 where "M_TRIM_THRESHOLD \<equiv> - 1"
abbreviation (input) M_TOP_PAD :: u32 where "M_TOP_PAD \<equiv> - 2"
abbreviation (input) M_MMAP_THRESHOLD :: u32 where "M_MMAP_THRESHOLD \<equiv> - 3"
abbreviation (input) M_MMAP_MAX :: u32 where "M_MMAP_MAX \<equiv> - 4"
abbreviation (input) M_CHECK_ACTION :: u32 where "M_CHECK_ACTION \<equiv> - 5"
abbreviation (input) M_PERTURB :: u32 where "M_PERTURB \<equiv> - 6"
abbreviation (input) M_ARENA_TEST :: u32 where "M_ARENA_TEST \<equiv> - 7"
abbreviation (input) M_ARENA_MAX :: u32 where "M_ARENA_MAX \<equiv> - 8"

definition mallopt_switch :: "u32 \<Rightarrow> u32 \<Rightarrow> 'k st \<Rightarrow> u32 \<times> 'k st" where
  "mallopt_switch param_number v s =
     (if param_number = M_MXFAST then do_set_mxfast (scast v) s
      else if param_number = M_TRIM_THRESHOLD then do_set_trim_threshold (scast v) s
      else if param_number = M_TOP_PAD then do_set_top_pad (scast v) s
      else if param_number = M_MMAP_THRESHOLD then do_set_mmap_threshold (scast v) s
      else if param_number = M_MMAP_MAX then do_set_mmaps_max v s
      else if param_number = M_CHECK_ACTION then do_set_mallopt_check v s
      else if param_number = M_PERTURB then do_set_perturb_byte v s
      else if param_number = M_ARENA_TEST
      then (if 0 <s v then do_set_arena_test (scast v) s else (1, s))
      else if param_number = M_ARENA_MAX
      then (if 0 <s v then do_set_arena_max (scast v) s else (1, s))
      else (1, s))"

definition libc_mallopt :: "'k sys \<Rightarrow> u32 \<Rightarrow> u32 \<Rightarrow> 'k st \<Rightarrow> abort + u32 \<times> 'k st" where
  "libc_mallopt sy param_number v s =
     bindE (malloc_consolidate sy (main_arena sy) s)
       (\<lambda>s. Inr (mallopt_switch param_number v s))"

section \<open>malloc_trim\<close>

definition trim_chunk :: "'k sys \<Rightarrow> ptr \<Rightarrow> 'k st \<Rightarrow> abort + u32 \<times> 'k st" where
  "trim_chunk sy p s =
     (let psm1 = dl_pagesize sy - 1; sz = chunksize (mem s) p in
      if sz > psm1 + sizeof_malloc_chunk
      then
        (let paligned_mem = (p + sizeof_malloc_chunk + psm1) AND NOT psm1 in
         bindE (assertE ''chunk2mem (p) + 2 * CHUNK_HDR_SZ <= paligned_mem''
                  (chunk2mem p + 2 * CHUNK_HDR_SZ \<le> paligned_mem)) (\<lambda>_.
         bindE (assertE ''p + size > paligned_mem'' (p + sz > paligned_mem)) (\<lambda>_.
         let sz = sz - (paligned_mem - p) in
         if sz > psm1
         then Inr (1, madvise sy paligned_mem (sz AND NOT psm1) MADV_DONTNEED s)
         else Inr (0, s))))
      else Inr (0, s))"

fun trim_bin :: "nat \<Rightarrow> 'k sys \<Rightarrow> ptr \<Rightarrow> ptr \<Rightarrow> u32 \<Rightarrow> 'k st \<Rightarrow> abort + u32 \<times> 'k st" where
  "trim_bin 0 sy bin p result s = Inl Out_of_fuel"
| "trim_bin (Suc n) sy bin p result s =
     (if p = bin then Inr (result, s)
      else bindE (trim_chunk sy p s) (\<lambda>(r, s).
             trim_bin n sy bin (get_bk (mem s) p) (if r = 1 then 1 else result) s))"

fun trim_bins :: "nat list \<Rightarrow> 'k sys \<Rightarrow> ptr \<Rightarrow> u32 \<Rightarrow> u32 \<Rightarrow> 'k st \<Rightarrow> abort + u32 \<times> 'k st" where
  "trim_bins [] sy av psindex result s = Inr (result, s)"
| "trim_bins (j # js) sy av psindex result s =
     (let i = of_nat j; bin = bin_at av i in
      if i = 1 \<or> i \<ge> psindex
      then bindE (trim_bin (loop_fuel sy) sy bin (get_bk (mem s) bin) result s)
             (\<lambda>(result, s). trim_bins js sy av psindex result s)
      else trim_bins js sy av psindex result s)"

definition mtrim :: "'k sys \<Rightarrow> ptr \<Rightarrow> u64 \<Rightarrow> 'k st \<Rightarrow> abort + u32 \<times> 'k st" where
  "mtrim sy av pad s =
     bindE (malloc_consolidate sy av s) (\<lambda>s.
     bindE (trim_bins [1..<128] sy av (bin_index (dl_pagesize sy)) 0 s) (\<lambda>(result, s).
       if av = main_arena sy
       then (case systrim sy pad av s of (r, s) \<Rightarrow> Inr (result OR r, s))
       else Inr (result, s)))"

definition arena_next :: "memory \<Rightarrow> ptr \<Rightarrow> ptr" where
  "arena_next m av = m (av + 2160)"

fun trim_arenas :: "nat \<Rightarrow> 'k sys \<Rightarrow> ptr \<Rightarrow> u64 \<Rightarrow> u32 \<Rightarrow> 'k st \<Rightarrow> abort + u32 \<times> 'k st" where
  "trim_arenas 0 sy ar_ptr pad result s = Inl Out_of_fuel"
| "trim_arenas (Suc n) sy ar_ptr pad result s =
     bindE (mtrim sy ar_ptr pad s) (\<lambda>(r, s).
       let result = result OR r; ar_ptr = arena_next (mem s) ar_ptr in
       if ar_ptr \<noteq> main_arena sy then trim_arenas n sy ar_ptr pad result s
       else Inr (result, s))"

definition malloc_trim :: "'k sys \<Rightarrow> u64 \<Rightarrow> 'k st \<Rightarrow> abort + u32 \<times> 'k st" where
  "malloc_trim sy pad s = trim_arenas (loop_fuel sy) sy (main_arena sy) pad 0 s"

section \<open>mallinfo\<close>

record mallinfo2 =
  mi_arena :: u64
  mi_ordblks :: u64
  mi_smblks :: u64
  mi_hblks :: u64
  mi_hblkhd :: u64
  mi_usmblks :: u64
  mi_fsmblks :: u64
  mi_uordblks :: u64
  mi_fordblks :: u64
  mi_keepcost :: u64

fun info_fastbin :: "nat \<Rightarrow> memory \<Rightarrow> ptr \<Rightarrow> u32 \<Rightarrow> u64 \<Rightarrow> abort + u32 \<times> u64" where
  "info_fastbin 0 m p nfastblocks fastavail = Inl Out_of_fuel"
| "info_fastbin (Suc n) m p nfastblocks fastavail =
     (if p = NULL then Inr (nfastblocks, fastavail)
      else if misaligned_chunk p
      then Inl (Printerr ''int_mallinfo(): unaligned fastbin chunk detected'')
      else info_fastbin n m (REVEAL_PTR (p + 16) (get_fd m p)) (nfastblocks + 1)
             (fastavail + chunksize m p))"

fun info_fastbins :: "u32 list \<Rightarrow> nat \<Rightarrow> ptr \<Rightarrow> memory \<Rightarrow> u32 \<Rightarrow> u64 \<Rightarrow> abort + u32 \<times> u64" where
  "info_fastbins [] fuel av m nfastblocks fastavail = Inr (nfastblocks, fastavail)"
| "info_fastbins (i # is) fuel av m nfastblocks fastavail =
     bindE (info_fastbin fuel m (m (fastbin_addr av i)) nfastblocks fastavail)
       (\<lambda>(nfastblocks, fastavail). info_fastbins is fuel av m nfastblocks fastavail)"

fun info_bin :: "nat \<Rightarrow> memory \<Rightarrow> ptr \<Rightarrow> ptr \<Rightarrow> u32 \<Rightarrow> u64 \<Rightarrow> abort + u32 \<times> u64" where
  "info_bin 0 m b p nblocks avail = Inl Out_of_fuel"
| "info_bin (Suc n) m b p nblocks avail =
     (if p = b then Inr (nblocks, avail)
      else info_bin n m b (get_bk m p) (nblocks + 1) (avail + chunksize m p))"

fun info_bins :: "nat list \<Rightarrow> nat \<Rightarrow> ptr \<Rightarrow> memory \<Rightarrow> u32 \<Rightarrow> u64 \<Rightarrow> abort + u32 \<times> u64" where
  "info_bins [] fuel av m nblocks avail = Inr (nblocks, avail)"
| "info_bins (j # js) fuel av m nblocks avail =
     (let b = bin_at av (of_nat j) in
      bindE (info_bin fuel m b (get_bk m b) nblocks avail)
        (\<lambda>(nblocks, avail). info_bins js fuel av m nblocks avail))"

definition int_mallinfo :: "'k sys \<Rightarrow> ptr \<Rightarrow> 'k st \<Rightarrow> mallinfo2 \<Rightarrow> abort + mallinfo2" where
  "int_mallinfo sy av s mi =
     (let m = mem s in
      bindE (info_fastbins fastbin_indices (loop_fuel sy) av m 0 0) (\<lambda>(nfastblocks, fastavail).
      bindE (info_bins [1..<128] (loop_fuel sy) av m 1 (chunksize m (get_top m av) + fastavail))
        (\<lambda>(nblocks, avail).
          let mi = mi\<lparr>mi_smblks := mi_smblks mi + scast nfastblocks,
                      mi_ordblks := mi_ordblks mi + scast nblocks,
                      mi_fordblks := mi_fordblks mi + avail,
                      mi_uordblks := mi_uordblks mi + (system_mem s av - avail),
                      mi_arena := mi_arena mi + system_mem s av,
                      mi_fsmblks := mi_fsmblks mi + fastavail\<rparr> in
          Inr (if av = main_arena sy
               then mi\<lparr>mi_hblks := scast (n_mmaps (mp s)), mi_hblkhd := mmapped_mem (mp s),
                       mi_usmblks := 0, mi_keepcost := chunksize m (get_top m av)\<rparr>
               else mi))))"

definition zero_mallinfo2 :: mallinfo2 where
  "zero_mallinfo2 = \<lparr>mi_arena = 0, mi_ordblks = 0, mi_smblks = 0, mi_hblks = 0, mi_hblkhd = 0,
     mi_usmblks = 0, mi_fsmblks = 0, mi_uordblks = 0, mi_fordblks = 0, mi_keepcost = 0\<rparr>"

fun info_arenas :: "nat \<Rightarrow> 'k sys \<Rightarrow> ptr \<Rightarrow> 'k st \<Rightarrow> mallinfo2 \<Rightarrow> abort + mallinfo2" where
  "info_arenas 0 sy ar_ptr s mi = Inl Out_of_fuel"
| "info_arenas (Suc n) sy ar_ptr s mi =
     bindE (int_mallinfo sy ar_ptr s mi) (\<lambda>mi.
       let ar_ptr = arena_next (mem s) ar_ptr in
       if ar_ptr \<noteq> main_arena sy then info_arenas n sy ar_ptr s mi else Inr mi)"

definition libc_mallinfo2 :: "'k sys \<Rightarrow> 'k st \<Rightarrow> abort + mallinfo2" where
  "libc_mallinfo2 sy s = info_arenas (loop_fuel sy) sy (main_arena sy) s zero_mallinfo2"

text \<open>\<open>mallinfo\<close>: the ten fields in order, truncated to \<open>int\<close>.\<close>

definition libc_mallinfo :: "'k sys \<Rightarrow> 'k st \<Rightarrow> abort + u32 list" where
  "libc_mallinfo sy s =
     bindE (libc_mallinfo2 sy s) (\<lambda>m2. Inr (map ucast
       [mi_arena m2, mi_ordblks m2, mi_smblks m2, mi_hblks m2, mi_hblkhd m2, mi_usmblks m2,
        mi_fsmblks m2, mi_uordblks m2, mi_fordblks m2, mi_keepcost m2]))"

end
