(* ===== verification/Check.thy ===== *)
theory Check
  imports Bins
begin

text \<open>
  The debugging checks of \<^verbatim>\<open>scalloc/src/scalloc.c\<close> (lines 2083 to 2400, active with
  \<open>MALLOC_DEBUG\<close>): what the authors assert of a chunk, of a free, used or freshly allocated
  chunk and of a whole arena. Each assertion is an \<open>assertE\<close>; the development uses these
  functions as specifications of the operations.
\<close>

definition do_check_chunk :: "'k sys \<Rightarrow> ptr \<Rightarrow> ptr \<Rightarrow> 'k st \<Rightarrow> abort + unit" where
  "do_check_chunk sy av p s =
     (let m = mem s; sz = chunksize m p; top = get_top m av in
      if \<not> chunk_is_mmapped m p
      then
        (let max_address = top + chunksize m top;
             min_address = max_address - system_mem s av in
         if p \<noteq> top
         then
           (if contiguous s av
            then bindE (assertE ''p >= min_address'' (p \<ge> min_address))
                   (\<lambda>_. assertE ''p + sz <= top'' (p + sz \<le> top))
            else Inr ())
         else
           bindE (assertE ''sz >= MINSIZE'' (sz \<ge> MINSIZE))
             (\<lambda>_. assertE ''prev_inuse (p)'' (prev_inuse m p)))
      else
        bindE (assertE ''page-aligned'' (mmap_size m p AND (dl_pagesize sy - 1) = 0))
          (\<lambda>_. assertE ''!misaligned_chunk (p)'' (\<not> misaligned_chunk p)))"

definition do_check_free_chunk :: "'k sys \<Rightarrow> ptr \<Rightarrow> ptr \<Rightarrow> 'k st \<Rightarrow> abort + unit" where
  "do_check_free_chunk sy av p s =
     (let m = mem s;
          sz = chunksize_nomask m p AND NOT (PREV_INUSE OR NON_MAIN_ARENA);
          next = chunk_at_offset p sz in
      bindE (do_check_chunk sy av p s) (\<lambda>_.
      bindE (assertE ''!inuse (p)'' (\<not> inuse m p)) (\<lambda>_.
      bindE (assertE ''!chunk_is_mmapped (p)'' (\<not> chunk_is_mmapped m p)) (\<lambda>_.
      if sz \<ge> MINSIZE
      then
        bindE (assertE ''(sz & MALLOC_ALIGN_MASK) == 0'' (sz AND MALLOC_ALIGN_MASK = 0)) (\<lambda>_.
        bindE (assertE ''!misaligned_chunk (p)'' (\<not> misaligned_chunk p)) (\<lambda>_.
        bindE (assertE ''prev_size (next_chunk (p)) == sz'' (prev_size m (next_chunk m p) = sz)) (\<lambda>_.
        bindE (assertE ''prev_inuse (p)'' (prev_inuse m p)) (\<lambda>_.
        bindE (assertE ''next == av->top || inuse (next)'' (next = get_top m av \<or> inuse m next)) (\<lambda>_.
        bindE (assertE ''p->fd->bk == p'' (get_bk m (get_fd m p) = p)) (\<lambda>_.
        assertE ''p->bk->fd == p'' (get_fd m (get_bk m p) = p)))))))
      else assertE ''sz == SIZE_SZ'' (sz = SIZE_SZ)))))"

definition do_check_inuse_chunk :: "'k sys \<Rightarrow> ptr \<Rightarrow> ptr \<Rightarrow> 'k st \<Rightarrow> abort + unit" where
  "do_check_inuse_chunk sy av p s =
     (let m = mem s in
      bindE (do_check_chunk sy av p s) (\<lambda>_.
      if chunk_is_mmapped m p then Inr ()
      else
        bindE (assertE ''inuse (p)'' (inuse m p)) (\<lambda>_.
        let next = next_chunk m p in
        bindE
          (if \<not> prev_inuse m p
           then (let prv = prev_chunk m p in
                 bindE (assertE ''next_chunk (prv) == p'' (next_chunk m prv = p))
                   (\<lambda>_. do_check_free_chunk sy av prv s))
           else Inr ())
          (\<lambda>_.
            if next = get_top m av
            then bindE (assertE ''prev_inuse (next)'' (prev_inuse m next))
                   (\<lambda>_. assertE ''chunksize (next) >= MINSIZE'' (chunksize m next \<ge> MINSIZE))
            else if \<not> inuse m next then do_check_free_chunk sy av next s
            else Inr ()))))"

definition do_check_remalloced_chunk ::
  "'k sys \<Rightarrow> ptr \<Rightarrow> ptr \<Rightarrow> u64 \<Rightarrow> 'k st \<Rightarrow> abort + unit" where
  "do_check_remalloced_chunk sy av p req s =
     (let m = mem s; sz = chunksize_nomask m p AND NOT (PREV_INUSE OR NON_MAIN_ARENA) in
      bindE
        (if \<not> chunk_is_mmapped m p
         then
           bindE (assertE ''av == arena_for_chunk (p)'' (av = arena_for_chunk sy s p)) (\<lambda>_.
           if chunk_main_arena m p
           then assertE ''av == &main_arena'' (av = main_arena sy)
           else assertE ''av != &main_arena'' (av \<noteq> main_arena sy))
         else Inr ())
        (\<lambda>_.
          bindE (do_check_inuse_chunk sy av p s) (\<lambda>_.
          bindE (assertE ''(sz & MALLOC_ALIGN_MASK) == 0'' (sz AND MALLOC_ALIGN_MASK = 0)) (\<lambda>_.
          bindE (assertE ''sz >= MINSIZE'' (sz \<ge> MINSIZE)) (\<lambda>_.
          bindE (assertE ''!misaligned_chunk (p)'' (\<not> misaligned_chunk p)) (\<lambda>_.
          bindE (assertE ''sz - s >= 0'' (\<not> sz - req <s 0)) (\<lambda>_.
          assertE ''sz - (s + MINSIZE) < 0'' (sz - (req + MINSIZE) <s 0))))))))"

definition do_check_malloced_chunk ::
  "'k sys \<Rightarrow> ptr \<Rightarrow> ptr \<Rightarrow> u64 \<Rightarrow> 'k st \<Rightarrow> abort + unit" where
  "do_check_malloced_chunk sy av p req s =
     bindE (do_check_remalloced_chunk sy av p req s)
       (\<lambda>_. assertE ''prev_inuse (p)'' (prev_inuse (mem s) p))"

section \<open>The whole arena\<close>

text \<open>The chain of a fast bin. The index and the last bin in use are compared as \<open>int\<close>s.\<close>

fun check_fastbin :: "nat \<Rightarrow> 'k sys \<Rightarrow> ptr \<Rightarrow> u32 \<Rightarrow> ptr \<Rightarrow> 'k st \<Rightarrow> abort + unit" where
  "check_fastbin 0 sy av i p s = Inl Out_of_fuel"
| "check_fastbin (Suc n) sy av i p s =
     (if p = NULL then Inr ()
      else if misaligned_chunk p
      then Inl (Printerr ''do_check_malloc_state(): unaligned fastbin chunk detected'')
      else
        bindE (do_check_inuse_chunk sy av p s) (\<lambda>_.
        bindE (assertE ''fastbin_index (chunksize (p)) == i''
                 (fastbin_index (chunksize (mem s) p) = i)) (\<lambda>_.
        check_fastbin n sy av i (REVEAL_PTR (p + 16) (get_fd (mem s) p)) s)))"

fun check_fastbins :: "u32 list \<Rightarrow> 'k sys \<Rightarrow> ptr \<Rightarrow> u32 \<Rightarrow> 'k st \<Rightarrow> abort + unit" where
  "check_fastbins [] sy av max_fast_bin s = Inr ()"
| "check_fastbins (i # is) sy av max_fast_bin s =
     (let p = mem s (fastbin_addr av i) in
      bindE (if av = main_arena sy \<and> max_fast_bin <s i then assertE ''p == 0'' (p = NULL) else Inr ())
        (\<lambda>_. bindE (check_fastbin (loop_fuel sy) sy av i p s)
          (\<lambda>_. check_fastbins is sy av max_fast_bin s)))"

text \<open>The skip list fields of a binned chunk of a large size.\<close>

definition check_nextsize :: "memory \<Rightarrow> ptr \<Rightarrow> ptr \<Rightarrow> abort + unit" where
  "check_nextsize m b p =
     (if get_fd_nextsize m p \<noteq> NULL
      then
        (if get_fd_nextsize m p = p
         then assertE ''p->bk_nextsize == p'' (get_bk_nextsize m p = p)
         else
           bindE
             (if get_fd_nextsize m p = get_fd m b
              then assertE ''chunksize (p) < chunksize (p->fd_nextsize)''
                     (chunksize m p < chunksize m (get_fd_nextsize m p))
              else assertE ''chunksize (p) > chunksize (p->fd_nextsize)''
                     (chunksize m p > chunksize m (get_fd_nextsize m p)))
             (\<lambda>_.
               if p = get_fd m b
               then assertE ''chunksize (p) > chunksize (p->bk_nextsize)''
                      (chunksize m p > chunksize m (get_bk_nextsize m p))
               else assertE ''chunksize (p) < chunksize (p->bk_nextsize)''
                      (chunksize m p < chunksize m (get_bk_nextsize m p))))
      else assertE ''p->bk_nextsize == NULL'' (get_bk_nextsize m p = NULL))"

text \<open>The used chunks that follow a free chunk.\<close>

fun check_inuse_run :: "nat \<Rightarrow> 'k sys \<Rightarrow> ptr \<Rightarrow> ptr \<Rightarrow> 'k st \<Rightarrow> abort + unit" where
  "check_inuse_run 0 sy av q s = Inl Out_of_fuel"
| "check_inuse_run (Suc n) sy av q s =
     (if q \<noteq> get_top (mem s) av \<and> inuse (mem s) q \<and> chunksize (mem s) q \<ge> MINSIZE
      then bindE (do_check_inuse_chunk sy av q s)
             (\<lambda>_. check_inuse_run n sy av (next_chunk (mem s) q) s)
      else Inr ())"

fun check_bin :: "nat \<Rightarrow> 'k sys \<Rightarrow> ptr \<Rightarrow> u32 \<Rightarrow> ptr \<Rightarrow> 'k st \<Rightarrow> abort + unit" where
  "check_bin 0 sy av i p s = Inl Out_of_fuel"
| "check_bin (Suc n) sy av i p s =
     (let m = mem s; b = bin_at av i in
      if p = b then Inr ()
      else
        bindE (do_check_free_chunk sy av p s) (\<lambda>_.
        let sz = chunksize m p in
        bindE
          (if i \<ge> 2
           then
             bindE (assertE ''idx == i'' (bin_index sz = i)) (\<lambda>_.
             bindE (assertE ''sorted'' (get_bk m p = b \<or> chunksize m (get_bk m p) \<ge> chunksize m p)) (\<lambda>_.
             if \<not> in_smallbin_range sz then check_nextsize m b p else Inr ()))
           else if \<not> in_smallbin_range sz
           then assertE ''nextsize == NULL'' (get_fd_nextsize m p = NULL \<and> get_bk_nextsize m p = NULL)
           else Inr ())
          (\<lambda>_.
            bindE (check_inuse_run (loop_fuel sy) sy av (next_chunk m p) s) (\<lambda>_.
            check_bin n sy av i (get_bk m p) s))))"

fun check_bins :: "nat list \<Rightarrow> 'k sys \<Rightarrow> ptr \<Rightarrow> 'k st \<Rightarrow> abort + unit" where
  "check_bins [] sy av s = Inr ()"
| "check_bins (j # js) sy av s =
     (let i = of_nat j; b = bin_at av i; empty = (get_bk (mem s) b = b) in
      bindE
        (if i \<ge> 2
         then (if get_binmap s av i = 0 then assertE ''empty'' empty
               else if \<not> empty then assertE ''binbit'' (get_binmap s av i \<noteq> 0) else Inr ())
         else Inr ())
        (\<lambda>_. bindE (check_bin (loop_fuel sy) sy av i (get_bk (mem s) b) s)
          (\<lambda>_. check_bins js sy av s)))"

definition do_check_malloc_state :: "'k sys \<Rightarrow> ptr \<Rightarrow> 'k st \<Rightarrow> abort + unit" where
  "do_check_malloc_state sy av s =
     (let m = mem s; top = get_top m av in
      bindE (assertE ''av->top != 0'' (top \<noteq> 0)) (\<lambda>_.
      if top = initial_top av then Inr ()
      else
        bindE (assertE ''powerof2 (pagesize)'' (powerof2 (dl_pagesize sy))) (\<lambda>_.
        bindE
          (if av = main_arena sy \<and> contiguous s av
           then assertE ''sbrk_base'' (sbrk_base (mp s) + system_mem s av = top + chunksize m top)
           else Inr ())
          (\<lambda>_.
        bindE (get_max_fast s) (\<lambda>max_fast.
        bindE (assertE ''max_fast'' (max_fast AND NOT 1 \<le> request2size MAX_FAST_SIZE)) (\<lambda>_.
        bindE (check_fastbins [0, 1, 2, 3, 4, 5, 6, 7, 8, 9] sy av (fastbin_index max_fast) s) (\<lambda>_.
        bindE (check_bins [1..<128] sy av s) (\<lambda>_.
        do_check_chunk sy av top s))))))))"

end
