(* ===== verification/Smemset.thy ===== *)
theory Smemset
  imports Prelude
begin

text \<open>
  \<^verbatim>\<open>smemset/src/smemset.c\<close> and \<^verbatim>\<open>smemset/include/smemset.h\<close>: the secure \<open>memset\<close>, its
  parameter checks and the two checked wrappers, on a byte-granular memory (\<open>bytes\<close>), for
  x86_64 (\<open>OPSIZ\<close> is 8). A memory barrier changes no byte and has no counterpart here.

  \<^verbatim>\<open>smemset.c\<close> uses a constant \<open>SMEMSET_LIMIT_GENERIC\<close> that no file of the repository
  declares: it is the parameter \<open>generic\<close> of the functions of that file. The header writes
  1048576 in its place.
\<close>

type_synonym bytes = "u64 \<Rightarrow> u8"

section \<open>Limits and contexts\<close>

datatype SmemsetLimit =
    SMEMSET_LIMIT_ETH_FRAME
  | SMEMSET_LIMIT_ETH_PAYLOAD
  | SMEMSET_LIMIT_IP_PACKET
  | SMEMSET_LIMIT_SNMP_PDU
  | SMEMSET_LIMIT_UDP_MAX
  | SMEMSET_LIMIT_TCP_MSS

fun limit_val :: "SmemsetLimit \<Rightarrow> u64" where
  "limit_val SMEMSET_LIMIT_ETH_FRAME = 1518"
| "limit_val SMEMSET_LIMIT_ETH_PAYLOAD = 1500"
| "limit_val SMEMSET_LIMIT_IP_PACKET = 65535"
| "limit_val SMEMSET_LIMIT_SNMP_PDU = 1472"
| "limit_val SMEMSET_LIMIT_UDP_MAX = 65507"
| "limit_val SMEMSET_LIMIT_TCP_MSS = 1460"

datatype SmemsetContext =
    SMEMSET_CONTEXT_GENERIC
  | SMEMSET_CONTEXT_ETHERNET
  | SMEMSET_CONTEXT_IP
  | SMEMSET_CONTEXT_UDP
  | SMEMSET_CONTEXT_TCP
  | SMEMSET_CONTEXT_SNMP

text \<open>The enumerations are ordered by the values the C compiler gives their constants.\<close>

fun context_val :: "SmemsetContext \<Rightarrow> nat" where
  "context_val SMEMSET_CONTEXT_GENERIC = 0"
| "context_val SMEMSET_CONTEXT_ETHERNET = 1"
| "context_val SMEMSET_CONTEXT_IP = 2"
| "context_val SMEMSET_CONTEXT_UDP = 3"
| "context_val SMEMSET_CONTEXT_TCP = 4"
| "context_val SMEMSET_CONTEXT_SNMP = 5"

lemma limit_val_inj: "limit_val a = limit_val b \<Longrightarrow> a = b"
  by (cases a; cases b) simp_all

lemma context_val_inj: "context_val a = context_val b \<Longrightarrow> a = b"
  by (cases a; cases b) simp_all

instantiation SmemsetLimit :: linorder
begin

definition less_eq_SmemsetLimit :: "SmemsetLimit \<Rightarrow> SmemsetLimit \<Rightarrow> bool" where
  "less_eq_SmemsetLimit a b \<longleftrightarrow> limit_val a \<le> limit_val b"

definition less_SmemsetLimit :: "SmemsetLimit \<Rightarrow> SmemsetLimit \<Rightarrow> bool" where
  "less_SmemsetLimit a b \<longleftrightarrow> limit_val a < limit_val b"

instance
  by standard (auto simp: less_eq_SmemsetLimit_def less_SmemsetLimit_def intro: limit_val_inj)

end

instantiation SmemsetContext :: linorder
begin

definition less_eq_SmemsetContext :: "SmemsetContext \<Rightarrow> SmemsetContext \<Rightarrow> bool" where
  "less_eq_SmemsetContext a b \<longleftrightarrow> context_val a \<le> context_val b"

definition less_SmemsetContext :: "SmemsetContext \<Rightarrow> SmemsetContext \<Rightarrow> bool" where
  "less_SmemsetContext a b \<longleftrightarrow> context_val a < context_val b"

instance
  by standard (auto simp: less_eq_SmemsetContext_def less_SmemsetContext_def intro: context_val_inj)

end

section \<open>Parameter checks\<close>

text \<open>The two checks of the header; the result is the \<open>int\<close> the code returns.\<close>

definition smemset_validate_params :: "ptr \<Rightarrow> u64 \<Rightarrow> SmemsetContext \<Rightarrow> int" where
  "smemset_validate_params dstpp len cx =
     (if dstpp = NULL then -1
      else if len = 0 then 0
      else
        (let max_allowed = (case cx of
               SMEMSET_CONTEXT_ETHERNET \<Rightarrow> limit_val SMEMSET_LIMIT_ETH_FRAME
             | SMEMSET_CONTEXT_IP \<Rightarrow> limit_val SMEMSET_LIMIT_IP_PACKET
             | SMEMSET_CONTEXT_SNMP \<Rightarrow> limit_val SMEMSET_LIMIT_SNMP_PDU
             | SMEMSET_CONTEXT_UDP \<Rightarrow> limit_val SMEMSET_LIMIT_UDP_MAX
             | SMEMSET_CONTEXT_TCP \<Rightarrow> limit_val SMEMSET_LIMIT_TCP_MSS
             | SMEMSET_CONTEXT_GENERIC \<Rightarrow> 1048576)
         in if len > max_allowed then -2 else 0))"

definition smemset_validate_params_limited :: "ptr \<Rightarrow> u64 \<Rightarrow> u64 \<Rightarrow> int" where
  "smemset_validate_params_limited dstpp len max_allowed =
     (if dstpp = NULL then -1 else if len = 0 then 0 else if len > max_allowed then -2 else 0)"

text \<open>The same check in \<^verbatim>\<open>smemset.c\<close>, with its generic limit.\<close>

definition smemset_validate_params_c :: "u64 \<Rightarrow> ptr \<Rightarrow> u64 \<Rightarrow> SmemsetContext \<Rightarrow> int" where
  "smemset_validate_params_c generic dstpp len cx =
     (if dstpp = NULL then -1
      else if len = 0 then 0
      else
        (let max_allowed = (case cx of
               SMEMSET_CONTEXT_ETHERNET \<Rightarrow> limit_val SMEMSET_LIMIT_ETH_FRAME
             | SMEMSET_CONTEXT_IP \<Rightarrow> limit_val SMEMSET_LIMIT_IP_PACKET
             | SMEMSET_CONTEXT_SNMP \<Rightarrow> limit_val SMEMSET_LIMIT_SNMP_PDU
             | SMEMSET_CONTEXT_UDP \<Rightarrow> limit_val SMEMSET_LIMIT_UDP_MAX
             | SMEMSET_CONTEXT_TCP \<Rightarrow> limit_val SMEMSET_LIMIT_TCP_MSS
             | SMEMSET_CONTEXT_GENERIC \<Rightarrow> generic)
         in if len > max_allowed then -2 else 0))"

fun smemset_get_max_size :: "SmemsetContext \<Rightarrow> u64" where
  "smemset_get_max_size SMEMSET_CONTEXT_ETHERNET = limit_val SMEMSET_LIMIT_ETH_FRAME"
| "smemset_get_max_size SMEMSET_CONTEXT_IP = limit_val SMEMSET_LIMIT_IP_PACKET"
| "smemset_get_max_size SMEMSET_CONTEXT_SNMP = limit_val SMEMSET_LIMIT_SNMP_PDU"
| "smemset_get_max_size SMEMSET_CONTEXT_UDP = limit_val SMEMSET_LIMIT_UDP_MAX"
| "smemset_get_max_size SMEMSET_CONTEXT_TCP = limit_val SMEMSET_LIMIT_TCP_MSS"
| "smemset_get_max_size SMEMSET_CONTEXT_GENERIC = 1048576"

section \<open>The fill\<close>

abbreviation (input) OPSIZ :: u64 where "OPSIZ \<equiv> 8"

text \<open>Stores of a byte and of a little-endian 8-byte word.\<close>

definition store_byte :: "bytes \<Rightarrow> u64 \<Rightarrow> u8 \<Rightarrow> bytes" where
  "store_byte m a v = m(a := v)"

definition store_op :: "bytes \<Rightarrow> u64 \<Rightarrow> u64 \<Rightarrow> bytes" where
  "store_op m a v =
     (\<lambda>x. if x - a < OPSIZ then ucast (drop_bit (8 * unat (x - a)) v) else m x)"

text \<open>\<open>cccc\<close>: the byte repeated in all eight positions.\<close>

definition smemset_word :: "u32 \<Rightarrow> u64" where
  "smemset_word c =
     (let cccc = ucast (ucast c :: u8);
          cccc = cccc OR push_bit 8 cccc;
          cccc = cccc OR push_bit 16 cccc
      in cccc OR push_bit 16 (push_bit 16 cccc))"

text \<open>The byte loop up to an aligned address; the result is \<open>dstp\<close>, \<open>len\<close> and the memory.\<close>

function smemset_align :: "u8 \<Rightarrow> u64 \<Rightarrow> u64 \<Rightarrow> bytes \<Rightarrow> u64 \<times> u64 \<times> bytes" where
  "smemset_align c dstp len m =
     (if dstp mod OPSIZ \<noteq> 0 \<and> len > 0
      then smemset_align c (dstp + 1) (len - 1) (store_byte m dstp c) else (dstp, len, m))"
  by pat_completeness auto
termination
  by (relation "measure (\<lambda>(c, d, len, m). unat len)") (auto intro: unat_minus_one_less_gt)

declare smemset_align.simps [simp del]

text \<open>The \<open>for\<close> loop of eight stores, the loop around it, and the loop of single words.\<close>

definition smemset_unrolled :: "u64 \<Rightarrow> u64 \<Rightarrow> bytes \<Rightarrow> bytes" where
  "smemset_unrolled cccc dstp m =
     fold (\<lambda>i m. store_op m (dstp + of_nat i * OPSIZ) cccc) [0..<8] m"

function smemset_blocks :: "u64 \<Rightarrow> u64 \<Rightarrow> u64 \<Rightarrow> bytes \<Rightarrow> u64 \<times> bytes" where
  "smemset_blocks cccc dstp xlen m =
     (if xlen > 0
      then smemset_blocks cccc (dstp + 8 * OPSIZ) (xlen - 1) (smemset_unrolled cccc dstp m)
      else (dstp, m))"
  by pat_completeness auto
termination
  by (relation "measure (\<lambda>(c, d, x, m). unat x)") (auto intro: unat_minus_one_less_gt)

function smemset_words :: "u64 \<Rightarrow> u64 \<Rightarrow> u64 \<Rightarrow> bytes \<Rightarrow> u64 \<times> bytes" where
  "smemset_words cccc dstp xlen m =
     (if xlen > 0 then smemset_words cccc (dstp + OPSIZ) (xlen - 1) (store_op m dstp cccc)
      else (dstp, m))"
  by pat_completeness auto
termination
  by (relation "measure (\<lambda>(c, d, x, m). unat x)") (auto intro: unat_minus_one_less_gt)

function smemset_bytes :: "u8 \<Rightarrow> u64 \<Rightarrow> u64 \<Rightarrow> bytes \<Rightarrow> bytes" where
  "smemset_bytes c dstp len m =
     (if len > 0 then smemset_bytes c (dstp + 1) (len - 1) (store_byte m dstp c) else m)"
  by pat_completeness auto
termination
  by (relation "measure (\<lambda>(c, d, x, m). unat x)") (auto intro: unat_minus_one_less_gt)

declare smemset_blocks.simps [simp del] smemset_words.simps [simp del] smemset_bytes.simps [simp del]

definition smemset :: "u64 \<Rightarrow> ptr \<Rightarrow> u32 \<Rightarrow> u64 \<Rightarrow> bytes \<Rightarrow> ptr \<times> bytes" where
  "smemset generic dstpp c len m =
     (if smemset_validate_params_c generic dstpp len SMEMSET_CONTEXT_GENERIC \<noteq> 0 then (NULL, m)
      else
        (let (dstp, len, m) =
           (if len \<ge> 8
            then
              (let cccc = smemset_word c;
                   (dstp, len, m) = smemset_align (ucast c) dstpp len m;
                   (dstp, m) = smemset_blocks cccc dstp (len div (OPSIZ * 8)) m;
                   len = len mod (OPSIZ * 8);
                   (dstp, m) = smemset_words cccc dstp (len div OPSIZ) m
               in (dstp, len mod OPSIZ, m))
            else (dstpp, len, m))
         in (dstpp, smemset_bytes (ucast c) dstp len m)))"

definition smemset_ex ::
  "u64 \<Rightarrow> ptr \<Rightarrow> u32 \<Rightarrow> u64 \<Rightarrow> SmemsetContext \<Rightarrow> bytes \<Rightarrow> ptr \<times> bytes" where
  "smemset_ex generic dstpp c len cx m =
     (if smemset_validate_params dstpp len cx \<noteq> 0 then (NULL, m)
      else smemset generic dstpp c len m)"

definition smemset_limited ::
  "u64 \<Rightarrow> ptr \<Rightarrow> u32 \<Rightarrow> u64 \<Rightarrow> SmemsetLimit \<Rightarrow> bytes \<Rightarrow> ptr \<times> bytes" where
  "smemset_limited generic dstpp c len limit m =
     (if smemset_validate_params_limited dstpp len (limit_val limit) \<noteq> 0 then (NULL, m)
      else smemset generic dstpp c len m)"

section \<open>Each loop fills an interval\<close>

text \<open>The reference: the bytes at distance less than \<open>n\<close> from \<open>a\<close> become \<open>v\<close>.\<close>

definition fill :: "u64 \<Rightarrow> u64 \<Rightarrow> u8 \<Rightarrow> bytes \<Rightarrow> bytes" where
  "fill a n v m = (\<lambda>x. if x - a < n then v else m x)"

lemma fill_0 [simp]: "fill a 0 v m = m"
  by (simp add: fill_def)

text \<open>Two adjacent intervals make one, as long as their lengths do not wrap around.\<close>

lemma fill_fill:
  assumes "unat n + unat k < 2 ^ 64"
  shows "fill (a + n) k v (fill a n v m) = fill a (n + k) v m"
proof
  fix x
  have nk: "unat (n + k) = unat n + unat k" using assms by (simp add: unat_plus_64)
  have "x - (a + n) < k \<or> x - a < n \<longleftrightarrow> x - a < n + k"
  proof (cases "x - a < n")
    case True
    then show ?thesis using nk by (simp add: word_less_nat_alt)
  next
    case False
    then have le: "n \<le> x - a" by simp
    have "x - (a + n) = (x - a) - n" by (simp only: diff_diff_eq)
    then have "unat (x - (a + n)) = unat (x - a) - unat n"
      using le by (simp only: unat_sub)
    then show ?thesis using False le nk by (auto simp: word_less_nat_alt word_le_nat_alt)
  qed
  then show "fill (a + n) k v (fill a n v m) x = fill a (n + k) v m x"
    by (auto simp: fill_def)
qed

lemma store_byte_fill: "store_byte m a v = fill a 1 v m"
  by (rule ext) (auto simp: store_byte_def fill_def word_less_1)

lemma smemset_word_byte:
  assumes "i < 8"
  shows "ucast (drop_bit (8 * i) (smemset_word c)) = (ucast c :: u8)"
proof -
  have "i = 0 \<or> i = 1 \<or> i = 2 \<or> i = 3 \<or> i = 4 \<or> i = 5 \<or> i = 6 \<or> i = 7"
    using assms by linarith
  then show ?thesis
    by (elim disjE) (auto intro!: bit_word_eqI simp: smemset_word_def Let_def bit_simps)
qed

lemma store_op_fill: "store_op m a (smemset_word c) = fill a 8 (ucast c) m"
proof (rule ext)
  fix x
  have "unat (x - a) < 8" if "x - a < 8" using that by (simp add: word_less_nat_alt)
  then show "store_op m a (smemset_word c) x = fill a 8 (ucast c) m x"
    by (simp add: store_op_def fill_def smemset_word_byte)
qed


text \<open>Each loop, as one fill.\<close>

lemma unat_dec_add:
  assumes "0 < (n :: u64)"
  shows "unat (1 :: u64) + unat (n - 1) < 2 ^ 64" "1 + (n - 1) = n"
proof -
  have "unat n \<noteq> 0" using assms by (simp add: word_gt_0 unat_eq_zero)
  then show "unat (1 :: u64) + unat (n - 1) < 2 ^ 64"
    using unat_lt_64 [of n] assms by (simp add: unat_minus_one word_gt_0)
qed simp

lemma smemset_bytes_fill: "smemset_bytes c d n m = fill d n c m"
proof (induction c d n m rule: smemset_bytes.induct)
  case (1 c d n m)
  show ?case
  proof (cases "0 < n")
    case True
    then show ?thesis
      using "1.IH" fill_fill [OF unat_dec_add(1) [OF True], of d c m]
      by (simp add: smemset_bytes.simps [of c d n m] store_byte_fill)
  qed (simp add: smemset_bytes.simps [of c d 0 m] word_gt_0)
qed

lemma smemset_align_fill:
  "\<exists>k. unat k \<le> unat n \<and> smemset_align c d n m = (d + k, n - k, fill d k c m)"
proof (induction c d n m rule: smemset_align.induct)
  case (1 c d n m)
  show ?case
  proof (cases "d mod OPSIZ \<noteq> 0 \<and> n > 0")
    case True
    then obtain k where k: "unat k \<le> unat (n - 1)"
      "smemset_align c (d + 1) (n - 1) (store_byte m d c)
         = (d + 1 + k, n - 1 - k, fill (d + 1) k c (store_byte m d c))"
      using "1.IH" by blast
    have le: "unat (1 :: u64) + unat k < 2 ^ 64"
      using k(1) unat_dec_add(1) [of n] True by simp
    have "unat (1 + k) \<le> unat n"
      using le k(1) True unat_gt_0 [of n] by (simp add: unat_plus_64 unat_minus_one word_gt_0)
    moreover have "smemset_align c d n m = (d + (1 + k), n - (1 + k), fill d (1 + k) c m)"
      using True k(2) fill_fill [OF le, of d c m]
      by (simp add: smemset_align.simps [of c d n m] store_byte_fill algebra_simps)
    ultimately show ?thesis by blast
  next
    case False
    then show ?thesis
      by (intro exI [of _ 0]) (auto simp: smemset_align.simps [of c d n m])
  qed
qed

lemma smemset_words_fill:
  "8 * unat x < 2 ^ 64 \<Longrightarrow>
     smemset_words (smemset_word c) d x m = (d + 8 * x, fill d (8 * x) (ucast c) m)"
proof (induction "smemset_word c" d x m rule: smemset_words.induct)
  case (1 d x m)
  show ?case
  proof (cases "0 < x")
    case True
    have u: "unat (x - 1) = unat x - 1" "unat x \<noteq> 0"
      using True by (simp_all add: unat_minus_one word_gt_0 unat_eq_zero)
    have "unat (8 * (x - 1)) = 8 * unat (x - 1)"
      by (subst unat_mult_small) (use "1.prems" u in auto)
    then have "unat (8 :: u64) + unat (8 * (x - 1)) < 2 ^ 64"
      using "1.prems" u by simp
    from fill_fill [OF this, of d "ucast c" m] show ?thesis
      using True u "1.prems" "1.hyps" [OF True]
      by (simp add: smemset_words.simps [of _ d x m] store_op_fill algebra_simps)
  qed (simp add: smemset_words.simps [of _ d 0 m] word_gt_0)
qed

lemma smemset_unrolled_fill:
  "smemset_unrolled (smemset_word c) d m = fill d 64 (ucast c) m"
proof -
  have "fold (\<lambda>i m. store_op m (d + of_nat i * 8) (smemset_word c)) [0..<n] m
          = fill d (of_nat n * 8) (ucast c) m" if "n \<le> 8" for n
    using that
  proof (induction n)
    case (Suc n)
    have "unat (of_nat n * 8 :: u64) = n * 8"
      using Suc.prems by (subst unat_mult_small) (auto simp: unat_of_nat)
    then have "unat (of_nat n * 8 :: u64) + unat (8 :: u64) < 2 ^ 64"
      using Suc.prems by simp
    from fill_fill [OF this, of d "ucast c" m] show ?case
      using Suc by (simp add: store_op_fill algebra_simps)
  qed simp
  from this [of 8] show ?thesis by (simp add: smemset_unrolled_def)
qed

lemma smemset_blocks_fill:
  "64 * unat x < 2 ^ 64 \<Longrightarrow>
     smemset_blocks (smemset_word c) d x m = (d + 64 * x, fill d (64 * x) (ucast c) m)"
proof (induction "smemset_word c" d x m rule: smemset_blocks.induct)
  case (1 d x m)
  show ?case
  proof (cases "0 < x")
    case True
    have u: "unat (x - 1) = unat x - 1" "unat x \<noteq> 0"
      using True by (simp_all add: unat_minus_one word_gt_0 unat_eq_zero)
    have "unat (64 * (x - 1)) = 64 * unat (x - 1)"
      by (subst unat_mult_small) (use "1.prems" u in auto)
    then have "unat (64 :: u64) + unat (64 * (x - 1)) < 2 ^ 64"
      using "1.prems" u by simp
    from fill_fill [OF this, of d "ucast c" m] show ?thesis
      using True u "1.prems" "1.hyps" [OF True]
      by (simp add: smemset_blocks.simps [of _ d x m] smemset_unrolled_fill algebra_simps)
  qed (simp add: smemset_blocks.simps [of _ d 0 m] word_gt_0)
qed

text \<open>The parts of the length: blocks of 64 bytes, words of 8 and single bytes.\<close>

lemma smemset_loops_fill:
  assumes "smemset_align (ucast c) d n m = (d', n', m')"
    and "smemset_blocks (smemset_word c) d' (n' div 64) m' = (d1, m1)"
    and "smemset_words (smemset_word c) d1 (n' mod 64 div 8) m1 = (d2, m2)"
  shows "smemset_bytes (ucast c) d2 (n' mod 64 mod 8) m2 = fill d n (ucast c) m"
proof -
  define x y z where "x = n' div 64" and "y = n' mod 64 div 8" and "z = n' mod 64 mod 8"
  have ux: "unat x = unat n' div 64" "unat y = unat n' mod 64 div 8"
    "unat z = unat n' mod 64 mod 8"
    by (simp_all add: x_def y_def z_def unat_div unat_mod)
  have sum: "64 * unat x + 8 * unat y + unat z = unat n'"
    unfolding ux by (metis mult_div_mod_eq mult.commute add.assoc)
  have lt: "unat n' < 2 ^ 64" by (rule unat_lt_64)
  have ub: "unat (64 * x) = 64 * unat x" "unat (8 * y) = 8 * unat y"
    using sum lt by (subst unat_mult_small; simp)+
  have n': "64 * x + (8 * y + z) = n'"
    by (rule word_unat_eq_iff [THEN iffD2]) (use sum lt ub in \<open>simp add: unat_plus_64\<close>)
  obtain k where k: "unat k \<le> unat n" "d' = d + k" "n' = n - k" "m' = fill d k (ucast c) m"
    using smemset_align_fill [of n "ucast c" d m] assms(1) by auto
  have "d1 = d' + 64 * x" "m1 = fill d' (64 * x) (ucast c) m'"
    using assms(2) smemset_blocks_fill [of x c d' m'] sum lt by (simp_all add: x_def)
  moreover have "d2 = d1 + 8 * y" "m2 = fill d1 (8 * y) (ucast c) m1"
    using assms(3) smemset_words_fill [of y c d1 m1] sum lt by (simp_all add: y_def)
  ultimately have "smemset_bytes (ucast c) d2 z m2
      = fill (d' + 64 * x + 8 * y) z (ucast c)
          (fill (d' + 64 * x) (8 * y) (ucast c) (fill d' (64 * x) (ucast c) m'))"
    by (simp add: smemset_bytes_fill)
  also have "\<dots> = fill d' n' (ucast c) m'"
    using sum lt ub by (simp add: fill_fill unat_plus_64 add.assoc n')
  also have "\<dots> = fill d n (ucast c) m"
    using k unat_lt_64 [of n] by (simp add: fill_fill unat_sub word_le_nat_alt)
  finally show ?thesis by (simp add: z_def)
qed

section \<open>The checked wrappers\<close>

text \<open>
  A wrapper checks its parameters against a limit and calls \<open>smemset\<close>, which checks them again
  against its own. \<open>limit c\<close> is the limit that the check \<open>validate\<close> promises to enforce.
\<close>

locale checked_fill =
  fixes validate :: "ptr \<Rightarrow> u64 \<Rightarrow> 'c \<Rightarrow> int"
    and limit :: "'c \<Rightarrow> u64"
  assumes validate_ok: "validate d n c = 0 \<longleftrightarrow> d \<noteq> NULL \<and> n \<le> limit c"
begin

definition guarded :: "'c \<Rightarrow> (ptr \<Rightarrow> u64 \<Rightarrow> bytes \<Rightarrow> ptr \<times> bytes) \<Rightarrow> ptr \<Rightarrow> u64 \<Rightarrow> bytes \<Rightarrow> ptr \<times> bytes"
where "guarded c f d n m = (if validate d n c \<noteq> 0 then (NULL, m) else f d n m)"

lemma guarded_eq:
  assumes "\<And>d n m. f d n m = (if d \<noteq> NULL \<and> n \<le> inner then (d, g d n m) else (NULL, m))"
  shows "guarded c f d n m
     = (if d \<noteq> NULL \<and> n \<le> min (limit c) inner then (d, g d n m) else (NULL, m))"
  by (auto simp: guarded_def validate_ok assms)

end

interpretation by_context: checked_fill smemset_validate_params smemset_get_max_size
  by standard
    (auto simp: smemset_validate_params_def Let_def not_less split: SmemsetContext.splits)

interpretation by_limit: checked_fill "\<lambda>d n l. smemset_validate_params_limited d n (limit_val l)" limit_val
  by standard (auto simp: smemset_validate_params_limited_def)

interpretation in_source: checked_fill "smemset_validate_params_c generic"
    "\<lambda>cx. if cx = SMEMSET_CONTEXT_GENERIC then generic else smemset_get_max_size cx"
  for generic
  by standard
    (auto simp: smemset_validate_params_c_def Let_def not_less split: SmemsetContext.splits)

lemma smemset_eq:
  "smemset generic d c n m
     = (if d \<noteq> NULL \<and> n \<le> generic then (d, fill d n (ucast c) m) else (NULL, m))"
proof -
  have v: "smemset_validate_params_c generic d n SMEMSET_CONTEXT_GENERIC = 0
      \<longleftrightarrow> d \<noteq> NULL \<and> n \<le> generic"
    by (simp add: in_source.validate_ok)
  show ?thesis
    unfolding smemset_def v
    by (auto simp: smemset_bytes_fill Let_def split: prod.splits
        intro: smemset_loops_fill [unfolded smemset_bytes_fill])
qed

lemma smemset_ex_guarded:
  "smemset_ex generic d c n cx m = by_context.guarded cx (\<lambda>d. smemset generic d c) d n m"
  by (simp add: smemset_ex_def by_context.guarded_def)

lemma smemset_limited_guarded:
  "smemset_limited generic d c n l m = by_limit.guarded l (\<lambda>d. smemset generic d c) d n m"
  by (simp add: smemset_limited_def by_limit.guarded_def)

lemma smemset_ex_eq:
  "smemset_ex generic d c n cx m
     = (if d \<noteq> NULL \<and> n \<le> min (smemset_get_max_size cx) generic
        then (d, fill d n (ucast c) m) else (NULL, m))"
  unfolding smemset_ex_guarded by (rule by_context.guarded_eq) (rule smemset_eq)

lemma smemset_limited_eq:
  "smemset_limited generic d c n l m
     = (if d \<noteq> NULL \<and> n \<le> min (limit_val l) generic
        then (d, fill d n (ucast c) m) else (NULL, m))"
  unfolding smemset_limited_guarded by (rule by_limit.guarded_eq) (rule smemset_eq)

section \<open>Properties\<close>

text \<open>
  C35: \<open>smemset\<close>, with its byte loop up to an aligned address, its unrolled loop, its word loop
  and its tail, is the plain fill: when the pointer is not null and the length is within the
  generic limit it returns the pointer and sets exactly the \<open>n\<close> bytes from \<open>d\<close> on to the low
  byte of \<open>c\<close>; otherwise it returns null and changes nothing.
\<close>
theorem smemset_fills_exactly:
  "smemset generic d c n m
     = (if d \<noteq> NULL \<and> n \<le> generic then (d, \<lambda>x. if x - d < n then ucast c else m x)
        else (NULL, m))"
  by (simp add: smemset_eq fill_def)

text \<open>
  the two checked wrappers fill exactly the requested bytes when the length is within both
  their own limit and the generic one, and otherwise return null without a store: no length
  over the limit of the context (or over the given limit) is ever filled, even partly.
\<close>
theorem smemset_wrappers_respect_limits:
  "smemset_ex generic d c n cx m
     = (if d \<noteq> NULL \<and> n \<le> smemset_get_max_size cx \<and> n \<le> generic
        then (d, \<lambda>x. if x - d < n then ucast c else m x) else (NULL, m)) \<and>
   smemset_limited generic d c n l m
     = (if d \<noteq> NULL \<and> n \<le> limit_val l \<and> n \<le> generic
        then (d, \<lambda>x. if x - d < n then ucast c else m x) else (NULL, m))"
  by (simp add: smemset_ex_eq smemset_limited_eq fill_def)

end
