(* ===== verification/Ehash.thy ===== *)
theory Ehash
  imports Prelude
begin

text \<open>
  \<^verbatim>\<open>sgoto/third-party/ephemeral-hash-cas/src/core\<close> (\<open>core.c\<close> and \<open>include/core.h\<close>): the
  xorshift64* hash generator, tagged pointers packed in 64 bits, and the lock-free stack. The
  stack is a step relation on any number of threads; a step is one atomic access of shared
  memory (a load, a store or a compare-and-exchange), and interleavings are arbitrary.
\<close>

section \<open>The hash generator\<close>

definition xorshift64 :: "u64 \<Rightarrow> u64" where
  "xorshift64 st =
     (let new_state = st;
          new_state = new_state XOR drop_bit 12 new_state;
          new_state = new_state XOR push_bit 25 new_state
      in new_state XOR drop_bit 27 new_state)"

definition state_hash :: "u64 \<Rightarrow> u16" where
  "state_hash new_state = ucast (drop_bit 48 (new_state * 0x2545F4914F6CDD1D))"

text \<open>\<open>hash_generator_next\<close> with no interference: the hash and the new state.\<close>

definition hash_generator_init :: "u64 \<Rightarrow> u64" where
  "hash_generator_init seed = seed"

definition hash_generator_next :: "u64 \<Rightarrow> u16 \<times> u64" where
  "hash_generator_next st = (let new_state = xorshift64 st in (state_hash new_state, new_state))"

section \<open>Tagged pointers\<close>

record EHashPtr =
  eptr :: "48 word"
  ehash :: u16

definition ptr_fits :: "ptr \<Rightarrow> bool" where
  "ptr_fits p \<longleftrightarrow> p AND 0xFFFF000000000000 = 0"

definition make_ehash_ptr :: "ptr \<Rightarrow> u16 \<Rightarrow> abort + EHashPtr" where
  "make_ehash_ptr p h =
     bindE (assertE ''Pointer must fit in 48 bits'' (ptr_fits p))
       (\<lambda>_. Inr \<lparr>eptr = ucast p, ehash = h\<rparr>)"

definition ehash_get_ptr :: "EHashPtr \<Rightarrow> ptr" where
  "ehash_get_ptr p = ucast (eptr p)"

definition ehash_full_equal :: "EHashPtr \<Rightarrow> EHashPtr \<Rightarrow> bool" where
  "ehash_full_equal a b \<longleftrightarrow> eptr a = eptr b \<and> ehash a = ehash b"

definition ehash_to_uint64 :: "EHashPtr \<Rightarrow> u64" where
  "ehash_to_uint64 p = push_bit 48 (ucast (ehash p)) OR (ucast (eptr p) AND 0xFFFFFFFFFFFF)"

definition ehash_from_uint64 :: "u64 \<Rightarrow> EHashPtr" where
  "ehash_from_uint64 val =
     \<lparr>eptr = ucast (val AND 0xFFFFFFFFFFFF), ehash = ucast (drop_bit 48 val AND 0xFFFF)\<rparr>"

section \<open>The lock-free stack\<close>

text \<open>The shared memory: \<open>stack->head\<close>, the generator's state and the \<open>next\<close> field of the nodes.\<close>

record estack =
  head :: u64
  gen :: u64
  node_next :: "ptr \<Rightarrow> ptr"

definition ehash_stack_init :: "u64 \<Rightarrow> (ptr \<Rightarrow> ptr) \<Rightarrow> estack" where
  "ehash_stack_init seed nx = \<lparr>head = 0, gen = hash_generator_init seed, node_next = nx\<rparr>"

definition EHash_load :: "estack \<Rightarrow> EHashPtr" where
  "EHash_load s = ehash_from_uint64 (head s)"

definition EHash_CAS :: "EHashPtr \<Rightarrow> EHashPtr \<Rightarrow> estack \<Rightarrow> bool \<times> estack" where
  "EHash_CAS expected new_val s =
     (if head s = ehash_to_uint64 expected then (True, s\<lparr>head := ehash_to_uint64 new_val\<rparr>)
      else (False, s))"

text \<open>
  Where a thread stands. \<open>Pushing n\<close> is a call of \<open>ehash_stack_push\<close> with node \<open>n\<close>,
  \<open>Popping\<close> one of \<open>ehash_stack_pop\<close>. In both, \<open>old\<close> is \<open>old_head\<close> and \<open>want\<close> the pointer for
  \<open>new_head\<close>: \<open>n\<close> itself, or the \<open>next\<close> of the old head.
\<close>

datatype call = Pushing ptr | Popping

datatype pc =
    Idle
  | PushLoad ptr
  | PushLink ptr EHashPtr
  | PopLoad
  | PopNext EHashPtr
  | GenLoad call EHashPtr ptr
  | GenCas call EHashPtr ptr u64
  | HeadCas call EHashPtr EHashPtr
  | Failed

text \<open>What a step shows: nothing, a completed push, or a completed pop with its result.\<close>

datatype label = Tau | Pushed ptr | Popped ptr

definition retry :: "call \<Rightarrow> pc" where
  "retry c = (case c of Pushing n \<Rightarrow> PushLoad n | Popping \<Rightarrow> PopLoad)"

definition finished :: "call \<Rightarrow> EHashPtr \<Rightarrow> label" where
  "finished c old = (case c of Pushing n \<Rightarrow> Pushed n | Popping \<Rightarrow> Popped (ehash_get_ptr old))"

fun thread_step :: "pc \<Rightarrow> estack \<Rightarrow> pc \<times> estack \<times> label" where
  "thread_step Idle s = (Idle, s, Tau)"
| "thread_step Failed s = (Failed, s, Tau)"
| "thread_step (PushLoad n) s = (PushLink n (EHash_load s), s, Tau)"
| "thread_step (PushLink n old) s =
     (GenLoad (Pushing n) old n, s\<lparr>node_next := (node_next s)(n := ehash_get_ptr old)\<rparr>, Tau)"
| "thread_step PopLoad s =
     (let old = EHash_load s in
      if ehash_get_ptr old = NULL then (Idle, s, Popped NULL) else (PopNext old, s, Tau))"
| "thread_step (PopNext old) s = (GenLoad Popping old (node_next s (ehash_get_ptr old)), s, Tau)"
| "thread_step (GenLoad c old want) s = (GenCas c old want (gen s), s, Tau)"
| "thread_step (GenCas c old want st) s =
     (if gen s = st
      then
        (let (h, st') = hash_generator_next st; s' = s\<lparr>gen := st'\<rparr> in
         case make_ehash_ptr want h of
           Inl _ \<Rightarrow> (Failed, s', Tau)
         | Inr new \<Rightarrow> (HeadCas c old new, s', Tau))
      else (GenCas c old want (gen s), s, Tau))"
| "thread_step (HeadCas c old new) s =
     (case EHash_CAS old new s of
        (True, s) \<Rightarrow> (Idle, s, finished c old)
      | (False, s) \<Rightarrow> (retry c, s, Tau))"

text \<open>
  All threads, the shared memory, and the nodes that were ever handed to \<open>ehash_stack_push\<close>.
  \<open>Start_push\<close> requires a node that was not, so that executions are those of a client that
  never reuses a node.
\<close>

record config =
  threads :: "nat \<Rightarrow> pc"
  shared :: estack
  used :: "ptr set"

inductive estep :: "config \<Rightarrow> label \<Rightarrow> config \<Rightarrow> bool" where
  Run: "thread_step (threads c t) (shared c) = (p, s, l) \<Longrightarrow>
          estep c l (c\<lparr>threads := (threads c)(t := p), shared := s\<rparr>)"
| Start_push: "threads c t = Idle \<Longrightarrow> n \<notin> used c \<Longrightarrow> n \<noteq> NULL \<Longrightarrow>
          estep c Tau (c\<lparr>threads := (threads c)(t := PushLoad n), used := insert n (used c)\<rparr>)"
| Start_pop: "threads c t = Idle \<Longrightarrow> estep c Tau (c\<lparr>threads := (threads c)(t := PopLoad)\<rparr>)"

definition start :: "u64 \<Rightarrow> (ptr \<Rightarrow> ptr) \<Rightarrow> config" where
  "start seed nx = \<lparr>threads = (\<lambda>_. Idle), shared = ehash_stack_init seed nx, used = {}\<rparr>"

inductive execution :: "config \<Rightarrow> label list \<Rightarrow> config \<Rightarrow> bool" where
  Exec_nil: "execution c [] c"
| Exec_step: "execution c tr c' \<Longrightarrow> estep c' l c'' \<Longrightarrow> execution c (tr @ [l]) c''"

inductive_cases estepE: "estep c l c'"

section \<open>Facts on the generator and on tagged pointers\<close>

lemma xor_drop_bit_inj:
  fixes x y :: "'a::len word"
  assumes n: "0 < n" and e: "x XOR drop_bit n x = y XOR drop_bit n y"
  shows "x = y"
proof (rule bit_word_eqI)
  have b: "(bit x i \<noteq> bit x (n + i)) = (bit y i \<noteq> bit y (n + i))" for i
    using arg_cong [OF e, of "\<lambda>w. bit w i"] by (simp add: bit_simps)
  have "bit x i = bit y i" if "LENGTH('a) \<le> i + k" for i k
    using that
  proof (induction k arbitrary: i)
    case 0
    then show ?case by (auto dest: bit_imp_le_length)
  next
    case (Suc k)
    have "bit x (n + i) = bit y (n + i)" using Suc.prems n by (intro Suc.IH) simp
    with b [of i] show ?case by auto
  qed
  then show "bit x i = bit y i" for i by (metis le_add2)
qed

lemma xor_push_bit_inj:
  fixes x y :: "'a::len word"
  assumes n: "0 < n" and e: "x XOR push_bit n x = y XOR push_bit n y"
  shows "x = y"
proof (rule bit_word_eqI)
  fix i
  assume "i < LENGTH('a)"
  then show "bit x i = bit y i"
  proof (induction i rule: less_induct)
    case (less i)
    have b: "(bit x i \<noteq> (n \<le> i \<and> bit x (i - n))) = (bit y i \<noteq> (n \<le> i \<and> bit y (i - n)))"
      using arg_cong [OF e, of "\<lambda>w. bit w i"] less.prems by (simp add: bit_simps)
    show ?case
    proof (cases "n \<le> i")
      case True
      then have "bit x (i - n) = bit y (i - n)"
        using n less.prems by (intro less.IH) auto
      with b show ?thesis by auto
    qed (use b in auto)
  qed
qed

lemma xorshift64_inj: "xorshift64 a = xorshift64 b \<Longrightarrow> a = b"
  unfolding xorshift64_def Let_def
  by (drule xor_drop_bit_inj [rotated], simp, drule xor_push_bit_inj [rotated], simp,
      drule xor_drop_bit_inj [rotated], simp)

lemma xorshift64_zero: "xorshift64 0 = 0"
  by (simp add: xorshift64_def)

lemma field_masks:
  "(0xFFFFFFFFFFFF :: u64) = mask 48" "(0xFFFF :: u64) = mask 16"
  by (simp_all add: mask_eq_exp_minus_1)

lemma ehash_from_to [simp]: "ehash_from_uint64 (ehash_to_uint64 p) = p"
proof -
  have "ucast (ehash_to_uint64 p AND mask 48) = eptr p"
    by (rule bit_word_eqI) (simp add: ehash_to_uint64_def field_masks bit_simps)
  moreover have "ucast (drop_bit 48 (ehash_to_uint64 p) AND mask 16) = ehash p"
    by (rule bit_word_eqI) (simp add: ehash_to_uint64_def field_masks bit_simps)
  ultimately show ?thesis by (simp add: ehash_from_uint64_def field_masks)
qed

lemma ehash_to_from [simp]: "ehash_to_uint64 (ehash_from_uint64 v) = v"
proof (rule bit_word_eqI)
  fix n assume "n < LENGTH(64)"
  then show "bit (ehash_to_uint64 (ehash_from_uint64 v)) n = bit v n"
    by (cases "n < 48") (auto simp: ehash_to_uint64_def ehash_from_uint64_def field_masks bit_simps)
qed

lemma ehash_to_uint64_inj: "ehash_to_uint64 p = ehash_to_uint64 q \<longleftrightarrow> p = q"
  by (metis ehash_from_to)

lemma ehash_get_ptr_eq: "ehash_get_ptr p = ehash_get_ptr q \<longleftrightarrow> eptr p = eptr q"
proof
  assume e: "ehash_get_ptr p = ehash_get_ptr q"
  show "eptr p = eptr q"
  proof (rule bit_word_eqI)
    fix n assume "n < LENGTH(48)"
    then show "bit (eptr p) n = bit (eptr q) n"
      using arg_cong [OF e, of "\<lambda>w. bit w n"] by (simp add: ehash_get_ptr_def bit_simps)
  qed
qed (simp add: ehash_get_ptr_def)

lemma EHash_load_iff: "EHash_load s = p \<longleftrightarrow> head s = ehash_to_uint64 p"
  by (auto simp: EHash_load_def)

lemma make_ehash_ptr_get:
  assumes "make_ehash_ptr p h = Inr e"
  shows "ehash_get_ptr e = p" "ehash e = h"
proof -
  from assms have f: "p AND 0xFFFF000000000000 = 0" and e: "e = \<lparr>eptr = ucast p, ehash = h\<rparr>"
    by (auto simp: make_ehash_ptr_def ptr_fits_def)
  have hi: "(0xFFFF000000000000 :: u64) = NOT (mask 48)" by (simp add: mask_eq_exp_minus_1)
  have "ucast (ucast p :: 48 word) = p"
  proof (rule bit_word_eqI)
    fix n assume "n < LENGTH(64)"
    moreover have "bit (p AND NOT (mask 48)) n = False" using f unfolding hi by simp
    ultimately show "bit (ucast (ucast p :: 48 word) :: u64) n = bit p n"
      by (auto simp: bit_simps)
  qed
  then show "ehash_get_ptr e = p" by (simp add: e ehash_get_ptr_def)
  show "ehash e = h" by (simp add: e)
qed

section \<open>The invariant of the stack\<close>

text \<open>\<open>chain nx p xs\<close>: from \<open>p\<close>, the \<open>next\<close> fields lead through exactly \<open>xs\<close> to null.\<close>

fun chain :: "(ptr \<Rightarrow> ptr) \<Rightarrow> ptr \<Rightarrow> ptr list \<Rightarrow> bool" where
  "chain nx p [] \<longleftrightarrow> p = NULL"
| "chain nx p (x # xs) \<longleftrightarrow> p = x \<and> x \<noteq> NULL \<and> chain nx (nx x) xs"

lemma chain_upd: "n \<notin> set xs \<Longrightarrow> chain (nx(n := v)) p xs \<longleftrightarrow> chain nx p xs"
  by (induction xs arbitrary: p) auto

lemma chain_unique: "chain nx p xs \<Longrightarrow> chain nx p ys \<Longrightarrow> xs = ys"
proof (induction xs arbitrary: p ys)
  case (Cons x xs)
  then show ?case by (cases ys) auto
qed (metis chain.elims(2) list.distinct(1))

text \<open>The node a thread is pushing, and the node whose \<open>next\<close> a popping thread relies on.\<close>

fun pushing :: "pc \<Rightarrow> ptr option" where
  "pushing (PushLoad n) = Some n"
| "pushing (PushLink n old) = Some n"
| "pushing (GenLoad (Pushing n) old want) = Some n"
| "pushing (GenCas (Pushing n) old want st) = Some n"
| "pushing (HeadCas (Pushing n) old new) = Some n"
| "pushing _ = None"

text \<open>
  What a thread knows, given the shared memory and the set of nodes that are no longer private:
  a pushing thread that its node leads to the old head, a popping thread that \<open>want\<close> is the
  successor of the old head.
\<close>

definition linked :: "call \<Rightarrow> EHashPtr \<Rightarrow> ptr \<Rightarrow> estack \<Rightarrow> ptr set \<Rightarrow> bool" where
  "linked c old want s pub =
     (case c of
        Pushing n \<Rightarrow> want = n \<and> node_next s n = ehash_get_ptr old
      | Popping \<Rightarrow> ehash_get_ptr old \<in> pub \<and> want = node_next s (ehash_get_ptr old))"

fun knows :: "pc \<Rightarrow> estack \<Rightarrow> ptr set \<Rightarrow> bool" where
  "knows (PopNext old) s pub = (ehash_get_ptr old \<in> pub)"
| "knows (GenLoad c old want) s pub = linked c old want s pub"
| "knows (GenCas c old want st) s pub = linked c old want s pub"
| "knows (HeadCas c old new) s pub = linked c old (ehash_get_ptr new) s pub"
| "knows _ s pub = True"

definition public :: "config \<Rightarrow> ptr set" where
  "public c = {n \<in> used c. \<forall>t. pushing (threads c t) \<noteq> Some n}"

definition stack_inv :: "config \<Rightarrow> ptr list \<Rightarrow> bool" where
  "stack_inv c xs \<longleftrightarrow>
     chain (node_next (shared c)) (ehash_get_ptr (EHash_load (shared c))) xs \<and>
     distinct xs \<and> set xs \<subseteq> public c \<and>
     NULL \<notin> used c \<and>
     (\<forall>t n. pushing (threads c t) = Some n \<longrightarrow> n \<in> used c) \<and>
     (\<forall>t t' n. pushing (threads c t) = Some n \<longrightarrow> pushing (threads c t') = Some n \<longrightarrow> t = t') \<and>
     (\<forall>t. knows (threads c t) (shared c) (public c))"

text \<open>The sequential stack: what a label does to the list.\<close>

fun seq_step :: "label \<Rightarrow> ptr list \<Rightarrow> ptr list option" where
  "seq_step Tau xs = Some xs"
| "seq_step (Pushed n) xs = Some (n # xs)"
| "seq_step (Popped x) [] = (if x = NULL then Some [] else None)"
| "seq_step (Popped x) (y # ys) = (if x = y then Some ys else None)"

fun seq_run :: "label list \<Rightarrow> ptr list \<Rightarrow> ptr list option" where
  "seq_run [] xs = Some xs"
| "seq_run (l # tr) xs = (case seq_step l xs of None \<Rightarrow> None | Some ys \<Rightarrow> seq_run tr ys)"

lemma seq_run_snoc: "seq_run (tr @ [l]) xs = Option.bind (seq_run tr xs) (seq_step l)"
  by (induction tr arbitrary: xs) (auto split: option.splits)


section \<open>Every step preserves the invariant\<close>

lemma knows_mono:
  assumes "knows p s pub" "pub \<subseteq> pub'" "node_next s' = node_next s"
  shows "knows p s' pub'"
  using assms by (cases p) (auto simp: linked_def split: call.splits)

text \<open>A store to the \<open>next\<close> field of a private node leaves what the other threads know.\<close>

lemma knows_other:
  assumes "knows p s pub" "n \<notin> pub" "pushing p \<noteq> Some n"
  shows "knows p (s\<lparr>node_next := (node_next s)(n := v)\<rparr>) pub"
  using assms by (cases p) (auto simp: linked_def split: call.splits)

lemma inv_private:
  assumes "stack_inv c xs" "pushing (threads c t) = Some n"
  shows "n \<notin> public c" "n \<in> used c" "n \<noteq> NULL" "n \<notin> set xs"
    "t' \<noteq> t \<Longrightarrow> pushing (threads c t') \<noteq> Some n"
  using assms unfolding stack_inv_def public_def by blast+

lemma inv_knows: "stack_inv c xs \<Longrightarrow> knows (threads c t) (shared c) (public c)"
  by (simp add: stack_inv_def)

text \<open>A configuration in which every thread pushes what it pushed before, or nothing.\<close>

definition calmer :: "config \<Rightarrow> config \<Rightarrow> bool" where
  "calmer c c' \<longleftrightarrow> used c' = used c \<and>
     (\<forall>t n. pushing (threads c' t) = Some n \<longrightarrow> pushing (threads c t) = Some n)"

lemma calmer_public: "calmer c c' \<Longrightarrow> public c \<subseteq> public c'"
  by (auto simp: calmer_def public_def)

lemma calmer_inv:
  assumes "stack_inv c xs" "calmer c c'"
    and "chain (node_next (shared c')) (ehash_get_ptr (EHash_load (shared c'))) ys"
    and "distinct ys" "set ys \<subseteq> public c'"
    and "\<And>t. knows (threads c' t) (shared c') (public c')"
  shows "stack_inv c' ys"
proof -
  have push: "pushing (threads c t) = Some n" if "pushing (threads c' t) = Some n" for t n
    using assms(2) that by (auto simp: calmer_def)
  have "NULL \<notin> used c'" using assms(1,2) by (auto simp: stack_inv_def calmer_def)
  moreover have "n \<in> used c'" if "pushing (threads c' t) = Some n" for t n
    using inv_private(2) [OF assms(1) push [OF that]] assms(2) by (simp add: calmer_def)
  moreover have "t = t'"
    if "pushing (threads c' t) = Some n" "pushing (threads c' t') = Some n" for t t' n
    using inv_private(5) [OF assms(1) push [OF that(1)], of t'] push [OF that(2)] by blast
  ultimately show ?thesis
    unfolding stack_inv_def using assms(3-6) by blast
qed

lemma calmer_upd:
  assumes "pushing p' = pushing (threads c t) \<or> pushing p' = None"
  shows "calmer c (c\<lparr>threads := (threads c)(t := p'), shared := s'\<rparr>)"
  using assms by (auto simp: calmer_def)

text \<open>A step of thread \<open>t\<close> that leaves the head and the nodes alone.\<close>

lemma inv_thread:
  assumes inv: "stack_inv c xs"
    and p': "pushing p' = pushing (threads c t) \<or> pushing p' = None"
    and s': "node_next s' = node_next (shared c)" "head s' = head (shared c)"
    and k: "knows p' s' (public c)"
  shows "stack_inv (c\<lparr>threads := (threads c)(t := p'), shared := s'\<rparr>) xs"
    (is "stack_inv ?c xs")
proof (rule calmer_inv [OF inv calmer_upd [OF p']])
  note pub = calmer_public [OF calmer_upd [OF p', of s']]
  show "knows (threads ?c t') (shared ?c) (public ?c)" for t'
    using inv_knows [OF inv] k pub s'(1) by (cases "t' = t") (auto intro: knows_mono)
  show "set xs \<subseteq> public ?c" using inv pub by (auto simp: stack_inv_def)
qed (use inv s' in \<open>auto simp: stack_inv_def EHash_load_def\<close>)

lemma inv_link:
  assumes inv: "stack_inv c xs" and t: "threads c t = PushLink n old"
  shows "stack_inv (c\<lparr>threads := (threads c)(t := GenLoad (Pushing n) old n),
    shared := (shared c)\<lparr>node_next := (node_next (shared c))(n := ehash_get_ptr old)\<rparr>\<rparr>) xs"
    (is "stack_inv ?c xs")
proof -
  have "pushing (threads c t) = Some n" using t by simp
  note n = inv_private [OF inv this]
  have calm: "calmer c ?c" by (rule calmer_upd) (simp add: t)
  have "pushing (threads ?c t') = pushing (threads c t')" for t' using t by simp
  then have pub: "public ?c = public c" by (simp add: public_def)
  show ?thesis
  proof (rule calmer_inv [OF inv calm])
    show "knows (threads ?c t') (shared ?c) (public ?c)" for t'
    proof (cases "t' = t")
      case False
      then show ?thesis
        using inv_knows [OF inv, of t'] n(1) n(5) [OF False] unfolding pub
        by (auto intro: knows_other)
    qed (auto simp: linked_def)
    show "chain (node_next (shared ?c)) (ehash_get_ptr (EHash_load (shared ?c))) xs"
      using inv n(4) by (auto simp: stack_inv_def chain_upd EHash_load_def)
  qed (use inv pub in \<open>auto simp: stack_inv_def\<close>)
qed

lemma inv_push:
  assumes inv: "stack_inv c xs" and t: "threads c t = HeadCas (Pushing n) old new"
    and h: "head (shared c) = ehash_to_uint64 old"
  shows "stack_inv (c\<lparr>threads := (threads c)(t := Idle),
    shared := (shared c)\<lparr>head := ehash_to_uint64 new\<rparr>\<rparr>) (n # xs)"
    (is "stack_inv ?c _")
proof -
  have k: "ehash_get_ptr new = n" "node_next (shared c) n = ehash_get_ptr old"
    using inv_knows [OF inv, of t] t by (auto simp: linked_def)
  have "pushing (threads c t) = Some n" using t by simp
  note n = inv_private [OF inv this]
  have calm: "calmer c ?c" by (rule calmer_upd) simp
  note pub = calmer_public [OF calm]
  have l: "EHash_load (shared c) = old" "EHash_load (shared ?c) = new"
    using h by (auto simp: EHash_load_def)
  show ?thesis
  proof (rule calmer_inv [OF inv calm])
    show "knows (threads ?c t') (shared ?c) (public ?c)" for t'
      using knows_mono [OF inv_knows [OF inv] pub, of "shared ?c" t'] by simp
    show "set (n # xs) \<subseteq> public ?c"
      using inv pub n(2,5) by (auto simp: stack_inv_def public_def)
  qed (use inv k n l in \<open>auto simp: stack_inv_def\<close>)
qed

lemma inv_pop:
  assumes inv: "stack_inv c xs" and t: "threads c t = HeadCas Popping old new"
    and h: "head (shared c) = ehash_to_uint64 old" and nz: "ehash_get_ptr old \<noteq> NULL"
  shows "\<exists>ys. xs = ehash_get_ptr old # ys \<and>
    stack_inv (c\<lparr>threads := (threads c)(t := Idle),
      shared := (shared c)\<lparr>head := ehash_to_uint64 new\<rparr>\<rparr>) ys"
    (is "\<exists>ys. _ \<and> stack_inv ?c ys")
proof -
  have k: "ehash_get_ptr new = node_next (shared c) (ehash_get_ptr old)"
    using inv_knows [OF inv, of t] t by (auto simp: linked_def)
  have l: "EHash_load (shared c) = old" "EHash_load (shared ?c) = new"
    using h by (auto simp: EHash_load_def)
  have "chain (node_next (shared c)) (ehash_get_ptr old) xs"
    using inv l by (simp add: stack_inv_def)
  then obtain ys where ys: "xs = ehash_get_ptr old # ys"
    "chain (node_next (shared c)) (ehash_get_ptr new) ys"
    using nz k by (cases xs) auto
  have calm: "calmer c ?c" by (rule calmer_upd) simp
  note pub = calmer_public [OF calm]
  have "stack_inv ?c ys"
  proof (rule calmer_inv [OF inv calm])
    show "knows (threads ?c t') (shared ?c) (public ?c)" for t'
      using knows_mono [OF inv_knows [OF inv] pub, of "shared ?c" t'] by simp
    show "set ys \<subseteq> public ?c" using inv pub ys(1) by (auto simp: stack_inv_def)
  qed (use inv ys l in \<open>auto simp: stack_inv_def\<close>)
  then show ?thesis using ys(1) by blast
qed

lemma inv_start_push:
  assumes inv: "stack_inv c xs" and t: "threads c t = Idle" and n: "n \<notin> used c" "n \<noteq> NULL"
  shows "stack_inv (c\<lparr>threads := (threads c)(t := PushLoad n), used := insert n (used c)\<rparr>) xs"
    (is "stack_inv ?c xs")
proof -
  have no: "pushing (threads c t') \<noteq> Some n" for t'
    using inv n(1) by (auto simp: stack_inv_def)
  then have pub: "public ?c = public c" using t n by (auto simp: public_def split: if_splits)
  have "knows (threads ?c t') (shared ?c) (public ?c)" for t'
    using inv_knows [OF inv, of t'] unfolding pub by auto
  moreover have "t' = t''" if "pushing (threads ?c t') = Some k" "pushing (threads ?c t'') = Some k"
    for t' t'' k
  proof (rule ccontr)
    assume ne: "t' \<noteq> t''"
    have "k = n" if "t' = t \<or> t'' = t"
      using that \<open>pushing (threads ?c t') = Some k\<close> \<open>pushing (threads ?c t'') = Some k\<close> by auto
    then show False
      using that no ne inv_private(5) [OF inv, of t' k t''] by (cases "t' = t"; cases "t'' = t") auto
  qed
  moreover have "k \<in> used ?c" if "pushing (threads ?c t') = Some k" for t' k
    using that inv_private(2) [OF inv, of t' k] by (cases "t' = t") auto
  moreover have "chain (node_next (shared ?c)) (ehash_get_ptr (EHash_load (shared ?c))) xs"
    "distinct xs" "set xs \<subseteq> public ?c" "NULL \<notin> used ?c"
    using inv n(2) unfolding pub by (auto simp: stack_inv_def)
  ultimately show ?thesis
    unfolding stack_inv_def by blast
qed

lemma inv_run:
  assumes inv: "stack_inv c xs" and st: "thread_step (threads c t) (shared c) = (p, s, l)"
  shows "\<exists>ys. seq_step l xs = Some ys \<and>
    stack_inv (c\<lparr>threads := (threads c)(t := p), shared := s\<rparr>) ys"
proof -
  note k = inv_knows [OF inv, of t]
  have quiet: ?thesis
    if "l = Tau" "pushing p = pushing (threads c t) \<or> pushing p = None"
      "node_next s = node_next (shared c)" "head s = head (shared c)" "knows p s (public c)"
    using inv_thread [OF inv that(2-5)] that(1) by simp
  have chain: "chain (node_next (shared c)) (ehash_get_ptr (EHash_load (shared c))) xs"
    "set xs \<subseteq> public c" "NULL \<notin> public c"
    using inv by (auto simp: stack_inv_def public_def)
  show ?thesis
  proof (cases "threads c t")
    case Idle
    show ?thesis by (rule quiet) (use Idle st in auto)
  next
    case Failed
    show ?thesis by (rule quiet) (use Failed st in auto)
  next
    case (PushLoad n)
    show ?thesis by (rule quiet) (use PushLoad st in auto)
  next
    case (PopNext old)
    show ?thesis by (rule quiet) (use PopNext st k in \<open>auto simp: linked_def\<close>)
  next
    case (GenLoad cl old want)
    have "pushing p = pushing (threads c t)" using GenLoad st by (cases cl) auto
    then show ?thesis by (intro quiet) (use GenLoad st k in auto)
  next
    case (PushLink n old)
    then show ?thesis using st inv_link [OF inv PushLink] by simp
  next
    case PopLoad
    show ?thesis
    proof (cases xs)
      case Nil
      then have "ehash_get_ptr (EHash_load (shared c)) = NULL" using chain by simp
      then show ?thesis
        using PopLoad st Nil inv_thread [OF inv, of Idle t "shared c"] by auto
    next
      case (Cons x zs)
      then have "ehash_get_ptr (EHash_load (shared c)) = x" "x \<noteq> NULL" "x \<in> public c"
        using chain by auto
      then show ?thesis
        by (intro quiet) (use PopLoad st in \<open>auto simp: Let_def\<close>)
    qed
  next
    case (GenCas cl old want st')
    have push: "pushing (GenCas cl old want st'') = pushing (threads c t)"
      "pushing (HeadCas cl old new) = pushing (threads c t)" for st'' new
      using GenCas by (cases cl; simp)+
    show ?thesis
    proof (cases "gen (shared c) = st'")
      case True
      let ?h = "state_hash (xorshift64 st')"
      show ?thesis
      proof (cases "make_ehash_ptr want ?h")
        case (Inr new)
        have e: "p = HeadCas cl old new" "s = (shared c)\<lparr>gen := xorshift64 st'\<rparr>" "l = Tau"
          using st Inr unfolding GenCas by (simp_all add: True hash_generator_next_def Let_def)
        have "linked cl old want (shared c) (public c)" using k GenCas by simp
        then have "knows p s (public c)"
          unfolding e by (simp add: make_ehash_ptr_get(1) [OF Inr] linked_def split: call.splits)
        then show ?thesis by (intro quiet) (simp_all add: e push)
      next
        case (Inl er)
        have e: "p = Failed" "s = (shared c)\<lparr>gen := xorshift64 st'\<rparr>" "l = Tau"
          using st Inl unfolding GenCas by (simp_all add: True hash_generator_next_def Let_def)
        show ?thesis by (intro quiet) (simp_all add: e)
      qed
    next
      case False
      have e: "p = GenCas cl old want (gen (shared c))" "s = shared c" "l = Tau"
        using st False unfolding GenCas by auto
      have "linked cl old want (shared c) (public c)" using k GenCas by simp
      then show ?thesis by (intro quiet) (simp_all add: e push)
    qed
  next
    case (HeadCas cl old new)
    show ?thesis
    proof (cases "head (shared c) = ehash_to_uint64 old")
      case True
      show ?thesis
      proof (cases cl)
        case (Pushing n)
        then show ?thesis
          using HeadCas True st inv_push [OF inv, of t n old new]
          by (auto simp: EHash_CAS_def finished_def)
      next
        case Popping
        then have "ehash_get_ptr old \<in> public c" using k HeadCas by (simp add: linked_def)
        then have "ehash_get_ptr old \<noteq> NULL" using chain(3) by auto
        then show ?thesis
          using HeadCas Popping True st inv_pop [OF inv, of t old new]
          by (auto simp: EHash_CAS_def finished_def)
      qed
    next
      case False
      have "p = retry cl" "s = shared c" "l = Tau"
        using HeadCas False st by (auto simp: EHash_CAS_def)
      moreover have "pushing (retry cl) = pushing (threads c t)" "knows (retry cl) s (public c)"
        using HeadCas by (auto simp: retry_def split: call.splits)
      ultimately show ?thesis by (intro quiet) auto
    qed
  qed
qed

lemma inv_estep:
  assumes "stack_inv c xs" "estep c l c'"
  shows "\<exists>ys. seq_step l xs = Some ys \<and> stack_inv c' ys"
  using assms(2)
proof (cases rule: estep.cases)
  case (Run t p s)
  then show ?thesis using inv_run [OF assms(1)] by blast
next
  case (Start_push t n)
  then show ?thesis using inv_start_push [OF assms(1)] by auto
next
  case (Start_pop t)
  then show ?thesis using inv_thread [OF assms(1), of PopLoad t "shared c"] by simp
qed

lemma inv_start: "stack_inv (start seed nx) []"
  by (simp add: stack_inv_def start_def ehash_stack_init_def EHash_load_def
      ehash_from_uint64_def ehash_get_ptr_def)

section \<open>Schedules\<close>

text \<open>An execution given by its schedule, so that it can be computed.\<close>

datatype event = Turn nat | New_push nat ptr | New_pop nat

definition event_step :: "event \<Rightarrow> config \<Rightarrow> (label \<times> config) option" where
  "event_step e c =
     (case e of
        Turn t \<Rightarrow>
          (case thread_step (threads c t) (shared c) of
             (p, s, l) \<Rightarrow> Some (l, c\<lparr>threads := (threads c)(t := p), shared := s\<rparr>))
      | New_push t n \<Rightarrow>
          (if threads c t = Idle \<and> n \<notin> used c \<and> n \<noteq> NULL
           then Some (Tau, c\<lparr>threads := (threads c)(t := PushLoad n), used := insert n (used c)\<rparr>)
           else None)
      | New_pop t \<Rightarrow>
          (if threads c t = Idle then Some (Tau, c\<lparr>threads := (threads c)(t := PopLoad)\<rparr>)
           else None))"

fun run_schedule :: "event list \<Rightarrow> label list \<Rightarrow> config \<Rightarrow> (label list \<times> config) option" where
  "run_schedule [] tr c = Some (tr, c)"
| "run_schedule (e # es) tr c =
     (case event_step e c of None \<Rightarrow> None | Some (l, c') \<Rightarrow> run_schedule es (tr @ [l]) c')"

lemma event_step_estep: "event_step e c = Some (l, c') \<Longrightarrow> estep c l c'"
  by (auto simp: event_step_def split: event.splits prod.splits if_splits intro: estep.intros)

lemma run_schedule_execution:
  "execution c0 tr c \<Longrightarrow> run_schedule es tr c = Some (tr', c') \<Longrightarrow> execution c0 tr' c'"
proof (induction es tr c rule: run_schedule.induct)
  case (2 e es tr c)
  then obtain l c1 where "event_step e c = Some (l, c1)" "run_schedule es (tr @ [l]) c1 = Some (tr', c')"
    by (auto split: option.splits)
  with 2 show ?case by (blast intro: Exec_step event_step_estep)
qed simp

lemma execution_inv:
  assumes "execution c tr c'" "stack_inv c xs"
  shows "\<exists>ys. seq_run tr xs = Some ys \<and> stack_inv c' ys"
  using assms
proof (induction rule: execution.induct)
  case (Exec_step c tr c' l c'')
  then show ?case using inv_estep [of c' _ l c''] by (fastforce simp: seq_run_snoc)
qed simp

section \<open>Reuse of nodes\<close>

text \<open>
  A client that pushes nodes again after popping them, as the tags are meant to allow: every step of
  \<open>estep\<close>, and a push of any node by an idle thread.
\<close>

inductive reuse_step :: "config \<Rightarrow> config \<Rightarrow> bool" where
  Any_step: "estep c l c' \<Longrightarrow> reuse_step c c'"
| Push_again: "threads c t = Idle \<Longrightarrow> n \<noteq> NULL \<Longrightarrow> reuse_step c (c\<lparr>threads := (threads c)(t := PushLoad n)\<rparr>)"

text \<open>With the seed 0: the tags and generator states that a thread has read or made are 0.\<close>

fun untagged :: "pc \<Rightarrow> bool" where
  "untagged (PushLink n old) \<longleftrightarrow> ehash old = 0"
| "untagged (PopNext old) \<longleftrightarrow> ehash old = 0"
| "untagged (GenLoad c old want) \<longleftrightarrow> ehash old = 0"
| "untagged (GenCas c old want st) \<longleftrightarrow> ehash old = 0 \<and> st = 0"
| "untagged (HeadCas c old new) \<longleftrightarrow> ehash old = 0 \<and> ehash new = 0"
| "untagged _ \<longleftrightarrow> True"

definition zero_inv :: "config \<Rightarrow> bool" where
  "zero_inv c \<longleftrightarrow> gen (shared c) = 0 \<and> ehash (EHash_load (shared c)) = 0 \<and> (\<forall>t. untagged (threads c t))"

lemma zero_next: "hash_generator_next 0 = (0, 0)"
  by (simp add: hash_generator_next_def state_hash_def xorshift64_zero)

lemma thread_step_untagged:
  assumes "thread_step p s = (p', s', l)" "untagged p" "gen s = 0" "ehash (EHash_load s) = 0"
  shows "untagged p' \<and> gen s' = 0 \<and> ehash (EHash_load s') = 0"
  using assms
  by (cases p)
    (auto simp: zero_next EHash_CAS_def EHash_load_def retry_def Let_def make_ehash_ptr_get
      split: if_splits sum.splits call.splits)

lemma zero_inv_step: "reuse_step c c' \<Longrightarrow> zero_inv c \<Longrightarrow> zero_inv c'"
proof (induction rule: reuse_step.induct)
  case (Any_step c l c')
  then show ?case
  proof (cases rule: estep.cases)
    case (Run t p s)
    then show ?thesis using thread_step_untagged [OF Run(2)] Any_step.prems by (simp add: zero_inv_def)
  qed (use Any_step.prems in \<open>simp_all add: zero_inv_def\<close>)
qed (simp add: zero_inv_def)

text \<open>With another seed the generator never reaches 0.\<close>

lemma xorshift64_eq_0: "xorshift64 st = 0 \<longleftrightarrow> st = 0"
  using xorshift64_inj [of st 0] by (auto simp: xorshift64_zero)

lemma thread_step_gen:
  assumes "thread_step p s = (p', s', l)"
  shows "gen s' = 0 \<longleftrightarrow> gen s = 0"
  using assms
  by (cases p) (auto simp: hash_generator_next_def EHash_CAS_def Let_def xorshift64_eq_0 split: if_splits sum.splits)

lemma reuse_step_gen: "reuse_step c c' \<Longrightarrow> gen (shared c') = 0 \<longleftrightarrow> gen (shared c) = 0"
  by (induction rule: reuse_step.induct) (auto elim!: estepE dest: thread_step_gen)

lemma zero_inv_start: "zero_inv (start 0 nx)"
  by (simp add: zero_inv_def start_def ehash_stack_init_def hash_generator_init_def EHash_load_def ehash_from_uint64_def)

lemma reuse_run:
  assumes "reuse_step\<^sup>*\<^sup>* (start seed nx) c"
  shows "gen (shared c) = 0 \<longleftrightarrow> seed = 0" "seed = 0 \<Longrightarrow> zero_inv c"
  using assms
proof (induction rule: rtranclp_induct)
  case base
  show "gen (shared (start seed nx)) = 0 \<longleftrightarrow> seed = 0"
    by (simp add: start_def ehash_stack_init_def hash_generator_init_def)
  show "seed = 0 \<Longrightarrow> zero_inv (start seed nx)" using zero_inv_start by simp
qed (auto simp: reuse_step_gen zero_inv_step)

text \<open>\<open>k\<close> steps of one thread alone.\<close>

definition solo :: "nat \<Rightarrow> pc \<Rightarrow> estack \<Rightarrow> pc \<times> estack \<times> label" where
  "solo k p s = ((\<lambda>(p, s, l). thread_step p s) ^^ k) (p, s, Tau)"

text \<open>
  A thread starts to pop the node \<open>a\<close> at the head of the stack, whose tag is \<open>h\<close>, and is interrupted after
  reading its \<open>next\<close>; meanwhile \<open>a\<close> and the node after it are popped and \<open>a\<close> is pushed again. The result
  is the label of the first thread's compare-and-exchange and the node at the head after it.
\<close>

definition aba_scenario :: "u64 \<Rightarrow> u16 \<Rightarrow> ptr \<Rightarrow> (ptr \<Rightarrow> ptr) \<Rightarrow> label \<times> ptr" where
  "aba_scenario seed h a nx =
     (let s = \<lparr>head = ehash_to_uint64 \<lparr>eptr = ucast a, ehash = h\<rparr>, gen = seed, node_next = nx\<rparr>;
          (p, s, _) = solo 2 PopLoad s;
          (_, s, _) = solo 5 PopLoad s;
          (_, s, _) = solo 5 PopLoad s;
          (_, s, _) = solo 5 (PushLoad a) s;
          (_, s, l) = solo 3 p s
      in (l, ehash_get_ptr (EHash_load s)))"

section \<open>Properties\<close>

text \<open>
  C18: the lock-free stack is linearizable, for any number of threads and any interleaving of
  their atomic steps, as long as no node is pushed twice: the labels of an execution, taken in
  the order of the compare-and-exchanges, are a run of a sequential stack, every completed pop
  returns the top of that stack (null exactly when it is empty), and at every moment the \<open>next\<close>
  fields lead from the head through exactly the nodes pushed and not yet popped.
\<close>
theorem ehash_stack_linearizable:
  assumes "execution (start seed nx) tr c"
  shows "\<exists>xs. seq_run tr [] = Some xs \<and> distinct xs \<and>
    chain (node_next (shared c)) (ehash_get_ptr (EHash_load (shared c))) xs"
  using execution_inv [OF assms inv_start] by (auto simp: stack_inv_def)

text \<open>Two threads push 16 and 32 and pop, with their steps interleaved.\<close>

definition schedule2 :: "event list" where
  "schedule2 =
     [New_push 0 16, Turn 0, New_pop 1, Turn 1, Turn 0, Turn 0, Turn 0, Turn 0, New_pop 1,
      New_push 0 32, Turn 1, Turn 0, Turn 0, Turn 0, Turn 1, Turn 1, Turn 1, Turn 0, Turn 0, Turn 1]"

lemma schedule2_result:
  "map_option fst (run_schedule schedule2 [] (start 1 (\<lambda>_. 0)))
     = Some [Tau, Tau, Tau, Popped 0, Tau, Tau, Tau, Pushed 16, Tau, Tau, Tau, Tau,
             Tau, Tau, Tau, Tau, Tau, Tau, Tau, Popped 16]"
  by code_simp

lemma ehash_stack_linearizable_witness:
  "\<exists>c xs. execution (start 1 (\<lambda>_. 0))
       [Tau, Tau, Tau, Popped 0, Tau, Tau, Tau, Pushed 16, Tau, Tau, Tau, Tau,
        Tau, Tau, Tau, Tau, Tau, Tau, Tau, Popped 16] c \<and> distinct xs \<and>
     chain (node_next (shared c)) (ehash_get_ptr (EHash_load (shared c))) xs"
proof -
  obtain c where "run_schedule schedule2 [] (start 1 (\<lambda>_. 0))
     = Some ([Tau, Tau, Tau, Popped 0, Tau, Tau, Tau, Pushed 16, Tau, Tau, Tau, Tau,
             Tau, Tau, Tau, Tau, Tau, Tau, Tau, Popped 16], c)"
    using schedule2_result by auto
  note ex = run_schedule_execution [OF Exec_nil this]
  show ?thesis using ex ehash_stack_linearizable [OF ex] by blast
qed

text \<open>
  Packing a tagged pointer into 64 bits and unpacking it are inverse to each other, in both
  directions, and \<open>make_ehash_ptr\<close> either yields a tagged pointer that gives back both its
  parts or fails on a pointer that does not fit.
\<close>
theorem ehash_pack_roundtrip:
  "ehash_from_uint64 (ehash_to_uint64 p) = p \<and> ehash_to_uint64 (ehash_from_uint64 v) = v \<and>
   (case make_ehash_ptr q h of
      Inr e \<Rightarrow> ptr_fits q \<and> ehash_get_ptr e = q \<and> ehash e = h
    | Inl er \<Rightarrow> \<not> ptr_fits q \<and> er = Assertion ''Pointer must fit in 48 bits'')"
proof (cases "ptr_fits q")
  case True
  then obtain e where "make_ehash_ptr q h = Inr e" by (auto simp: make_ehash_ptr_def)
  then show ?thesis using True make_ehash_ptr_get [of q h e] by simp
next
  case False
  then show ?thesis by (simp add: make_ehash_ptr_def)
qed

text \<open>
  The generator's state function is injective and maps no state but 0 to 0, so that a
  generator with a nonzero seed never reaches 0 and never joins the orbit of another state;
  seeded with 0 it stays at 0 and every hash is 0.
\<close>
theorem hash_generator_states:
  "inj xorshift64 \<and>
   (snd (hash_generator_next (((\<lambda>st. snd (hash_generator_next st)) ^^ k) (hash_generator_init seed))) = 0
      \<longleftrightarrow> seed = 0) \<and>
   hash_generator_next (hash_generator_init 0) = (0, 0)"
proof -
  have z: "xorshift64 st = 0 \<longleftrightarrow> st = 0" for st
    using xorshift64_inj [of st 0] by (auto simp: xorshift64_zero)
  have "(xorshift64 ^^ k) seed = 0 \<longleftrightarrow> seed = 0"
    by (induction k) (simp_all add: z)
  then show ?thesis
    by (simp add: z hash_generator_next_def hash_generator_init_def Let_def inj_def state_hash_def
          xorshift64_zero)
      (auto intro: xorshift64_inj)
qed

lemma solo_simps:
  "solo 0 p s = (p, s, Tau)"
  "solo (Suc k) p s = (case solo k p s of (p, s, l) \<Rightarrow> thread_step p s)"
  by (simp_all add: solo_def)

lemma solo_read:
  assumes "ehash_get_ptr (EHash_load s) \<noteq> NULL"
  shows "solo 2 PopLoad s =
    (GenLoad Popping (EHash_load s) (node_next s (ehash_get_ptr (EHash_load s))), s, Tau)"
  using assms by (simp add: numeral_eq_Suc solo_simps)

lemma solo_pop:
  assumes "ehash_get_ptr (EHash_load s) \<noteq> NULL"
    "make_ehash_ptr (node_next s (ehash_get_ptr (EHash_load s))) (state_hash (xorshift64 (gen s))) = Inr new"
  shows "solo 5 PopLoad s =
    (Idle, s\<lparr>gen := xorshift64 (gen s), head := ehash_to_uint64 new\<rparr>, Popped (ehash_get_ptr (EHash_load s)))"
  using assms
  by (simp add: numeral_eq_Suc solo_simps hash_generator_next_def Let_def EHash_CAS_def finished_def EHash_load_def)

lemma solo_push:
  assumes "make_ehash_ptr n (state_hash (xorshift64 (gen s))) = Inr new"
  shows "solo 5 (PushLoad n) s =
    (Idle, s\<lparr>gen := xorshift64 (gen s), head := ehash_to_uint64 new,
       node_next := (node_next s)(n := ehash_get_ptr (EHash_load s))\<rparr>, Pushed n)"
  using assms
  by (simp add: numeral_eq_Suc solo_simps hash_generator_next_def Let_def EHash_CAS_def finished_def EHash_load_def)

lemma solo_resume:
  assumes "make_ehash_ptr want (state_hash (xorshift64 (gen s))) = Inr new"
  shows "solo 3 (GenLoad Popping old want) s =
    (if EHash_load s = old then (Idle, s\<lparr>gen := xorshift64 (gen s), head := ehash_to_uint64 new\<rparr>, Popped (ehash_get_ptr old))
     else (PopLoad, s\<lparr>gen := xorshift64 (gen s)\<rparr>, Tau))"
  using assms EHash_load_iff [of s old]
  by (auto simp: numeral_eq_Suc solo_simps hash_generator_next_def Let_def EHash_CAS_def finished_def retry_def)

lemma make_fits: "ptr_fits p \<Longrightarrow> make_ehash_ptr p h = Inr \<lparr>eptr = ucast p, ehash = h\<rparr>"
  by (simp add: make_ehash_ptr_def)

text \<open>
  The ABA problem: the interrupted compare-and-exchange succeeds exactly if the tag of the head, made by the
  generator's third step, is the old one by chance. It then puts back at the head the
  node after \<open>a\<close>, which has been popped and belongs to another thread.
\<close>
theorem aba_depends_on_tag:
  assumes "ptr_fits a" "a \<noteq> NULL" "ptr_fits (nx a)" "nx a \<noteq> NULL" "ptr_fits (nx (nx a))"
  shows "aba_scenario seed h a nx =
    (if state_hash (xorshift64 (xorshift64 (xorshift64 seed))) = h then (Popped a, nx a) else (Tau, a))"
proof -
  note mk = make_fits [OF assms(1)] make_fits [OF assms(3)] make_fits [OF assms(5)]
  have g: "ehash_get_ptr \<lparr>eptr = ucast p, ehash = k\<rparr> = p" if "ptr_fits p" for p k
    using make_ehash_ptr_get(1) [OF make_fits [OF that]] .
  show ?thesis
    unfolding aba_scenario_def Let_def
    using assms(2,4) g [OF assms(1)] g [OF assms(3)] g [OF assms(5)]
    by (simp add: solo_read solo_pop solo_push solo_resume mk EHash_load_def)
qed

text \<open>
  C40: the tags protect nothing if the seed is 0, which \<open>hash_generator_init\<close> accepts. In every state that any
  threads reach in any interleaving of their steps, with nodes reused at will: the generator's
  state is 0 if and only if the seed was; and with the seed 0 the tag of the head is 0, and a thread's
  compare-and-exchange of the head succeeds as soon as the pointer is the one that it has read before,
  whatever happened in between.
\<close>
theorem zero_seed_disables_tags:
  assumes "reuse_step\<^sup>*\<^sup>* (start seed nx) c"
  shows "(gen (shared c) = 0 \<longleftrightarrow> seed = 0) \<and>
    (seed = 0 \<longrightarrow> ehash (EHash_load (shared c)) = 0 \<and>
      (\<forall>t cl old new. threads c t = HeadCas cl old new \<longrightarrow>
        (fst (EHash_CAS old new (shared c)) \<longleftrightarrow> ehash_get_ptr (EHash_load (shared c)) = ehash_get_ptr old)))"
proof -
  have "fst (EHash_CAS old new (shared c)) \<longleftrightarrow> ehash_get_ptr (EHash_load (shared c)) = ehash_get_ptr old"
    if z: "zero_inv c" and t: "threads c t = HeadCas cl old new" for t cl old new
  proof -
    let ?h = "EHash_load (shared c)"
    have tags: "ehash ?h = 0" "ehash old = 0" using z t by (auto simp: zero_inv_def dest: spec [of _ t])
    have "fst (EHash_CAS old new (shared c)) \<longleftrightarrow> ?h = old"
      by (simp add: EHash_CAS_def EHash_load_iff)
    also have "\<dots> \<longleftrightarrow> eptr ?h = eptr old" using tags by (cases ?h; cases old) simp
    also have "\<dots> \<longleftrightarrow> ehash_get_ptr ?h = ehash_get_ptr old"
      by (simp add: ehash_get_ptr_eq)
    finally show ?thesis .
  qed
  then show ?thesis using reuse_run [OF assms] by (auto simp: zero_inv_def)
qed

text \<open>
  A run from the seed 0: thread 0 pushes 32 and 16; thread 1 starts to pop 16; thread 0 pops both and pushes 16 again;
  thread 1 goes on and is about to put 32, which is no longer in the stack, at the head.
\<close>

definition zero_schedule :: "event list" where
  "zero_schedule =
     New_push 0 32 # replicate 5 (Turn 0) @ New_push 0 16 # replicate 5 (Turn 0) @ [New_pop 1, Turn 1, Turn 1] @
     New_pop 0 # replicate 5 (Turn 0) @ New_pop 0 # replicate 5 (Turn 0)"

definition zero_resumed :: "event list" where
  "zero_resumed = replicate 5 (Turn 0) @ [Turn 1, Turn 1]"

definition zero_run :: "(label list \<times> config) option" where
  "zero_run = Option.bind (run_schedule zero_schedule [] (start 0 (\<lambda>_. 0)))
     (\<lambda>(tr, c). if threads c 0 = Idle then run_schedule zero_resumed [] (c\<lparr>threads := (threads c)(0 := PushLoad 16)\<rparr>) else None)"

lemma zero_run_result:
  "map_option (\<lambda>(tr, c). (threads c 1, ehash_get_ptr (EHash_load (shared c)), node_next (shared c) 16)) zero_run =
     Some (HeadCas Popping \<lparr>eptr = 16, ehash = 0\<rparr> \<lparr>eptr = 32, ehash = 0\<rparr>, 16, 0)"
  by code_simp

lemma run_schedule_reuse: "run_schedule es tr c = Some (tr', c') \<Longrightarrow> reuse_step\<^sup>*\<^sup>* c c'"
proof (induction es tr c rule: run_schedule.induct)
  case (2 e es tr c)
  then obtain l c1 where e: "event_step e c = Some (l, c1)" and r: "run_schedule es (tr @ [l]) c1 = Some (tr', c')"
    by (auto split: option.splits)
  show ?case
    by (rule converse_rtranclp_into_rtranclp [OF Any_step [OF event_step_estep [OF e]] "2.IH" [OF e refl r]])
qed simp

lemma zero_run_reached:
  assumes "zero_run = Some (tr, c)"
  shows "reuse_step\<^sup>*\<^sup>* (start 0 (\<lambda>_. 0)) c"
proof -
  obtain tr1 c1 where r: "run_schedule zero_schedule [] (start 0 (\<lambda>_. 0)) = Some (tr1, c1)" "threads c1 0 = Idle"
    "run_schedule zero_resumed [] (c1\<lparr>threads := (threads c1)(0 := PushLoad 16)\<rparr>) = Some (tr, c)"
    using assms by (auto simp: zero_run_def bind_eq_Some_conv split: if_splits)
  have "reuse_step c1 (c1\<lparr>threads := (threads c1)(0 := PushLoad 16)\<rparr>)" by (rule Push_again [OF r(2)]) simp
  then show ?thesis using run_schedule_reuse [OF r(1)] run_schedule_reuse [OF r(3)]
    by (meson converse_rtranclp_into_rtranclp rtranclp_trans)
qed

lemma zero_seed_disables_tags_witness:
  "\<exists>c. reuse_step\<^sup>*\<^sup>* (start 0 (\<lambda>_. 0)) c \<and> node_next (shared c) 16 = 0 \<and>
     threads c 1 = HeadCas Popping \<lparr>eptr = 16, ehash = 0\<rparr> \<lparr>eptr = 32, ehash = 0\<rparr> \<and>
     fst (EHash_CAS \<lparr>eptr = 16, ehash = 0\<rparr> \<lparr>eptr = 32, ehash = 0\<rparr> (shared c))"
proof -
  obtain tr c where z: "zero_run = Some (tr, c)" "threads c 1 = HeadCas Popping \<lparr>eptr = 16, ehash = 0\<rparr> \<lparr>eptr = 32, ehash = 0\<rparr>"
    "ehash_get_ptr (EHash_load (shared c)) = 16" "node_next (shared c) 16 = 0"
    using zero_run_result by auto
  have "ehash_get_ptr \<lparr>eptr = 16, ehash = 0\<rparr> = 16" by (simp add: ehash_get_ptr_def)
  then show ?thesis
    using z(2-4) zero_run_reached [OF z(1)] zero_seed_disables_tags [OF zero_run_reached [OF z(1)]] by auto
qed

end
