(* ===== verification/Sgoto.thy ===== *)
theory Sgoto
  imports Ehash
begin

text \<open>
  \<^verbatim>\<open>sgoto/src/sgoto.c\<close>: sessions (\<open>sgoto_t\<close>), the table of label addresses, the integrity
  check and the computed jump. The inline assembly is translated instruction by instruction;
  the value of \<open>sgoto_raw\<close> is the address control goes to. A session lives in memory with the
  layout of \<open>sgoto_t\<close>: \<open>curr_hash\<close> at 0, \<open>core_addr\<close> at 8, \<open>goto_addrs\<close> at 0x10, \<open>goto_hashes\<close>
  at 0x90 and \<open>child_count\<close> at 0xB0. The addresses of \<open>cleanup_label\<close> and \<open>goto_label_1\<close> to
  \<open>goto_label_3\<close>, which the library's user defines, and the result of \<open>malloc\<close> are parameters.
\<close>

section \<open>Sessions\<close>

definition core_addr :: "memory \<Rightarrow> ptr \<Rightarrow> ptr" where
  "core_addr m sg = m (sg + 8)"

definition goto_addr :: "memory \<Rightarrow> ptr \<Rightarrow> u64 \<Rightarrow> ptr" where
  "goto_addr m sg i = m (sg + 0x10 + 8 * i)"

definition child_count :: "memory \<Rightarrow> ptr \<Rightarrow> u8" where
  "child_count m sg = ucast (m (sg + 0xB0))"

definition sgoto_init :: "u64 \<Rightarrow> u64" where
  "sgoto_init seed = hash_generator_init seed"

text \<open>\<open>sg_init\<close>; \<open>sg\<close> is what \<open>malloc\<close> returns. A null pointer is written through.\<close>

definition sg_init :: "ptr \<Rightarrow> ptr \<Rightarrow> u64 \<Rightarrow> memory \<Rightarrow> abort + ptr \<times> u64 \<times> memory" where
  "sg_init sg cleanup_addr global_hash_gen m =
     (if sg = NULL then Inl (Trap ''null pointer'')
      else
        (let (h, global_hash_gen) = hash_generator_next global_hash_gen;
             m = m(sg := (m sg AND NOT (mask 16)) OR ucast h);
             m = m(sg + 8 := cleanup_addr);
             m = m(sg + 0xB0 := m (sg + 0xB0) AND NOT (mask 8))
         in Inr (sg, global_hash_gen, m)))"

section \<open>The labels\<close>

record label_addrs =
  cleanup_label :: ptr
  goto_label_1 :: ptr
  goto_label_2 :: ptr
  goto_label_3 :: ptr

definition sgoto_get_label_addresses :: "label_addrs \<Rightarrow> ptr \<Rightarrow> memory \<Rightarrow> memory" where
  "sgoto_get_label_addresses l labels m =
     (let m = m(labels := cleanup_label l);
          m = m(labels + 8 := goto_label_1 l);
          m = m(labels + 16 := goto_label_2 l);
          m = m(labels + 24 := goto_label_3 l)
      in fold (\<lambda>i m. m(labels + 8 * of_nat i := cleanup_label l)) [4..<16] m)"

section \<open>The integrity check\<close>

text \<open>\<open>check_goto_loop\<close>, with the registers \<open>rsi\<close>, \<open>rdi\<close> and \<open>ecx\<close>.\<close>

function check_goto_loop :: "memory \<Rightarrow> u64 \<Rightarrow> u64 \<Rightarrow> u32 \<Rightarrow> u32" where
  "check_goto_loop m rsi rdi ecx =
     (if m rsi \<noteq> m rdi then 0
      else if ecx - 1 = 0 then 1
      else check_goto_loop m (rsi + 8) (rdi + 8) (ecx - 1))"
  by pat_completeness auto
termination
proof (relation "measure (\<lambda>(m, rsi, rdi, ecx). unat (ecx - 1))", simp)
  fix m and rsi rdi :: u64 and ecx :: u32
  assume "ecx - 1 \<noteq> 0"
  then have "unat (ecx - 1 - 1) < unat (ecx - 1)" by (rule unat_minus_one_less)
  then show "((m, rsi + 8, rdi + 8, ecx - 1), m, rsi, rdi, ecx)
      \<in> measure (\<lambda>(m, rsi, rdi, ecx). unat (ecx - 1))"
    by simp
qed

declare check_goto_loop.simps [simp del]

definition sgoto_check_place :: "memory \<Rightarrow> ptr \<Rightarrow> ptr \<Rightarrow> u32" where
  "sgoto_check_place m sg current_labels =
     (let rax = core_addr m sg; rdx = m current_labels in
      if rax \<noteq> rdx then 0
      else
        (let ecx = ucast (child_count m sg) in
         if ecx = 0 then 1
         else check_goto_loop m (sg + 0x10) (current_labels + 8) ecx))"

section \<open>The jump\<close>

definition sgoto_raw :: "label_addrs \<Rightarrow> ptr \<Rightarrow> ptr \<Rightarrow> u8 \<Rightarrow> memory \<Rightarrow> ptr" where
  "sgoto_raw l labels sg idx m =
     (let m = sgoto_get_label_addresses l labels m in
      if sgoto_check_place m sg labels = 0 then core_addr m sg
      else
        (let al = idx in
         if al \<ge> child_count m sg then m (sg + 0x8)
         else m (sg + 0x10 + ucast al * 8)))"

section \<open>What the check compares\<close>

lemma check_goto_loop_eq:
  assumes "n < 2 ^ 32"
  shows "check_goto_loop m rsi rdi (of_nat (Suc n))
     = (if \<forall>i \<le> n. m (rsi + 8 * of_nat i) = m (rdi + 8 * of_nat i) then 1 else 0)"
  using assms
proof (induction n arbitrary: rsi rdi)
  case 0
  show ?case by (simp add: check_goto_loop.simps [of m rsi rdi])
next
  case (Suc n)
  have nz: "of_nat (Suc (Suc n)) - 1 = (of_nat (Suc n) :: u32)" by simp
  have "unat (of_nat (Suc n) :: u32) = Suc n"
    using Suc.prems by (simp only: unat_of_nat) simp
  then have n0: "(of_nat (Suc n) :: u32) \<noteq> 0" by (metis nat.distinct(1) unat_0)
  have shift: "(\<forall>i \<le> Suc n. P i) \<longleftrightarrow> P 0 \<and> (\<forall>i \<le> n. P (Suc i))" for P :: "nat \<Rightarrow> bool"
    by (metis Suc_le_mono bot_nat_0.extremum not0_implies_Suc)
  have "check_goto_loop m rsi rdi (of_nat (Suc (Suc n)))
      = (if m rsi \<noteq> m rdi then 0 else check_goto_loop m (rsi + 8) (rdi + 8) (of_nat (Suc n)))"
    unfolding check_goto_loop.simps [of m rsi rdi] nz using n0 by simp
  also have "\<dots> = (if \<forall>i \<le> Suc n. m (rsi + 8 * of_nat i) = m (rdi + 8 * of_nat i) then 1 else 0)"
    unfolding shift using Suc by (simp add: algebra_simps)
  finally show ?case .
qed

lemma sgoto_check_place_eq:
  "sgoto_check_place m sg cur
     = (if core_addr m sg = m cur \<and>
           (\<forall>i < unat (child_count m sg). goto_addr m sg (of_nat i) = m (cur + 8 + 8 * of_nat i))
        then 1 else 0)"
proof (cases "unat (child_count m sg)")
  case 0
  then have "child_count m sg = 0" by (simp add: unat_eq_zero)
  then show ?thesis by (simp add: sgoto_check_place_def Let_def)
next
  case (Suc n)
  have e: "(ucast (child_count m sg) :: u32) = of_nat (Suc n)"
    unfolding Suc [symmetric] by simp
  have "unat (child_count m sg) < 2 ^ 8" using unsigned_less [of "child_count m sg"] by simp
  then have "n < 2 ^ 32" using Suc by simp
  moreover have "(ucast (child_count m sg) :: u32) \<noteq> 0"
    using Suc by (metis nat.distinct(1) unat_0 unat_ucast_8_32)
  ultimately show ?thesis
    using Suc unfolding sgoto_check_place_def Let_def e
    by (simp add: check_goto_loop_eq [unfolded of_nat_Suc] goto_addr_def less_Suc_eq_le)
qed

section \<open>The table of labels\<close>

text \<open>Entry \<open>i\<close> of the table, as the code writes it.\<close>

definition label_at :: "label_addrs \<Rightarrow> nat \<Rightarrow> ptr" where
  "label_at l i = (if i = 1 then goto_label_1 l else if i = 2 then goto_label_2 l
     else if i = 3 then goto_label_3 l else cleanup_label l)"

lemma offset_inj:
  assumes "i < 16" "j < 16" "8 * of_nat i = (8 * of_nat j :: u64)"
  shows "i = j"
proof -
  have "unat (8 * of_nat i :: u64) = 8 * i" "unat (8 * of_nat j :: u64) = 8 * j"
    using assms(1,2) by (subst unat_mult_small; simp add: unat_of_nat)+
  then have "8 * i = 8 * j" using assms(3) by metis
  then show ?thesis by simp
qed

lemma label_table:
  assumes "i < 16"
  shows "sgoto_get_label_addresses l L m (L + 8 * of_nat i) = label_at l i"
proof -
  define m0 where "m0 = m(L := cleanup_label l, L + 8 := goto_label_1 l,
    L + 16 := goto_label_2 l, L + 24 := goto_label_3 l)"
  have fold: "fold (\<lambda>i m. m(L + 8 * of_nat i := v)) js m0 (L + 8 * of_nat i)
      = (if i \<in> set js then v else m0 (L + 8 * of_nat i))"
    if "\<forall>j \<in> set js. j < 16" for js v m0
    using that
  proof (induction js arbitrary: m0)
    case (Cons j js)
    have "8 * of_nat i = (8 * of_nat j :: u64) \<longleftrightarrow> i = j"
      using offset_inj [OF assms, of j] Cons.prems by auto
    then show ?case using Cons by simp
  qed simp
  have "m0 (L + 8 * of_nat i) = label_at l i" if "i < 4"
  proof -
    have "i = 0 \<or> i = 1 \<or> i = 2 \<or> i = 3" using that by linarith
    then show ?thesis by (elim disjE) (simp_all add: m0_def label_at_def)
  qed
  moreover define js where "js = [4 :: nat..<16]"
  have "set js = {4..<16}" "\<forall>j \<in> set js. j < 16" unfolding js_def set_upt by (rule refl, auto)
  ultimately have "fold (\<lambda>i m. m(L + 8 * of_nat i := cleanup_label l)) js m0 (L + 8 * of_nat i)
      = label_at l i"
    using assms by (auto simp: fold label_at_def)
  then show ?thesis
    by (simp only: sgoto_get_label_addresses_def Let_def m0_def js_def)
qed

section \<open>Properties\<close>

text \<open>
  Where \<open>sgoto_raw\<close> goes, for a session with at most 15 children: to the \<open>core_addr\<close> of the
  session when the integrity check fails; otherwise to entry \<open>idx + 1\<close> of the table of labels when
  \<open>idx\<close> is a valid child and to \<open>cleanup_label\<close> when it is not. So with the check passed the
  target is always one of the four labels of the program, whatever the session's memory holds.
\<close>
theorem sgoto_raw_target:
  assumes "unat (child_count (sgoto_get_label_addresses l labels m) sg) \<le> 15"
  shows "sgoto_raw l labels sg idx m
    = (let m' = sgoto_get_label_addresses l labels m in
       if sgoto_check_place m' sg labels = 0 then core_addr m' sg
       else if idx < child_count m' sg then label_at l (Suc (unat idx))
       else cleanup_label l)"
proof -
  define m' where "m' = sgoto_get_label_addresses l labels m"
  let ?ok = "sgoto_check_place m' sg labels \<noteq> 0"
  have core: "core_addr m' sg = cleanup_label l" if ?ok
    using that label_table [of 0 l labels m]
    by (simp add: sgoto_check_place_eq m'_def label_at_def split: if_splits)
  have child: "m' (sg + 0x10 + ucast idx * 8) = label_at l (Suc (unat idx))"
    if ok: ?ok and i: "idx < child_count m' sg"
  proof -
    have u: "unat idx < unat (child_count m' sg)" using i by (simp add: word_less_nat_alt)
    then have "goto_addr m' sg (of_nat (unat idx)) = m' (labels + 8 + 8 * of_nat (unat idx))"
      using ok unfolding sgoto_check_place_eq by presburger
    also have "\<dots> = m' (labels + 8 * of_nat (Suc (unat idx)))" by (simp add: algebra_simps)
    also have "\<dots> = label_at l (Suc (unat idx))"
      unfolding m'_def using u assms by (intro label_table) (simp add: m'_def)
    finally show ?thesis by (simp add: goto_addr_def mult.commute)
  qed
  show ?thesis
    using core child
    by (auto simp: sgoto_raw_def Let_def core_addr_def not_less simp flip: m'_def)
qed

text \<open>A session at 4096 whose only child is \<open>goto_label_1\<close>, and the table at 8192.\<close>

lemma sgoto_raw_target_witness:
  "let l = \<lparr>cleanup_label = 100, goto_label_1 = 200, goto_label_2 = 300, goto_label_3 = 400\<rparr>;
       m = (\<lambda>_. 0)(4104 := 100, 4112 := 200, 4272 := 1) in
   sgoto_raw l 8192 4096 0 m = 200 \<and> sgoto_raw l 8192 4096 1 m = 100"
proof -
  define l where "l = \<lparr>cleanup_label = 100, goto_label_1 = 200, goto_label_2 = 300, goto_label_3 = 400\<rparr>"
  define m :: memory where "m = (\<lambda>_. 0)(4104 := 100, 4112 := 200, 4272 := 1)"
  define m' where "m' = sgoto_get_label_addresses l 8192 m"
  have cc: "child_count m' 4096 = 1"
    by (simp add: m'_def m_def child_count_def sgoto_get_label_addresses_def)
  then have "unat (child_count m' 4096) \<le> 15" by simp
  note t = sgoto_raw_target [of l 8192 m 4096, folded m'_def, OF this]
  have "sgoto_check_place m' 4096 8192 = 1"
    unfolding sgoto_check_place_eq cc
    by (simp add: m'_def m_def l_def core_addr_def goto_addr_def sgoto_get_label_addresses_def)
  then have "sgoto_raw l 8192 4096 0 m = 200 \<and> sgoto_raw l 8192 4096 1 m = 100"
    using t [of 0] t [of 1] by (simp add: Let_def cc label_at_def l_def)
  then show ?thesis by (simp add: l_def m_def Let_def)
qed

text \<open>The writes of the table leave the words outside of its 128 bytes alone.\<close>

lemma outside_table:
  assumes "128 \<le> a - L"
  shows "sgoto_get_label_addresses l L m a = m a"
proof -
  have ne: "a \<noteq> L + 8 * of_nat i" if "i < 16" for i
  proof
    assume "a = L + 8 * of_nat i"
    then have "unat (a - L) = 8 * i"
      using that by (simp only: add_diff_cancel_left') (subst unat_mult_small; simp add: unat_of_nat)
    then show False using assms that by (simp add: word_le_nat_alt)
  qed
  have fold: "fold (\<lambda>i m. m(L + 8 * of_nat i := v)) js m0 a = m0 a"
    if "\<forall>j \<in> set js. j < 16" for js v m0
    using that ne by (induction js arbitrary: m0) simp_all
  have "\<forall>j \<in> set [4 :: nat..<16]. j < 16" unfolding set_upt by auto
  then show ?thesis
    using ne [of 0] ne [of 1] ne [of 2] ne [of 3]
    unfolding sgoto_get_label_addresses_def Let_def by (simp only: fold) simp
qed

text \<open>
  C36: a failed integrity check does not protect the jump: whoever overwrites the \<open>core_addr\<close> of
  a session with any address but \<open>cleanup_label\<close> makes \<open>sgoto_raw\<close> jump to that address, for
  every index and whatever else the session holds.
\<close>
theorem sgoto_tampered_core_is_jumped_to:
  assumes "128 \<le> sg + 8 - labels" "a \<noteq> cleanup_label l"
  shows "sgoto_raw l labels sg idx (m(sg + 8 := a)) = a"
proof -
  let ?m = "sgoto_get_label_addresses l labels (m(sg + 8 := a))"
  have "?m (sg + 8) = a" using outside_table [OF assms(1)] by simp
  moreover have "?m labels = cleanup_label l"
    using label_table [of 0 l labels] by (simp add: label_at_def)
  ultimately show ?thesis
    using assms(2) by (simp add: sgoto_raw_def Let_def sgoto_check_place_def core_addr_def)
qed

lemma sgoto_tampered_core_is_jumped_to_witness:
  "sgoto_raw \<lparr>cleanup_label = 100, goto_label_1 = 200, goto_label_2 = 300, goto_label_3 = 400\<rparr>
     8192 4096 7 ((\<lambda>_. 0)(4104 := 0xbad)) = 0xbad"
  using sgoto_tampered_core_is_jumped_to [of 4096 8192 "0xbad"
      "\<lparr>cleanup_label = 100, goto_label_1 = 200, goto_label_2 = 300, goto_label_3 = 400\<rparr>" 7 "\<lambda>_. 0"]
  by simp

text \<open>
  A session just made by \<open>sg_init\<close> has no children: \<open>sgoto_raw\<close> goes to the cleanup address
  it was made with, for every index, whether or not that is \<open>cleanup_label\<close>.
\<close>
theorem sgoto_fresh_session:
  assumes "sg_init sg cleanup_addr g m = Inr (sg', g', m1)"
    and "128 \<le> sg + 8 - labels" "128 \<le> sg + 0xB0 - labels"
  shows "sg' = sg \<and> g' = xorshift64 g \<and> sgoto_raw l labels sg' idx m1 = cleanup_addr"
proof -
  have i: "sg' = sg" "g' = xorshift64 g" "m1 (sg + 8) = cleanup_addr"
    "m1 (sg + 0xB0) = m (sg + 0xB0) AND NOT (mask 8)"
    using assms(1) by (auto simp: sg_init_def hash_generator_next_def Let_def split: if_splits)
  let ?m = "sgoto_get_label_addresses l labels m1"
  have "?m (sg + 8) = cleanup_addr" "?m (sg + 0xB0) = m (sg + 0xB0) AND NOT (mask 8)"
    using outside_table [of "sg + 8" labels l m1] outside_table [of "sg + 0xB0" labels l m1]
      assms(2,3) i(3,4) by simp_all
  moreover have "ucast (m (sg + 0xB0) AND NOT (mask 8)) = (0 :: u8)"
    by (rule bit_word_eqI) (simp add: bit_simps)
  ultimately have "?m (sg + 8) = cleanup_addr" "child_count ?m sg = 0"
    by (simp_all add: child_count_def)
  then show ?thesis
    using i(1,2) by (simp add: sgoto_raw_def Let_def core_addr_def)
qed

lemma sgoto_fresh_session_witness:
  "\<exists>m1. sg_init 4096 100 1 (\<lambda>_. 0) = Inr (4096, xorshift64 1, m1) \<and>
     sgoto_raw \<lparr>cleanup_label = 100, goto_label_1 = 200, goto_label_2 = 300, goto_label_3 = 400\<rparr>
       8192 4096 3 m1 = 100"
proof -
  obtain m1 where m1: "sg_init 4096 100 1 (\<lambda>_. 0) = Inr (4096, xorshift64 1, m1)"
    by (simp add: sg_init_def hash_generator_next_def Let_def)
  then show ?thesis
    using sgoto_fresh_session [OF m1, of 8192] by auto
qed

end
