(* ===== verification/Snprintf.thy ===== *)
theory Snprintf
  imports Prelude
begin

text \<open>
  \<^verbatim>\<open>snprintf/src/snprintf.c\<close>: the two assembly loops that look for a percent sign in a C
  string, as machines that execute one instruction per step. \<open>m\<close> is a byte-granular memory. A
  loop on memory without a terminator never halts: a run has a bound on its steps, and the
  properties say how many steps are enough.
\<close>

section \<open>x86_64\<close>

record x64 =
  rdi :: u64
  cl :: u8
  dl :: u8
  eax :: u32
  zf :: bool
  xpc :: nat

text \<open>
  The instructions, numbered from 0: \<open>xor eax, eax\<close>; \<open>mov 0x25, dl\<close>; (label 1) \<open>movb (rdi), cl\<close>;
  \<open>testb cl, cl\<close>; \<open>jz 3f\<close>; \<open>cmpb dl, cl\<close>; \<open>je 2f\<close>; \<open>inc rdi\<close>; \<open>jmp 1b\<close>; (label 2) \<open>mov 1, eax\<close>;
  (label 3) the move of \<open>eax\<close> to the result, where the machine halts.
\<close>

definition x64_step :: "(u64 \<Rightarrow> u8) \<Rightarrow> x64 \<Rightarrow> x64" where
  "x64_step m r =
     (let next = (\<lambda>r. r\<lparr>xpc := xpc r + 1\<rparr>) in
      if xpc r = 0 then next (r\<lparr>eax := 0, zf := True\<rparr>)
      else if xpc r = 1 then next (r\<lparr>dl := 0x25\<rparr>)
      else if xpc r = 2 then next (r\<lparr>cl := m (rdi r)\<rparr>)
      else if xpc r = 3 then next (r\<lparr>zf := (cl r = 0)\<rparr>)
      else if xpc r = 4 then (if zf r then r\<lparr>xpc := 10\<rparr> else next r)
      else if xpc r = 5 then next (r\<lparr>zf := (cl r = dl r)\<rparr>)
      else if xpc r = 6 then (if zf r then r\<lparr>xpc := 9\<rparr> else next r)
      else if xpc r = 7 then next (r\<lparr>rdi := rdi r + 1, zf := (rdi r + 1 = 0)\<rparr>)
      else if xpc r = 8 then r\<lparr>xpc := 2\<rparr>
      else if xpc r = 9 then next (r\<lparr>eax := 1\<rparr>)
      else r)"

fun x64_run :: "nat \<Rightarrow> (u64 \<Rightarrow> u8) \<Rightarrow> x64 \<Rightarrow> u32 option" where
  "x64_run 0 m r = None"
| "x64_run (Suc n) m r = (if xpc r = 10 then Some (eax r) else x64_run n m (x64_step m r))"

definition has_percent_asm_x64 :: "nat \<Rightarrow> (u64 \<Rightarrow> u8) \<Rightarrow> x64 \<Rightarrow> u64 \<Rightarrow> u32 option" where
  "has_percent_asm_x64 fuel m regs str = x64_run fuel m (regs\<lparr>rdi := str, xpc := 0\<rparr>)"

section \<open>AArch64\<close>

record arm64 =
  xstr :: u64
  w0 :: u32
  w1 :: u32
  w2 :: u32
  zflag :: bool
  apc :: nat

text \<open>
  \<open>mov w0, 0\<close>; \<open>mov w1, 0x25\<close>; (label 1) \<open>ldrb w2, [str]\<close>; \<open>cbz w2, 3f\<close>; \<open>cmp w2, w1\<close>; \<open>b.eq 2f\<close>;
  \<open>add str, str, 1\<close>; \<open>b 1b\<close>; (label 2) \<open>mov w0, 1\<close>; (label 3) the move of \<open>w0\<close> to the result.
\<close>

definition arm64_step :: "(u64 \<Rightarrow> u8) \<Rightarrow> arm64 \<Rightarrow> arm64" where
  "arm64_step m r =
     (let next = (\<lambda>r. r\<lparr>apc := apc r + 1\<rparr>) in
      if apc r = 0 then next (r\<lparr>w0 := 0\<rparr>)
      else if apc r = 1 then next (r\<lparr>w1 := 0x25\<rparr>)
      else if apc r = 2 then next (r\<lparr>w2 := ucast (m (xstr r))\<rparr>)
      else if apc r = 3 then (if w2 r = 0 then r\<lparr>apc := 9\<rparr> else next r)
      else if apc r = 4 then next (r\<lparr>zflag := (w2 r = w1 r)\<rparr>)
      else if apc r = 5 then (if zflag r then r\<lparr>apc := 8\<rparr> else next r)
      else if apc r = 6 then next (r\<lparr>xstr := xstr r + 1\<rparr>)
      else if apc r = 7 then r\<lparr>apc := 2\<rparr>
      else if apc r = 8 then next (r\<lparr>w0 := 1\<rparr>)
      else r)"

fun arm64_run :: "nat \<Rightarrow> (u64 \<Rightarrow> u8) \<Rightarrow> arm64 \<Rightarrow> u32 option" where
  "arm64_run 0 m r = None"
| "arm64_run (Suc n) m r = (if apc r = 9 then Some (w0 r) else arm64_run n m (arm64_step m r))"

definition has_percent_asm_arm64 :: "nat \<Rightarrow> (u64 \<Rightarrow> u8) \<Rightarrow> arm64 \<Rightarrow> u64 \<Rightarrow> u32 option" where
  "has_percent_asm_arm64 fuel m regs str = arm64_run fuel m (regs\<lparr>xstr := str, apc := 0\<rparr>)"

section \<open>Scanning loops\<close>

text \<open>
  Both machines are loops over the bytes of a string. \<open>at p s\<close>: state \<open>s\<close> is at the head of the
  loop with the pointer \<open>p\<close>. A round takes \<open>cost\<close> steps at most.
\<close>

locale percent_loop =
  fixes run :: "nat \<Rightarrow> (u64 \<Rightarrow> u8) \<Rightarrow> 's \<Rightarrow> u32 option"
    and at :: "u64 \<Rightarrow> 's \<Rightarrow> bool"
    and cost :: nat
  assumes at_nul: "at p s \<Longrightarrow> m p = 0 \<Longrightarrow> run (cost + k) m s = Some 0"
    and at_percent: "at p s \<Longrightarrow> m p = 0x25 \<Longrightarrow> run (cost + k) m s = Some 1"
    and at_other: "at p s \<Longrightarrow> m p \<noteq> 0 \<Longrightarrow> m p \<noteq> 0x25 \<Longrightarrow>
      \<exists>s'. at (p + 1) s' \<and> run (cost + k) m s = run k m s'"
begin

lemma scan:
  assumes "at p s" "\<forall>i < n. m (p + of_nat i) \<noteq> 0" "m (p + of_nat n) = 0"
  shows "run (cost * Suc n + k) m s = Some (if \<exists>i < n. m (p + of_nat i) = 0x25 then 1 else 0)"
  using assms
proof (induction n arbitrary: p s)
  case 0
  then show ?case using at_nul [of p s m k] by simp
next
  case (Suc n)
  have p0: "m p \<noteq> 0" using spec [OF Suc.prems(2), of 0] by simp
  have eq: "cost * Suc (Suc n) + k = cost + (cost * Suc n + k)" by (simp only: mult_Suc_right add.assoc)
  show ?case
  proof (cases "m p = 0x25")
    case True
    then have "\<exists>i < Suc n. m (p + of_nat i) = 0x25" by (intro exI [of _ 0]) simp
    then show ?thesis
      using at_percent [of p s m "cost * Suc n + k"] Suc.prems(1) True unfolding eq by simp
  next
    case False
    obtain s' where s': "at (p + 1) s'"
      "run (cost + (cost * Suc n + k)) m s = run (cost * Suc n + k) m s'"
      using at_other [of p s m "cost * Suc n + k"] Suc.prems(1) p0 False by blast
    have "run (cost * Suc n + k) m s' =
        Some (if \<exists>i < n. m (p + 1 + of_nat i) = 0x25 then 1 else 0)"
    proof (rule Suc.IH [OF s'(1)])
      show "\<forall>i < n. m (p + 1 + of_nat i) \<noteq> 0"
        using Suc.prems(2) unfolding All_less_Suc2 by (simp add: add.assoc)
      show "m (p + 1 + of_nat n) = 0" using Suc.prems(3) by (simp add: add.assoc)
    qed
    moreover have "(\<exists>i < Suc n. m (p + of_nat i) = 0x25)
        \<longleftrightarrow> (\<exists>i < n. m (p + 1 + of_nat i) = 0x25)"
      unfolding Ex_less_Suc2 using False by (simp add: add.assoc)
    ultimately show ?thesis
      unfolding eq s'(2) by (simp only:)
  qed
qed

end

definition x64_at :: "u64 \<Rightarrow> x64 \<Rightarrow> bool" where
  "x64_at p r \<longleftrightarrow> xpc r = 2 \<and> rdi r = p \<and> dl r = 0x25 \<and> eax r = 0"

definition arm64_at :: "u64 \<Rightarrow> arm64 \<Rightarrow> bool" where
  "arm64_at p r \<longleftrightarrow> apc r = 2 \<and> xstr r = p \<and> w1 r = 0x25 \<and> w0 r = 0"

lemma seven: "7 + k = Suc (Suc (Suc (Suc (Suc (Suc (Suc k))))))"
  by simp

lemma six: "6 + k = Suc (Suc (Suc (Suc (Suc (Suc k)))))"
  by simp

lemma ucast_8_32_inj: "ucast b = (ucast c :: u32) \<longleftrightarrow> b = c" for b c :: u8
  by (metis ucast_8_32_8)

lemma ucast_8_32: "ucast (b :: u8) = (0 :: u32) \<longleftrightarrow> b = 0" "ucast b = (0x25 :: u32) \<longleftrightarrow> b = 0x25"
  for b :: u8
proof -
  show "ucast b = (0 :: u32) \<longleftrightarrow> b = 0" for b :: u8 using ucast_8_32_inj [of b 0] by simp
  show "ucast b = (0x25 :: u32) \<longleftrightarrow> b = 0x25" for b :: u8 using ucast_8_32_inj [of b "0x25"] by simp
qed

interpretation on_x64: percent_loop x64_run x64_at 7
proof
  fix p s k and m :: "u64 \<Rightarrow> u8"
  assume at: "x64_at p s"
  show "m p = 0 \<Longrightarrow> x64_run (7 + k) m s = Some 0"
    using at unfolding seven by (simp add: x64_at_def x64_step_def)
  show "m p = 0x25 \<Longrightarrow> x64_run (7 + k) m s = Some 1"
    using at unfolding seven by (simp add: x64_at_def x64_step_def)
  show "\<exists>s'. x64_at (p + 1) s' \<and> x64_run (7 + k) m s = x64_run k m s'"
    if "m p \<noteq> 0" "m p \<noteq> 0x25"
    using at that unfolding seven
    by (intro exI [of _ "(x64_step m ^^ 7) s"]) (simp add: x64_at_def x64_step_def eval_nat_numeral)
qed

interpretation on_arm64: percent_loop arm64_run arm64_at 6
proof
  fix p s k and m :: "u64 \<Rightarrow> u8"
  assume at: "arm64_at p s"
  show "m p = 0 \<Longrightarrow> arm64_run (6 + k) m s = Some 0"
    using at unfolding six by (simp add: arm64_at_def arm64_step_def)
  show "m p = 0x25 \<Longrightarrow> arm64_run (6 + k) m s = Some 1"
    using at unfolding six by (simp add: arm64_at_def arm64_step_def)
  show "\<exists>s'. arm64_at (p + 1) s' \<and> arm64_run (6 + k) m s = arm64_run k m s'"
    if "m p \<noteq> 0" "m p \<noteq> 0x25"
    using at that unfolding six
    by (intro exI [of _ "(arm64_step m ^^ 6) s"])
      (simp add: arm64_at_def arm64_step_def eval_nat_numeral ucast_8_32)
qed

section \<open>Properties\<close>

text \<open>
  C37: on every C string, both loops halt and answer whether a percent sign occurs before the
  terminator: with \<open>n\<close> the length of the string, 7 steps per byte and 9 more are enough, and
  with as many steps the answer is 1 if some byte before the terminator is 0x25 and 0 otherwise.
  In particular the two architectures agree.
\<close>
theorem has_percent_correct:
  assumes "\<forall>i < n. m (str + of_nat i) \<noteq> 0" "m (str + of_nat n) = 0" "7 * n + 9 \<le> fuel"
  shows "has_percent_asm_x64 fuel m regs str
      = Some (if \<exists>i < n. m (str + of_nat i) = 0x25 then 1 else 0) \<and>
    has_percent_asm_arm64 fuel m regs' str
      = Some (if \<exists>i < n. m (str + of_nat i) = 0x25 then 1 else 0)"
proof -
  have x: "7 * Suc n + (fuel - 2 - 7 * Suc n) = fuel - 2"
    "6 * Suc n + (fuel - 2 - 6 * Suc n) = fuel - 2" "fuel = Suc (Suc (fuel - 2))"
    using assms(3) by simp_all
  let ?x = "x64_step m (x64_step m (regs\<lparr>rdi := str, xpc := 0\<rparr>))"
  let ?a = "arm64_step m (arm64_step m (regs'\<lparr>xstr := str, apc := 0\<rparr>))"
  have "x64_at str ?x" "arm64_at str ?a"
    by (simp_all add: x64_at_def x64_step_def arm64_at_def arm64_step_def)
  then have "x64_run (fuel - 2) m ?x = Some (if \<exists>i < n. m (str + of_nat i) = 0x25 then 1 else 0)"
    "arm64_run (fuel - 2) m ?a = Some (if \<exists>i < n. m (str + of_nat i) = 0x25 then 1 else 0)"
    using on_x64.scan [of str ?x n m "fuel - 2 - 7 * Suc n"]
      on_arm64.scan [of str ?a n m "fuel - 2 - 6 * Suc n"] assms(1,2) unfolding x(1,2) by blast+
  then show ?thesis
    unfolding has_percent_asm_x64_def has_percent_asm_arm64_def
    by (subst (1 2) x(3)) (simp add: x64_step_def arm64_step_def)
qed

text \<open>The string ''a%'' at address 0.\<close>

lemma has_percent_correct_witness:
  "has_percent_asm_x64 23 ((\<lambda>_. 0)(0 := 97, 1 := 37)) \<lparr>rdi = 0, cl = 0, dl = 0, eax = 0, zf = False, xpc = 0\<rparr> 0
     = Some 1 \<and>
   has_percent_asm_arm64 23 ((\<lambda>_. 0)(0 := 97, 1 := 37)) \<lparr>xstr = 0, w0 = 0, w1 = 0, w2 = 0, zflag = False, apc = 0\<rparr> 0
     = Some 1"
proof -
  have b: "(\<exists>i < (2 :: nat). P i) \<longleftrightarrow> P 0 \<or> P 1" "(\<forall>i < (2 :: nat). P i) \<longleftrightarrow> P 0 \<and> P 1"
    for P :: "nat \<Rightarrow> bool"
    by (auto simp: less_2_cases_iff)
  show ?thesis
    using has_percent_correct [of 2 "(\<lambda>_. 0)(0 := 97, 1 := 37)" 0 23
        "\<lparr>rdi = 0, cl = 0, dl = 0, eax = 0, zf = False, xpc = 0\<rparr>"
        "\<lparr>xstr = 0, w0 = 0, w1 = 0, w2 = 0, zflag = False, apc = 0\<rparr>"]
    unfolding b by simp
qed

end
