(* ===== verification/Srecv.thy ===== *)
theory Srecv
  imports Prelude
begin

text \<open>
  \<^verbatim>\<open>srecv/src/srecv.c\<close>: the checked \<open>recv\<close> with its bounded retry. The two system calls are
  parameters with their own state \<open>'k\<close>: \<open>getsockopt\<close> (for \<open>SO_TYPE\<close>) returns its result,
  \<open>recv\<close> its result and, for a negative one, the value of \<open>errno\<close>. The constants are Linux's.
\<close>

abbreviation (input) EINTR :: u32 where "EINTR \<equiv> 4"
abbreviation (input) EBADF :: u32 where "EBADF \<equiv> 9"
abbreviation (input) EINVAL :: u32 where "EINVAL \<equiv> 22"
abbreviation (input) ENOTSOCK :: u32 where "ENOTSOCK \<equiv> 88"
abbreviation (input) EMSGSIZE :: u32 where "EMSGSIZE \<equiv> 90"

text \<open>\<open>MSG_OOB | MSG_PEEK | MSG_WAITALL | MSG_DONTWAIT | MSG_NOSIGNAL\<close>\<close>

definition srecv_flags :: u32 where
  "srecv_flags = 0x1 OR 0x2 OR 0x100 OR 0x40 OR 0x4000"

record 'k sock =
  sys_getsockopt :: "int \<Rightarrow> 'k \<Rightarrow> int \<times> 'k"
  sys_recv :: "int \<Rightarrow> ptr \<Rightarrow> u64 \<Rightarrow> u32 \<Rightarrow> 'k \<Rightarrow> (int \<times> u32) \<times> 'k"

text \<open>
  The result of a call: the value returned, \<open>errno\<close> and the state of the kernel. \<open>e\<close> is
  \<open>errno\<close> before; a successful system call leaves it alone.
\<close>

definition recv_once ::
  "'k sock \<Rightarrow> int \<Rightarrow> ptr \<Rightarrow> u64 \<Rightarrow> u32 \<Rightarrow> u32 \<Rightarrow> 'k \<Rightarrow> int \<times> u32 \<times> 'k" where
  "recv_once sk fd buf len fl e k =
     (case sys_recv sk fd buf len fl k of ((r, err), k) \<Rightarrow> (r, if r < 0 then err else e, k))"

text \<open>The \<open>do ... while\<close> loop with \<open>retry_count\<close>.\<close>

function srecv_loop ::
  "'k sock \<Rightarrow> int \<Rightarrow> ptr \<Rightarrow> u64 \<Rightarrow> u32 \<Rightarrow> int \<Rightarrow> u32 \<Rightarrow> 'k \<Rightarrow> int \<times> u32 \<times> 'k" where
  "srecv_loop sk fd buf len fl retry_count e k =
     (case recv_once sk fd buf len fl e k of (r, e, k) \<Rightarrow>
        if r \<ge> 0 then (r, e, k)
        else if e = EINTR \<and> retry_count - 1 > 0
        then srecv_loop sk fd buf len fl (retry_count - 1) e k
        else (r, e, k))"
  by pat_completeness auto
termination
  by (relation "measure (\<lambda>(sk, fd, buf, len, fl, n, e, k). nat n)") auto

declare srecv_loop.simps [simp del]

definition srecv ::
  "'k sock \<Rightarrow> int \<Rightarrow> ptr \<Rightarrow> u64 \<Rightarrow> u32 \<Rightarrow> u32 \<Rightarrow> 'k \<Rightarrow> int \<times> u32 \<times> 'k" where
  "srecv sk fd buf len fl e k =
     (if fd < 0 then (-1, EBADF, k)
      else if buf = NULL then (-1, EINVAL, k)
      else if fl AND NOT srecv_flags \<noteq> 0 then (-1, EINVAL, k)
      else
        (case sys_getsockopt sk fd k of (r, k) \<Rightarrow>
           if r < 0 then (-1, ENOTSOCK, k)
           else if len > 1024 * 1024 then (-1, EMSGSIZE, k)
           else srecv_loop sk fd buf len fl 3 e k))"

section \<open>Attempts\<close>

text \<open>The outcome of \<open>n + 1\<close> calls of \<open>recv\<close> in a row, that of the last one.\<close>

primrec attempt ::
  "'k sock \<Rightarrow> int \<Rightarrow> ptr \<Rightarrow> u64 \<Rightarrow> u32 \<Rightarrow> u32 \<Rightarrow> 'k \<Rightarrow> nat \<Rightarrow> int \<times> u32 \<times> 'k" where
  "attempt sk fd buf len fl e k 0 = recv_once sk fd buf len fl e k"
| "attempt sk fd buf len fl e k (Suc n) =
     (case attempt sk fd buf len fl e k n of (_, e, k) \<Rightarrow> recv_once sk fd buf len fl e k)"

definition interrupted :: "int \<times> u32 \<times> 'k \<Rightarrow> bool" where
  "interrupted o' \<longleftrightarrow> fst o' < 0 \<and> fst (snd o') = EINTR"

lemma attempt_shift:
  "recv_once sk fd buf len fl e k = (r, e', k') \<Longrightarrow>
     attempt sk fd buf len fl e k (Suc n) = attempt sk fd buf len fl e' k' n"
  by (induction n) simp_all

lemma srecv_loop_eq:
  "\<exists>n \<le> j. srecv_loop sk fd buf len fl (int (Suc j)) e k = attempt sk fd buf len fl e k n \<and>
     (\<forall>i < n. interrupted (attempt sk fd buf len fl e k i)) \<and>
     (interrupted (attempt sk fd buf len fl e k n) \<longrightarrow> n = j)"
proof (induction j arbitrary: e k)
  case 0
  obtain r e' k' where o: "recv_once sk fd buf len fl e k = (r, e', k')"
    by (cases "recv_once sk fd buf len fl e k") auto
  then show ?case
    by (intro exI [of _ 0]) (simp add: srecv_loop.simps [of sk fd buf len fl _ e k])
next
  case (Suc j)
  obtain r e' k' where o: "recv_once sk fd buf len fl e k = (r, e', k')"
    by (cases "recv_once sk fd buf len fl e k") auto
  show ?case
  proof (cases "r < 0 \<and> e' = EINTR")
    case True
    obtain n where n: "n \<le> j"
      "srecv_loop sk fd buf len fl (int (Suc j)) e' k' = attempt sk fd buf len fl e' k' n"
      "\<forall>i < n. interrupted (attempt sk fd buf len fl e' k' i)"
      "interrupted (attempt sk fd buf len fl e' k' n) \<longrightarrow> n = j"
      using Suc.IH [of e' k'] by blast
    have "srecv_loop sk fd buf len fl (int (Suc (Suc j))) e k
        = srecv_loop sk fd buf len fl (int (Suc j)) e' k'"
      using True by (subst srecv_loop.simps) (simp add: o)
    moreover have "interrupted (attempt sk fd buf len fl e k 0)"
      using o True by (simp add: interrupted_def)
    ultimately show ?thesis
      using n unfolding attempt_shift [OF o, symmetric]
      by (intro exI [of _ "Suc n"]) (auto simp: All_less_Suc2 simp del: attempt.simps of_nat_Suc)
  next
    case False
    have "srecv_loop sk fd buf len fl (int (Suc (Suc j))) e k = (r, e', k')"
      using False by (subst srecv_loop.simps) (auto simp: o)
    then show ?thesis
      using False by (intro exI [of _ 0]) (auto simp: o interrupted_def)
  qed
qed

section \<open>Properties\<close>

text \<open>
  C38: \<open>srecv\<close> with valid arguments calls \<open>recv\<close> at least once and at most three times, stops at
  the first call that is not interrupted by a signal, and returns the result, the \<open>errno\<close> and
  the state of that call unchanged; only if all three calls are interrupted does it return an
  \<open>EINTR\<close> failure.
\<close>
theorem srecv_retries_at_most_three_times:
  assumes "fd \<ge> 0" "buf \<noteq> NULL" "fl AND NOT srecv_flags = 0" "len \<le> 1024 * 1024"
    and "sys_getsockopt sk fd k = (r0, k0)" "r0 \<ge> 0"
  shows "\<exists>n \<le> 2. srecv sk fd buf len fl e k = attempt sk fd buf len fl e k0 n \<and>
     (\<forall>i < n. interrupted (attempt sk fd buf len fl e k0 i)) \<and>
     (interrupted (attempt sk fd buf len fl e k0 n) \<longrightarrow> n = 2)"
proof -
  have "srecv sk fd buf len fl e k = srecv_loop sk fd buf len fl (int (Suc 2)) e k0"
    using assms by (simp add: srecv_def leD)
  then show ?thesis using srecv_loop_eq [of 2 sk fd buf len fl e k0] by simp
qed

text \<open>A kernel that interrupts the first two calls and delivers 42 bytes at the third.\<close>

lemma srecv_retries_at_most_three_times_witness:
  "srecv \<lparr>sys_getsockopt = (\<lambda>fd k. (0, k)),
          sys_recv = (\<lambda>fd buf len fl k. (if k < 2 then (-1, EINTR) else (42, 0), k + 1))\<rparr>
     3 4096 100 0x40 0 (0 :: nat) = (42, EINTR, 3)"
proof -
  let ?sk = "\<lparr>sys_getsockopt = (\<lambda>fd k. (0 :: int, k)),
    sys_recv = (\<lambda>fd buf len fl k. (if k < 2 then (-1 :: int, EINTR) else (42, 0), k + 1 :: nat))\<rparr>"
  obtain n where n: "n \<le> 2"
    "srecv ?sk 3 4096 100 0x40 0 (0 :: nat) = attempt ?sk 3 4096 100 0x40 0 0 n"
    "interrupted (attempt ?sk 3 4096 100 0x40 0 0 n) \<longrightarrow> n = 2"
    using srecv_retries_at_most_three_times [of 3 4096 "0x40" 100 ?sk "0 :: nat" 0 0 0]
    by (auto simp: srecv_flags_def simp del: One_nat_def)
  have "n = 0 \<or> n = 1 \<or> n = 2" using n(1) by linarith
  then show ?thesis
    using n(2,3) by (elim disjE) (simp_all add: interrupted_def recv_once_def eval_nat_numeral)
qed

text \<open>
  The rejections of \<open>srecv\<close>: a negative descriptor, a null buffer or a flag outside the five
  allowed ones is refused before any system call; a failing \<open>getsockopt\<close> is reported as
  \<open>ENOTSOCK\<close>, whatever its reason; a length over 1 MiB as \<open>EMSGSIZE\<close>, before \<open>recv\<close> is called.
\<close>
lemma srecv_rejects:
  "(fd < 0 \<longrightarrow> srecv sk fd buf len fl e k = (-1, EBADF, k)) \<and>
   (fd \<ge> 0 \<and> (buf = NULL \<or> fl AND NOT srecv_flags \<noteq> 0) \<longrightarrow>
      srecv sk fd buf len fl e k = (-1, EINVAL, k)) \<and>
   (fd \<ge> 0 \<and> buf \<noteq> NULL \<and> fl AND NOT srecv_flags = 0 \<longrightarrow>
      (fst (sys_getsockopt sk fd k) < 0 \<longrightarrow>
         srecv sk fd buf len fl e k = (-1, ENOTSOCK, snd (sys_getsockopt sk fd k))) \<and>
      (fst (sys_getsockopt sk fd k) \<ge> 0 \<and> len > 1024 * 1024 \<longrightarrow>
         srecv sk fd buf len fl e k = (-1, EMSGSIZE, snd (sys_getsockopt sk fd k))))"
  by (auto simp: srecv_def split: prod.splits)

end
