(* ===== verification/Constants.thy ===== *)
theory Constants
  imports State
begin

text \<open>
  \<^verbatim>\<open>scalloc/include/malloc_constants.c\<close>: the allocator's constants behind getter functions, as
  functions of \<open>sizeof (size_t)\<close> (\<open>w\<close>: 8 on a 64-bit machine, 4 on a 32-bit one), and the timing
  check \<open>get_malloc_debug_flag\<close> of \<^verbatim>\<open>scalloc/include/smalloc.h\<close>.
\<close>

section \<open>The getters\<close>

definition get_size_t_type :: u64 where
  "get_size_t_type = 0"

definition get_max_fast_value :: "u64 \<Rightarrow> u64" where
  "get_max_fast_value w = 128 * w div 4"

definition get_nfastbins_value :: u32 where
  "get_nfastbins_value = 10"

definition get_fastbin_index_shift :: u64 where
  "get_fastbin_index_shift = 4"

definition get_chunk_hdr_sz :: "u64 \<Rightarrow> u64" where
  "get_chunk_hdr_sz w = 2 * w"

definition get_minsize_value :: "u64 \<Rightarrow> u64" where
  "get_minsize_value w = 4 * w"

definition get_size_sz_value :: "u64 \<Rightarrow> u64" where
  "get_size_sz_value w = w"

definition get_malloc_align_mask :: "u64 \<Rightarrow> u64" where
  "get_malloc_align_mask w = 2 * w - 1"

definition get_malloc_align_value :: "u64 \<Rightarrow> u64" where
  "get_malloc_align_value w = 2 * w"

definition get_prev_inuse_bit :: u64 where
  "get_prev_inuse_bit = 0x1"

definition get_size_bits_mask :: "u64 \<Rightarrow> u64" where
  "get_size_bits_mask w = NOT (w - 1)"

definition get_non_main_arena_bit :: u64 where
  "get_non_main_arena_bit = 0x4"

definition get_tcache_small_bins_count :: u64 where
  "get_tcache_small_bins_count = 64"

definition get_tcache_unsorted_limit :: u64 where
  "get_tcache_unsorted_limit = 16"

definition get_default_mmap_threshold :: u64 where
  "get_default_mmap_threshold = 128 * 1024"

definition get_default_trim_threshold :: u64 where
  "get_default_trim_threshold = 128 * 1024"

definition get_system_mem_default :: u64 where
  "get_system_mem_default = 128 * 1024 * 1024"

section \<open>The timing check\<close>

text \<open>
  \<open>rdtsc\<close> leaves the counter in the low halves of \<open>rdx\<close> and \<open>rax\<close>; the flag is 1 when more than
  5000 ticks pass between two readings. \<open>t0\<close> and \<open>t1\<close> are the counter at the two instructions.
\<close>

definition rdtsc :: "u64 \<Rightarrow> u64 \<times> u64" where
  "rdtsc t = (drop_bit 32 t, t AND 0xFFFFFFFF)"

definition read_counter :: "u64 \<Rightarrow> u64" where
  "read_counter t = (let (rdx, rax) = rdtsc t; rdx = push_bit 32 rdx in rax OR rdx)"

definition get_malloc_debug_flag :: "u64 \<Rightarrow> u64 \<Rightarrow> u32" where
  "get_malloc_debug_flag t0 t1 =
     (let start = read_counter t0; rax = read_counter t1 - start;
          al = (if rax > 5000 then 1 else 0 :: u8)
      in ucast al)"

lemma read_counter_id: "read_counter t = t"
proof (rule bit_word_eqI)
  have m: "(0xFFFFFFFF :: u64) = mask 32" by (simp add: mask_eq_exp_minus_1)
  fix n assume "n < LENGTH(64)"
  then show "bit (read_counter t) n = bit t n"
    by (cases "n < 32") (auto simp: read_counter_def rdtsc_def m bit_simps)
qed

section \<open>Properties\<close>

text \<open>
  On a 64-bit machine the getters agree with the constants of the allocator for the header,
  alignment, bit and threshold constants, and disagree in three places: \<open>get_max_fast_value\<close> is
  256 (its comment says 128), above \<open>MAX_FAST_SIZE\<close>, so that a chunk of that size would have the
  fast bin index 14 of only 10; \<open>get_size_bits_mask\<close> is the complement of \<open>SIZE_BITS\<close>; and
  \<open>get_tcache_unsorted_limit\<close> is 16 where \<open>mp_\<close> is initialised to 0 (no limit).
\<close>
theorem constants_against_allocator:
  "get_chunk_hdr_sz 8 = CHUNK_HDR_SZ \<and> get_minsize_value 8 = MINSIZE \<and>
   get_size_sz_value 8 = SIZE_SZ \<and> get_malloc_align_mask 8 = MALLOC_ALIGN_MASK \<and>
   get_malloc_align_value 8 = MALLOC_ALIGNMENT \<and> get_prev_inuse_bit = PREV_INUSE \<and>
   get_non_main_arena_bit = NON_MAIN_ARENA \<and> get_nfastbins_value = NFASTBINS \<and>
   get_tcache_small_bins_count = tcache_small_bins mp_init \<and>
   get_default_mmap_threshold = mmap_threshold mp_init \<and>
   get_default_trim_threshold = trim_threshold mp_init \<and>
   get_max_fast_value 8 = 256 \<and> get_max_fast_value 8 > MAX_FAST_SIZE \<and>
   fastbin_index (get_max_fast_value 8) = 14 \<and>
   get_size_bits_mask 8 = NOT SIZE_BITS \<and>
   get_tcache_unsorted_limit \<noteq> tcache_unsorted_limit mp_init"
  by code_simp

text \<open>
  \<open>get_malloc_debug_flag\<close> reassembles the 64-bit counter from the two halves that \<open>rdtsc\<close>
  delivers and is 1 exactly when the counter advanced by more than 5000 between the readings,
  also when it wrapped around in between.
\<close>
theorem debug_flag_iff:
  "get_malloc_debug_flag t0 t1 = (if t1 - t0 > 5000 then 1 else 0)"
  by (simp add: get_malloc_debug_flag_def read_counter_id)

end
