(* ===== verification/SizeClasses.thy ===== *)
theory SizeClasses
  imports Tcache
begin

text \<open>
  Requests, chunk sizes and the classes they fall in: the bins of an arena
  (\<open>bin_index\<close>), the bins of the thread's cache (\<open>csize2tidx\<close>, \<open>large_csize2tidx\<close>) and the fast
  bins. What the searches of the allocator rely on is stated once, as the locale
  \<open>size_classes\<close>: a larger class holds larger sizes.
\<close>

section \<open>The contract of a classification\<close>

locale size_classes =
  fixes covered :: "u64 \<Rightarrow> bool"
    and idx :: "u64 \<Rightarrow> 'i::linorder"
  assumes idx_mono: "covered a \<Longrightarrow> covered b \<Longrightarrow> a \<le> b \<Longrightarrow> idx a \<le> idx b"
begin

lemma larger_class: "covered a \<Longrightarrow> covered b \<Longrightarrow> idx a < idx b \<Longrightarrow> a < b"
  using idx_mono [of b a] by fastforce

lemma between: "covered a \<Longrightarrow> covered b \<Longrightarrow> covered c \<Longrightarrow> a \<le> b \<Longrightarrow> b \<le> c \<Longrightarrow> idx a = idx c \<Longrightarrow> idx b = idx a"
  using idx_mono [of a b] idx_mono [of b c] by simp

end

section \<open>Bins\<close>

definition small_index :: "nat \<Rightarrow> nat" where
  "small_index n = n div 16"

definition large_index :: "nat \<Rightarrow> nat" where
  "large_index n =
     (if n div 64 \<le> 48 then 48 + n div 64
      else if n div 512 \<le> 20 then 91 + n div 512
      else if n div 4096 \<le> 10 then 110 + n div 4096
      else if n div 32768 \<le> 4 then 119 + n div 32768
      else if n div 262144 \<le> 2 then 124 + n div 262144
      else 126)"

lemma unat_drop_bit: "unat (drop_bit k x) = unat x div 2 ^ k" for x :: "'a::len word"
  by (simp add: unsigned_drop_bit_eq take_bit_nat_eq_self flip: drop_bit_eq_div)

lemma drop_bit_le_iff: "drop_bit k x \<le> c \<longleftrightarrow> unat x div 2 ^ k \<le> unat c" for x c :: u64
  by (simp add: word_le_nat_alt unat_drop_bit)

lemma large_index_le: "large_index n \<le> 126"
  unfolding large_index_def by auto

lemma unat_largebin_index_64: "unat (largebin_index_64 sz) = large_index (unat sz)"
proof -
  have add: "unat (of_nat c + drop_bit k sz) = c + unat sz div 2 ^ k"
    if "unat sz div 2 ^ k \<le> 100" "c \<le> 200" for c k
  proof -
    have "unat (of_nat c :: u64) = c" using that(2) by (simp add: unat_of_nat)
    then show ?thesis using that by (simp add: unat_plus_64 unat_drop_bit)
  qed
  show ?thesis
    using add [of 6 48] add [of 9 91] add [of 12 110] add [of 15 119] add [of 18 124]
    unfolding largebin_index_64_def large_index_def drop_bit_le_iff by auto
qed

lemma unat_ucast_u32: "unat x < 2 ^ 32 \<Longrightarrow> unat (ucast x :: u32) = unat x" for x :: u64
  by (simp add: unsigned_ucast_eq unsigned_take_bit_eq take_bit_nat_eq_self)

lemma unat_largebin_index [size_arith]: "unat (largebin_index sz) = large_index (unat sz)"
  using large_index_le [of "unat sz"]
  by (simp add: largebin_index_def unat_ucast_u32 unat_largebin_index_64)

lemma unat_smallbin_index [size_arith]:
  "unat sz < 2 ^ 32 \<Longrightarrow> unat (smallbin_index sz) = unat sz div 16"
  by (simp add: smallbin_index_def unat_drop_bit unat_ucast_u32)

lemma in_smallbin_range_iff [size_arith]: "in_smallbin_range sz \<longleftrightarrow> unat sz < 1024"
  by (simp add: in_smallbin_range_def word_less_nat_alt)

lemma unat_bin_index:
  "unat (bin_index sz) = (if unat sz < 1024 then small_index (unat sz) else large_index (unat sz))"
  by (simp add: bin_index_def size_arith small_index_def)

lemma large_index_tiers:
  "large_index n =
     (if n < 3136 then 48 + n div 64
      else if n < 10752 then 91 + n div 512
      else if n < 45056 then 110 + n div 4096
      else if n < 163840 then 119 + n div 32768
      else if n < 786432 then 124 + n div 262144
      else 126)"
proof -
  have "n div 64 \<le> 48 \<longleftrightarrow> n < 3136" "n div 512 \<le> 20 \<longleftrightarrow> n < 10752" "n div 4096 \<le> 10 \<longleftrightarrow> n < 45056"
    "n div 32768 \<le> 4 \<longleftrightarrow> n < 163840" "n div 262144 \<le> 2 \<longleftrightarrow> n < 786432"
    by linarith+
  then show ?thesis unfolding large_index_def by simp
qed

text \<open>The least index of each tier and of those above it.\<close>

lemma large_index_lower:
  "3136 \<le> n \<Longrightarrow> 97 \<le> large_index n" "10752 \<le> n \<Longrightarrow> 112 \<le> large_index n"
  "45056 \<le> n \<Longrightarrow> 120 \<le> large_index n" "163840 \<le> n \<Longrightarrow> 124 \<le> large_index n"
  "786432 \<le> n \<Longrightarrow> 126 \<le> large_index n"
  using div_le_mono [of 3136 n 512] div_le_mono [of 10752 n 4096] div_le_mono [of 45056 n 32768]
  by (auto simp: large_index_tiers)

lemma large_index_upper:
  "n < 3136 \<Longrightarrow> large_index n \<le> 96" "n < 10752 \<Longrightarrow> large_index n \<le> 111"
  "n < 45056 \<Longrightarrow> large_index n \<le> 120" "n < 163840 \<Longrightarrow> large_index n \<le> 123"
  using div_le_mono [of n 3135 64] div_le_mono [of n 10751 512] div_le_mono [of n 45055 4096]
    div_le_mono [of n 163839 32768]
  by (auto simp: large_index_tiers)

lemma large_index_mono:
  assumes "a \<le> b"
  shows "large_index a \<le> large_index b"
proof -
  have up: "a div k \<le> b div k" for k using assms by (rule div_le_mono)
  consider "a < 3136" "b < 3136" | "a < 3136" "3136 \<le> b"
    | "3136 \<le> a" "b < 10752" | "a < 10752" "10752 \<le> b"
    | "10752 \<le> a" "b < 45056" | "a < 45056" "45056 \<le> b"
    | "45056 \<le> a" "b < 163840" | "a < 163840" "163840 \<le> b"
    | "163840 \<le> a" "b < 786432" | "786432 \<le> b"
    by linarith
  then show ?thesis
  proof cases
    case 2 with large_index_upper(1) large_index_lower(1) show ?thesis by fastforce
  next
    case 4 with large_index_upper(2) large_index_lower(2) show ?thesis by fastforce
  next
    case 6 with large_index_upper(3) large_index_lower(3) show ?thesis by fastforce
  next
    case 8 with large_index_upper(4) large_index_lower(4) show ?thesis by fastforce
  next
    case 10 with large_index_le [of a] large_index_lower(5) show ?thesis by fastforce
  qed (use assms up [of 64] up [of 512] up [of 4096] up [of 32768] up [of 262144] in
      \<open>simp_all add: large_index_tiers\<close>)
qed

lemma index_mono:
  assumes "a \<le> (b :: nat)"
  shows "(if a < 1024 then small_index a else large_index a)
    \<le> (if b < 1024 then small_index b else large_index b)"
  using assms div_le_mono [of a b 16] large_index_mono [of a b] large_index_mono [of 1024 b]
  by (auto simp: small_index_def large_index_def [of 1024])

interpretation bins: size_classes "\<lambda>_. True" bin_index
  by standard (simp add: word_le_nat_alt unat_bin_index index_mono)

lemma bin_index_range:
  "32 \<le> sz \<Longrightarrow> 2 \<le> bin_index sz \<and> bin_index sz \<le> 126"
  by (auto simp: word_le_nat_alt unat_bin_index small_index_def large_index_def)

lemma small_bin_exact:
  assumes "in_smallbin_range sz" "unat sz mod 16 = 0" "bin_index a = bin_index sz"
    "unat a mod 16 = 0"
  shows "a = sz"
proof -
  have s: "unat sz < 1024" using assms(1) by (simp add: size_arith)
  have e: "(if unat a < 1024 then small_index (unat a) else large_index (unat a))
      = small_index (unat sz)"
    using arg_cong [OF assms(3), of unat] s by (simp add: unat_bin_index)
  have "unat a < 1024"
  proof (rule ccontr)
    assume "\<not> unat a < 1024"
    then show False
      using e s large_index_mono [of 1024 "unat a"]
      by (auto simp: small_index_def large_index_def [of 1024])
  qed
  then have "unat a div 16 = unat sz div 16" using e by (simp add: small_index_def)
  then have "unat a = unat sz" using assms(2,4) by (metis mult_div_mod_eq)
  then show ?thesis by (simp add: word_unat_eq_iff)
qed

section \<open>Bins of the thread's cache\<close>

lemma unat_csize2tidx: "32 \<le> sz \<Longrightarrow> unat (csize2tidx sz) = (unat sz - 32) div 16"
  by (simp add: csize2tidx_def unat_div unat_sub word_le_nat_alt)

interpretation cached: size_classes "\<lambda>sz. 32 \<le> sz" csize2tidx
  by standard (simp add: word_le_nat_alt unat_csize2tidx div_le_mono diff_le_mono)

lemma clz_eq:
  assumes "n \<le> 32" "unat w < 2 ^ n" "n = 0 \<or> 2 ^ (n - 1) \<le> unat w"
  shows "builtin_clz w = 32 - n"
proof -
  have hi: "\<not> bit w i" if "n \<le> i" for i
  proof -
    have "unat w < 2 ^ i"
      using assms(2) power_increasing [OF that, of "2 :: nat"] by linarith
    then have "\<not> bit (unat w) i" by (simp add: bit_iff_odd)
    then show ?thesis using bit_imp_le_length [of w i] by (auto simp: bit_unsigned_iff)
  qed
  have lo: "bit w (n - 1)" if "n \<noteq> 0"
  proof -
    have "unat w < 2 * 2 ^ (n - 1)" using assms(2) that by (cases n) auto
    then have "unat w div 2 ^ (n - 1) = 1"
      using assms(3) that by (intro div_nat_eqI) auto
    then have "bit (unat w) (n - 1)" by (simp add: bit_iff_odd)
    then show ?thesis by (simp add: bit_unsigned_iff)
  qed
  have "rev [0..<32] = rev [n..<32] @ rev [0..<n]"
    using assms(1) upt_add_eq_append [of 0 n "32 - n"] by (simp flip: rev_append)
  moreover have "takeWhile (\<lambda>i. \<not> bit w i) (rev [n..<32] @ rev [0..<n])
      = rev [n..<32] @ takeWhile (\<lambda>i. \<not> bit w i) (rev [0..<n])"
    by (rule takeWhile_append2) (auto simp: hi)
  moreover have "takeWhile (\<lambda>i. \<not> bit w i) (rev [0..<n]) = []"
    using lo by (cases n) auto
  ultimately show ?thesis by (simp add: builtin_clz_def)
qed

text \<open>The number of bits needed to write \<open>n\<close>.\<close>

fun bit_length :: "nat \<Rightarrow> nat" where
  "bit_length n = (if n = 0 then 0 else Suc (bit_length (n div 2)))"

declare bit_length.simps [simp del]

lemma bit_length_bounds:
  "n < 2 ^ bit_length n" "n \<noteq> 0 \<Longrightarrow> 2 ^ (bit_length n - 1) \<le> n"
proof (induction n rule: bit_length.induct)
  case (1 n)
  {
    case 1
    then show ?case using "1.IH"(1) by (cases "n = 0") (simp_all add: bit_length.simps [of n])
  next
    case 2
    then show ?case
      using "1.IH"(2) bit_length.simps [of "n div 2"]
      by (cases "n div 2 = 0") (auto simp: bit_length.simps [of n])
  }
qed

lemma bit_length_le: "n < 2 ^ k \<Longrightarrow> bit_length n \<le> k"
proof (rule ccontr)
  assume n: "n < 2 ^ k" "\<not> bit_length n \<le> k"
  then have "n \<noteq> 0" by (cases "n = 0") (auto simp: bit_length.simps [of 0])
  then have "2 ^ (bit_length n - 1) \<le> n" by (rule bit_length_bounds)
  moreover have "(2 :: nat) ^ k \<le> 2 ^ (bit_length n - 1)" using n(2) by (intro power_increasing) auto
  ultimately show False using n(1) by linarith
qed

lemma bit_length_mono: "a \<le> b \<Longrightarrow> bit_length a \<le> bit_length b"
  by (rule bit_length_le) (use bit_length_bounds(1) [of b] in linarith)

lemma clz_bit_length: "builtin_clz w = 32 - bit_length (unat w)"
proof (rule clz_eq)
  show "unat w < 2 ^ bit_length (unat w)" by (rule bit_length_bounds)
  show "bit_length (unat w) = 0 \<or> 2 ^ (bit_length (unat w) - 1) \<le> unat w"
    using bit_length_bounds(2) [of "unat w"] by (auto simp: bit_length.simps [of "unat w"])
  show "bit_length (unat w) \<le> 32"
    by (rule bit_length_le) (rule unat_lt_32)
qed

lemma clz_small_size: "builtin_clz (ucast MAX_TCACHE_SMALL_SIZE) = 21"
  by code_simp

lemma unat_large_csize2tidx:
  assumes "unat sz < 2 ^ 32"
  shows "unat (large_csize2tidx sz) = 53 + bit_length (unat sz)"
proof -
  have l: "bit_length (unat sz) \<le> 32" using assms by (rule bit_length_le)
  have "large_csize2tidx sz = 85 - of_nat (32 - bit_length (unat sz))"
    unfolding large_csize2tidx_def clz_small_size by (simp add: clz_bit_length unat_ucast_u32 [OF assms])
  also have "\<dots> = of_nat (53 + bit_length (unat sz))" using l by (simp add: of_nat_diff)
  finally show ?thesis
    using l by (simp only:) (simp only: unat_of_nat, simp)
qed

interpretation large_cached: size_classes "\<lambda>sz. unat sz < 2 ^ 32" large_csize2tidx
  by standard (simp add: word_le_nat_alt unat_large_csize2tidx bit_length_mono)

lemma unat_fastbin_index:
  "32 \<le> unat sz \<Longrightarrow> unat sz < 2 ^ 32 \<Longrightarrow> unat (fastbin_index sz) = unat sz div 16 - 2"
  by (subst fastbin_index_def, subst unat_sub)
    (auto simp: word_le_nat_alt unat_drop_bit unat_ucast_u32)

interpretation fast: size_classes "\<lambda>sz. 32 \<le> unat sz \<and> unat sz < 2 ^ 32" fastbin_index
  by standard (auto simp: word_le_nat_alt unat_fastbin_index div_le_mono diff_le_mono)

lemma request_size_facts:
  assumes "req \<le> PTRDIFF_MAX"
  shows "unat (checked_request2size req) mod 16 = 0" "32 \<le> unat (checked_request2size req)"
    "unat req + 8 \<le> unat (checked_request2size req)"
    "unat (checked_request2size req) = 32 \<or> unat (checked_request2size req) \<le> unat req + 23"
proof -
  have e: "unat (checked_request2size req) = max 32 ((unat req + 23) div 16 * 16)"
    using assms unat_request2size [OF assms] by (simp add: checked_request2size_def leD)
  have "(unat req + 23) div 16 * 16 \<le> unat req + 23"
    "unat req + 23 < (unat req + 23) div 16 * 16 + 16"
    using div_mult_mod_eq [of "unat req + 23" 16] by linarith+
  then show "unat (checked_request2size req) mod 16 = 0" "32 \<le> unat (checked_request2size req)"
    "unat req + 8 \<le> unat (checked_request2size req)"
    "unat (checked_request2size req) = 32 \<or> unat (checked_request2size req) \<le> unat req + 23"
    unfolding e by (auto simp: max_def)
qed

section \<open>Properties\<close>

text \<open>
  C31: \<open>checked_request2size\<close>: a request up to \<open>PTRDIFF_MAX\<close> becomes a chunk size that is a
  multiple of 16, at least \<open>MINSIZE\<close>, leaves room for the request in the chunk (all but 8 bytes
  of it) and, unless it is the minimum chunk of 32 bytes, wastes at most 15 bytes of it; a larger request gives \<open>SIZE_MAX\<close>,
  which no size that the allocator handles reaches.
\<close>
theorem request_size_fits:
  "if req \<le> PTRDIFF_MAX
   then (let nb = unat (checked_request2size req) in
         nb mod 16 = 0 \<and> 32 \<le> nb \<and> unat req + 8 \<le> nb \<and> (nb = 32 \<or> nb \<le> unat req + 23) \<and>
         nb \<le> 2 ^ 63 + 16)
   else checked_request2size req = SIZE_MAX"
proof (cases "req \<le> PTRDIFF_MAX")
  case True
  then have "unat req < 2 ^ 63" by (simp only: PTRDIFF_MAX_unat)
  then show ?thesis using request_size_facts [OF True] True by (auto simp: Let_def)
qed (simp add: checked_request2size_def not_le)

text \<open>
  C32: a chunk's bin and the bin searched for a request agree: the classification of sizes by
  \<open>bin_index\<close> is monotone over all sizes, maps the sizes from \<open>MINSIZE\<close> up to the bins 2 to 126,
  and puts every chunk whose bin is above that of a request in a size above the request, which
  is what the search of the bin map asserts before it splits a chunk. A small bin holds chunks of
  one size only, so that \<open>_int_malloc\<close> may take any chunk of the small bin of a request.
\<close>
theorem bin_index_classifies:
  "(a \<le> b \<longrightarrow> bin_index a \<le> bin_index b) \<and>
   (MINSIZE \<le> sz \<longrightarrow> 2 \<le> bin_index sz \<and> bin_index sz \<le> 126) \<and>
   (bin_index nb < bin_index sz \<longrightarrow> nb < sz) \<and>
   (in_smallbin_range sz \<and> unat sz mod 16 = 0 \<and> unat a mod 16 = 0 \<and> bin_index a = bin_index sz \<longrightarrow> a = sz)"
  using bins.idx_mono [of a b] bins.larger_class [of nb sz] bin_index_range [of sz] small_bin_exact [of sz a]
  by auto

text \<open>A chunk of 1088 bytes is in a bin above that of a request for 1056 bytes.\<close>

lemma bin_index_classifies_witness:
  "bin_index 1056 \<le> bin_index 1088 \<and> 2 \<le> bin_index 1088 \<and> (1056 :: u64) < 1088 \<and>
   {a. unat a mod 16 = 0 \<and> bin_index a = 6} = {96}"
proof -
  have b: "bin_index 96 = 6" by code_simp
  then have "{a. unat a mod 16 = 0 \<and> bin_index a = 6} = {96}"
    using bin_index_classifies [where sz = 96] by (auto simp: in_smallbin_range_def)
  then show ?thesis
    using bin_index_classifies [of 1056 1088 1088 1056]
    by (simp add: bin_index_def in_smallbin_range_def largebin_index_def largebin_index_64_def)
qed

text \<open>
  The classes of the thread's cache. A request up to \<open>PTRDIFF_MAX\<close> whose chunk size is in the
  small class \<open>t\<close> gets chunks of exactly the size \<open>tidx2csize t\<close>, whose usable size
  \<open>tidx2usize t\<close> is enough for it.
\<close>
theorem tcache_class_fits:
  assumes "req \<le> PTRDIFF_MAX" "csize2tidx (checked_request2size req) = t"
  shows "tidx2csize t = checked_request2size req \<and> req \<le> tidx2usize t"
proof -
  define nb where "nb = checked_request2size req"
  have nb: "unat nb mod 16 = 0" "32 \<le> unat nb" "unat req + 8 \<le> unat nb"
    using request_size_facts [OF assms(1)] by (simp_all add: nb_def)
  then have t: "unat t = (unat nb - 32) div 16"
    using assms(2) unat_csize2tidx [of nb] by (simp add: nb_def word_le_nat_alt)
  have "unat nb = 16 * ((unat nb - 32) div 16) + 32" using nb(1,2) by presburger
  then have e: "unat t * 16 + 32 = unat nb" using t by simp
  then have "unat (t * 16) = unat t * 16"
    by (intro unat_mult_small [of t 16, simplified]) (use unat_lt_64 [of nb] in simp)
  then have u: "unat (tidx2csize t) = unat nb"
    using e unat_lt_64 [of nb] by (simp add: tidx2csize_def unat_plus_64)
  then have c: "tidx2csize t = nb" by (simp add: word_unat_eq_iff)
  then have "tidx2usize t = nb - 8" by (simp add: tidx2usize_def tidx2csize_def)
  then have "req \<le> tidx2usize t" using nb by (simp add: word_le_nat_alt unat_sub)
  with c show ?thesis by (simp add: nb_def)
qed

lemma tcache_class_fits_witness:
  "csize2tidx (checked_request2size 100) = 5 \<and> tidx2csize 5 = 112 \<and> 100 \<le> tidx2usize 5"
proof -
  have c: "csize2tidx (checked_request2size 100) = 5" "checked_request2size 100 = 112"
    by code_simp+
  then show ?thesis using tcache_class_fits [of 100 5] by simp
qed

text \<open>
  C33: the large classes of the cache are the powers of two: a size from \<open>2 ^ k\<close> to
  \<open>2 ^ (k + 1) - 1\<close> has class \<open>54 + k\<close>, which for sizes from 1 KiB to below 4 MiB is one of the
  classes 64 to 75, and the classification is monotone below \<open>2 ^ 32\<close>.
\<close>
theorem large_tcache_class:
  assumes "2 ^ k \<le> unat sz" "unat sz < 2 ^ Suc k" "k < 32"
  shows "unat (large_csize2tidx sz) = 54 + k"
proof -
  have "unat sz < 2 ^ 32"
    using assms(2) power_increasing [of "Suc k" 32 "2 :: nat"] assms(3) by linarith
  moreover have "bit_length (unat sz) = Suc k"
  proof (rule antisym)
    show "bit_length (unat sz) \<le> Suc k" using assms(2) by (rule bit_length_le)
    show "Suc k \<le> bit_length (unat sz)"
    proof (rule ccontr)
      assume "\<not> Suc k \<le> bit_length (unat sz)"
      then have "(2 :: nat) ^ bit_length (unat sz) \<le> 2 ^ k" by (intro power_increasing) auto
      then show False using bit_length_bounds(1) [of "unat sz"] assms(1) by linarith
    qed
  qed
  ultimately show ?thesis by (simp add: unat_large_csize2tidx)
qed

lemma large_tcache_class_witness: "unat (large_csize2tidx 5000) = 66"
  using large_tcache_class [of 12 5000] by simp

end
