(* ===== verification/Layout.thy ===== *)
theory Layout
  imports Alloc Check
begin

text \<open>
  The physical layout of the heap: the chunks of a region tile it, each one starting where the
  one before it ends (\<open>tiles\<close>). The lemmas say how the operations that split a chunk or give
  one back to the top chunk change the tiling; the properties are the functional behaviour of
  allocation from top, of the round trip with \<open>free\<close>, and of the free chunks that
  \<open>_int_free_create_chunk\<close> makes.
\<close>

section \<open>Tilings\<close>

text \<open>\<open>tiles m p xs e\<close>: the chunks \<open>xs\<close>, from \<open>p\<close> on, fill the region up to \<open>e\<close>.\<close>

fun tiles :: "memory \<Rightarrow> ptr \<Rightarrow> ptr list \<Rightarrow> ptr \<Rightarrow> bool" where
  "tiles m p [] e \<longleftrightarrow> p = e"
| "tiles m p (x # xs) e \<longleftrightarrow>
     p = x \<and> aligned x \<and> MINSIZE \<le> chunksize m x \<and> chunksize m x AND MALLOC_ALIGN_MASK = 0 \<and>
     unat x + unat (chunksize m x) < 2 ^ 64 \<and> tiles m (next_chunk m x) xs e"

lemma tiles_append: "tiles m p (xs @ ys) e \<longleftrightarrow> (\<exists>q. tiles m p xs q \<and> tiles m q ys e)"
  by (induction xs arbitrary: p) auto

lemma tiles_aligned: "tiles m p xs e \<Longrightarrow> x \<in> set xs \<Longrightarrow> aligned x"
  by (induction xs arbitrary: p) auto

lemma next_after:
  assumes "MINSIZE \<le> chunksize m x" "unat x + unat (chunksize m x) < 2 ^ 64"
  shows "unat (next_chunk m x) = unat x + unat (chunksize m x)" "x < next_chunk m x"
proof -
  show e: "unat (next_chunk m x) = unat x + unat (chunksize m x)"
    using assms(2) by (simp add: next_chunk_def unat_plus_64)
  show "x < next_chunk m x" using assms(1) e by (simp add: word_less_nat_alt word_le_nat_alt)
qed

lemma tiles_le: "tiles m p xs e \<Longrightarrow> p \<le> e"
proof (induction xs arbitrary: p)
  case (Cons y ys)
  then have "y < next_chunk m y" "next_chunk m y \<le> e" using next_after(2) by auto
  then show ?case using Cons.prems by simp
qed simp

lemma tiles_bounds: "tiles m p xs e \<Longrightarrow> x \<in> set xs \<Longrightarrow> p \<le> x \<and> x < e"
proof (induction xs arbitrary: p)
  case (Cons y ys)
  then have y: "p = y" "y < next_chunk m y" "next_chunk m y \<le> e"
    using next_after(2) tiles_le by auto
  show ?case
  proof (cases "x = y")
    case True
    then show ?thesis using y by simp
  next
    case False
    then have "next_chunk m y \<le> x \<and> x < e" using Cons.IH [of "next_chunk m y"] Cons.prems False by simp
    then show ?thesis using y by (simp add: order_less_imp_le order_trans [of y "next_chunk m y" x])
  qed
qed simp

lemma tiles_cong:
  "(\<And>x. x \<in> set xs \<Longrightarrow> m' (x + 8) = m (x + 8)) \<Longrightarrow> tiles m' p xs e \<longleftrightarrow> tiles m p xs e"
  by (induction xs arbitrary: p) (auto simp: chunksize_def chunksize_nomask_def next_chunk_def)

lemma tiles_snoc:
  "tiles m p (xs @ [x]) e \<longleftrightarrow> tiles m p xs x \<and> aligned x \<and> MINSIZE \<le> chunksize m x \<and>
     chunksize m x AND MALLOC_ALIGN_MASK = 0 \<and> unat x + unat (chunksize m x) < 2 ^ 64 \<and>
     next_chunk m x = e"
  by (auto simp: tiles_append)

section \<open>Header words\<close>

lemma size_with_bits:
  assumes "sz AND MALLOC_ALIGN_MASK = 0" "bits AND NOT SIZE_BITS = 0"
  shows "(sz OR bits) AND NOT SIZE_BITS = sz"
proof -
  have n: "(15 :: u64) = mask 4" "(7 :: u64) = mask 3" by (simp_all add: mask_eq_exp_minus_1)
  have z: "sz AND mask 4 = 0" "bits AND NOT (mask 3) = 0" using assms unfolding n .
  have "(sz OR bits) AND NOT (mask 3) = sz"
  proof (rule bit_word_eqI)
    fix i assume "i < LENGTH(64)"
    then show "bit ((sz OR bits) AND NOT (mask 3)) i = bit sz i"
      using arg_cong [OF z(1), of "\<lambda>w. bit w i"] arg_cong [OF z(2), of "\<lambda>w. bit w i"]
      by (auto simp: bit_and_iff bit_or_iff bit_not_iff bit_mask_iff)
  qed
  then show ?thesis unfolding n .
qed

lemma main_bit_small: "main_bit sy av AND NOT SIZE_BITS = 0" "(PREV_INUSE OR main_bit sy av) AND NOT SIZE_BITS = 0"
  by (simp_all add: main_bit_def)

lemmas multiple_iff = aligned_iff [unfolded aligned_def]

lemma multiples_of_16:
  "a mod 16 = 0 \<Longrightarrow> b mod 16 = 0 \<Longrightarrow> (a + b) mod 16 = 0"
  "(d + b) mod 16 = 0 \<Longrightarrow> b mod 16 = 0 \<Longrightarrow> d mod 16 = 0" for b d :: nat
  by (auto simp: mod_eq_0_iff_dvd dvd_add_left_iff)

lemma aligned_add:
  assumes "aligned p" "sz AND MALLOC_ALIGN_MASK = 0"
  shows "aligned (p + sz)"
proof -
  have z: "unat p mod 16 = 0" "unat sz mod 16 = 0" using assms unfolding aligned_def multiple_iff .
  then have "(unat p + unat sz) mod 16 = 0" by (rule multiples_of_16(1))
  then have "unat (p + sz) mod 16 = 0" unfolding unat_plus_mod_16 .
  then show ?thesis unfolding aligned_def multiple_iff .
qed

lemma aligned_sub:
  assumes "a AND MALLOC_ALIGN_MASK = 0" "b AND MALLOC_ALIGN_MASK = 0"
  shows "(a - b) AND MALLOC_ALIGN_MASK = 0"
proof -
  have z: "unat a mod 16 = 0" "unat b mod 16 = 0" using assms unfolding multiple_iff .
  have "unat a mod 16 = (unat (a - b) + unat b) mod 16"
    using unat_plus_mod_16 [of "a - b" b] by simp
  then have "(unat (a - b) + unat b) mod 16 = 0" using z(1) by (simp only:)
  then have "unat (a - b) mod 16 = 0" using z(2) by (rule multiples_of_16(2))
  then show ?thesis unfolding multiple_iff .
qed

text \<open>A header written as a size and flag bits, read back.\<close>

lemma head_same:
  assumes "sz AND MALLOC_ALIGN_MASK = 0" "bits AND NOT SIZE_BITS = 0" "m (p + 8) = sz OR bits"
  shows "chunksize m p = sz"
  using assms size_with_bits by (simp add: chunksize_def chunksize_nomask_def)

lemma prev_inuse_bit: "m (p + 8) = sz OR PREV_INUSE OR bits \<Longrightarrow> prev_inuse m p"
proof -
  assume "m (p + 8) = sz OR PREV_INUSE OR bits"
  then have "bit (m (p + 8) AND PREV_INUSE) 0" by (simp add: bit_simps)
  then show ?thesis by (auto simp: prev_inuse_def chunksize_nomask_def)
qed

section \<open>The region below and including top\<close>

text \<open>
  \<open>region m av base xs\<close>: from \<open>base\<close> on, the heap of the arena consists of the chunks \<open>xs\<close> and
  then the top chunk, which has its \<open>PREV_INUSE\<close> bit set.
\<close>

definition region :: "memory \<Rightarrow> ptr \<Rightarrow> ptr \<Rightarrow> ptr list \<Rightarrow> bool" where
  "region m av base xs \<longleftrightarrow>
     aligned av \<and> tiles m base (xs @ [get_top m av]) (next_chunk m (get_top m av)) \<and>
     prev_inuse m (get_top m av)"

lemma region_top:
  assumes "region m av base xs"
  shows "aligned av" "aligned (get_top m av)" "tiles m base xs (get_top m av)"
    "MINSIZE \<le> chunksize m (get_top m av)" "chunksize m (get_top m av) AND MALLOC_ALIGN_MASK = 0"
    "unat (get_top m av) + unat (chunksize m (get_top m av)) < 2 ^ 64"
    "prev_inuse m (get_top m av)" "x \<in> set xs \<Longrightarrow> aligned x \<and> x < get_top m av"
  using assms tiles_aligned [of m base xs "get_top m av" x] tiles_bounds [of m base xs "get_top m av" x]
  by (auto simp: region_def tiles_snoc)

lemma head_ne_top_field: "aligned av \<Longrightarrow> aligned p \<Longrightarrow> p + 8 \<noteq> av + 96"
proof -
  assume a: "aligned av" "aligned p"
  have "unat (8 :: u64) mod 16 \<noteq> unat (96 :: u64) mod 16" by simp
  then show ?thesis by (rule aligned_neq [OF a(2,1)])
qed

text \<open>Cutting a chunk of \<open>nb\<close> bytes off the front of top.\<close>

definition carve_top :: "memory \<Rightarrow> ptr \<Rightarrow> u64 \<Rightarrow> u64 \<Rightarrow> memory" where
  "carve_top m av nb bits =
     (let tp = get_top m av; sz = chunksize m tp;
          m = set_top m av (chunk_at_offset tp nb);
          m = set_head m tp (nb OR PREV_INUSE OR bits)
      in set_head m (chunk_at_offset tp nb) ((sz - nb) OR PREV_INUSE))"

lemma carve_top_region:
  assumes r: "region m av base xs" and nb: "nb AND MALLOC_ALIGN_MASK = 0" "MINSIZE \<le> nb"
    and fits: "unat nb + 32 \<le> unat (chunksize m (get_top m av))"
    and bits: "(PREV_INUSE OR bits) AND NOT SIZE_BITS = 0"
  defines "m' \<equiv> carve_top m av nb bits" and "tp \<equiv> get_top m av"
  shows "region m' av base (xs @ [tp])" "get_top m' av = tp + nb" "chunksize m' tp = nb"
    "prev_inuse m' tp" "chunksize m' (tp + nb) = chunksize m tp - nb"
    "\<And>a. m' a \<noteq> m a \<Longrightarrow> a = av + 96 \<or> a = tp + 8 \<or> a = tp + nb + 8"
proof -
  note t = region_top [OF r, folded tp_def]
  let ?T = "chunksize m tp"
  have u: "unat (tp + nb) = unat tp + unat nb" "unat (?T - nb) = unat ?T - unat nb"
    using fits t(6) unfolding tp_def [symmetric] by (simp_all add: unat_plus_64 unat_sub word_le_nat_alt)
  have al: "aligned (tp + nb)" "(?T - nb) AND MALLOC_ALIGN_MASK = 0"
    using aligned_add [OF t(2) nb(1)] aligned_sub [OF t(5) nb(1)] .
  have ne: "tp + nb \<noteq> tp" "tp + 8 \<noteq> av + 96" "tp + nb + 8 \<noteq> av + 96"
    using nb(2) head_ne_top_field [OF t(1,2)] head_ne_top_field [OF t(1) al(1)] by auto
  have m': "m' = m(av + 96 := tp + nb, tp + 8 := nb OR PREV_INUSE OR bits,
      tp + nb + 8 := (?T - nb) OR PREV_INUSE)"
    by (simp add: m'_def carve_top_def Let_def set_top_def set_head_def chunk_at_offset_def tp_def)
  show changed: "\<And>a. m' a \<noteq> m a \<Longrightarrow> a = av + 96 \<or> a = tp + 8 \<or> a = tp + nb + 8"
    by (auto simp: m' split: if_splits)
  show top': "get_top m' av = tp + nb" using ne by (simp add: m' get_top_def)
  show c1: "chunksize m' tp = nb"
    by (rule head_same [where bits = "PREV_INUSE OR bits"])
      (use nb bits ne in \<open>simp_all add: m' or.assoc\<close>)
  show "prev_inuse m' tp" by (rule prev_inuse_bit [where sz = nb and bits = bits]) (use ne in \<open>simp add: m'\<close>)
  show c2: "chunksize m' (tp + nb) = ?T - nb"
    by (rule head_same [where bits = PREV_INUSE]) (use al in \<open>simp_all add: m'\<close>)
  have "prev_inuse m' (tp + nb)"
    by (rule prev_inuse_bit [where sz = "?T - nb" and bits = 0]) (simp add: m')
  moreover have "tiles m' base xs tp \<longleftrightarrow> tiles m base xs tp"
  proof (rule tiles_cong)
    fix x assume "x \<in> set xs"
    then have x: "aligned x" "x < tp" using t(8) by auto
    then have "x \<noteq> tp" "x \<noteq> tp + nb" using u(1) by (auto simp: word_less_nat_alt)
    then show "m' (x + 8) = m (x + 8)"
      using head_ne_top_field [OF t(1) x(1)] by (simp add: m')
  qed
  moreover have "32 \<le> ?T - nb" "unat (tp + nb) + unat (?T - nb) < 2 ^ 64"
    using u fits t(6) unfolding tp_def [symmetric] by (simp_all add: word_le_nat_alt)
  ultimately show "region m' av base (xs @ [tp])"
    using t(1-3) c1 c2 nb al u(1) fits t(6) unfolding region_def top'
    by (simp add: tiles_append next_chunk_def tp_def [symmetric])
qed

text \<open>Giving the chunk before top back to it.\<close>

lemma merge_top_region:
  assumes r: "region m av base (xs @ [p])" and p: "prev_inuse m p"
    and m': "m' = set_top (set_head m p ((chunksize m p + chunksize m (get_top m av)) OR PREV_INUSE)) av p"
  shows "region m' av base xs" "get_top m' av = p"
    "chunksize m' p = chunksize m p + chunksize m (get_top m av)"
    "\<And>a. m' a \<noteq> m a \<Longrightarrow> a = av + 96 \<or> a = p + 8"
proof -
  note t = region_top [OF r]
  let ?top = "get_top m av" and ?s = "chunksize m p" and ?T = "chunksize m (get_top m av)"
  have p': "tiles m base xs p" "aligned p" "32 \<le> ?s" "?s AND 15 = 0"
    "unat p + unat ?s < 2 ^ 64" "?top = p + ?s"
    using t(3) by (auto simp: tiles_snoc next_chunk_def)
  have u: "unat ?top = unat p + unat ?s" using p'(5,6) by (simp add: unat_plus_64)
  then have uT: "unat (?s + ?T) = unat ?s + unat ?T" using t(6) by (simp add: unat_plus_64)
  have al: "(?s + ?T) AND 15 = 0"
    using aligned_add [of ?s ?T] p'(4) t(5) by (simp add: aligned_def)
  have ne: "p + 8 \<noteq> av + 96" by (rule head_ne_top_field [OF t(1) p'(2)])
  have m': "m' = m(p + 8 := (?s + ?T) OR PREV_INUSE, av + 96 := p)"
    by (simp add: m' set_top_def set_head_def)
  show "\<And>a. m' a \<noteq> m a \<Longrightarrow> a = av + 96 \<or> a = p + 8" by (auto simp: m' split: if_splits)
  show top': "get_top m' av = p" by (simp add: m' get_top_def)
  show c: "chunksize m' p = ?s + ?T"
    by (rule head_same [where bits = PREV_INUSE]) (use al ne in \<open>simp_all add: m'\<close>)
  have "prev_inuse m' p"
    by (rule prev_inuse_bit [where sz = "?s + ?T" and bits = 0]) (use ne in \<open>simp add: m'\<close>)
  moreover have "tiles m' base xs p \<longleftrightarrow> tiles m base xs p"
  proof (rule tiles_cong)
    fix x assume "x \<in> set xs"
    then have x: "aligned x" "x < p" using tiles_aligned tiles_bounds p'(1) by blast+
    then show "m' (x + 8) = m (x + 8)"
      using head_ne_top_field [OF t(1) x(1)] by (auto simp: m')
  qed
  moreover have "32 \<le> ?s + ?T" "unat p + unat (?s + ?T) < 2 ^ 64"
    using uT u t(6) p'(3) by (simp_all add: word_le_nat_alt)
  ultimately show "region m' av base xs"
    using t(1) p' c al unfolding region_def top' by (simp add: tiles_snoc)
qed

section \<open>Allocation from top and its inverse\<close>

lemma no_perturb [simp]:
  "perturb_byte s = 0 \<Longrightarrow> alloc_perturb p n s = s" "perturb_byte s = 0 \<Longrightarrow> free_perturb p n s = s"
  by (simp_all add: alloc_perturb_def free_perturb_def)

lemma int_malloc_top_carves:
  assumes "perturb_byte s = 0" "chunksize (mem s) (get_top (mem s) av) \<le> system_mem s av"
    and "nb + MINSIZE \<le> chunksize (mem s) (get_top (mem s) av)"
  shows "int_malloc_top sy av nb bytes s
    = Inr (Some (chunk2mem (get_top (mem s) av)), s\<lparr>mem := carve_top (mem s) av nb (main_bit sy av)\<rparr>)"
  using assms by (simp add: int_malloc_top_def carve_top_def upd_mem_def Let_def leD)

lemma sysmalloc_finish_carves:
  assumes "nb + MINSIZE \<le> chunksize (mem s) (get_top (mem s) av)"
  shows "fst (sysmalloc_finish sy nb av s) = chunk2mem (get_top (mem s) av)"
    "mem (snd (sysmalloc_finish sy nb av s)) = carve_top (mem s) av nb (main_bit sy av)"
  using assms by (simp_all add: sysmalloc_finish_def carve_top_def upd_mem_def Let_def main_bit_def)

lemma merge_next_to_top:
  assumes "nextchunk = get_top (mem s) av"
  shows "int_free_create_chunk av p sz nextchunk nextsize s
    = Inr (sz + nextsize, s\<lparr>mem := set_top (set_head (mem s) p ((sz + nextsize) OR PREV_INUSE)) av p\<rparr>)"
  using assms by (simp add: int_free_create_chunk_def upd_mem_def Let_def)

lemma unat_nb_plus:
  fixes nb :: u64
  assumes "unat nb < 2 ^ 64 - 32"
  shows "unat (nb + 32) = unat nb + 32"
  using assms by (simp add: unat_plus_64)

text \<open>Freeing the chunk before top, with every check of \<open>_int_free_merge_chunk\<close> passed.\<close>

lemma free_before_top:
  assumes r: "region (mem s) av base (xs @ [p])" and pi: "prev_inuse (mem s) p"
    and pert: "perturb_byte s = 0"
    and sys: "chunksize (mem s) (get_top (mem s) av) < system_mem s av"
    and small: "unat (chunksize (mem s) p) + unat (chunksize (mem s) (get_top (mem s) av)) < 65536"
  shows "\<exists>s'. int_free_merge_chunk sy av p (chunksize (mem s) p) s = Inr s' \<and>
    region (mem s') av base xs \<and> get_top (mem s') av = p \<and>
    chunksize (mem s') p = chunksize (mem s) p + chunksize (mem s) (get_top (mem s) av)"
proof -
  let ?m = "mem s" let ?tp = "get_top ?m av" let ?sz = "chunksize ?m p" and ?T = "chunksize ?m ?tp"
  note t = region_top [OF r]
  have p: "?tp = p + ?sz" "32 \<le> ?sz" using t(3) by (auto simp: tiles_snoc next_chunk_def)
  have "p \<noteq> ?tp" using t(8) [of p] by auto
  moreover have "\<not> ?tp + ?T \<le> ?tp"
    using t(4,6) by (simp add: word_le_nat_alt unat_plus_64)
  moreover have "\<not> chunksize_nomask ?m ?tp \<le> 16"
    using chunksize_le_nomask [of ?m ?tp] t(4) by (simp add: word_le_nat_alt)
  moreover have "\<not> system_mem s av \<le> ?T" using sys by simp
  ultimately have e: "int_free_merge_chunk sy av p ?sz s
      = bindE (int_free_create_chunk av p ?sz ?tp ?T s) (\<lambda>(sz, s). int_free_maybe_consolidate sy av sz s)"
    using t(7) pi pert unfolding p(1) [symmetric]
    by (simp add: int_free_merge_chunk_def Let_def chunk_at_offset_def p(1) [symmetric])
  have "\<not> 65536 \<le> ?sz + ?T" using small by (simp add: word_le_nat_alt unat_plus_64)
  then have "int_free_merge_chunk sy av p ?sz s
      = Inr (s\<lparr>mem := set_top (set_head ?m p ((?sz + ?T) OR PREV_INUSE)) av p\<rparr>)"
    unfolding e merge_next_to_top [OF refl] by (simp add: int_free_maybe_consolidate_def)
  then show ?thesis using merge_top_region [OF r pi refl] by simp
qed

section \<open>Properties\<close>

text \<open>
  Allocation from top (\<open>use_top\<close> of \<open>_int_malloc\<close>). On a well-formed region it never aborts
  for a size within \<open>system_mem\<close>. If top is large enough for the request and a remaining top of
  \<open>MINSIZE\<close>, it returns the old top's memory, the region stays well-formed with the old top as
  its last chunk, of exactly \<open>nb\<close> bytes and in use, top is the rest, and no word changes besides
  the two headers and \<open>av->top\<close>; otherwise it returns nothing and changes nothing. A top larger
  than \<open>system_mem\<close> aborts.
\<close>
theorem malloc_from_top:
  assumes "region (mem s) av base xs" "perturb_byte s = 0"
    and "nb AND MALLOC_ALIGN_MASK = 0" "MINSIZE \<le> nb" "unat nb < 2 ^ 64 - 32"
  defines "tp \<equiv> get_top (mem s) av"
  shows "if chunksize (mem s) tp > system_mem s av
    then int_malloc_top sy av nb bytes s = Inl (Printerr ''malloc(): corrupted top size'')
    else if chunksize (mem s) tp < nb + MINSIZE then int_malloc_top sy av nb bytes s = Inr (None, s)
    else \<exists>s'. int_malloc_top sy av nb bytes s = Inr (Some (chunk2mem tp), s') \<and>
      region (mem s') av base (xs @ [tp]) \<and> chunksize (mem s') tp = nb \<and> prev_inuse (mem s') tp \<and>
      get_top (mem s') av = tp + nb \<and> chunksize (mem s') (tp + nb) = chunksize (mem s) tp - nb \<and>
      (\<forall>a. mem s' a \<noteq> mem s a \<longrightarrow> a = av + 96 \<or> a = tp + 8 \<or> a = tp + nb + 8)"
proof -
  have "unat nb + 32 \<le> unat (chunksize (mem s) tp)" if "\<not> chunksize (mem s) tp < nb + MINSIZE"
    using that unat_nb_plus [OF assms(5)] by (simp add: word_less_nat_alt)
  then show ?thesis
    using carve_top_region [OF assms(1,3,4) _ main_bit_small(2) [of sy av]]
      int_malloc_top_carves [OF assms(2), of av nb sy bytes]
    unfolding tp_def [symmetric]
    by (auto simp: int_malloc_top_def Let_def tp_def [symmetric] not_less leD)
qed

text \<open>An arena at 65536 whose heap is a top chunk of 4096 bytes at 131072.\<close>

definition example_heap :: "unit st" where
  "example_heap = (static_state ())\<lparr>mem := (\<lambda>_. 0)(65632 := 131072, 131080 := 4097),
     system_mem := (\<lambda>_. 0)(65536 := 4096)\<rparr>"

lemma example_heap_region: "region (mem example_heap) 65536 131072 []"
  by (simp add: region_def example_heap_def get_top_def chunksize_def chunksize_nomask_def
      next_chunk_def prev_inuse_def aligned_def)

lemma example_heap_values:
  "perturb_byte example_heap = 0" "get_top (mem example_heap) 65536 = 131072"
  "chunksize (mem example_heap) 131072 = 4096" "system_mem example_heap 65536 = 4096"
  by (simp_all add: example_heap_def static_state_def get_top_def chunksize_def chunksize_nomask_def)

lemma malloc_from_top_witness:
  "\<exists>s'. int_malloc_top bare_sys 65536 112 100 example_heap = Inr (Some 131088, s') \<and>
     region (mem s') 65536 131072 [131072] \<and> get_top (mem s') 65536 = 131184 \<and>
     chunksize (mem s') 131184 = 3984"
  using malloc_from_top [OF example_heap_region, of 112 bare_sys 100]
  by (auto simp: example_heap_values chunk2mem_def)

text \<open>
  \<open>malloc\<close> from top followed by \<open>free\<close> is the identity on the heap's structure: the chunk cut
  off the front of top passes all checks of \<open>_int_free_merge_chunk\<close>, is merged with top again, and
  the region, the address of top and its size are as they were. (Sizes below the trim threshold.)
\<close>
theorem malloc_free_top_roundtrip:
  assumes "region (mem s) av base xs" "perturb_byte s = 0"
    and "nb AND MALLOC_ALIGN_MASK = 0" "MINSIZE \<le> nb"
    and "unat nb + 32 \<le> unat (chunksize (mem s) (get_top (mem s) av))"
    and "chunksize (mem s) (get_top (mem s) av) \<le> system_mem s av"
    and "unat (chunksize (mem s) (get_top (mem s) av)) < 65536"
  shows "\<exists>p s1 s2. int_malloc_top sy av nb bytes s = Inr (Some (chunk2mem p), s1) \<and>
    int_free_merge_chunk sy av p nb s1 = Inr s2 \<and> region (mem s2) av base xs \<and>
    get_top (mem s2) av = get_top (mem s) av \<and>
    chunksize (mem s2) (get_top (mem s2) av) = chunksize (mem s) (get_top (mem s) av)"
proof -
  let ?tp = "get_top (mem s) av" let ?T = "chunksize (mem s) ?tp"
  let ?s = "s\<lparr>mem := carve_top (mem s) av nb (main_bit sy av)\<rparr>"
  note c = carve_top_region [OF assms(1,3,4,5) main_bit_small(2) [of sy av]]
  have "nb + MINSIZE \<le> ?T"
    using assms(5,7) by (simp add: word_le_nat_alt unat_plus_64)
  then have a: "int_malloc_top sy av nb bytes s = Inr (Some (chunk2mem ?tp), ?s)"
    using assms(2,6) by (intro int_malloc_top_carves) auto
  have u: "unat (?T - nb) = unat ?T - unat nb" using assms(5) by (simp add: unat_sub word_le_nat_alt)
  have "\<exists>s2. int_free_merge_chunk sy av ?tp (chunksize (mem ?s) ?tp) ?s = Inr s2 \<and>
      region (mem s2) av base xs \<and> get_top (mem s2) av = ?tp \<and>
      chunksize (mem s2) ?tp = chunksize (mem ?s) ?tp + chunksize (mem ?s) (get_top (mem ?s) av)"
  proof (rule free_before_top)
    show "chunksize (mem ?s) (get_top (mem ?s) av) < system_mem ?s av"
      using c(2,5) u assms(4-6) by (simp add: word_less_nat_alt word_le_nat_alt)
    show "unat (chunksize (mem ?s) ?tp) + unat (chunksize (mem ?s) (get_top (mem ?s) av)) < 65536"
      using c(2,3,5) u assms(5,7) by simp
  qed (use c assms(2) in auto)
  then show ?thesis using a c(2,3,5) by auto
qed

lemma malloc_free_top_roundtrip_witness:
  "\<exists>p s1 s2. int_malloc_top bare_sys 65536 112 100 example_heap = Inr (Some (chunk2mem p), s1) \<and>
     int_free_merge_chunk bare_sys 65536 p 112 s1 = Inr s2 \<and> region (mem s2) 65536 131072 [] \<and>
     get_top (mem s2) 65536 = 131072"
  using malloc_free_top_roundtrip [OF example_heap_region, of 112 bare_sys 100]
  by (auto simp: example_heap_values)

end
