(* ===== verification/Binned.thy ===== *)
theory Binned
  imports Layout
begin

text \<open>
  Freed chunks in the doubly linked bins: what \<open>_int_free_create_chunk\<close> and
  \<open>_int_free_merge_chunk\<close> do with a chunk between two used ones, and how \<open>_int_malloc\<close> takes the
  last chunk of a small bin, over the list abstraction \<open>bin_list\<close>. The properties are the
  placement of a freed chunk, the detection of a double free, the queue order of a small bin and
  the reuse of a freed chunk.
\<close>

section \<open>Chunks apart from each other\<close>

text \<open>
  \<open>apart x p sz\<close>: the 32 bytes from \<open>x\<close> on, which hold the links of a free chunk or a bin header,
  do not overlap the chunk of \<open>sz\<close> bytes at \<open>p\<close>.
\<close>

definition apart :: "ptr \<Rightarrow> ptr \<Rightarrow> u64 \<Rightarrow> bool" where
  "apart x p sz \<longleftrightarrow> unat x + 32 < 2 ^ 64 \<and> (unat x + 32 \<le> unat p \<or> unat p + unat sz \<le> unat x)"

lemma unat_offset: "unat a + unat i < 2 ^ 64 \<Longrightarrow> unat (a + i) = unat a + unat i" for a i :: u64
  by (simp add: unat_plus_64)

lemma offset_neq: "unat a + unat i < 2 ^ 64 \<Longrightarrow> unat b + unat j < 2 ^ 64 \<Longrightarrow>
    unat a + unat i \<noteq> unat b + unat j \<Longrightarrow> a + i \<noteq> b + j" for a b i j :: u64
  using unat_offset by metis

lemma apart_fields:
  assumes "apart x p sz" "32 \<le> unat sz" "unat p + unat sz + 16 < 2 ^ 64"
    and "i = 16 \<or> i = 24"
  shows "x + i \<noteq> p + 8" "x + i \<noteq> p + 16" "x + i \<noteq> p + 24" "x + i \<noteq> p + sz" "x + i \<noteq> p + (sz + 8)"
    "48 \<le> unat sz \<Longrightarrow> x + i \<noteq> p + 32" "48 \<le> unat sz \<Longrightarrow> x + i \<noteq> p + 40" "x \<noteq> p"
proof -
  have u8: "unat (sz + 8) = unat sz + 8" using assms(3) by (simp add: unat_plus_64)
  show "x + i \<noteq> p + 8" "x + i \<noteq> p + 16" "x + i \<noteq> p + 24" "x + i \<noteq> p + sz" "x + i \<noteq> p + (sz + 8)"
    "48 \<le> unat sz \<Longrightarrow> x + i \<noteq> p + 32" "48 \<le> unat sz \<Longrightarrow> x + i \<noteq> p + 40"
    by (rule offset_neq; use assms u8 in \<open>auto simp: apart_def\<close>)+
  show "x \<noteq> p" using assms(1,2) by (auto simp: apart_def)
qed

lemma bin_list_cong:
  assumes "\<And>x. x \<in> set (b # xs) \<Longrightarrow> m' (x + 16) = m (x + 16) \<and> m' (x + 24) = m (x + 24)"
  shows "bin_list m' b xs = bin_list m b xs"
proof -
  have "links m' (b # xs @ [b]) = links m (b # xs @ [b])"
    by (rule links_cong) (use assms in \<open>auto simp: field_defs dest: in_set_butlastD\<close>)
  then show ?thesis by (simp add: bin_list_def)
qed

text \<open>The bin in which \<open>free\<close> puts a chunk of \<open>sz\<close> bytes.\<close>

definition free_bin :: "ptr \<Rightarrow> u64 \<Rightarrow> ptr" where
  "free_bin av sz = (if in_smallbin_range sz then bin_at av (smallbin_index sz) else unsorted_chunks av)"

text \<open>The stores that make \<open>p\<close> a free chunk at the front of the bin \<open>b\<close>, before \<open>fwd\<close>.\<close>

definition bin_free_chunk :: "memory \<Rightarrow> ptr \<Rightarrow> u64 \<Rightarrow> ptr \<Rightarrow> ptr \<Rightarrow> memory" where
  "bin_free_chunk m p sz b fwd =
     (let m = clear_inuse_bit_at_offset m (p + sz) 0;
          m = (if in_smallbin_range sz then m else clear_nextsize m p);
          m = link_between m p b fwd;
          m = set_head m p (sz OR PREV_INUSE)
      in set_foot m p sz)"

lemma large_size: "\<not> in_smallbin_range sz \<Longrightarrow> 48 \<le> unat sz"
  by (simp add: in_smallbin_range_def word_less_nat_alt)

lemma mark_bin_get: "get_binmap (mark_bin av i s) av i \<noteq> 0"
proof -
  have "bit (idx2bit i) (unat (i AND 31))"
  proof -
    have "unat (i AND 31) < 32"
      using unat_and_mask [of i 5] by (simp add: mask_eq_exp_minus_1)
    then show ?thesis by (simp add: idx2bit_def bit_push_bit_iff bit_exp_iff)
  qed
  then have "bit (get_binmap (mark_bin av i s) av i) (unat (i AND 31))"
    by (simp add: get_binmap_def mark_bin_def bit_simps)
  then show ?thesis by auto
qed

lemma bin_free_chunk_other:
  assumes "a \<noteq> p + 8" "a \<noteq> p + 16" "a \<noteq> p + 24" "a \<noteq> p + sz"
    and "in_smallbin_range sz \<or> a \<noteq> p + 32 \<and> a \<noteq> p + 40"
    and "a \<noteq> b + 16" "a \<noteq> fwd + 24"
  shows "bin_free_chunk m p sz b fwd a = clear_inuse_bit_at_offset m (p + sz) 0 a"
  using assms unfolding bin_free_chunk_def
  by (auto simp: Let_def clear_nextsize_def link_between_def set_foot_def field_defs)

lemma bin_free_chunk_facts:
  assumes l: "bin_list m b xs" and ap: "\<And>x. x \<in> set (b # xs) \<Longrightarrow> apart x p sz"
    and p: "aligned p" "sz AND MALLOC_ALIGN_MASK = 0" "MINSIZE \<le> sz"
      "unat p + unat sz + 16 < 2 ^ 64"
  defines "m' \<equiv> bin_free_chunk m p sz b (get_fd m b)"
  shows "bin_list m' b (p # xs)" "chunksize m' p = sz" "prev_inuse m' p" "prev_size m' (p + sz) = sz"
    "\<not> prev_inuse m' (p + sz)" "chunksize m' (p + sz) = chunksize m (p + sz)"
proof -
  let ?m1 = "clear_inuse_bit_at_offset m (p + sz) 0"
  let ?m2 = "if in_smallbin_range sz then ?m1 else clear_nextsize ?m1 p"
  let ?m3 = "link_between ?m2 p b (get_fd m b)"
  have s32: "32 \<le> unat sz" using p(3) by (simp add: word_le_nat_alt)
  note af = apart_fields [OF ap s32 p(4)]
  have al: "aligned b" "x \<in> set (b # xs) \<Longrightarrow> aligned x" for x
    using bin_list_aligned [OF l] by auto
  have eq2: "?m2 (x + i) = m (x + i)" if "x \<in> set (b # xs)" "i = 16 \<or> i = 24" for x i
    using af [OF that] large_size [of sz]
    by (auto simp: clear_inuse_bit_at_offset_def clear_nextsize_def field_defs add.assoc)
  then have l2: "bin_list ?m2 b xs" using l bin_list_cong [of b xs ?m2 m] by blast
  have fwd: "get_fd m b = hd (xs @ [b])" using l by (cases xs) (auto simp: bin_list_def)
  have fin: "get_fd m b \<in> set (b # xs)" unfolding fwd by (cases xs) auto
  have notin: "p \<notin> set (b # xs)" using af(8) by blast
  have l3: "bin_list ?m3 b (p # xs)"
    using bin_list_insert [of ?m2 b "[]" xs p b "get_fd m b"] l2 notin p(1) fwd by simp
  have m': "m' = set_foot (set_head ?m3 p (sz OR PREV_INUSE)) p sz"
    by (simp add: m'_def bin_free_chunk_def Let_def)
  have als: "aligned (p + sz)" using p(1,2) by (rule aligned_add)
  have n8: "p + sz \<noteq> p + 8" using aligned_field_neq(10) [OF p(1) als] aligned_field_neq(9) [OF als p(1)] by simp
  have big: "p + 16 \<noteq> p + sz" "p + 24 \<noteq> p + sz" "p + sz \<noteq> p + 16" "p + sz \<noteq> p + 24"
    using s32 by auto
  have "bin_list m' b (p # xs) = bin_list ?m3 b (p # xs)"
  proof (rule bin_list_cong)
    fix x assume "x \<in> set (b # p # xs)"
    then consider "x = p" | "x \<in> set (b # xs)" by auto
    then show "m' (x + 16) = ?m3 (x + 16) \<and> m' (x + 24) = ?m3 (x + 24)"
      by cases (use big af [of _ 16] af [of _ 24] in
          \<open>auto simp: m' set_foot_def set_head_def set_prev_size_def chunk_at_offset_def\<close>)
  qed
  then show "bin_list m' b (p # xs)" using l3 by simp
  have hd: "m' (p + 8) = sz OR PREV_INUSE"
    using n8 by (simp add: m' set_foot_def set_head_def set_prev_size_def)
  show "chunksize m' p = sz" using p(2) hd by (intro head_same [of _ PREV_INUSE]) auto
  show "prev_inuse m' p" using prev_inuse_bit [of m' p sz 0] hd by simp
  show "prev_size m' (p + sz) = sz"
    by (simp add: m' set_foot_def set_prev_size_def prev_size_def)
  have u: "unat (sz + 8) = unat sz + 8" using p(4) by (simp add: unat_plus_64)
  have neq: "p + (sz + 8) \<noteq> p + i" if "unat i < 40" for i
    using u s32 that by auto
  have "p + (sz + 8) \<noteq> p + 40" if "\<not> in_smallbin_range sz"
    using u large_size [OF that] by auto
  moreover have "p + (sz + 8) \<noteq> b + 16" "p + (sz + 8) \<noteq> get_fd m b + 24"
    using af(5) [of b 16] af(5) [OF fin, of 24] by auto
  ultimately have "m' (p + (sz + 8)) = ?m1 (p + (sz + 8))"
    unfolding m'_def using neq [of 8] neq [of 16] neq [of 24] neq [of 32] s32
    by (intro bin_free_chunk_other) (auto simp del: add_left_cancel)
  then have n: "chunksize_nomask m' (p + sz) = chunksize_nomask m (p + sz) AND NOT PREV_INUSE"
    by (simp add: clear_inuse_bit_at_offset_def chunksize_nomask_def set_head_def add.assoc)
  show "\<not> prev_inuse m' (p + sz)"
    unfolding prev_inuse_def n by (simp add: and.assoc)
  show "chunksize m' (p + sz) = chunksize m (p + sz)"
    unfolding chunksize_def n by (simp add: and.assoc)
qed

lemma create_binned:
  assumes l: "bin_list (mem s) (free_bin av sz) xs"
    and ap: "\<And>x. x \<in> set (free_bin av sz # xs) \<Longrightarrow> apart x p sz"
    and p: "MINSIZE \<le> sz" "unat p + unat sz + 16 < 2 ^ 64"
    and nx: "p + sz \<noteq> get_top (mem s) av" "inuse_bit_at_offset (mem s) (p + sz) nextsize"
  shows "int_free_create_chunk av p sz (p + sz) nextsize s
    = Inr (sz, (if in_smallbin_range sz then mark_bin av (smallbin_index sz) s else s)
        \<lparr>mem := bin_free_chunk (mem s) p sz (free_bin av sz) (get_fd (mem s) (free_bin av sz))\<rparr>)"
proof -
  let ?b = "free_bin av sz" let ?m1 = "clear_inuse_bit_at_offset (mem s) (p + sz) 0"
  let ?fwd = "get_fd (mem s) ?b"
  have s32: "32 \<le> unat sz" using p(1) by (simp add: word_le_nat_alt)
  note af = apart_fields [OF ap s32 p(2)]
  have "?fwd \<in> set (?b # xs)" "get_bk (mem s) ?fwd = ?b"
    using l by (cases xs; auto simp: bin_list_def)+
  then have "get_fd ?m1 ?b = ?fwd" "get_bk ?m1 ?fwd = ?b"
    using af(5) [of ?b 16] af(5) [of ?fwd 24]
    by (auto simp: clear_inuse_bit_at_offset_def field_defs add.assoc)
  then show ?thesis
    using nx unfolding free_bin_def bin_free_chunk_def
    by (cases "in_smallbin_range sz")
      (auto simp: int_free_create_chunk_def upd_mem_def Let_def mark_bin_def)
qed

text \<open>The checks that \<open>_int_free_merge_chunk\<close> makes before it frees \<open>p\<close>, all passed.\<close>

definition free_checks :: "'k st \<Rightarrow> ptr \<Rightarrow> ptr \<Rightarrow> u64 \<Rightarrow> bool" where
  "free_checks s av p sz \<longleftrightarrow>
     p \<noteq> get_top (mem s) av \<and>
     (contiguous s av \<longrightarrow> p + sz < get_top (mem s) av + chunksize (mem s) (get_top (mem s) av)) \<and>
     prev_inuse (mem s) (p + sz) \<and> 16 < chunksize_nomask (mem s) (p + sz) \<and>
     chunksize (mem s) (p + sz) < system_mem s av"

lemma merge_checked:
  assumes "free_checks s av p sz" "prev_inuse (mem s) p" "perturb_byte s = 0"
  shows "int_free_merge_chunk sy av p sz s
    = bindE (int_free_create_chunk av p sz (p + sz) (chunksize (mem s) (p + sz)) s)
        (\<lambda>(sz, s). int_free_maybe_consolidate sy av sz s)"
  using assms
  by (auto simp: int_free_merge_chunk_def free_checks_def Let_def chunk_at_offset_def not_le not_less)

lemma merge_not_in_use:
  assumes "\<not> prev_inuse (mem s) (p + sz)"
  shows "\<exists>msg. int_free_merge_chunk sy av p sz s = Inl (Printerr msg)"
  using assms by (simp add: int_free_merge_chunk_def Let_def chunk_at_offset_def)

section \<open>Taking a chunk from a small bin\<close>

text \<open>The memory after the last chunk \<open>v\<close> of the bin \<open>b\<close> is taken.\<close>

definition take_last :: "memory \<Rightarrow> ptr \<Rightarrow> ptr \<Rightarrow> u64 \<Rightarrow> u64 \<Rightarrow> memory" where
  "take_last m b v nb bits =
     (let bck = get_bk m v;
          m = set_inuse_bit_at_offset m v nb;
          m = set_fd (set_bk m b bck) bck b
      in if bits = 0 then m else set_non_main_arena m v)"

lemma take_last_facts:
  fixes bits :: u64
  assumes l: "bin_list m b (xs @ [v])" and ap: "\<And>x. x \<in> set (b # xs) \<Longrightarrow> apart x v nb"
    and nb: "MINSIZE \<le> nb" "unat v + unat nb + 16 < 2 ^ 64"
  defines "m' \<equiv> take_last m b v nb bits"
  shows "bin_list m' b xs" "prev_inuse m' (v + nb)" "chunksize m' v = chunksize m v"
    "get_fd m (get_bk m v) = v"
proof -
  let ?m1 = "set_inuse_bit_at_offset m v nb" let ?bck = "get_bk m v"
  let ?m2 = "set_fd (set_bk ?m1 b ?bck) ?bck b"
  have s32: "32 \<le> unat nb" using nb(1) by (simp add: word_le_nat_alt)
  note af = apart_fields [OF ap s32 nb(2)]
  note al = bin_list_aligned [OF l]
  note nbs = bin_list_neighbours [of m b xs v "[]", simplified, OF l]
  have bin: "?bck \<in> set (b # xs)" unfolding nbs(2) by simp
  show "get_fd m (get_bk m v) = v" using nbs(2,4) by simp
  have nn: "v + nb + 8 \<noteq> v + 16" "v + nb + 8 \<noteq> v + 24" "v + nb + 8 \<noteq> v + 8"
  proof -
    have "unat (nb + 8) = unat nb + 8" using nb(2) by (simp add: unat_plus_64)
    then have "nb + 8 \<noteq> 16" "nb + 8 \<noteq> 24" "nb + 8 \<noteq> 8" using s32 by auto
    then show "v + nb + 8 \<noteq> v + 16" "v + nb + 8 \<noteq> v + 24" "v + nb + 8 \<noteq> v + 8"
      by (simp_all add: add.assoc)
  qed
  have eq1: "?m1 (x + i) = m (x + i)" if "x \<in> set (b # xs @ [v])" "i = 16 \<or> i = 24" for x i
    using that af(5) [of x i] nn by (auto simp: set_inuse_bit_at_offset_def set_head_def add.assoc)
  have l1: "bin_list ?m1 b (xs @ [v])" using l bin_list_cong [of b "xs @ [v]" ?m1 m] eq1 by blast
  have "get_fd ?m1 v = b" "get_bk ?m1 v = ?bck"
    using nbs(1) eq1 [of v 16] eq1 [of v 24] by (simp_all add: field_defs)
  then have l2: "bin_list ?m2 b xs" using bin_list_remove [of ?m1 b xs v "[]"] l1 by simp
  have m': "m' = (if bits = 0 then ?m2 else set_non_main_arena ?m2 v)"
    by (simp add: m'_def take_last_def Let_def)
  have "bin_list m' b xs = bin_list ?m2 b xs"
    by (rule bin_list_cong) (use af(1) in \<open>auto simp: m' set_non_main_arena_def set_head_def\<close>)
  then show "bin_list m' b xs" using l2 by simp
  have "?m2 (v + (nb + 8)) = ?m1 (v + (nb + 8))"
    using af(5) [of b 24] af(5) [OF bin, of 16] by (simp add: set_fd_def set_bk_def)
  then have "m' (v + (nb + 8)) = m (v + (nb + 8)) OR PREV_INUSE"
    using nn by (auto simp: m' set_non_main_arena_def set_head_def set_inuse_bit_at_offset_def
        chunksize_nomask_def add.assoc)
  then show "prev_inuse m' (v + nb)"
    using prev_inuse_bit [of m' "v + nb" "m (v + (nb + 8))" 0] by (simp add: add.assoc)
  have v8: "?m2 (v + 8) = m (v + 8)"
    using af(1) [of b 24] af(1) [OF bin, of 16] nn
    by (simp add: set_fd_def set_bk_def set_inuse_bit_at_offset_def set_head_def)
  have "(x OR 4) AND NOT 7 = x AND NOT 7" for x :: u64
    by (simp add: bit.conj_disj_distrib2)
  then show "chunksize m' v = chunksize m v"
    using v8 by (simp add: m' chunksize_def chunksize_nomask_def set_non_main_arena_def set_head_def)
qed

lemma int_malloc_smallbin_takes:
  assumes "bin_list (mem s) b (xs @ [v])" "b = bin_at av (smallbin_index nb)"
    and "\<And>x. x \<in> set (b # xs) \<Longrightarrow> apart x v nb" "MINSIZE \<le> nb" "unat v + unat nb + 16 < 2 ^ 64"
    and "tcache s = NULL" "perturb_byte s = 0"
  shows "int_malloc_smallbin sy av nb bytes s
    = Inr (Some (chunk2mem v), s\<lparr>mem := take_last (mem s) b v nb (main_bit sy av)\<rparr>)"
proof -
  have "get_bk (mem s) b = v" "get_fd (mem s) v = b" "v \<noteq> b"
    using bin_list_last [OF assms(1)] assms(1) by (auto simp: bin_list_def)
  then show ?thesis
    using assms(2,6,7) take_last_facts(4) [OF assms(1,3-5)]
    by (simp add: int_malloc_smallbin_def take_last_def Let_def upd_mem_def mark_non_main_def main_bit_def)
qed

section \<open>Properties\<close>

text \<open>
  \<open>p\<close>, of \<open>sz\<close> bytes, may be freed without coalescing: the checks pass, both neighbours are in
  use, and its bin is a well-formed list \<open>xs\<close> apart from it.
\<close>

definition freeable :: "'k st \<Rightarrow> ptr \<Rightarrow> ptr \<Rightarrow> u64 \<Rightarrow> ptr list \<Rightarrow> bool" where
  "freeable s av p sz xs \<longleftrightarrow>
     free_checks s av p sz \<and> prev_inuse (mem s) p \<and> perturb_byte s = 0 \<and>
     p + sz \<noteq> get_top (mem s) av \<and>
     inuse_bit_at_offset (mem s) (p + sz) (chunksize (mem s) (p + sz)) \<and>
     bin_list (mem s) (free_bin av sz) xs \<and> (\<forall>x \<in> set (free_bin av sz # xs). apart x p sz) \<and>
     aligned p \<and> sz AND MALLOC_ALIGN_MASK = 0 \<and> MINSIZE \<le> sz \<and>
     sz < FASTBIN_CONSOLIDATION_THRESHOLD \<and> unat p + unat sz + 16 < 2 ^ 64"

lemma freeableD:
  assumes "freeable s av p sz xs"
  shows "free_checks s av p sz" "prev_inuse (mem s) p" "perturb_byte s = 0"
    "bin_list (mem s) (free_bin av sz) xs"
    "\<And>x. x \<in> set (free_bin av sz # xs) \<Longrightarrow> apart x p sz" "MINSIZE \<le> sz"
    "unat p + unat sz + 16 < 2 ^ 64" "p + sz \<noteq> get_top (mem s) av"
    "inuse_bit_at_offset (mem s) (p + sz) (chunksize (mem s) (p + sz))"
    "\<not> FASTBIN_CONSOLIDATION_THRESHOLD \<le> sz" "aligned p" "sz AND MALLOC_ALIGN_MASK = 0"
  using assms unfolding freeable_def not_le by blast+

lemma freeable_merge:
  assumes "freeable s av p sz xs"
  shows "int_free_merge_chunk sy av p sz s
    = Inr ((if in_smallbin_range sz then mark_bin av (smallbin_index sz) s else s)
        \<lparr>mem := bin_free_chunk (mem s) p sz (free_bin av sz) (get_fd (mem s) (free_bin av sz))\<rparr>)"
  by (simp only: merge_checked [OF freeableD(1-3) [OF assms]] create_binned [OF freeableD(4-9) [OF assms]]
      bindE_simps case_prod_conv int_free_maybe_consolidate_def freeableD(10) [OF assms] if_False)

lemma freeable_binned:
  assumes "freeable s av p sz xs"
  defines "m' \<equiv> bin_free_chunk (mem s) p sz (free_bin av sz) (get_fd (mem s) (free_bin av sz))"
  shows "bin_list m' (free_bin av sz) (p # xs)" "chunksize m' p = sz" "prev_inuse m' p"
    "prev_size m' (p + sz) = sz" "\<not> prev_inuse m' (p + sz)"
    "chunksize m' (p + sz) = chunksize (mem s) (p + sz)"
  unfolding m'_def
  by (rule bin_free_chunk_facts [OF freeableD(4,5,11,12,6,7) [OF assms(1)]]; assumption)+

text \<open>
  \<open>_int_free_merge_chunk\<close> puts a chunk whose neighbours are in use at the front of its bin: the
  small bin of its size, or the unsorted list for a large one. The bin stays a well-formed
  circular list with the other chunks in their order, the chunk has its size in header and
  footer and is marked unused in the header of the next chunk, whose size stays, and the bit of
  the small bin is set in the bin map.
\<close>
theorem free_puts_chunk_in_bin:
  assumes "freeable s av p sz xs"
  shows "\<exists>s'. int_free_merge_chunk sy av p sz s = Inr s' \<and>
    bin_list (mem s') (free_bin av sz) (p # xs) \<and> chunksize (mem s') p = sz \<and> prev_inuse (mem s') p \<and>
    prev_size (mem s') (p + sz) = sz \<and> \<not> prev_inuse (mem s') (p + sz) \<and>
    chunksize (mem s') (p + sz) = chunksize (mem s) (p + sz) \<and>
    (in_smallbin_range sz \<longrightarrow> get_binmap s' av (smallbin_index sz) \<noteq> 0)"
proof -
  have "get_binmap (mark_bin av i s\<lparr>mem := m\<rparr>) av i \<noteq> 0" for i m
    using mark_bin_get [of av i s] by (simp add: get_binmap_def)
  then show ?thesis
    using freeable_merge [OF assms] freeable_binned [OF assms] by auto
qed

text \<open>
  An arena at 65536 with the chunks 131072 (160 bytes) and 131232 (32 bytes) in use, top at
  131264, an empty small bin for 160 bytes (its header is 65776) and no cache.
\<close>

definition example_used :: "unit st" where
  "example_used = (static_state ())\<lparr>mem := (\<lambda>_. 0)(65632 := 131264, 131080 := 161, 131240 := 33,
       131272 := 4097, 65792 := 65776, 65800 := 65776),
     system_mem := (\<lambda>_. 0)(65536 := 8192)\<rparr>"

lemma example_used_freeable: "freeable example_used 65536 131072 160 []"
  by (simp add: freeable_def free_checks_def example_used_def static_state_def get_top_def
      prev_inuse_def chunksize_def chunksize_nomask_def inuse_bit_at_offset_def bin_list_empty_iff
      free_bin_def in_smallbin_range_def bin_at_def smallbin_index_def apart_def aligned_def field_defs)

lemma free_puts_chunk_in_bin_witness:
  "\<exists>s'. int_free_merge_chunk bare_sys 65536 131072 160 example_used = Inr s' \<and>
     bin_list (mem s') (free_bin 65536 160) [131072] \<and> \<not> prev_inuse (mem s') 131232"
  using free_puts_chunk_in_bin [OF example_used_freeable, of bare_sys] by auto

text \<open>
  C19: a double free of a binned chunk aborts: after a successful free, freeing the same chunk
  again stops with one of the corruption messages before anything is changed.
\<close>
theorem double_free_of_binned_chunk_aborts:
  assumes "freeable s av p sz xs"
  shows "\<exists>s' msg. int_free_merge_chunk sy av p sz s = Inr s' \<and>
    int_free_merge_chunk sy av p sz s' = Inl (Printerr msg)"
proof -
  obtain s' where "int_free_merge_chunk sy av p sz s = Inr s'" "\<not> prev_inuse (mem s') (p + sz)"
    using freeable_merge [OF assms] freeable_binned(5) [OF assms] by auto
  then show ?thesis using merge_not_in_use by blast
qed

lemma double_free_of_binned_chunk_aborts_witness:
  "\<exists>s' msg. int_free_merge_chunk bare_sys 65536 131072 160 example_used = Inr s' \<and>
    int_free_merge_chunk bare_sys 65536 131072 160 s' = Inl (Printerr msg)"
  using double_free_of_binned_chunk_aborts [OF example_used_freeable, of bare_sys] by blast

text \<open>
  C22: a small bin is a queue. With no cache, \<open>_int_malloc\<close> takes the chunk at the back, the one
  that was freed first, and leaves the others in their order; the chunk taken keeps its size and
  is marked in use. On an empty bin it goes on without a change.
\<close>
theorem small_bin_is_fifo:
  assumes "bin_list (mem s) (bin_at av (smallbin_index nb)) xs" "tcache s = NULL" "perturb_byte s = 0"
    and "\<And>x. x \<in> set (bin_at av (smallbin_index nb) # butlast xs) \<Longrightarrow> apart x (last xs) nb"
    and "MINSIZE \<le> nb" "unat (last xs) + unat nb + 16 < 2 ^ 64"
  shows "if xs = [] then int_malloc_smallbin sy av nb bytes s = Inr (None, s)
    else \<exists>s'. int_malloc_smallbin sy av nb bytes s = Inr (Some (chunk2mem (last xs)), s') \<and>
      bin_list (mem s') (bin_at av (smallbin_index nb)) (butlast xs) \<and>
      prev_inuse (mem s') (last xs + nb) \<and> chunksize (mem s') (last xs) = chunksize (mem s) (last xs)"
proof (cases xs rule: rev_cases)
  case Nil
  then show ?thesis using bin_list_is_empty [OF assms(1)] by (simp add: int_malloc_smallbin_def Let_def)
next
  case (snoc ys v)
  then show ?thesis
    using assms take_last_facts(1-3) [where m = "mem s" and xs = ys and v = v and nb = nb and bits = "main_bit sy av"]
      int_malloc_smallbin_takes [of s _ ys v av nb sy bytes] by simp
qed

text \<open>
  \<open>malloc\<close> reuses what \<open>free\<close> released: a small chunk freed to its empty bin is what the next
  request of the same size gets from the bin, which is empty again, and the chunk is in use with
  its old size.
\<close>
theorem freed_chunk_is_reused:
  assumes "freeable s av p sz []" "in_smallbin_range sz" "tcache s = NULL"
  shows "\<exists>s1 s2. int_free_merge_chunk sy av p sz s = Inr s1 \<and>
    int_malloc_smallbin sy av sz bytes s1 = Inr (Some (chunk2mem p), s2) \<and>
    bin_list (mem s2) (free_bin av sz) [] \<and> prev_inuse (mem s2) (p + sz) \<and> chunksize (mem s2) p = sz"
proof -
  let ?s1 = "(mark_bin av (smallbin_index sz) s)
    \<lparr>mem := bin_free_chunk (mem s) p sz (free_bin av sz) (get_fd (mem s) (free_bin av sz))\<rparr>"
  have b: "bin_at av (smallbin_index sz) = free_bin av sz" using assms(2) by (simp add: free_bin_def)
  have f: "bin_list (mem ?s1) (free_bin av sz) ([] @ [p])" "chunksize (mem ?s1) p = sz"
    using freeable_binned(1,2) [OF assms(1)] by auto
  have a: "\<And>x. x \<in> set [free_bin av sz] \<Longrightarrow> apart x p sz" "MINSIZE \<le> sz"
    "unat p + unat sz + 16 < 2 ^ 64" "perturb_byte s = 0"
    using freeableD(5,6,7,3) [OF assms(1)] by auto
  show ?thesis
    using freeable_merge [OF assms(1), of sy] assms(2,3) f(2) a(4)
      int_malloc_smallbin_takes [OF f(1) b [symmetric] a(1-3), of sy bytes]
      take_last_facts(1-3) [OF f(1) a(1-3), where bits = "main_bit sy av"]
    by (simp add: mark_bin_def)
qed

lemma freed_chunk_is_reused_witness:
  "\<exists>s1 s2. int_free_merge_chunk bare_sys 65536 131072 160 example_used = Inr s1 \<and>
     int_malloc_smallbin bare_sys 65536 160 150 s1 = Inr (Some 131088, s2)"
proof -
  have "tcache example_used = NULL" by (simp add: example_used_def static_state_def)
  then show ?thesis
    using freed_chunk_is_reused [OF example_used_freeable, of bare_sys 150]
    by (auto simp: in_smallbin_range_def chunk2mem_def)
qed

text \<open>The bin of the same arena with the chunks 131072 and 131392 of 160 bytes.\<close>

definition example_queue :: "unit st" where
  "example_queue = (static_state ())\<lparr>mem := (\<lambda>_. 0)(65792 := 131072, 65800 := 131392,
     131088 := 131392, 131096 := 65776, 131408 := 65776, 131416 := 131072)\<rparr>"

lemma small_bin_is_fifo_witness:
  "\<exists>s'. int_malloc_smallbin bare_sys 65536 160 150 example_queue = Inr (Some 131408, s') \<and>
     bin_list (mem s') (bin_at 65536 10) [131072]"
proof -
  have i: "smallbin_index 160 = 10" "bin_at 65536 10 = 65776"
    by (simp_all add: smallbin_index_def bin_at_def)
  have "bin_list (mem example_queue) 65776 [131072, 131392]"
    by (simp add: bin_list_def example_queue_def field_defs aligned_def)
  moreover have "tcache example_queue = NULL" "perturb_byte example_queue = 0"
    by (simp_all add: example_queue_def static_state_def)
  moreover have "apart x 131392 160" if "x \<in> set (65776 # butlast [131072, 131392])" for x :: ptr
    using that by (auto simp: apart_def)
  ultimately show ?thesis
    using small_bin_is_fifo [of example_queue 65536 160 "[131072, 131392]" bare_sys 150]
    by (auto simp: i chunk2mem_def)
qed

end
