(* ===== verification/Lifo.thy ===== *)
theory Lifo
  imports Prelude
begin

text \<open>
  The interface of a stack that a component keeps in memory: \<open>holds s xs\<close> says that the state
  holds exactly the elements \<open>xs\<close>, top first; \<open>may x s xs\<close> is what the caller of \<open>push\<close> must
  ensure. The bins of the thread's cache and the fast bins provide it.
\<close>

locale lifo =
  fixes holds :: "'s \<Rightarrow> 'a list \<Rightarrow> bool"
    and may :: "'a \<Rightarrow> 's \<Rightarrow> 'a list \<Rightarrow> bool"
    and push :: "'a \<Rightarrow> 's \<Rightarrow> 's"
    and pop :: "'s \<Rightarrow> ('a \<times> 's) option"
  assumes push_holds: "holds s xs \<Longrightarrow> may x s xs \<Longrightarrow> holds (push x s) (x # xs)"
    and pop_nonempty: "holds s (x # xs) \<Longrightarrow> \<exists>s'. pop s = Some (x, s') \<and> holds s' xs"
    and pop_empty: "holds s [] \<Longrightarrow> pop s = None"
begin

text \<open>\<open>n\<close> pops in a row, with the elements popped in order.\<close>

fun pops :: "nat \<Rightarrow> 's \<Rightarrow> 'a list \<times> 's" where
  "pops 0 s = ([], s)"
| "pops (Suc n) s =
     (case pop s of None \<Rightarrow> ([], s) | Some (x, s') \<Rightarrow> (case pops n s' of (xs, t) \<Rightarrow> (x # xs, t)))"

lemma pop_push: "holds s xs \<Longrightarrow> may x s xs \<Longrightarrow> \<exists>s'. pop (push x s) = Some (x, s') \<and> holds s' xs"
  by (rule pop_nonempty) (rule push_holds)

lemma pops_prefix: "holds s (xs @ ys) \<Longrightarrow> \<exists>s'. pops (length xs) s = (xs, s') \<and> holds s' ys"
proof (induction xs arbitrary: s)
  case (Cons x xs)
  obtain s1 where "pop s = Some (x, s1)" "holds s1 (xs @ ys)"
    using pop_nonempty [of s x "xs @ ys"] Cons.prems by auto
  then show ?case using Cons.IH [of s1] by auto
qed simp

lemma pops_all: "holds s xs \<Longrightarrow> \<exists>s'. pops (length xs) s = (xs, s') \<and> holds s' [] \<and> pop s' = None"
  using pops_prefix [of s xs "[]"] pop_empty by auto

end

text \<open>A stack with a counter of the room that is left: every push takes one slot.\<close>

locale counted_lifo = lifo holds may push pop
  for holds :: "'s \<Rightarrow> 'a list \<Rightarrow> bool" and may push pop +
  fixes room :: "'s \<Rightarrow> nat"
  assumes room_push: "holds s xs \<Longrightarrow> may x s xs \<Longrightarrow> Suc (room (push x s)) = room s"
    and room_pop: "holds s (x # xs) \<Longrightarrow> pop s = Some (x, s') \<Longrightarrow> room s' = Suc (room s)"
begin

lemma room_pops: "holds s xs \<Longrightarrow> room (snd (pops (length xs) s)) = room s + length xs"
proof (induction xs arbitrary: s)
  case (Cons x xs)
  obtain s1 where s1: "pop s = Some (x, s1)" "holds s1 xs"
    using pop_nonempty [OF Cons.prems] by auto
  then show ?case
    using Cons.IH [OF s1(2)] room_pop [OF Cons.prems s1(1)] by (auto split: prod.splits)
qed simp

end

end
