(* ===== verification/TcacheProps.thy ===== *)
theory TcacheProps
  imports Tcache Lifo SizeClasses
begin

text \<open>
  The bins of the thread's cache are stacks: what \<open>tcache_put\<close>, \<open>tcache_get\<close> and the sorted
  large bins compute on the list of chunks a bin holds, and what the masking of the links (safe
  linking) detects.
\<close>

section \<open>Safe linking\<close>

lemma reveal_protect [simp]: "REVEAL_PTR pos (PROTECT_PTR pos p) = p"
  by (simp add: REVEAL_PTR_def PROTECT_PTR_def xor.assoc [symmetric])

lemma protect_reveal [simp]: "PROTECT_PTR pos (REVEAL_PTR pos p) = p"
  by (simp add: REVEAL_PTR_def PROTECT_PTR_def xor.assoc [symmetric])

lemma misaligned_mem_iff: "misaligned_mem p \<longleftrightarrow> \<not> aligned p"
  by (simp add: misaligned_mem_def aligned_def)

lemma reveal_unmasked:
  assumes "aligned v" "drop_bit 12 pos AND 15 \<noteq> 0"
  shows "misaligned_mem (REVEAL_PTR pos v)"
proof -
  have "(drop_bit 12 pos XOR v) AND 15 = (drop_bit 12 pos AND 15) XOR (v AND 15)"
    by (rule bit_word_eqI) (auto simp: bit_simps)
  then show ?thesis
    using assms by (simp add: misaligned_mem_def REVEAL_PTR_def PROTECT_PTR_def aligned_def)
qed

section \<open>The chunks a bin holds\<close>

text \<open>\<open>entries m p es\<close>: from the unmasked pointer \<open>p\<close>, the masked links lead through \<open>es\<close>.\<close>

fun entries :: "memory \<Rightarrow> ptr \<Rightarrow> ptr list \<Rightarrow> bool" where
  "entries m p [] \<longleftrightarrow> p = NULL"
| "entries m p (e # es) \<longleftrightarrow> p = e \<and> e \<noteq> NULL \<and> aligned e \<and> entries m (REVEAL_PTR e (m e)) es"

lemma entries_cong:
  "(\<And>e. e \<in> set es \<Longrightarrow> m' e = m e) \<Longrightarrow> entries m' p es \<longleftrightarrow> entries m p es"
  by (induction es arbitrary: p) auto

lemma entries_aligned: "entries m p es \<Longrightarrow> e \<in> set es \<Longrightarrow> aligned e"
  by (induction es arbitrary: p) auto

lemma entries_nil: "entries m NULL es \<longleftrightarrow> es = []"
  by (cases es) auto

text \<open>
  Bin \<open>i\<close> of the cache holds \<open>es\<close>, with room for \<open>num_slots\<close> more, in \<open>cap\<close> slots. The words of
  the cached chunks that the cache uses (\<open>next\<close> and \<open>key\<close>) do not overlap the entry of the bin.
\<close>

definition tcache_bin :: "u64 \<Rightarrow> nat \<Rightarrow> 'k st \<Rightarrow> ptr list \<Rightarrow> bool" where
  "tcache_bin i cap s es \<longleftrightarrow>
     entries (mem s) (mem s (tcache_entry_addr s i)) es \<and> distinct es \<and>
     (\<forall>e \<in> set es. tcache_entry_addr s i \<noteq> e \<and> tcache_entry_addr s i \<noteq> e + 8) \<and>
     unat (num_slots s i) + length es = cap \<and> cap < 2 ^ 16"

definition tcache_may_put :: "u64 \<Rightarrow> ptr \<Rightarrow> 'k st \<Rightarrow> ptr list \<Rightarrow> bool" where
  "tcache_may_put i e s es \<longleftrightarrow>
     e \<noteq> NULL \<and> aligned e \<and> e \<notin> set es \<and> num_slots s i \<noteq> 0 \<and>
     tcache_entry_addr s i \<noteq> e \<and> tcache_entry_addr s i \<noteq> e + 8"

text \<open>The use of the cache by \<open>malloc\<close>: only a bin that is not empty is asked.\<close>

definition tcache_take :: "u64 \<Rightarrow> 'k st \<Rightarrow> (ptr \<times> 'k st) option" where
  "tcache_take i s =
     (if mem s (tcache_entry_addr s i) = NULL then None
      else case tcache_get i s of Inl _ \<Rightarrow> None | Inr r \<Rightarrow> Some r)"

lemma chunk2mem_mem2chunk [simp]: "chunk2mem (mem2chunk e) = e" "mem2chunk (chunk2mem p) = p"
  by (simp_all add: chunk2mem_def mem2chunk_def)

lemma tcache_put_mem:
  "mem (tcache_put (mem2chunk e) i s) =
     (let ep = tcache_entry_addr s i; m = (mem s)(e + 8 := tcache_key s)
      in m(e := PROTECT_PTR e (m ep), ep := e))"
  by (simp add: tcache_put_def tcache_put_n_def upd_mem_def Let_def)

lemma tcache_put_other:
  "tcache_entry_addr (tcache_put p i s) j = tcache_entry_addr s j"
  "num_slots (tcache_put p i s) = (num_slots s)(i := num_slots s i - 1)"
  by (simp_all add: tcache_put_def tcache_put_n_def upd_mem_def Let_def tcache_entry_addr_def)

lemma self_offset [simp]: "(p :: ptr) + 8 \<noteq> p" "p \<noteq> p + 8"
  by simp_all

lemma tcache_put_holds:
  assumes "tcache_bin i cap s es" "tcache_may_put i e s es"
  shows "tcache_bin i cap (tcache_put (mem2chunk e) i s) (e # es)"
proof -
  let ?ep = "tcache_entry_addr s i"
  let ?m = "mem (tcache_put (mem2chunk e) i s)"
  note a = assms [unfolded tcache_bin_def tcache_may_put_def]
  have "unat (num_slots s i - 1) + Suc (length es) = cap"
    using a unat_gt_0 [of "num_slots s i"] by (simp add: unat_minus_one)
  moreover have "?m ?ep = e" by (simp add: tcache_put_mem Let_def)
  moreover have "REVEAL_PTR e (?m e) = mem s ?ep"
    using a by (auto simp: tcache_put_mem Let_def)
  moreover have "entries ?m (mem s ?ep) es \<longleftrightarrow> entries (mem s) (mem s ?ep) es"
  proof (rule entries_cong)
    fix x assume x: "x \<in> set es"
    then have "aligned x" using a entries_aligned by blast
    then show "?m x = mem s x"
      using a x aligned_field_neq(10) [of e x] by (auto simp: tcache_put_mem Let_def)
  qed
  ultimately show ?thesis
    using a by (auto simp: tcache_bin_def tcache_put_other)
qed

lemma tcache_take_holds:
  assumes "tcache_bin i cap s (e # es)"
  shows "\<exists>s'. tcache_take i s = Some (e, s') \<and> tcache_bin i cap s' es \<and>
    num_slots s' = (num_slots s)(i := num_slots s i + 1)"
proof -
  let ?ep = "tcache_entry_addr s i"
  note a = assms [unfolded tcache_bin_def, simplified]
  let ?m = "(mem s)(?ep := REVEAL_PTR e (mem s e), e + 8 := 0)"
  let ?s = "s\<lparr>mem := ?m, num_slots := (num_slots s)(i := num_slots s i + 1)\<rparr>"
  have t: "tcache_take i s = Some (e, ?s)"
    using a by (simp add: tcache_take_def tcache_get_def tcache_get_n_def upd_mem_def Let_def
        misaligned_mem_iff)
  have "unat (num_slots s i + 1) = Suc (unat (num_slots s i))"
    using a by (simp add: unat_word_ariths)
  moreover have "entries ?m (REVEAL_PTR e (mem s e)) es"
  proof (subst entries_cong)
    fix x assume x: "x \<in> set es"
    then have "aligned x" using a entries_aligned by blast
    then show "?m x = mem s x"
      using a x aligned_field_neq(9) [of x e] by auto
  qed (use a in simp)
  ultimately have "tcache_bin i cap ?s es"
    using a by (auto simp: tcache_bin_def tcache_entry_addr_def)
  with t show ?thesis by auto
qed

interpretation tc: counted_lifo "tcache_bin i cap" "tcache_may_put i"
    "\<lambda>e. tcache_put (mem2chunk e) i" "tcache_take i" "\<lambda>s. unat (num_slots s i)"
  for i cap
proof
  fix s :: "'k st" and xs x
  assume h: "tcache_bin i cap s xs"
  show "tcache_bin i cap (tcache_put (mem2chunk x) i s) (x # xs)" if "tcache_may_put i x s xs"
    using h that by (rule tcache_put_holds)
  show "Suc (unat (num_slots (tcache_put (mem2chunk x) i s) i)) = unat (num_slots s i)"
    if "tcache_may_put i x s xs"
    using that by (simp add: tcache_put_other tcache_may_put_def unat_minus_one unat_gt_0)
next
  fix s :: "'k st" and xs x
  assume h: "tcache_bin i cap s (x # xs)"
  show "\<exists>s'. tcache_take i s = Some (x, s') \<and> tcache_bin i cap s' xs"
    using tcache_take_holds [OF h] by blast
  show "unat (num_slots s' i) = Suc (unat (num_slots s i))" if "tcache_take i s = Some (x, s')" for s'
    using tcache_take_holds [OF h] that h by (auto simp: tcache_bin_def)
next
  fix s :: "'k st"
  assume "tcache_bin i cap s []"
  then show "tcache_take i s = None" by (simp add: tcache_bin_def tcache_take_def)
qed

section \<open>The sorted bins of large sizes\<close>

definition csize :: "memory \<Rightarrow> ptr \<Rightarrow> u64" where
  "csize m e = chunksize m (mem2chunk e)"

lemma location_loop:
  "entries m te es \<Longrightarrow> length es < n \<Longrightarrow>
     tcache_location_loop n m nb tep te mangled
       = (let xs = takeWhile (\<lambda>e. csize m e < nb) es in
          Inr (if xs = [] then (tep, mangled) else (last xs, True)))"
proof (induction es arbitrary: n te tep mangled)
  case Nil
  then show ?case by (cases n) auto
next
  case (Cons e es)
  obtain n' where n: "n = Suc n'" using Cons.prems(2) by (cases n) auto
  show ?case
    using Cons.prems Cons.IH [of "REVEAL_PTR e (m e)" n' e True] unfolding n
    by (auto simp: Let_def csize_def)
qed

text \<open>Insertion of \<open>e\<close> behind, and removal of \<open>e\<close> from behind, the element \<open>l\<close>.\<close>

lemma entries_insert:
  assumes "entries m p (us @ l # ys)" "e \<noteq> NULL" "aligned e"
    and "m' l = PROTECT_PTR l e" "m' e = PROTECT_PTR e (REVEAL_PTR l (m l))"
    and "\<And>x. x \<in> set us \<union> set ys \<Longrightarrow> m' x = m x"
  shows "entries m' p (us @ l # e # ys)"
  using assms
proof (induction us arbitrary: p)
  case Nil
  have "entries m' q ys \<longleftrightarrow> entries m q ys" for q
    using Nil.prems(6) by (intro entries_cong) auto
  then show ?case using Nil.prems by simp
qed auto

lemma entries_delete:
  assumes "entries m p (us @ l # e # ys)"
    and "m' l = PROTECT_PTR l (REVEAL_PTR e (m e))"
    and "\<And>x. x \<in> set us \<union> set ys \<Longrightarrow> m' x = m x"
  shows "entries m' p (us @ l # ys)"
  using assms
proof (induction us arbitrary: p)
  case Nil
  have "entries m' q ys \<longleftrightarrow> entries m q ys" for q
    using Nil.prems(3) by (intro entries_cong) auto
  then show ?case using Nil.prems by simp
qed auto

lemma entries_after:
  "entries m p (us @ l # e # ys) \<Longrightarrow> REVEAL_PTR l (m l) = e \<and> e \<noteq> NULL \<and> aligned e"
  by (induction us arbitrary: p) auto

text \<open>\<open>e\<close> may go to the bin, and its words do not overlap the size fields of the cached chunks.\<close>

definition large_may_put :: "u64 \<Rightarrow> ptr \<Rightarrow> 'k st \<Rightarrow> ptr list \<Rightarrow> bool" where
  "large_may_put i e s es \<longleftrightarrow> tcache_may_put i e s es \<and>
     (\<forall>x \<in> set (e # es). x - 8 \<noteq> e + 8 \<and> x - 8 \<noteq> tcache_entry_addr s i)"

lemma tcache_put_n_behind:
  assumes b: "tcache_bin i cap s (us @ l # ys)" and e: "tcache_may_put i e s (us @ l # ys)"
  shows "tcache_bin i cap (tcache_put_n (mem2chunk e) i l True s) (us @ l # e # ys)"
proof -
  let ?s = "tcache_put_n (mem2chunk e) i l True s"
  have al: "aligned x" if "x \<in> set (us @ l # ys)" for x
    using b that entries_aligned unfolding tcache_bin_def by blast
  have ne: "x \<noteq> e + 8" "e + 8 \<noteq> x" if "x \<in> set (us @ l # ys)" for x
    using aligned_field_neq(9) [of x e] al [OF that] e by (auto simp: tcache_may_put_def)
  have dist: "l \<notin> set us" "l \<notin> set ys" "e \<notin> set us" "e \<notin> set ys" "e \<noteq> l"
    using b e by (auto simp: tcache_bin_def tcache_may_put_def)
  have m: "mem ?s = (mem s)(e + 8 := tcache_key s, e := PROTECT_PTR e (REVEAL_PTR l (mem s l)),
      l := PROTECT_PTR l e)"
    using ne [of l] dist by (simp add: tcache_put_n_def upd_mem_def Let_def)
  have "entries (mem ?s) (mem s (tcache_entry_addr s i)) (us @ l # e # ys)"
    unfolding m by (rule entries_insert [where m = "mem s"])
      (use b e dist ne in \<open>auto simp: tcache_bin_def tcache_may_put_def\<close>)
  moreover have "tcache_entry_addr ?s i = tcache_entry_addr s i"
    "num_slots ?s = (num_slots s)(i := num_slots s i - 1)"
    by (simp_all add: tcache_put_n_def upd_mem_def Let_def tcache_entry_addr_def)
  moreover have "mem ?s (tcache_entry_addr s i) = mem s (tcache_entry_addr s i)"
    using b e unfolding m by (auto simp: tcache_bin_def tcache_may_put_def)
  moreover have "unat (num_slots s i - 1) + Suc (length (us @ l # ys)) = cap"
    using b e unat_gt_0 [of "num_slots s i"]
    by (auto simp: tcache_bin_def tcache_may_put_def unat_minus_one)
  ultimately show ?thesis
    using b e dist by (auto simp: tcache_bin_def tcache_may_put_def)
qed

lemma tcache_put_large_holds:
  assumes b: "tcache_bin i cap s es" and e: "tcache_may_put i e s es"
    and f: "length es < loop_fuel sy" and sz: "sz = csize (mem s) e"
  shows "\<exists>s'. tcache_put_large sy (mem2chunk e) i s = Inr s' \<and>
    tcache_bin i cap s' (takeWhile (\<lambda>x. csize (mem s) x < sz) es @ e #
      dropWhile (\<lambda>x. csize (mem s) x < sz) es)"
proof -
  define xs ys where "xs = takeWhile (\<lambda>x. csize (mem s) x < sz) es"
    and "ys = dropWhile (\<lambda>x. csize (mem s) x < sz) es"
  have es: "es = xs @ ys" by (simp add: xs_def ys_def)
  let ?ep = "tcache_entry_addr s i"
  have "entries (mem s) (mem s ?ep) es" using b by (simp add: tcache_bin_def)
  then have loc: "tcache_location_large sy sz i s
      = Inr (if xs = [] then (?ep, False) else (last xs, True))"
    using location_loop [of "mem s" "mem s ?ep" es "loop_fuel sy" sz ?ep False] f
    by (simp add: tcache_location_large_def Let_def xs_def)
  show ?thesis
  proof (cases xs rule: rev_cases)
    case Nil
    then have "tcache_put_large sy (mem2chunk e) i s = Inr (tcache_put (mem2chunk e) i s)"
      using loc sz by (simp add: tcache_put_large_def csize_def tcache_put_def)
    then show ?thesis
      unfolding xs_def [symmetric] ys_def [symmetric]
      using tcache_put_holds [OF b e] es Nil by simp
  next
    case (snoc us l)
    then have "tcache_put_large sy (mem2chunk e) i s = Inr (tcache_put_n (mem2chunk e) i l True s)"
      using loc sz by (simp add: tcache_put_large_def csize_def)
    then show ?thesis
      unfolding xs_def [symmetric] ys_def [symmetric]
      using tcache_put_n_behind [of i cap s us l ys e] b e es snoc by simp
  qed
qed

lemma csize_eq: "csize m e = m (e - 8) AND NOT SIZE_BITS"
  by (simp add: csize_def chunksize_def chunksize_nomask_def mem2chunk_def)

lemma tcache_put_large_csize:
  assumes "tcache_put_large sy (mem2chunk e) i s = Inr s'" and b: "tcache_bin i cap s es"
    and e: "large_may_put i e s es" and f: "length es < loop_fuel sy" and x: "x \<in> set (e # es)"
  shows "csize (mem s') x = csize (mem s) x"
proof -
  let ?ep = "tcache_entry_addr s i" and ?sz = "csize (mem s) e"
  let ?xs = "takeWhile (\<lambda>x. csize (mem s) x < ?sz) es"
  have "entries (mem s) (mem s ?ep) es" using b by (simp add: tcache_bin_def)
  then have loc: "tcache_location_large sy ?sz i s
      = Inr (if ?xs = [] then (?ep, False) else (last ?xs, True))"
    using location_loop [of "mem s" "mem s ?ep" es "loop_fuel sy" ?sz ?ep False] f
    by (simp add: tcache_location_large_def Let_def)
  have al: "aligned y" if "y \<in> set (e # es)" for y
    using b e that entries_aligned
    by (auto simp: tcache_bin_def large_may_put_def tcache_may_put_def)
  have off: "x - 8 \<noteq> y" if "y \<in> set (e # es)" for y
    using aligned_field_neq(9) [of x y] al [OF x] al [OF that] by (auto simp: algebra_simps)
  have "x - 8 \<noteq> e + 8" "x - 8 \<noteq> ?ep" using e x by (auto simp: large_may_put_def)
  moreover have "x - 8 \<noteq> last ?xs" if "?xs \<noteq> []"
    using off [of "last ?xs"] last_in_set [OF that] set_takeWhileD by fastforce
  ultimately have "mem s' (x - 8) = mem s (x - 8)"
    using assms(1) loc off [of e]
    by (auto simp: tcache_put_large_def csize_def tcache_put_n_def upd_mem_def Let_def
        split: if_splits)
  then show ?thesis by (simp add: csize_eq)
qed

lemma takeWhile_sorted_insert:
  fixes v :: "'b::linorder"
  assumes "sorted (map f xs)" "f y = v"
  shows "sorted (map f (takeWhile (\<lambda>x. f x < v) xs @ y # dropWhile (\<lambda>x. f x < v) xs))"
  using assms
proof (induction xs)
  case (Cons a xs)
  then show ?case
    by (auto simp: sorted_append dest: set_takeWhileD set_dropWhileD)
qed simp

text \<open>Taking the first chunk that is large enough.\<close>

lemma tcache_get_large_holds:
  assumes b: "tcache_bin i cap s es" and f: "length es < loop_fuel sy"
    and big: "dropWhile (\<lambda>x. csize (mem s) x < nb) es = e # ys"
  shows "\<exists>s'. tcache_get_large sy i nb s = Inr (e, s') \<and>
    tcache_bin i cap s' (takeWhile (\<lambda>x. csize (mem s) x < nb) es @ ys)"
proof -
  define xs where "xs = takeWhile (\<lambda>x. csize (mem s) x < nb) es"
  have es: "es = xs @ e # ys" using takeWhile_dropWhile_id [of _ es] big xs_def by metis
  let ?ep = "tcache_entry_addr s i"
  have en: "entries (mem s) (mem s ?ep) es" using b by (simp add: tcache_bin_def)
  then have loc: "tcache_location_large sy nb i s
      = Inr (if xs = [] then (?ep, False) else (last xs, True))"
    using location_loop [of "mem s" "mem s ?ep" es "loop_fuel sy" nb ?ep False] f
    by (simp add: tcache_location_large_def Let_def xs_def)
  show ?thesis
  proof (cases xs rule: rev_cases)
    case Nil
    obtain s' where "tcache_take i s = Some (e, s')" "tcache_bin i cap s' ys"
      using tcache_take_holds [of i cap s e ys] b es Nil by auto
    then show ?thesis
      unfolding xs_def [symmetric] using Nil loc
      by (auto simp: tcache_take_def tcache_get_def tcache_get_large_def split: if_splits sum.splits)
  next
    case (snoc us l)
    have e: "REVEAL_PTR l (mem s l) = e" "e \<noteq> NULL" "aligned e"
      using en es snoc entries_after [of "mem s" "mem s ?ep" us l e ys] by auto
    let ?m = "(mem s)(l := PROTECT_PTR l (REVEAL_PTR e (mem s e)), e + 8 := 0)"
    let ?s = "s\<lparr>mem := ?m, num_slots := (num_slots s)(i := num_slots s i + 1)\<rparr>"
    have al: "aligned x" if "x \<in> set es" for x using en entries_aligned that by blast
    have ne: "x \<noteq> e + 8" "e + 8 \<noteq> x" if "x \<in> set es" for x
      using aligned_field_neq(9) [of x e] al [OF that] e by auto
    have dist: "distinct es" using b by (simp add: tcache_bin_def)
    have "tcache_get_large sy i nb s = Inr (e, ?s)"
      using loc snoc e dist es
      by (auto simp: tcache_get_large_def tcache_get_n_def upd_mem_def Let_def misaligned_mem_iff)
    moreover have "entries ?m (mem s ?ep) (us @ l # ys)"
      by (rule entries_delete [where m = "mem s" and e = e])
        (use en es snoc dist ne in auto)
    moreover have "unat (num_slots s i + 1) = Suc (unat (num_slots s i))"
      using b es by (simp add: tcache_bin_def unat_word_ariths)
    ultimately show ?thesis
      unfolding xs_def [symmetric] using b es snoc by (auto simp: tcache_bin_def tcache_entry_addr_def)
  qed
qed

lemma entries_last: "entries m p es \<Longrightarrow> es \<noteq> [] \<Longrightarrow> REVEAL_PTR (last es) (m (last es)) = NULL"
proof (induction es arbitrary: p)
  case (Cons e es)
  then show ?case by (cases es) auto
qed simp

section \<open>Properties\<close>

text \<open>
  A bin of the thread's cache is a stack. \<open>tcache_put\<close> followed by \<open>tcache_get\<close> gives back
  the same chunk and the bin as it was, and as many gets as the bin has chunks give them all
  back, the one put last first, and return every slot to the counter of the bin.
\<close>
theorem tcache_is_lifo:
  assumes "tcache_bin i cap s es" "tcache_may_put i e s es"
  shows "(\<exists>s'. tcache_get i (tcache_put (mem2chunk e) i s) = Inr (e, s') \<and> tcache_bin i cap s' es) \<and>
    (\<exists>s'. lifo.pops (tcache_take i) (length es) s = (es, s') \<and> tcache_bin i cap s' [] \<and>
       unat (num_slots s' i) = unat (num_slots s i) + length es)"
proof -
  obtain s1 where s1: "tcache_take i (tcache_put (mem2chunk e) i s) = Some (e, s1)"
      "tcache_bin i cap s1 es"
    using tc.pop_push [OF assms] by blast
  then have "tcache_get i (tcache_put (mem2chunk e) i s) = Inr (e, s1)"
    by (auto simp: tcache_take_def split: if_splits sum.splits)
  moreover obtain s2 where "tc.pops i (length es) s = (es, s2)" "tcache_bin i cap s2 []"
    using tc.pops_all [OF assms(1)] by blast
  ultimately show ?thesis using s1(2) tc.room_pops [OF assms(1)] by auto
qed

text \<open>A cache at 4096 whose first bin holds the chunk with user address 131088.\<close>

definition example_cache :: "unit st" where
  "example_cache = (static_state ())\<lparr>mem := (\<lambda>_. 0)(4248 := 131088, 131088 := PROTECT_PTR 131088 0, 131080 := 1505),
     tcache := 4096, num_slots := (\<lambda>_. 6), tcache_key := 0xfeedfacedeadbeef\<rparr>"

lemma example_cache_bin: "tcache_bin 0 7 example_cache [131088]"
  by (simp add: tcache_bin_def example_cache_def static_state_def tcache_entry_addr_def aligned_def)

lemma tcache_is_lifo_witness:
  "(\<exists>s'. tcache_get 0 (tcache_put (mem2chunk 262160) 0 example_cache) = Inr (262160, s') \<and>
      tcache_bin 0 7 s' [131088]) \<and>
   (\<exists>s'. lifo.pops (tcache_take 0) 1 example_cache = ([131088], s') \<and> tcache_bin 0 7 s' [] \<and>
      unat (num_slots s' 0) = 7)"
proof -
  have "tcache_may_put 0 262160 example_cache [131088]"
    by (simp add: tcache_may_put_def example_cache_def static_state_def tcache_entry_addr_def aligned_def)
  from tcache_is_lifo [OF example_cache_bin this] show ?thesis
    by (simp add: example_cache_def del: lifo.pops.simps)
qed

text \<open>
  C26: the cache's bins of large chunks stay sorted by size: \<open>tcache_put_large\<close> puts the chunk in
  front of the first one that is not smaller, keeps all others in their order, and leaves the
  sizes alone, whatever the number of chunks (up to the bound on the walk).
\<close>
theorem tcache_large_bin_stays_sorted:
  assumes "tcache_bin i cap s es" "large_may_put i e s es" "length es < loop_fuel sy"
    and "sorted (map (csize (mem s)) es)"
  shows "\<exists>s' xs ys. tcache_put_large sy (mem2chunk e) i s = Inr s' \<and> es = xs @ ys \<and>
    tcache_bin i cap s' (xs @ e # ys) \<and> sorted (map (csize (mem s')) (xs @ e # ys)) \<and>
    (\<forall>x \<in> set (e # es). csize (mem s') x = csize (mem s) x)"
proof -
  let ?lt = "\<lambda>x. csize (mem s) x < csize (mem s) e"
  let ?xs = "takeWhile ?lt es" and ?ys = "dropWhile ?lt es"
  obtain s' where s': "tcache_put_large sy (mem2chunk e) i s = Inr s'"
      "tcache_bin i cap s' (?xs @ e # ?ys)"
    using tcache_put_large_holds [OF assms(1) _ assms(3) refl] assms(2)
    by (auto simp: large_may_put_def)
  have same: "\<forall>x \<in> set (e # es). csize (mem s') x = csize (mem s) x"
    using tcache_put_large_csize [OF s'(1) assms(1-3)] by blast
  have "sorted (map (csize (mem s)) (?xs @ e # ?ys))"
    by (rule takeWhile_sorted_insert [OF assms(4) refl])
  moreover have "map (csize (mem s')) (?xs @ e # ?ys) = map (csize (mem s)) (?xs @ e # ?ys)"
    using same by (auto dest: set_takeWhileD set_dropWhileD)
  ultimately have "sorted (map (csize (mem s')) (?xs @ e # ?ys))" by (simp only:)
  then show ?thesis using s' same takeWhile_dropWhile_id [of ?lt es] by metis
qed

lemma tcache_large_bin_stays_sorted_witness:
  "\<exists>s' xs ys. tcache_put_large bare_sys (mem2chunk 262160) 0 example_cache = Inr s' \<and>
     [131088] = xs @ ys \<and> tcache_bin 0 7 s' (xs @ 262160 # ys) \<and>
     sorted (map (csize (mem s')) (xs @ 262160 # ys))"
proof -
  have "large_may_put 0 262160 example_cache [131088]"
    by (simp add: large_may_put_def tcache_may_put_def example_cache_def static_state_def
        tcache_entry_addr_def aligned_def)
  then show ?thesis
    using tcache_large_bin_stays_sorted [OF example_cache_bin, of 262160 bare_sys]
    by (auto simp: bare_sys_def)
qed

text \<open>
  C25: \<open>tcache_get_large\<close> on a sorted bin is best fit: when no cached chunk is large enough it
  returns null and changes nothing; otherwise it returns a chunk that is large enough, none that
  is large enough is smaller, and the bin holds the other chunks in their order.
\<close>
theorem tcache_get_large_best_fit:
  assumes "tcache_bin i cap s es" "length es < loop_fuel sy" "sorted (map (csize (mem s)) es)"
  shows "if \<forall>x \<in> set es. csize (mem s) x < nb then tcache_get_large sy i nb s = Inr (NULL, s)
    else \<exists>e s'. tcache_get_large sy i nb s = Inr (e, s') \<and> e \<in> set es \<and> nb \<le> csize (mem s) e \<and>
      (\<forall>x \<in> set es. nb \<le> csize (mem s) x \<longrightarrow> csize (mem s) e \<le> csize (mem s) x) \<and>
      tcache_bin i cap s' (remove1 e es)"
proof (cases "dropWhile (\<lambda>x. csize (mem s) x < nb) es")
  case Nil
  then have all: "\<forall>x \<in> set es. csize (mem s) x < nb" by simp
  then have t: "takeWhile (\<lambda>x. csize (mem s) x < nb) es = es" by simp
  let ?ep = "tcache_entry_addr s i"
  have en: "entries (mem s) (mem s ?ep) es" using assms(1) by (simp add: tcache_bin_def)
  have "es \<noteq> [] \<Longrightarrow> REVEAL_PTR (last es) (mem s (last es)) = NULL"
    using en entries_last by blast
  then show ?thesis
    using location_loop [OF en assms(2), of nb ?ep False] all t en
    by (auto simp: tcache_get_large_def tcache_location_large_def Let_def)
next
  case (Cons e ys)
  let ?xs = "takeWhile (\<lambda>x. csize (mem s) x < nb) es"
  have es: "es = ?xs @ e # ys" using takeWhile_dropWhile_id [of _ es] Cons by metis
  have e: "nb \<le> csize (mem s) e" using Cons by (metis dropWhile_eq_Cons_conv not_less)
  have "e \<notin> set ?xs" using e set_takeWhileD by fastforce
  then have r: "remove1 e es = ?xs @ ys" by (subst es) (simp add: remove1_append)
  have least: "csize (mem s) e \<le> csize (mem s) x" if "x \<in> set es" "nb \<le> csize (mem s) x" for x
  proof -
    have "x \<notin> set ?xs" using that(2) set_takeWhileD by fastforce
    then have "x \<in> set (e # ys)" using that(1) es by (metis Un_iff set_append)
    moreover have "sorted (map (csize (mem s)) (e # ys))"
      using assms(3) es by (metis map_append sorted_append)
    ultimately show ?thesis by auto
  qed
  have "e \<in> set es" by (subst es) simp
  moreover obtain s' where "tcache_get_large sy i nb s = Inr (e, s')" "tcache_bin i cap s' (?xs @ ys)"
    using tcache_get_large_holds [OF assms(1,2) Cons] by blast
  ultimately show ?thesis using e least r by (auto simp: leD)
qed

lemma tcache_get_large_best_fit_witness:
  "\<exists>s'. tcache_get_large bare_sys 0 1200 example_cache = Inr (131088, s') \<and> tcache_bin 0 7 s' []"
proof -
  have "csize (mem example_cache) 131088 = 1504"
    by (simp add: csize_eq example_cache_def)
  then show ?thesis
    using tcache_get_large_best_fit [OF example_cache_bin, of bare_sys 1200] by (auto simp: bare_sys_def)
qed

text \<open>
  C27: safe linking. Masking and unmasking a link at the same position are inverse. If the
  masked link of the first chunk \<open>e\<close> of a bin is overwritten with any value \<open>v\<close>, the next allocation still
  returns \<open>e\<close>, and the one after it decodes \<open>v\<close>: it aborts exactly if the result is not 16-byte
  aligned, otherwise it returns it. A forged link that is a plain 16-byte aligned address is
  detected exactly if bits 12 to 15 of the address of \<open>e\<close> are not all zero.
\<close>
theorem safe_linking_detects_forged_link:
  fixes v :: u64
  assumes "tcache_bin i cap s (e # es)"
  defines "forged \<equiv> v XOR drop_bit 12 e"
  shows "REVEAL_PTR pos (PROTECT_PTR pos q) = q \<and>
    (\<exists>s'. tcache_get i (s\<lparr>mem := (mem s)(e := v)\<rparr>) = Inr (e, s') \<and>
      (if aligned forged then \<exists>s''. tcache_get i s' = Inr (forged, s'')
       else tcache_get i s' = Inl (Printerr ''malloc(): unaligned tcache chunk detected''))) \<and>
    (aligned v \<longrightarrow> (aligned forged \<longleftrightarrow> drop_bit 12 e AND 15 = 0))"
proof -
  let ?ep = "tcache_entry_addr s i" and ?s = "s\<lparr>mem := (mem s)(e := v)\<rparr>"
  have a: "mem s ?ep = e" "aligned e" "?ep \<noteq> e" "?ep \<noteq> e + 8"
    using assms(1) by (auto simp: tcache_bin_def)
  have ep: "tcache_entry_addr ?s i = ?ep" by (simp add: tcache_entry_addr_def)
  let ?s' = "?s\<lparr>mem := (mem ?s)(?ep := REVEAL_PTR e v, e + 8 := 0),
      num_slots := (num_slots s)(i := num_slots s i + 1)\<rparr>"
  have f: "REVEAL_PTR e v = forged" by (simp add: forged_def REVEAL_PTR_def PROTECT_PTR_def xor.commute)
  have "tcache_get i ?s = Inr (e, ?s')"
    using a by (simp add: tcache_get_def ep tcache_get_n_def upd_mem_def Let_def misaligned_mem_iff)
  moreover have "if aligned forged then \<exists>s''. tcache_get i ?s' = Inr (forged, s'')
      else tcache_get i ?s' = Inl (Printerr ''malloc(): unaligned tcache chunk detected'')"
    using a(4) unfolding f by (simp add: tcache_get_def tcache_get_n_def tcache_entry_addr_def Let_def misaligned_mem_iff)
  moreover have "aligned v \<longrightarrow> (aligned forged \<longleftrightarrow> drop_bit 12 e AND 15 = 0)"
  proof -
    have "forged AND 15 = (v AND 15) XOR (drop_bit 12 e AND 15)"
      unfolding forged_def by (rule bit_word_eqI) (auto simp: bit_simps)
    then show ?thesis by (simp add: aligned_def)
  qed
  ultimately show ?thesis by auto
qed

lemma safe_linking_detects_forged_link_witness:
  "\<exists>(s :: unit st) s'. tcache_get 0 s = Inr (135184, s') \<and>
     tcache_get 0 s' = Inl (Printerr ''malloc(): unaligned tcache chunk detected'')"
proof -
  let ?s = "example_cache\<lparr>mem := (\<lambda>_. 0)(4248 := 135184, 135184 := PROTECT_PTR 135184 0)\<rparr>"
  have "tcache_bin 0 7 ?s [135184]"
    by (simp add: tcache_bin_def example_cache_def static_state_def tcache_entry_addr_def aligned_def)
  note safe_linking_detects_forged_link [OF this, where v = 65536]
  moreover have "\<not> aligned (65536 XOR drop_bit 12 (135184 :: u64))" by (simp add: aligned_def)
  ultimately have "\<exists>s'. tcache_get 0 (?s\<lparr>mem := (mem ?s)(135184 := 65536)\<rparr>) = Inr (135184, s') \<and>
    tcache_get 0 s' = Inl (Printerr ''malloc(): unaligned tcache chunk detected'')"
    by (simp only: if_False)
  then show ?thesis by blast
qed

end
