(* ===== verification/FastProps.thy ===== *)
theory FastProps
  imports TcacheProps Layout
begin

text \<open>
  The fast bins as stacks: freeing a chunk of a fast size and allocating one, over the chain of
  masked links that a bin keeps, as an instance of the stack interface; and what the double free
  check of \<open>_int_free_chunk\<close> sees.
\<close>

section \<open>Chains of fast chunks\<close>

text \<open>
  \<open>fast_chain m idx q xs\<close>: from the chunk \<open>q\<close> on, the masked \<open>fd\<close> links lead through the aligned
  chunks \<open>xs\<close> of the bin \<open>idx\<close> to the end of the list.
\<close>

fun fast_chain :: "memory \<Rightarrow> u32 \<Rightarrow> ptr \<Rightarrow> ptr list \<Rightarrow> bool" where
  "fast_chain m idx q [] \<longleftrightarrow> q = NULL"
| "fast_chain m idx q (x # xs) \<longleftrightarrow>
     q = x \<and> x \<noteq> NULL \<and> aligned x \<and> fastbin_index (chunksize m x) = idx \<and>
     fast_chain m idx (REVEAL_PTR (x + 16) (get_fd m x)) xs"

lemma fast_chain_cong:
  "(\<And>x. x \<in> set xs \<Longrightarrow> m' (x + 8) = m (x + 8) \<and> m' (x + 16) = m (x + 16)) \<Longrightarrow>
     fast_chain m' idx q xs = fast_chain m idx q xs"
  by (induction xs arbitrary: q) (auto simp: field_defs chunksize_def)

lemma fast_chain_aligned: "fast_chain m idx q xs \<Longrightarrow> x \<in> set xs \<Longrightarrow> aligned x"
  by (induction xs arbitrary: q) auto

lemma fast_chain_nil: "fast_chain m idx q xs \<Longrightarrow> q = NULL \<longleftrightarrow> xs = []"
  by (cases xs) auto

text \<open>
  The fast bin for chunks of \<open>sz\<close> bytes in the arena \<open>av\<close> holds \<open>xs\<close>, in a state where that size
  is served by fast bins, with no cache and no perturbation.
\<close>

definition fast_bin :: "ptr \<Rightarrow> u64 \<Rightarrow> 'k st \<Rightarrow> ptr list \<Rightarrow> bool" where
  "fast_bin av sz s xs \<longleftrightarrow>
     (let fb = fastbin_addr av (fastbin_index sz) in
      fast_chain (mem s) (fastbin_index sz) (mem s fb) xs \<and> distinct xs \<and>
      (\<forall>x \<in> set xs. fb \<noteq> x + 8 \<and> fb \<noteq> x + 16) \<and>
      sz \<le> ucast (global_max_fast s) \<and> ucast (global_max_fast s) \<le> MAX_FAST_SIZE \<and>
      tcache s = NULL \<and> perturb_byte s = 0)"

definition fast_may_free :: "ptr \<Rightarrow> u64 \<Rightarrow> ptr \<Rightarrow> 'k st \<Rightarrow> ptr list \<Rightarrow> bool" where
  "fast_may_free av sz p s xs \<longleftrightarrow>
     (let fb = fastbin_addr av (fastbin_index sz) in
      p \<noteq> NULL \<and> aligned p \<and> chunksize (mem s) p = sz \<and> p \<notin> set xs \<and>
      \<not> fast_next_bad s av p sz \<and> fb \<noteq> p + 8 \<and> fb \<noteq> p + 16)"

definition fast_free :: "ptr \<Rightarrow> u64 \<Rightarrow> ptr \<Rightarrow> 'k st \<Rightarrow> 'k st" where
  "fast_free av sz p s = (case int_free_fastbin av p sz True s of Inr s' \<Rightarrow> s' | Inl _ \<Rightarrow> s)"

definition fast_take :: "ptr \<Rightarrow> u64 \<Rightarrow> 'k st \<Rightarrow> (ptr \<times> 'k st) option" where
  "fast_take av sz s =
     (case int_malloc_fastbin av sz 0 s of
        Inr (Some v, s') \<Rightarrow> Some (mem2chunk v, s')
      | _ \<Rightarrow> None)"

text \<open>The memory after \<open>p\<close> is linked in front of the bin at \<open>fb\<close>.\<close>

definition fast_push :: "memory \<Rightarrow> ptr \<Rightarrow> ptr \<Rightarrow> memory" where
  "fast_push m fb p = m(p + 16 := PROTECT_PTR (p + 16) (m fb), fb := p)"

lemma free_fastbin_pushes:
  assumes "fast_bin av sz s xs" "\<not> fast_next_bad s av p sz" "xs = [] \<or> hd xs \<noteq> p" "p \<noteq> NULL"
    and "fastbin_addr av (fastbin_index sz) \<noteq> p + 16" "xs = [] \<or> hd xs + 8 \<noteq> p + 16"
  shows "int_free_fastbin av p sz hl s
    = Inr (set_have_fastchunks av True s
        \<lparr>mem := fast_push (mem s) (fastbin_addr av (fastbin_index sz)) p\<rparr>)"
proof -
  let ?fb = "fastbin_addr av (fastbin_index sz)"
  let ?m = "fast_push (mem s) ?fb p"
  have "fast_chain (mem s) (fastbin_index sz) (mem s ?fb) xs" "perturb_byte s = 0"
    "\<forall>x \<in> set xs. ?fb \<noteq> x + 8"
    using assms(1) by (auto simp: fast_bin_def Let_def)
  then have "mem s ?fb = NULL \<or> mem s ?fb \<noteq> p \<and> fastbin_index (chunksize ?m (mem s ?fb)) = fastbin_index sz"
    "mem s ?fb \<noteq> p"
    using assms(3,4,6) by (cases xs; auto simp: fast_push_def chunksize_def field_defs)+
  then show ?thesis
    using assms(2) \<open>perturb_byte s = 0\<close>
    by (auto simp: int_free_fastbin_def Let_def upd_mem_def set_have_fastchunks_def fast_push_def
        set_fd_def field_defs)
qed

lemma fast_push_chain:
  assumes "fast_bin av sz s xs" "fast_may_free av sz p s xs"
  shows "fast_chain (fast_push (mem s) (fastbin_addr av (fastbin_index sz)) p) (fastbin_index sz) p (p # xs)"
proof -
  let ?fb = "fastbin_addr av (fastbin_index sz)" let ?i = "fastbin_index sz"
  let ?m = "fast_push (mem s) ?fb p"
  have h: "fast_chain (mem s) ?i (mem s ?fb) xs" "\<forall>x \<in> set xs. ?fb \<noteq> x + 8 \<and> ?fb \<noteq> x + 16"
    using assms(1) by (auto simp: fast_bin_def Let_def)
  have p: "p \<noteq> NULL" "aligned p" "chunksize (mem s) p = sz" "p \<notin> set xs" "?fb \<noteq> p + 8" "?fb \<noteq> p + 16"
    using assms(2) by (auto simp: fast_may_free_def Let_def)
  have "?m (x + 8) = mem s (x + 8) \<and> ?m (x + 16) = mem s (x + 16)" if "x \<in> set xs" for x
    using that h(2) p(2,4) fast_chain_aligned [OF h(1) that] by (auto simp: fast_push_def)
  then have "fast_chain ?m ?i (mem s ?fb) xs" using h(1) fast_chain_cong by blast
  moreover have "REVEAL_PTR (p + 16) (get_fd ?m p) = mem s ?fb" "chunksize ?m p = sz"
    using p by (auto simp: fast_push_def field_defs chunksize_def)
  ultimately show ?thesis using p(1,2) by simp
qed

lemma fast_free_eq:
  assumes "fast_bin av sz s xs" "fast_may_free av sz p s xs"
  shows "int_free_fastbin av p sz hl s
    = Inr (set_have_fastchunks av True s
        \<lparr>mem := fast_push (mem s) (fastbin_addr av (fastbin_index sz)) p\<rparr>)"
proof -
  have "aligned x" if "x \<in> set xs" for x
    using assms(1) that fast_chain_aligned by (auto simp: fast_bin_def Let_def)
  then have "xs = [] \<or> hd xs + 8 \<noteq> p + 16" "xs = [] \<or> hd xs \<noteq> p"
    using assms(2) by (cases xs; auto simp: fast_may_free_def Let_def)+
  then show ?thesis
    using assms by (intro free_fastbin_pushes) (auto simp: fast_may_free_def Let_def)
qed

lemma fast_free_holds:
  assumes "fast_bin av sz s xs" "fast_may_free av sz p s xs"
  shows "fast_bin av sz (fast_free av sz p s) (p # xs)"
  using assms fast_push_chain [OF assms]
  by (auto simp: fast_free_def fast_free_eq fast_bin_def fast_may_free_def Let_def
      set_have_fastchunks_def fast_push_def)

text \<open>Taking the chunk at the head, whatever the rest of the list is.\<close>

definition fast_serves :: "ptr \<Rightarrow> u64 \<Rightarrow> ptr \<Rightarrow> 'k st \<Rightarrow> bool" where
  "fast_serves av sz x s \<longleftrightarrow>
     (let fb = fastbin_addr av (fastbin_index sz) in
      mem s fb = x \<and> x \<noteq> NULL \<and> aligned x \<and> fb \<noteq> x + 8 \<and>
      fastbin_index (chunksize (mem s) x) = fastbin_index sz \<and> sz \<le> ucast (global_max_fast s) \<and>
      ucast (global_max_fast s) \<le> MAX_FAST_SIZE \<and> tcache s = NULL \<and> perturb_byte s = 0)"

lemma malloc_fastbin_head:
  assumes "fast_serves av sz x s"
  defines "fb \<equiv> fastbin_addr av (fastbin_index sz)"
  shows "int_malloc_fastbin av sz bytes s = Inr (Some (chunk2mem x),
    s\<lparr>mem := (mem s)(fb := REVEAL_PTR (x + 16) (get_fd (mem s) x))\<rparr>)"
proof -
  let ?m = "(mem s)(fb := REVEAL_PTR (x + 16) (get_fd (mem s) x))"
  have "chunksize ?m x = chunksize (mem s) x"
    using assms(1) by (auto simp: fast_serves_def fb_def Let_def chunksize_def field_defs)
  then show ?thesis
    using assms(1) by (simp add: int_malloc_fastbin_def get_max_fast_def leD Let_def upd_mem_def
        misaligned_chunk_iff fast_serves_def fb_def)
qed

lemma malloc_fastbin_takes:
  assumes "fast_bin av sz s (x # xs)"
  shows "\<exists>s'. int_malloc_fastbin av sz bytes s = Inr (Some (chunk2mem x), s') \<and> fast_bin av sz s' xs"
proof -
  let ?fb = "fastbin_addr av (fastbin_index sz)" let ?i = "fastbin_index sz"
  let ?m = "(mem s)(?fb := REVEAL_PTR (x + 16) (get_fd (mem s) x))"
  have h: "fast_chain (mem s) ?i (REVEAL_PTR (x + 16) (get_fd (mem s) x)) xs" "fast_serves av sz x s"
    "\<And>y. y \<in> set xs \<Longrightarrow> ?fb \<noteq> y + 8 \<and> ?fb \<noteq> y + 16"
    using assms by (auto simp: fast_bin_def fast_serves_def Let_def)
  have "?m (y + 8) = mem s (y + 8) \<and> ?m (y + 16) = mem s (y + 16)" if "y \<in> set xs" for y
    using h(3) [OF that] by auto
  then have "fast_chain ?m ?i (?m ?fb) xs" using h(1) fast_chain_cong [of xs ?m "mem s"] by simp
  then show ?thesis
    using malloc_fastbin_head [OF h(2)] assms by (simp add: fast_bin_def Let_def)
qed

lemma malloc_fastbin_empty:
  "fast_bin av sz s [] \<Longrightarrow> int_malloc_fastbin av sz bytes s = Inr (None, s)"
  by (simp add: int_malloc_fastbin_def fast_bin_def Let_def get_max_fast_def leD)

interpretation fastbins: lifo "fast_bin av sz" "fast_may_free av sz" "fast_free av sz" "fast_take av sz"
  for av sz
proof
  fix s :: "'k st" and x xs
  assume "fast_bin av sz s xs" "fast_may_free av sz x s xs"
  then show "fast_bin av sz (fast_free av sz x s) (x # xs)" by (rule fast_free_holds)
next
  fix s :: "'k st" and x xs
  assume "fast_bin av sz s (x # xs)"
  then show "\<exists>s'. fast_take av sz s = Some (x, s') \<and> fast_bin av sz s' xs"
    using malloc_fastbin_takes [of av sz s x xs 0] by (auto simp: fast_take_def)
next
  fix s :: "'k st"
  assume "fast_bin av sz s []"
  then show "fast_take av sz s = None" by (simp add: fast_take_def malloc_fastbin_empty)
qed

section \<open>Properties\<close>

text \<open>
  C23: a fast bin is a stack. Freeing a chunk of its size pushes it, the next \<open>_int_malloc\<close> of that
  size gives the same chunk back and leaves the bin as it was, and as many allocations as the bin
  has chunks return them all, the one freed last first, until the bin is empty.
\<close>
theorem fastbin_is_lifo:
  assumes "fast_bin av sz s xs" "fast_may_free av sz p s xs"
  shows "\<exists>s1 s2. int_free_fastbin av p sz hl s = Inr s1 \<and> have_fastchunks s1 av \<and>
    fast_bin av sz s1 (p # xs) \<and>
    int_malloc_fastbin av sz bytes s1 = Inr (Some (chunk2mem p), s2) \<and> fast_bin av sz s2 xs \<and>
    fst (fastbins.pops av sz (length xs) s2) = xs"
proof -
  let ?s1 = "set_have_fastchunks av True s
    \<lparr>mem := fast_push (mem s) (fastbin_addr av (fastbin_index sz)) p\<rparr>"
  have "int_free_fastbin av p sz hl s = Inr ?s1" "fast_free av sz p s = ?s1"
    using fast_free_eq [OF assms] by (simp_all add: fast_free_def)
  moreover have b: "fast_bin av sz ?s1 (p # xs)"
    using fastbins.push_holds [OF assms] calculation(2) by simp
  moreover obtain s2 where s2: "int_malloc_fastbin av sz bytes ?s1 = Inr (Some (chunk2mem p), s2)"
    "fast_bin av sz s2 xs"
    using malloc_fastbin_takes [OF b] by blast
  moreover have "fst (fastbins.pops av sz (length xs) s2) = xs"
    using fastbins.pops_all [OF s2(2)] by auto
  ultimately show ?thesis by (auto simp: set_have_fastchunks_def)
qed

text \<open>
  An arena at 65536 with the fast chunks 131072 and 131104 of 32 bytes, a used chunk after them,
  and an empty bin (its head is the word 65552).
\<close>

definition example_fast :: "unit st" where
  "example_fast = (static_state ())\<lparr>mem := (\<lambda>_. 0)(131080 := 33, 131112 := 33, 131144 := 33),
     system_mem := (\<lambda>_. 0)(65536 := 8192), global_max_fast := 128\<rparr>"

lemmas example_fast_defs = fast_bin_def fast_may_free_def fast_next_bad_def example_fast_def
  static_state_def chunksize_def chunksize_nomask_def chunk_at_offset_def aligned_def
  fastbin_addr_def fastbin_index_def

lemma example_fast_ready:
  "fast_bin 65536 32 example_fast []" "fast_may_free 65536 32 131072 example_fast []"
  by (simp_all add: example_fast_defs)

lemma fastbin_is_lifo_witness:
  "\<exists>s1 s2. int_free_fastbin 65536 131072 32 True example_fast = Inr s1 \<and>
     int_malloc_fastbin 65536 32 20 s1 = Inr (Some 131088, s2)"
  using fastbin_is_lifo [OF example_fast_ready, of True 20] by (auto simp: chunk2mem_def)

lemma fast_push_serves:
  assumes "fast_bin av sz s xs" "p \<noteq> NULL" "aligned p" "fastbin_index (chunksize (mem s) p) = fastbin_index sz"
    and "fastbin_addr av (fastbin_index sz) \<noteq> p + 8"
  shows "fast_serves av sz p
    (set_have_fastchunks av True s\<lparr>mem := fast_push (mem s) (fastbin_addr av (fastbin_index sz)) p\<rparr>)"
  using assms
  by (auto simp: fast_serves_def fast_bin_def Let_def set_have_fastchunks_def fast_push_def
      chunksize_def field_defs)

lemma fasttop_abort:
  assumes "mem s (fastbin_addr av (fastbin_index sz)) = p" "perturb_byte s = 0"
  shows "\<exists>msg. int_free_fastbin av p sz hl s = Inl (Printerr msg)"
  using assms by (simp add: int_free_fastbin_def Let_def set_have_fastchunks_def)

text \<open>
  C24: the double free check of a fast bin looks at the top of the bin only. Freeing the same
  chunk twice in a row aborts. With another chunk freed in between, the second free of the chunk
  succeeds, and the next three allocations of that size return it, the other chunk, and it again:
  two live blocks of memory at one address.
\<close>
theorem fasttop_check_sees_only_the_top:
  assumes "fast_bin av sz s xs" "fast_may_free av sz p s xs"
  defines "s1 \<equiv> fast_free av sz p s"
  assumes "fast_may_free av sz q s1 (p # xs)"
  defines "s2 \<equiv> fast_free av sz q s1"
  assumes "\<not> fast_next_bad s2 av p sz"
  shows "\<exists>msg s3 s4 s5 s6. int_free_fastbin av p sz hl s = Inr s1 \<and>
    int_free_fastbin av p sz hl s1 = Inl (Printerr msg) \<and>
    int_free_fastbin av q sz hl s1 = Inr s2 \<and> int_free_fastbin av p sz hl s2 = Inr s3 \<and>
    int_malloc_fastbin av sz bytes s3 = Inr (Some (chunk2mem p), s4) \<and>
    int_malloc_fastbin av sz bytes s4 = Inr (Some (chunk2mem q), s5) \<and>
    int_malloc_fastbin av sz bytes s5 = Inr (Some (chunk2mem p), s6)"
proof -
  let ?fb = "fastbin_addr av (fastbin_index sz)" let ?i = "fastbin_index sz"
  have p: "p \<noteq> NULL" "aligned p" "?fb \<noteq> p + 8" "?fb \<noteq> p + 16"
    and q: "q \<noteq> NULL" "aligned q" "?fb \<noteq> q + 8" "?fb \<noteq> q + 16" "q \<noteq> p"
    using assms(2,4) by (auto simp: fast_may_free_def Let_def)
  have f1: "int_free_fastbin av p sz hl s = Inr s1" and b1: "fast_bin av sz s1 (p # xs)"
    using fast_free_eq [OF assms(1,2)] fastbins.push_holds [OF assms(1,2)]
    by (auto simp: s1_def fast_free_def)
  have f2: "int_free_fastbin av q sz hl s1 = Inr s2" and b2: "fast_bin av sz s2 (q # p # xs)"
    using fast_free_eq [OF b1 assms(4)] fastbins.push_holds [OF b1 assms(4)]
    by (auto simp: s2_def fast_free_def)
  have m2: "mem s2 ?fb = q" "REVEAL_PTR (q + 16) (get_fd (mem s2) q) = p"
    "fastbin_index (chunksize (mem s2) q) = ?i" "fastbin_index (chunksize (mem s2) p) = ?i"
    using b2 by (auto simp: fast_bin_def Let_def)
  define s3 where "s3 = set_have_fastchunks av True s2\<lparr>mem := fast_push (mem s2) ?fb p\<rparr>"
  define s4 where "s4 = s3\<lparr>mem := (mem s3)(?fb := REVEAL_PTR (p + 16) (get_fd (mem s3) p))\<rparr>"
  define s5 where "s5 = s4\<lparr>mem := (mem s4)(?fb := REVEAL_PTR (q + 16) (get_fd (mem s4) q))\<rparr>"
  have d: "int_free_fastbin av p sz hl s2 = Inr s3"
    using assms(6) p q unfolding s3_def by (intro free_fastbin_pushes [OF b2]) auto
  have v3: "fast_serves av sz p s3"
    unfolding s3_def by (rule fast_push_serves [OF b2 p(1,2) m2(4) p(3)])
  have m4: "mem s4 = (fast_push (mem s2) ?fb p)(?fb := q)"
    using p m2(1) by (auto simp: s4_def s3_def fast_push_def field_defs)
  have v4: "fast_serves av sz q s4"
    using v3 p q m2(3) unfolding m4 fast_serves_def Let_def
    by (auto simp: s4_def m4 fast_push_def chunksize_def field_defs)
  have m5: "mem s5 = (fast_push (mem s2) ?fb p)(?fb := p)"
    using p q m2(2) by (auto simp: s5_def m4 fast_push_def field_defs)
  have v5: "fast_serves av sz p s5"
    using v3 p q m2(4) unfolding m5 fast_serves_def Let_def
    by (auto simp: s5_def s4_def m5 fast_push_def chunksize_def field_defs)
  have "\<exists>msg. int_free_fastbin av p sz hl s1 = Inl (Printerr msg)"
    using b1 by (intro fasttop_abort) (auto simp: fast_bin_def Let_def)
  then show ?thesis
    using f1 f2 d malloc_fastbin_head [OF v3, of bytes] malloc_fastbin_head [OF v4, of bytes]
      malloc_fastbin_head [OF v5, of bytes] unfolding s4_def [symmetric] s5_def [symmetric] by blast
qed

lemma fasttop_check_sees_only_the_top_witness:
  "\<exists>s1 s2 s3 s4 s5 s6. int_free_fastbin 65536 131072 32 True example_fast = Inr s1 \<and>
    int_free_fastbin 65536 131104 32 True s1 = Inr s2 \<and>
    int_free_fastbin 65536 131072 32 True s2 = Inr s3 \<and>
    int_malloc_fastbin 65536 32 20 s3 = Inr (Some 131088, s4) \<and>
    int_malloc_fastbin 65536 32 20 s4 = Inr (Some 131120, s5) \<and>
    int_malloc_fastbin 65536 32 20 s5 = Inr (Some 131088, s6)"
proof -
  let ?s1 = "fast_free 65536 32 131072 example_fast"
  let ?s2 = "fast_free 65536 32 131104 ?s1"
  note b1 = fastbins.push_holds [OF example_fast_ready]
  have q: "fast_may_free 65536 32 131104 ?s1 [131072]"
    unfolding fast_free_def fast_free_eq [OF example_fast_ready]
    by (simp add: example_fast_defs set_have_fastchunks_def fast_push_def)
  have "\<not> fast_next_bad ?s2 65536 131072 32"
    unfolding fast_free_def fast_free_eq [OF b1 [unfolded fast_free_def] q [unfolded fast_free_def]]
    unfolding fast_free_eq [OF example_fast_ready]
    by (simp add: example_fast_defs set_have_fastchunks_def fast_push_def)
  then show ?thesis
    using fasttop_check_sees_only_the_top [OF example_fast_ready q, of True 20]
    by (auto simp: chunk2mem_def)
qed

end
