(* ===== verification/ApiProps.thy ===== *)
theory ApiProps
  imports Alloc TcacheProps
begin

text \<open>
  \<open>malloc\<close> and \<open>free\<close> through the cache of a thread: what the public functions do with a chunk of a
  cached size, and the walk of \<open>tcache_double_free_verify\<close> over all bins.
\<close>

section \<open>The verification of a suspected double free\<close>

lemma entries_nonnull: "entries m p es \<Longrightarrow> e \<in> set es \<Longrightarrow> e \<noteq> NULL"
  by (induction es arbitrary: p) auto

lemma verify_chain_finds:
  "entries m tmp es \<Longrightarrow> e \<in> set es \<Longrightarrow> \<exists>msg. verify_chain m e limit cnt tmp = Inl (Printerr msg)"
proof (induction es arbitrary: tmp cnt)
  case (Cons x xs)
  then show ?case by (cases "x = e"; subst verify_chain.simps) (auto simp: misaligned_mem_iff)
qed simp

lemma verify_chain_result:
  "verify_chain m e limit cnt tmp = Inr () \<or> (\<exists>msg. verify_chain m e limit cnt tmp = Inl (Printerr msg))"
proof (induction m e limit cnt tmp rule: verify_chain.induct)
  case (1 m e limit cnt tmp)
  then show ?case by (subst (1 2) verify_chain.simps) auto
qed

lemma verify_bins_finds:
  assumes "i \<in> set is" "entries (mem s) (mem s (tcache_entry_addr s i)) es" "e \<in> set es"
  shows "\<exists>msg. verify_bins is e s = Inl (Printerr msg)"
  using assms(1)
proof (induction "is")
  case (Cons j js)
  let ?v = "verify_chain (mem s) e (tcache_count (mp s)) 0 (mem s (tcache_entry_addr s j))"
  show ?case
  proof (cases "?v = Inr ()")
    case True
    then have "j \<noteq> i"
      using verify_chain_finds [OF assms(2,3), of "tcache_count (mp s)" 0] by (auto simp del: split_paired_Ex)
    then show ?thesis using Cons True by auto
  next
    case False
    then show ?thesis using verify_chain_result [of "mem s" e "tcache_count (mp s)" 0 "mem s (tcache_entry_addr s j)"] by auto
  qed
qed simp

lemma tcache_indices_iff: "i \<in> set tcache_indices \<longleftrightarrow> unat i < 76"
proof
  assume "unat i < 76"
  then have "i \<in> of_nat ` {0..<76}" by (intro image_eqI [of _ _ "unat i"]) auto
  then show "i \<in> set tcache_indices" by (simp add: tcache_indices_def)
qed (auto simp: tcache_indices_def unat_of_nat)

text \<open>A chunk that is in the cache of the thread and carries its key is never freed again.\<close>

lemma free_of_cached_aborts:
  assumes "entries (mem s) (mem s (tcache_entry_addr s i)) es" "e \<in> set es" "unat i < 76"
    and "mem s (e + 8) = tcache_key s" "tcache s \<noteq> NULL"
    and "chunksize (mem s) (mem2chunk e) < tcache_max_bytes (mp s)" "0 < loop_fuel sy"
  shows "\<exists>msg. libc_free sy e s = Inl (Printerr msg)"
proof -
  obtain n where n: "loop_fuel sy = Suc n" using assms(7) by (cases "loop_fuel sy") auto
  have e: "e \<noteq> NULL" "aligned e" using entries_nonnull [OF assms(1,2)] entries_aligned [OF assms(1,2)] by auto
  then have "\<not> misaligned_chunk (mem2chunk e)" by (simp add: misaligned_chunk_def misaligned_mem_iff)
  moreover obtain msg where "verify_bins tcache_indices e s = Inl (Printerr msg)"
    using verify_bins_finds [of i tcache_indices s es e] assms(1-3) tcache_indices_iff by blast
  ultimately show ?thesis
    using assms(4-6) e(1) by (simp add: libc_free_def n)
qed

section \<open>Properties\<close>

text \<open>
  \<open>e\<close> is memory of a chunk that \<open>free\<close> will put in the small bin \<open>i\<close> of the cache, which holds
  \<open>es\<close>.
\<close>

definition cacheable :: "u64 \<Rightarrow> nat \<Rightarrow> ptr \<Rightarrow> 'k st \<Rightarrow> ptr list \<Rightarrow> bool" where
  "cacheable i cap e s es \<longleftrightarrow>
     tcache_bin i cap s es \<and> tcache_may_put i e s es \<and> tcache s \<noteq> NULL \<and>
     csize2tidx (chunksize (mem s) (mem2chunk e)) = i \<and> i < TCACHE_SMALL_BINS \<and>
     chunksize (mem s) (mem2chunk e) < tcache_max_bytes (mp s) \<and> mem s (e + 8) \<noteq> tcache_key s \<and>
     tcache_entry_addr s i \<noteq> mem2chunk e + 8"

lemma free_cacheable:
  assumes "cacheable i cap e s es" "0 < loop_fuel sy"
  shows "libc_free sy e s = Inr (tcache_put (mem2chunk e) i s)"
proof -
  obtain n where n: "loop_fuel sy = Suc n" using assms(2) by (cases "loop_fuel sy") auto
  show ?thesis
    using assms(1) by (simp add: libc_free_def n cacheable_def tcache_may_put_def misaligned_chunk_def
        misaligned_mem_iff Let_def)
qed

lemma cached_facts:
  assumes "cacheable i cap e s es"
  defines "s1 \<equiv> tcache_put (mem2chunk e) i s"
  shows "tcache_bin i cap s1 (e # es)" "chunksize (mem s1) (mem2chunk e) = chunksize (mem s) (mem2chunk e)"
    "mem s1 (e + 8) = tcache_key s1" "tcache s1 = tcache s" "mp s1 = mp s" "tcache_key s1 = tcache_key s"
    "mem s1 (tcache_entry_addr s1 i) = e"
proof -
  show b: "tcache_bin i cap s1 (e # es)"
    unfolding s1_def using assms(1) by (intro tcache_put_holds) (auto simp: cacheable_def)
  show "mem s1 (tcache_entry_addr s1 i) = e" using b by (simp add: tcache_bin_def)
  have "mem2chunk e + 8 \<noteq> e" "mem2chunk e + 8 \<noteq> e + 8" by (simp_all add: mem2chunk_def)
  then show "chunksize (mem s1) (mem2chunk e) = chunksize (mem s) (mem2chunk e)"
    "mem s1 (e + 8) = tcache_key s1" "tcache s1 = tcache s" "mp s1 = mp s" "tcache_key s1 = tcache_key s"
    using assms(1) unfolding s1_def cacheable_def tcache_may_put_def
    by (auto simp: tcache_put_mem chunksize_def chunksize_nomask_def Let_def)
      (auto simp: tcache_put_def tcache_put_n_def upd_mem_def Let_def)
qed

text \<open>
  C20: a double free through the public interface aborts. \<open>free\<close> of a chunk that goes to the cache
  of the thread succeeds and puts it on its bin; a second \<open>free\<close> of the same pointer finds the key
  in the chunk, walks the bins, and kills the process, whatever the other bins hold.
\<close>
theorem cached_double_free_aborts:
  assumes "cacheable i cap e s es" "0 < loop_fuel sy"
  shows "\<exists>s1 msg. libc_free sy e s = Inr s1 \<and> tcache_bin i cap s1 (e # es) \<and>
    libc_free sy e s1 = Inl (Printerr msg)"
proof -
  let ?s1 = "tcache_put (mem2chunk e) i s"
  note f = cached_facts [OF assms(1)]
  have "unat i < 76" "chunksize (mem ?s1) (mem2chunk e) < tcache_max_bytes (mp ?s1)" "tcache ?s1 \<noteq> NULL"
    using assms(1) f by (auto simp: cacheable_def word_less_nat_alt)
  then have "\<exists>msg. libc_free sy e ?s1 = Inl (Printerr msg)"
    using f(1,3) assms(2) by (intro free_of_cached_aborts [of _ i "e # es"]) (auto simp: tcache_bin_def)
  then show ?thesis using free_cacheable [OF assms] f(1) by blast
qed

text \<open>
  C21: \<open>free\<close> and \<open>malloc\<close> are inverse through the cache: after \<open>free\<close> of a chunk that goes to the
  cache, the next \<open>malloc\<close> whose request has the size of the chunk returns the same pointer, the
  cache holds what it held before, and the chunk's key is cleared.
\<close>
theorem free_malloc_returns_same_pointer:
  assumes "cacheable i cap e s es" "0 < loop_fuel sy"
    and "checked_request2size bytes = chunksize (mem s) (mem2chunk e)"
  shows "\<exists>s1 s2. libc_free sy e s = Inr s1 \<and> libc_malloc sy bytes s1 = Inr (e, s2) \<and>
    tcache_bin i cap s2 es \<and> mem s2 (e + 8) = 0"
proof -
  let ?s1 = "tcache_put (mem2chunk e) i s"
  note f = cached_facts [OF assms(1)]
  obtain s2 where t: "tcache_take i ?s1 = Some (e, s2)" "tcache_bin i cap s2 es"
    using tcache_take_holds [OF f(1)] by blast
  have ne: "e \<noteq> NULL" using assms(1) by (simp add: cacheable_def tcache_may_put_def)
  have g: "tcache_get i ?s1 = Inr (e, s2)" using t(1) f(7) ne
    by (auto simp: tcache_take_def split: sum.splits if_splits)
  then have "mem s2 (e + 8) = 0"
    by (auto simp: tcache_get_def tcache_get_n_def upd_mem_def Let_def split: if_splits)
  moreover have "libc_malloc sy bytes ?s1 = Inr (e, s2)"
    using assms(1,3) f g ne by (simp add: libc_malloc_def Let_def cacheable_def)
  ultimately show ?thesis using free_cacheable [OF assms(1,2)] t(2) by blast
qed

text \<open>The chunk of 32 bytes at 262144 is freed into a cache that holds one chunk of that size.\<close>

definition example_freed :: "unit st" where
  "example_freed = example_cache\<lparr>mem := (mem example_cache)(262152 := 33)\<rparr>"

lemma example_freed_cacheable: "cacheable 0 7 262160 example_freed [131088]" "0 < loop_fuel bare_sys"
  by (simp_all add: cacheable_def tcache_bin_def tcache_may_put_def example_freed_def example_cache_def
      static_state_def tcache_entry_addr_def aligned_def chunksize_def chunksize_nomask_def
      mem2chunk_def csize2tidx_def mp_init_def MAX_TCACHE_SMALL_SIZE_def tidx2csize_def bare_sys_def)

lemma cached_double_free_aborts_witness:
  "\<exists>s1 msg. libc_free bare_sys 262160 example_freed = Inr s1 \<and>
     libc_free bare_sys 262160 s1 = Inl (Printerr msg)"
  using cached_double_free_aborts [OF example_freed_cacheable] by blast

lemma free_malloc_returns_same_pointer_witness:
  "\<exists>s1 s2. libc_free bare_sys 262160 example_freed = Inr s1 \<and>
     libc_malloc bare_sys 20 s1 = Inr (262160, s2) \<and> tcache_bin 0 7 s2 [131088]"
proof -
  have "checked_request2size 20 = chunksize (mem example_freed) (mem2chunk 262160)"
    by (simp add: checked_request2size_def request2size_def example_freed_def chunksize_def
        chunksize_nomask_def mem2chunk_def)
  then show ?thesis
    using free_malloc_returns_same_pointer [OF example_freed_cacheable] by blast
qed

end
