(* ===== verification/Memalign.thy ===== *)
theory Memalign
  imports Alloc TcacheProps SizeClasses Layout
begin

text \<open>
  The aligned allocation functions: powers of two and the round-up loop of \<open>_mid_memalign\<close>, the
  placement of the aligned chunk in \<open>_int_memalign\<close>, the walk of \<open>tcache_get_align\<close>, and the checks of
  \<open>posix_memalign\<close>.
\<close>

section \<open>Powers of two\<close>

lemma unat_pow2 [simp]: "n < 64 \<Longrightarrow> unat (2 ^ n :: u64) = 2 ^ n"
proof -
  assume n: "n < 64"
  have "unat (of_nat (2 ^ n) :: u64) = 2 ^ n mod 2 ^ 64" unfolding unat_of_nat by simp
  moreover have "(2 :: nat) ^ n < 2 ^ 64" using n by (intro power_strict_increasing) auto
  ultimately show ?thesis by simp
qed

lemma powerof2_iff: "powerof2 x \<and> x \<noteq> 0 \<longleftrightarrow> (\<exists>k < 64. x = 2 ^ k)"
proof
  assume p: "powerof2 x \<and> x \<noteq> 0"
  define n where "n = bit_length (unat x) - 1"
  have "bit_length (unat x) = Suc n" using p by (simp add: n_def bit_length.simps [of "unat x"] unat_gt_0)
  then have b: "2 ^ n \<le> unat x" "unat x < 2 * 2 ^ n"
    using bit_length_bounds [of "unat x"] p by (auto simp: unat_gt_0)
  have n: "n < 64"
  proof (rule ccontr)
    assume "\<not> n < 64"
    then have "(2 :: nat) ^ 64 \<le> 2 ^ n" by (intro power_increasing) auto
    then show False using b(1) unat_lt_64 [of x] by linarith
  qed
  have top_bit: "bit y n" if "2 ^ n \<le> unat y" "unat y < 2 * 2 ^ n" for y :: u64
  proof -
    have "unat y div 2 ^ n = 1" using that by (intro div_nat_eqI) auto
    then have "unat (drop_bit n y) = unat (1 :: u64)" unfolding unat_drop_bit by simp
    then have "drop_bit n y = 1" by (rule unsigned_word_eqI)
    then show ?thesis by (simp add: bit_iff_odd_drop_bit)
  qed
  have "unat x = 2 ^ n"
  proof (rule ccontr)
    assume ne: "unat x \<noteq> 2 ^ n"
    have u: "unat (x - 1) = unat x - 1" using p by (simp add: unat_minus_one)
    have "bit x n" "bit (x - 1) n"
      using b ne u top_bit [of x] top_bit [of "x - 1"] by auto
    then have "bit ((x - 1) AND x) n" by (simp add: bit_simps)
    then show False using p by (simp add: powerof2_def)
  qed
  then have "x = 2 ^ n" using n by (simp add: word_unat_eq_iff)
  then show "\<exists>k < 64. x = 2 ^ k" using n by blast
next
  assume "\<exists>k < 64. x = 2 ^ k"
  then obtain k where k: "k < 64" "x = 2 ^ k" by blast
  have "(2 ^ k - 1) AND (2 ^ k :: u64) = 0"
    by (rule bit_eqI) (auto simp: bit_simps mask_eq_exp_minus_1 [symmetric])
  then show "powerof2 x \<and> x \<noteq> 0" using k by (simp add: powerof2_def)
qed

section \<open>Rounding the alignment up\<close>

lemma round_up_pow2_spec:
  assumes "j < 64" "unat al \<le> 2 ^ 63" "64 - j \<le> n"
  shows "\<exists>k. j \<le> k \<and> k < 64 \<and> round_up_pow2 n (2 ^ j) al = Inr (2 ^ k) \<and> unat al \<le> 2 ^ k \<and>
    (k = j \<or> 2 ^ (k - 1) < unat al)"
  using assms
proof (induction n arbitrary: j)
  case (Suc n)
  show ?case
  proof (cases "(2 ^ j :: u64) < al")
    case True
    then have lt: "2 ^ j < unat al" using Suc.prems(1) by (simp add: word_less_nat_alt)
    then have "(2 :: nat) ^ j < 2 ^ 63" using Suc.prems(2) by linarith
    then have j: "Suc j < 64" using power_less_imp_less_exp [of "2 :: nat" j 63] by simp
    have e: "round_up_pow2 (Suc n) (2 ^ j) al = round_up_pow2 n (2 ^ Suc j) al"
      using True by (simp add: push_bit_eq_mult mult.commute)
    obtain k where "Suc j \<le> k" "k < 64" "round_up_pow2 n (2 ^ Suc j) al = Inr (2 ^ k)" "unat al \<le> 2 ^ k"
      "k = Suc j \<or> 2 ^ (k - 1) < unat al"
      using Suc.IH [OF j Suc.prems(2)] Suc.prems(3) by (metis Suc_diff_Suc Suc_le_mono j less_SucI not_less_eq)
    then show ?thesis using lt unfolding e by (intro exI [of _ k]) auto
  next
    case False
    then have "unat al \<le> 2 ^ j" using Suc.prems(1) by (simp add: word_less_nat_alt)
    then show ?thesis using False Suc.prems(1) by (intro exI [of _ j]) simp
  qed
qed simp

section \<open>Aligned addresses\<close>

lemma mod_pow2: "a mod 2 ^ k = take_bit k a" for a :: u64
  by (simp add: take_bit_eq_mod)

lemma unat_take_bit: "unat (take_bit k a) = unat a mod 2 ^ k" for a :: u64
  unfolding take_bit_eq_mask unat_and_mask ..

lemma take_bit_add_pow2: "k < 64 \<Longrightarrow> take_bit k (a + 2 ^ k) = take_bit k a" for a :: u64
proof -
  assume k: "k < 64"
  then have "(2 :: nat) ^ k dvd 2 ^ 64" by (intro le_imp_power_dvd) simp
  then have "unat (a + 2 ^ k) mod 2 ^ k = (unat a + 2 ^ k) mod 2 ^ k"
    using k by (simp add: unat_plus_64 mod_mod_cancel)
  then show ?thesis by (simp add: word_unat_eq_iff unat_take_bit)
qed

lemma ptr_aligned_pow2: "PTR_IS_ALIGNED a (2 ^ k) \<longleftrightarrow> take_bit k a = 0"
  by (simp add: PTR_IS_ALIGNED_def take_bit_eq_mask mask_eq_exp_minus_1)

lemma round_up_aligned: "take_bit k (a AND - (2 ^ k)) = 0" for a :: u64
  by (rule bit_eqI) (auto simp: minus_exp_eq_not_mask bit_simps)

lemma memalign_brk_aligned: "k < 64 \<Longrightarrow> take_bit k (chunk2mem (memalign_brk p (2 ^ k))) = 0"
proof -
  assume k: "k < 64"
  let ?a = "(chunk2mem p + 2 ^ k - 1) AND - (2 ^ k)"
  have "chunk2mem (memalign_brk p (2 ^ k)) \<in> {?a, ?a + 2 ^ k}"
    by (simp add: memalign_brk_def Let_def chunk2mem_def mem2chunk_def)
  then show ?thesis using round_up_aligned [of k] take_bit_add_pow2 [OF k] by auto
qed

lemma memalign_tail_returns: "memalign_tail sy av p nb s = Inr (r, s') \<Longrightarrow> r = chunk2mem p"
  by (auto simp: memalign_tail_def Let_def bindE_Inr_iff split: if_splits)

lemma int_memalign_aligned:
  assumes "int_memalign sy av (2 ^ k) bytes s = Inr (r, s')" "k < 64"
  shows "take_bit k r = 0"
  using assms(1) unfolding int_memalign_def mod_pow2
  by (auto simp: Let_def bindE_Inr_iff memalign_brk_aligned [OF assms(2)] dest!: memalign_tail_returns split: if_splits prod.splits)

lemma tcache_align_walk_entry:
  "tcache_align_walk n m nb al tep te mangled = Inr (tep', te', mangled') \<Longrightarrow>
     te = (if mangled then REVEAL_PTR tep (m tep) else m tep) \<Longrightarrow>
     te' = (if mangled' then REVEAL_PTR tep' (m tep') else m tep')"
  by (induction n m nb al tep te mangled rule: tcache_align_walk.induct) (auto split: if_splits)

lemma tcache_get_align_aligned:
  assumes "tcache_get_align sy nb (2 ^ k) s = Inr (r, s')"
  shows "take_bit k r = 0"
proof -
  have "r = te" if "tcache_get_n i tep mangled s = Inr (r, s')"
    "te = (if mangled then REVEAL_PTR tep (mem s tep) else mem s tep)" for i tep te mangled
    using that by (auto simp: tcache_get_n_def Let_def split: if_splits)
  then show ?thesis
    using assms
    by (auto simp: tcache_get_align_def Let_def bindE_Inr_iff ptr_aligned_pow2
        dest!: tcache_align_walk_entry split: if_splits prod.splits)
qed

section \<open>Room for the leading chunk\<close>

lemma round_up_bounds:
  fixes M u :: nat
  assumes "u mod M \<noteq> 0" "0 < M"
  defines "a \<equiv> (u + M - 1) div M * M"
  shows "u < a" "a < u + M" "M dvd a"
proof -
  show "M dvd a" by (simp add: a_def)
  then have "a \<noteq> u" using assms(1) by auto
  moreover have "a \<le> u + M - 1" "u + M - 1 < a + M"
    using div_times_less_eq_dividend [of "u + M - 1" M] dividend_less_div_times [OF assms(2), of "u + M - 1"]
    by (simp_all add: a_def)
  ultimately show "u < a" "a < u + M" using assms(2) by linarith+
qed

lemma memalign_brk_value:
  assumes p: "aligned p" and k: "5 \<le> k" "k < 64" and "take_bit k (chunk2mem p) \<noteq> 0"
    and room: "unat p + 2 ^ k + 48 \<le> 2 ^ 64"
  defines "lead \<equiv> unat (memalign_brk p (2 ^ k)) - unat p"
  shows "unat p + 32 \<le> unat (memalign_brk p (2 ^ k))" "lead \<le> 2 ^ k + 16" "lead mod 16 = 0"
proof -
  let ?M = "(2 :: nat) ^ k" let ?u = "unat p + 16"
  have d: "16 dvd ?M" using le_imp_power_dvd [of 4 k "2 :: nat"] k(1) by simp
  have M: "32 \<le> ?M" using power_increasing [OF k(1), of "2 :: nat"] by simp
  have u: "unat (chunk2mem p) = ?u" using room M by (simp add: chunk2mem_def unat_plus_64)
  have "unat (chunk2mem p + 2 ^ k) = ?u + ?M" using k room u by (simp add: unat_plus_64)
  moreover from this have "chunk2mem p + 2 ^ k \<noteq> 0" using M by auto
  ultimately have s: "unat (chunk2mem p + 2 ^ k - 1) = ?u + ?M - 1"
    using unat_minus_one [of "chunk2mem p + 2 ^ k"] by simp
  define a where "a = (?u + ?M - 1) div ?M * ?M"
  let ?b = "(chunk2mem p + 2 ^ k - 1) AND - (2 ^ k)"
  have ub: "unat ?b = a"
    unfolding minus_exp_eq_not_mask unat_and_not_mask s a_def by (rule minus_mod_eq_div_mult)
  have "?u mod ?M \<noteq> 0" using assms(4) unfolding u [symmetric] unat_take_bit [symmetric] unat_eq_zero .
  note a = round_up_bounds [OF this, folded a_def]
  have a': "?u < a" "a < ?u + ?M" "?M dvd a" using a M by auto
  have ua: "unat (mem2chunk ?b) = a - 16"
    using a'(1) ub by (simp add: mem2chunk_def unat_sub word_le_nat_alt)
  have "16 dvd a" using d a'(3) by (rule dvd_trans)
  moreover have p16: "16 dvd unat p" using p by (simp add: aligned_iff mod_eq_0_iff_dvd)
  ultimately have g: "16 dvd a - ?u" by (metis dvd_add_triv_right_iff dvd_diff_nat)
  have diff: "unat (mem2chunk ?b - p) = a - ?u"
    using a'(1) ua by (simp add: unat_sub word_le_nat_alt)
  have v: "unat (memalign_brk p (2 ^ k)) = (if a - ?u < 32 then a - 16 + ?M else a - 16)"
  proof -
    have "unat (mem2chunk ?b + 2 ^ k) = a - 16 + ?M" if "a - ?u < 32"
      using that ua a' k room g by (simp add: unat_plus_64)
    then show ?thesis
      using ua diff by (simp add: memalign_brk_def Let_def word_less_nat_alt)
  qed
  have e: "lead = (if a - ?u < 32 then a - ?u + ?M else a - ?u)"
    using v a'(1) M unfolding lead_def by auto
  have "16 dvd lead" unfolding e using g d by simp
  then show "lead mod 16 = 0" by (simp add: mod_eq_0_iff_dvd)
  show "unat p + 32 \<le> unat (memalign_brk p (2 ^ k))" using v a'(1) M by auto
  have "a - ?u \<noteq> 0" using a'(1) by simp
  then have "16 \<le> a - ?u" using g by (simp add: dvd_imp_le)
  then have "a - ?u < 32 \<Longrightarrow> a - ?u = 16" using g by (auto elim!: dvdE)
  then show "lead \<le> 2 ^ k + 16" unfolding e using a'(1,2) by auto
qed

section \<open>Properties\<close>

text \<open>
  The loop of \<open>_mid_memalign\<close> that rounds an alignment up to a power of two ends, for every
  alignment that passes the check before it, and its result is the least power of two that is
  at least the alignment and at least 32.
\<close>
theorem alignment_rounds_to_least_power:
  assumes "al \<le> SIZE_MAX div 2 + 1"
  shows "\<exists>k. 5 \<le> k \<and> k < 64 \<and> round_up_pow2 64 (MALLOC_ALIGNMENT * 2) al = Inr (2 ^ k) \<and>
    unat al \<le> 2 ^ k \<and> (k = 5 \<or> 2 ^ (k - 1) < unat al)"
proof -
  have "unat al \<le> 2 ^ 63" using assms by (simp add: word_le_nat_alt)
  then show ?thesis using round_up_pow2_spec [of 5 al 64] by simp
qed

lemma alignment_rounds_to_least_power_witness:
  "\<exists>k. 5 \<le> k \<and> k < 64 \<and> round_up_pow2 64 32 100 = Inr (2 ^ k)"
  using alignment_rounds_to_least_power [of 100] by auto

lemma unat_pow2_ge: "32 \<le> al \<Longrightarrow> al = 2 ^ j \<Longrightarrow> j < 64 \<Longrightarrow> 5 \<le> j" for al :: u64
proof (rule ccontr)
  assume a: "32 \<le> al" "al = 2 ^ j" "j < 64" "\<not> 5 \<le> j"
  then have "(2 :: nat) ^ j \<le> 2 ^ 4" by (intro power_increasing) auto
  moreover have "32 \<le> unat al" using a(1) by (simp add: word_le_nat_alt)
  ultimately show False using a(2,3) by simp
qed

lemma memalign_pow2_aligned:
  assumes "mid_memalign sy al bytes s = Inr (r, s')" "MALLOC_ALIGNMENT < al"
    and False: "\<not> al > SIZE_MAX div 2 + 1"
  shows "\<exists>k. 5 \<le> k \<and> k < 64 \<and> unat al \<le> 2 ^ k \<and> (k = 5 \<or> 2 ^ (k - 1) < unat al) \<and> r mod 2 ^ k = 0"
proof -
  define a where "a = (if al < MINSIZE then MINSIZE else al)"
  have a: "unat a \<le> 2 ^ 63" "32 \<le> a" "unat al \<le> unat a" "a = al \<or> a = 32"
    using False assms(2) by (auto simp: a_def word_le_nat_alt word_less_nat_alt)
  have "\<exists>k. 5 \<le> k \<and> k < 64 \<and> unat a \<le> 2 ^ k \<and> (k = 5 \<or> 2 ^ (k - 1) < unat a) \<and>
    (if \<not> powerof2 a then round_up_pow2 64 (MALLOC_ALIGNMENT * 2) a else Inr a) = Inr (2 ^ k)"
  proof (cases "powerof2 a")
    case True
    then obtain j where j: "j < 64" "a = 2 ^ j" using powerof2_iff [of a] a(2) by auto
    then show ?thesis using True unat_pow2_ge [OF a(2) j(2,1)]
      by (intro exI [of _ j]) (auto intro!: power_strict_increasing)
  next
    case False
    then show ?thesis using round_up_pow2_spec [of 5 a 64] a(1) by auto
  qed
  then obtain k where k: "5 \<le> k" "k < 64" "unat a \<le> 2 ^ k" "k = 5 \<or> 2 ^ (k - 1) < unat a"
    "(if \<not> powerof2 a then round_up_pow2 64 (MALLOC_ALIGNMENT * 2) a else Inr a) = Inr (2 ^ k)" by blast
  have "take_bit k r = 0"
    using assms False k(5) unfolding mid_memalign_def a_def [symmetric]
    by (auto simp: Let_def bindE_Inr_iff a_def [symmetric] simp del: not_less
        dest: int_memalign_aligned [OF _ k(2)] tcache_get_align_aligned split: if_splits prod.splits)
  moreover have "k = 5 \<or> 2 ^ (k - 1) < unat al"
  proof (cases "k = 5")
    case False
    then have "5 \<le> k - 1" using k(1) by arith
    then have "(2 :: nat) ^ 5 \<le> 2 ^ (k - 1)" by (intro power_increasing) auto
    then show ?thesis using k(4) a(4) False by auto
  qed simp
  ultimately show ?thesis using False a(3) k(1-3) by (auto simp: mod_pow2)
qed

text \<open>
  C34: the memory that the aligned allocation functions return is aligned. An alignment up to 16 is
  relayed to \<open>malloc\<close>, which answers the same. For an alignment above 16 and at most \<open>2 ^ 63\<close>, every address that \<open>_mid_memalign\<close> returns, from the cache or from
  \<open>_int_memalign\<close>, split from a chunk or mapped, is a multiple of the least power of two that is
  at least the alignment and at least 32; above \<open>2 ^ 63\<close> it returns null with \<open>EINVAL\<close>.
\<close>
theorem memalign_result_is_aligned:
  assumes "mid_memalign sy al bytes s = Inr (r, s')"
  shows "if al \<le> MALLOC_ALIGNMENT then libc_malloc sy bytes s = Inr (r, s')
    else if al > SIZE_MAX div 2 + 1 then r = NULL \<and> s' = set_errno EINVAL s
    else \<exists>k. 5 \<le> k \<and> k < 64 \<and> unat al \<le> 2 ^ k \<and> (k = 5 \<or> 2 ^ (k - 1) < unat al) \<and> r mod 2 ^ k = 0"
proof -
  consider "al \<le> MALLOC_ALIGNMENT" | "MALLOC_ALIGNMENT < al" "al > SIZE_MAX div 2 + 1"
    | "MALLOC_ALIGNMENT < al" "\<not> al > SIZE_MAX div 2 + 1" by force
  then show ?thesis
  proof cases
    case 1
    then show ?thesis using assms by (simp add: mid_memalign_def)
  next
    case 2
    then have "\<not> al < 32" by (simp add: word_less_nat_alt)
    then show ?thesis using assms 2 by (auto simp: mid_memalign_def Let_def split: if_splits)
  next
    case 3
    then show ?thesis using memalign_pow2_aligned [OF assms 3] by auto
  qed
qed

text \<open>A cache whose first bin holds the chunk with user address 131104, a multiple of 32.\<close>

definition example_aligned :: "unit st" where
  "example_aligned = (static_state ())\<lparr>mem := (\<lambda>_. 0)(4248 := 131104, 131104 := PROTECT_PTR 131104 0,
     131096 := 33), tcache := 4096, num_slots := (\<lambda>_. 6)\<rparr>"

lemma example_aligned_run: "\<exists>s'. mid_memalign bare_sys 32 20 example_aligned = Inr (131104, s')"
proof -
  have n: "checked_request2size 20 = 32" "csize2tidx 32 = 0" "powerof2 32" "PTR_IS_ALIGNED 131104 32"
    by (simp_all add: checked_request2size_def request2size_def csize2tidx_def powerof2_def PTR_IS_ALIGNED_def)
  have e: "tcache_entry_addr example_aligned 0 = 4248" "mem example_aligned 4248 = 131104"
    "chunksize (mem example_aligned) (mem2chunk 131104) = 32" "32 < tcache_max_bytes (mp example_aligned)"
    "tcache example_aligned \<noteq> NULL"
    by (simp_all add: example_aligned_def static_state_def tcache_entry_addr_def chunksize_def
        chunksize_nomask_def mem2chunk_def mp_init_def MAX_TCACHE_SMALL_SIZE_def tidx2csize_def)
  have "tcache_align_walk (Suc 99) (mem example_aligned) 32 32 4248 131104 False = Inr (4248, 131104, False)"
    unfolding tcache_align_walk.simps(2) by (simp add: e n)
  then have walk: "tcache_align_walk (loop_fuel bare_sys) (mem example_aligned) 32 32 4248 131104 False =
    Inr (4248, 131104, False)"
    by (simp add: bare_sys_def)
  have "\<not> misaligned_mem 131104" by (simp add: misaligned_mem_def)
  then show ?thesis
    by (simp add: mid_memalign_def tcache_get_align_def n e walk Let_def tcache_get_n_def)
qed

lemma memalign_result_is_aligned_witness:
  "\<exists>r s' k. mid_memalign bare_sys 32 20 example_aligned = Inr (r, s') \<and> r \<noteq> NULL \<and>
     5 \<le> k \<and> r mod 2 ^ k = 0"
proof -
  obtain s' where r: "mid_memalign bare_sys 32 20 example_aligned = Inr (131104, s')"
    using example_aligned_run by blast
  then show ?thesis using memalign_result_is_aligned [OF r] by auto
qed

text \<open>
  The worst-case padding of \<open>_int_memalign\<close> is enough. In a chunk of at least
  \<open>nb + alignment + MINSIZE\<close> bytes whose memory is misaligned, the aligned address leaves a leading
  chunk of at least \<open>MINSIZE\<close> bytes and of a chunk size, and at least \<open>nb\<close> bytes after it, so that
  the assertion after the split cannot fail.
\<close>
theorem memalign_padding_suffices:
  assumes "aligned p" "5 \<le> k" "k < 64" "chunk2mem p mod 2 ^ k \<noteq> 0"
    and "unat nb + 2 ^ k + 32 \<le> unat cs" "16 \<le> unat nb" "unat p + unat cs < 2 ^ 64"
  defines "newp \<equiv> memalign_brk p (2 ^ k)"
  defines "leadsize \<equiv> newp - p"
  shows "MINSIZE \<le> leadsize \<and> leadsize AND MALLOC_ALIGN_MASK = 0 \<and> nb \<le> cs - leadsize \<and>
    chunk2mem newp mod 2 ^ k = 0"
proof -
  note v = memalign_brk_value [OF assms(1-3), folded newp_def]
  have r: "take_bit k (chunk2mem p) \<noteq> 0" "unat p + 2 ^ k + 48 \<le> 2 ^ 64"
    using assms(4-7) by (simp_all add: mod_pow2)
  have l: "unat leadsize = unat newp - unat p"
    using v(1) [OF r] by (simp add: leadsize_def unat_sub word_le_nat_alt)
  have "unat (leadsize AND MALLOC_ALIGN_MASK) = 0" using v(3) [OF r] by (simp add: unat_and_15 l)
  moreover have "unat leadsize + unat nb \<le> unat cs" using v(2) [OF r] assms(5) l by simp
  moreover have "unat (cs - leadsize) = unat cs - unat leadsize"
    using calculation(2) by (simp add: unat_sub word_le_nat_alt)
  ultimately have "unat nb \<le> unat (cs - leadsize)" "leadsize AND MALLOC_ALIGN_MASK = 0" by (simp_all add: unat_eq_zero)
  moreover have "32 \<le> unat leadsize" using v(1) [OF r] l by linarith
  ultimately show ?thesis
    using memalign_brk_aligned [OF assms(3), of p]
    by (simp add: word_le_nat_alt newp_def mod_pow2)
qed

lemma memalign_padding_suffices_witness:
  "MINSIZE \<le> memalign_brk 131072 256 - 131072 \<and> (112 :: u64) \<le> 400 - (memalign_brk 131072 256 - 131072)"
  using memalign_padding_suffices [of 131072 8 112 400]
  by (simp add: aligned_def chunk2mem_def mod_pow2)

text \<open>
  The request for the padded size is not checked for overflow. It is exact when the sum fits
  in 64 bits; for an alignment of \<open>2 ^ 63\<close> (which \<open>_mid_memalign\<close> admits) and \<open>PTRDIFF_MAX\<close> bytes
  (which \<open>_int_memalign\<close> admits) it wraps around, and \<open>_int_malloc\<close> is asked for 48 bytes only.
\<close>
theorem memalign_request_may_wrap:
  assumes "unat nb + unat MINSIZE < 2 ^ 64"
  shows "if unat nb + unat al + unat MINSIZE < 2 ^ 64
    then unat (memalign_request nb al) = unat nb + unat al + unat MINSIZE
    else memalign_request nb al < nb + MINSIZE"
proof -
  have u: "unat (nb + 32) = unat nb + 32" "unat (memalign_request nb al) = (unat nb + unat al + 32) mod 2 ^ 64"
    using assms by (simp_all add: memalign_request_def unat_plus_64 mod_simps)
  have "(unat nb + unat al + 32) mod 2 ^ 64 = unat nb + unat al + 32 - 2 ^ 64"
    if "\<not> unat nb + unat al + 32 < 2 ^ 64"
    using that assms unat_lt_64 [of al] by (intro mod_nat_eqI) auto
  then show ?thesis using u assms unat_lt_64 [of al] unfolding word_less_nat_alt by auto
qed

lemma memalign_request_may_wrap_witness:
  "memalign_request (checked_request2size PTRDIFF_MAX) (2 ^ 63) < checked_request2size PTRDIFF_MAX + MINSIZE \<and>
   memalign_request (checked_request2size PTRDIFF_MAX) (2 ^ 63) = 48"
proof -
  have "checked_request2size PTRDIFF_MAX = 2 ^ 63 + 16"
    by (simp add: checked_request2size_def request2size_def)
  then show ?thesis
    using memalign_request_may_wrap [of "2 ^ 63 + 16" "2 ^ 63"] by (simp add: memalign_request_def)
qed


text \<open>
  \<open>posix_memalign\<close> rejects with \<open>EINVAL\<close>, without touching the state, exactly the alignments that are
  not a power of two of at least \<open>sizeof (void *)\<close>; for the others it returns either a non-null
  result with code 0 or \<open>ENOMEM\<close> and no result.
\<close>
theorem posix_memalign_checks_alignment:
  "if \<exists>k. 3 \<le> k \<and> k < 64 \<and> al = 2 ^ k
   then case posix_memalign sy al sz s of Inl a \<Rightarrow> mid_memalign sy al sz s = Inl a
     | Inr ((e, r), s') \<Rightarrow> (e = 0 \<and> (\<exists>p. r = Some p \<and> p \<noteq> NULL \<and> mid_memalign sy al sz s = Inr (p, s')) \<or>
         e = ENOMEM \<and> r = None \<and> mid_memalign sy al sz s = Inr (NULL, s'))
   else posix_memalign sy al sz s = Inr ((EINVAL, None), s)"
proof -
  have iff: "al mod 8 = 0 \<and> powerof2 (al div 8) \<and> al \<noteq> 0 \<longleftrightarrow> (\<exists>k. 3 \<le> k \<and> k < 64 \<and> al = 2 ^ k)"
  proof
    assume a: "al mod 8 = 0 \<and> powerof2 (al div 8) \<and> al \<noteq> 0"
    then have e: "al = al div 8 * 8" using div_mult_mod_eq [of al 8] by simp
    then have "al div 8 \<noteq> 0" using a by auto
    then obtain j where j: "al div 8 = 2 ^ j" using a powerof2_iff [of "al div 8"] by auto
    then have p: "al = 2 ^ (j + 3)" using e by (simp add: power_add)
    moreover have "j + 3 < 64"
    proof (rule ccontr)
      assume "\<not> j + 3 < 64"
      then have "al = 0" unfolding p by (intro exp_eq_zero_iff [THEN iffD2]) simp
      then show False using a by simp
    qed
    ultimately show "\<exists>k. 3 \<le> k \<and> k < 64 \<and> al = 2 ^ k" by (intro exI [of _ "j + 3"]) simp
  next
    assume "\<exists>k. 3 \<le> k \<and> k < 64 \<and> al = 2 ^ k"
    then obtain k where k: "3 \<le> k" "k < 64" "al = 2 ^ k" by blast
    then have "unat al = 8 * 2 ^ (k - 3)" using power_add [of "2 :: nat" 3 "k - 3"] by simp
    then have "unat (al div 8) = 2 ^ (k - 3)" "unat (al mod 8) = 0" by (simp_all add: unat_div unat_mod)
    then have "al div 8 = 2 ^ (k - 3)" "al mod 8 = 0" using k(1,2) by (simp_all add: word_unat_eq_iff)
    moreover have "powerof2 (2 ^ (k - 3))" using powerof2_iff [of "2 ^ (k - 3)"] k by (metis less_imp_diff_less)
    ultimately show "al mod 8 = 0 \<and> powerof2 (al div 8) \<and> al \<noteq> 0" using k by simp
  qed
  have c: "al mod 8 \<noteq> 0 \<or> \<not> powerof2 (al div 8) \<or> al = 0 \<longleftrightarrow>
    \<not> (\<exists>k. 3 \<le> k \<and> k < 64 \<and> al = 2 ^ k)"
    unfolding iff [symmetric] by (simp only: de_Morgan_conj not_not)
  show ?thesis
  proof (cases "\<exists>k. 3 \<le> k \<and> k < 64 \<and> al = 2 ^ k")
    case True
    then have e: "posix_memalign sy al sz s = bindE (mid_memalign sy al sz s) (\<lambda>(r, s).
        if r \<noteq> NULL then Inr ((0, Some r), s) else Inr ((ENOMEM, None), s))"
      using c unfolding posix_memalign_def by (simp only: not_True_eq_False if_False)
    show ?thesis
      unfolding if_P [OF True] e by (cases "mid_memalign sy al sz s") auto
  next
    case False
    then show ?thesis using c unfolding if_not_P [OF False] posix_memalign_def by (simp only: not_False_eq_True if_True)
  qed
qed

end
