(* ===== verification/Mmap.thy ===== *)
theory Mmap
  imports Memalign Sysmalloc
begin

text \<open>
  Memory from and to the kernel: the sizes and addresses that \<open>sysmalloc_mmap\<close> hands to the kernel
  and that \<open>munmap_chunk\<close> recovers from the chunk, and \<open>systrim\<close> of a minimal top.
\<close>

section \<open>Sizes of mappings\<close>

lemma align_up_pow2:
  assumes "unat x + 2 ^ k \<le> 2 ^ 64" "k < 64"
  defines "sz \<equiv> ALIGN_UP x (2 ^ k)"
  shows "unat x \<le> unat sz" "unat sz < unat x + 2 ^ k" "unat sz mod 2 ^ k = 0"
proof -
  have M: "(0 :: nat) < 2 ^ k" by simp
  have "unat (x + (2 ^ k - 1)) = unat x + (2 ^ k - 1)"
  proof -
    have "unat (2 ^ k - 1 :: u64) = 2 ^ k - 1"
      using assms(2) by (simp add: unat_minus_one)
    then show ?thesis using assms(1) M by (simp add: unat_plus_64)
  qed
  then have e: "unat sz = (unat x + 2 ^ k - 1) div 2 ^ k * 2 ^ k"
    using M unfolding sz_def ALIGN_UP_def ALIGN_DOWN_pow2 unat_and_not_mask
    by (simp add: minus_mod_eq_div_mult add_diff_eq)
  then show "unat sz mod 2 ^ k = 0" by simp
  have "unat sz \<le> unat x + 2 ^ k - 1" "unat x + 2 ^ k - 1 < unat sz + 2 ^ k"
    using div_times_less_eq_dividend [of "unat x + 2 ^ k - 1" "2 ^ k"]
      dividend_less_div_times [OF M, of "unat x + 2 ^ k - 1"] by (simp_all add: e)
  then show "unat x \<le> unat sz" "unat sz < unat x + 2 ^ k" using M by linarith+
qed

lemma page_layout_ok:
  assumes "5 \<le> k" "k < 64" "mm mod 2 ^ k = 0" "sz mod 2 ^ k = (0 :: u64)"
  shows "\<not> mmap_layout_bad sy (2 ^ k) (chunk2mem mm) mm sz"
proof -
  have t: "take_bit k mm = 0" "take_bit k sz = 0" using assms(3,4) by (simp_all add: mod_pow2)
  have "2 ^ 5 \<le> (2 :: nat) ^ k" using assms(1) by (intro power_increasing) auto
  moreover have "(2 :: nat) ^ k dvd 2 ^ 64" using assms(2) by (intro le_imp_power_dvd) simp
  moreover have "unat mm mod 2 ^ k = 0" using t(1) by (simp add: unat_take_bit [symmetric])
  ultimately have "unat (take_bit k (chunk2mem mm)) = 16"
    by (simp add: unat_take_bit chunk2mem_def unat_plus_64 mod_mod_cancel) (simp add: mod_add_eq [symmetric])
  then have "take_bit k (chunk2mem mm) = 16" by (simp add: word_unat_eq_iff)
  then show ?thesis
    using t by (simp add: mmap_layout_bad_def mask_eq_exp_minus_1 [symmetric] take_bit_eq_mask [symmetric]
        take_bit_or powerof2_def)
qed

lemma page_multiple:
  assumes "k < 64" "4 \<le> k" "unat sz mod 2 ^ k = 0" "16 \<le> unat sz"
  shows "sz mod 2 ^ k = 0" "(sz - 16) AND MALLOC_ALIGN_MASK = 0"
proof -
  show "sz mod 2 ^ k = 0" using assms(3) by (simp add: mod_pow2 word_unat_eq_iff unat_take_bit)
  have "2 ^ 4 dvd (2 :: nat) ^ k" using assms(2) by (rule le_imp_power_dvd)
  then have "16 dvd unat sz" using assms(3) by (auto intro: dvd_trans simp: mod_eq_0_iff_dvd)
  moreover have "unat (sz - 16) = unat sz - 16" using assms(4) by (simp add: unat_sub word_le_nat_alt)
  ultimately show "(sz - 16) AND MALLOC_ALIGN_MASK = 0"
    using assms(4) by (simp add: multiple_iff mod_eq_0_iff_dvd)
qed

text \<open>What \<open>sysmalloc_mmap\<close> leaves behind.\<close>

lemma sysmalloc_mmap_result:
  assumes "dl_pagesize sy = 2 ^ k" "5 \<le> k" "k < 64" "unat nb + 16 + 2 ^ k \<le> 2 ^ 64"
    and "sz = ALIGN_UP (nb + CHUNK_HDR_SZ) (dl_pagesize sy)"
    and "sys_mmap sy sz 0 (mem s, kern s) = (mm, m, kn)" "mm \<noteq> MAP_FAILED"
    and "thp_mode (mp s) \<noteq> malloc_thp_mode_madvise"
  obtains s1 where "sysmalloc_mmap sy nb (dl_pagesize sy) 0 s = (chunk2mem mm, s1)"
    "chunk_is_mmapped (mem s1) mm" "prev_size_mmap (mem s1) mm = 0" "chunksize (mem s1) mm = sz - 16"
    "n_mmaps (mp s1) = n_mmaps (mp s) + 1" "mmapped_mem (mp s1) = mmapped_mem (mp s) + sz"
    "unat nb + 16 \<le> unat sz" "sz mod 2 ^ k = 0" "kern s1 = kn"
proof -
  have "(0 :: nat) < 2 ^ k" by simp
  then have "unat nb + 16 < 2 ^ 64" using assms(4) by linarith
  then have "unat (nb + 16) = unat nb + 16" by (simp add: unat_plus_64)
  then have a: "unat nb + 16 \<le> unat sz" "unat sz mod 2 ^ k = 0"
    using align_up_pow2 [of "nb + 16" k] assms(1,3-5) by simp_all
  note p = page_multiple [OF assms(3) _ a(2)]
  have c: "((sz - 16) OR IS_MMAPPED) AND NOT SIZE_BITS = sz - 16"
    using p(2) a(1) assms(2) by (intro size_with_bits) simp_all
  have i: "((sz - 16) OR IS_MMAPPED) AND IS_MMAPPED \<noteq> 0"
  proof
    assume "((sz - 16) OR IS_MMAPPED) AND IS_MMAPPED = 0"
    then have "\<not> bit (((sz - 16) OR IS_MMAPPED) AND IS_MMAPPED) 1" by simp
    then show False by (simp add: bit_simps)
  qed
  show ?thesis
    using that assms(5-8) a(1) p(1) assms(2) c i
    by (auto simp: sysmalloc_mmap_def MMAP_def madvise_thp_def Let_def upd_mem_def set_prev_size_def
        set_head_def chunk_is_mmapped_def chunksize_def chunksize_nomask_def prev_size_mmap_def prev_size_def)
qed

section \<open>Trimming a minimal top\<close>

text \<open>
  \<open>systrim\<close> compares \<open>top_area\<close>, a \<open>long\<close>, with the unsigned \<open>pad\<close>. For a top of exactly \<open>MINSIZE\<close>
  bytes \<open>top_area\<close> is \<open>-1\<close>, the greatest unsigned number, so that trimming goes on with a negative
  \<open>extra\<close> and extends the heap by a page.
\<close>

definition sbrk_kernel :: "u64 sys" where
  "sbrk_kernel = bare_sys\<lparr>sys_morecore := \<lambda>n (m, brk). (brk, m, brk + n)\<rparr>"

lemma systrim_extends_minimal_top:
  assumes "chunksize (mem s) (get_top (mem s) av) = MINSIZE" "kern s = get_top (mem s) av + MINSIZE"
    "kern s + 4096 \<noteq> NULL" "thp_pagesize (mp s) = 0"
  shows "\<exists>s'. systrim sbrk_kernel 0 av s = (1, s') \<and> kern s' = kern s + 4096 \<and>
    system_mem s' av = system_mem s av + 4096 \<and>
    mem s' = set_head (mem s) (get_top (mem s) av) ((MINSIZE + 4096) OR PREV_INUSE)"
proof -
  have e: "ALIGN_DOWN (MINSIZE - MINSIZE - 1 - 0) (dl_pagesize sbrk_kernel) = - 4096"
    by (simp add: ALIGN_DOWN_def sbrk_kernel_def bare_sys_def)
  have k: "MORECORE sbrk_kernel n t = (kern t, t\<lparr>kern := kern t + n\<rparr>)" for n t
    by (simp add: MORECORE_def sbrk_kernel_def)
  show ?thesis
    using assms e by (simp add: systrim_def k add_system_mem_def upd_mem_def Let_def)
qed

section \<open>Properties\<close>

text \<open>
  C28: a mapped chunk goes back to the kernel as it came. For a request that the kernel serves with
  page aligned memory, \<open>sysmalloc_mmap\<close> makes a chunk, marked as mapped, that has room for the
  request; \<open>munmap_chunk\<close> of it passes its check, unmaps exactly the address and the length that were
  mapped, and restores the number of mappings and the mapped memory in \<open>mp_\<close>.
\<close>
theorem mmap_munmap_roundtrip:
  assumes "dl_pagesize sy = 2 ^ k" "5 \<le> k" "k < 64" "unat nb + 16 + 2 ^ k \<le> 2 ^ 64"
    and "sz = ALIGN_UP (nb + CHUNK_HDR_SZ) (dl_pagesize sy)"
    and "sys_mmap sy sz 0 (mem s, kern s) = (mm, m, kn)" "mm \<noteq> MAP_FAILED" "mm mod 2 ^ k = 0"
    and "thp_mode (mp s) \<noteq> malloc_thp_mode_madvise"
  shows "\<exists>s1 s2. sysmalloc_mmap sy nb (dl_pagesize sy) 0 s = (chunk2mem mm, s1) \<and>
    chunk_is_mmapped (mem s1) mm \<and> nb \<le> chunksize (mem s1) mm \<and>
    munmap_chunk sy mm s1 = Inr s2 \<and> (mem s2, kern s2) = sys_munmap sy mm sz (mem s1, kern s1) \<and>
    n_mmaps (mp s2) = n_mmaps (mp s) \<and> mmapped_mem (mp s2) = mmapped_mem (mp s)"
proof -
  obtain s1 where s1: "sysmalloc_mmap sy nb (dl_pagesize sy) 0 s = (chunk2mem mm, s1)"
    "chunk_is_mmapped (mem s1) mm" "prev_size_mmap (mem s1) mm = 0" "chunksize (mem s1) mm = sz - 16"
    "n_mmaps (mp s1) = n_mmaps (mp s) + 1" "mmapped_mem (mp s1) = mmapped_mem (mp s) + sz"
    "unat nb + 16 \<le> unat sz" "sz mod 2 ^ k = 0"
    using sysmalloc_mmap_result [OF assms(1-7,9)] by blast
  have "nb \<le> sz - 16" using s1(7) by (simp add: word_le_nat_alt unat_sub)
  moreover have "mmap_base (mem s1) mm = mm" "mmap_size (mem s1) mm = sz"
    using s1(3,4) by (simp_all add: mmap_base_def mmap_size_def)
  ultimately show ?thesis
    using s1(1,2,4-6) page_layout_ok [OF assms(2,3,8) s1(8), of sy] assms(1)
    by (auto simp: munmap_chunk_def Let_def split: prod.split)
qed

text \<open>A kernel that maps memory at 1048576 and records in its state whether it is mapped.\<close>

definition example_kernel :: "bool sys" where
  "example_kernel = bare_sys\<lparr>sys_mmap := \<lambda>_ _ (m, _). (1048576, m, True),
     sys_munmap := \<lambda>p _ (m, k). (m, k \<and> p \<noteq> 1048576)\<rparr>"

lemma mmap_munmap_roundtrip_witness:
  "\<exists>s1 s2. sysmalloc_mmap example_kernel 200000 4096 0 (static_state False) = (1048592, s1) \<and>
     munmap_chunk example_kernel 1048576 s1 = Inr s2 \<and> \<not> kern s2 \<and> n_mmaps (mp s2) = 0"
proof -
  have e: "dl_pagesize example_kernel = 2 ^ 12" "sys_mmap example_kernel x y (m, k) = (1048576, m, True)"
    "sys_munmap example_kernel 1048576 x (m, k) = (m, False)" for x y m k
    by (simp_all add: example_kernel_def bare_sys_def)
  have "n_mmaps (mp (static_state False)) = 0" "thp_mode (mp (static_state False)) \<noteq> malloc_thp_mode_madvise"
    by (simp_all add: static_state_def mp_init_def)
  then show ?thesis
    using mmap_munmap_roundtrip [OF e(1), of 200000 "ALIGN_UP 200016 4096" "static_state False" 1048576
        "mem (static_state False)" True] e
    by (auto simp: mod_pow2 chunk2mem_def)
qed

end
