(* ===== verification/MalloptProps.thy ===== *)
theory MalloptProps
  imports Mallopt SizeClasses
begin

text \<open>
  The limits of the parameters of \<open>malloc\<close>, which no setting breaks, and the frame of
  \<open>malloc_consolidate\<close>.
\<close>

section \<open>Consolidation changes memory only\<close>

lemma consolidate_chunk_mem: "consolidate_chunk av fb p s = Inr (q, s') \<Longrightarrow> s' = s\<lparr>mem := mem s'\<rparr>"
  by (auto simp: consolidate_chunk_def Let_def bindE_Inr_iff split: if_splits prod.splits)

lemma consolidate_chain_mem: "consolidate_chain n av fb p s = Inr s' \<Longrightarrow> s' = s\<lparr>mem := mem s'\<rparr>"
proof (induction n arbitrary: p s)
  case (Suc n)
  then obtain q s1 where s1: "consolidate_chunk av fb p s = Inr (q, s1)"
    "(if q \<noteq> NULL then consolidate_chain n av fb q s1 else Inr s1) = Inr s'"
    by (auto simp: bindE_Inr_iff)
  then have "s1 = s\<lparr>mem := mem s1\<rparr>" "s' = s1\<lparr>mem := mem s'\<rparr>"
    using consolidate_chunk_mem Suc.IH by (auto split: if_splits)
  then show ?case by (metis (no_types, lifting) st.surjective st.update_convs(1))
qed simp

lemma consolidate_bins_mem: "consolidate_bins sy av is s = Inr s' \<Longrightarrow> s' = s\<lparr>mem := mem s'\<rparr>"
proof (induction "is" arbitrary: s)
  case (Cons i "is")
  let ?fb = "fastbin_addr av i" and ?s = "upd_mem (\<lambda>m. m(fastbin_addr av i := NULL)) s"
  obtain s1 where s1: "(if mem s ?fb \<noteq> NULL then consolidate_chain (loop_fuel sy) av ?fb (mem s ?fb) ?s else Inr ?s) = Inr s1"
    "consolidate_bins sy av is s1 = Inr s'"
    using Cons.prems by (auto simp: Let_def bindE_Inr_iff)
  have "s1 = ?s\<lparr>mem := mem s1\<rparr>" using s1(1) consolidate_chain_mem by (auto split: if_splits)
  then have "s1 = s\<lparr>mem := mem s1\<rparr>" by (simp add: upd_mem_def)
  moreover have "s' = s1\<lparr>mem := mem s'\<rparr>" using Cons.IH [OF s1(2)] .
  ultimately show ?case by (metis (no_types, lifting) st.surjective st.update_convs(1))
qed simp

lemma malloc_consolidate_mem:
  "malloc_consolidate sy av s = Inr s' \<Longrightarrow> s' = (set_have_fastchunks av False s)\<lparr>mem := mem s'\<rparr>"
  unfolding malloc_consolidate_def by (rule consolidate_bins_mem)

section \<open>The limits of the parameters\<close>

text \<open>
  What the rest of the allocator relies on: the fast bins end at \<open>MAX_FAST_SIZE\<close> (\<open>get_max_fast\<close>
  declares the contrary unreachable), the small bins of the cache at \<open>TCACHE_SMALL_BINS\<close>, the
  count of a cache bin fits in 16 bits, and every size that the cache takes has a bin there: sizes
  below 4 MiB, as the classes of larger ones are out of the array or, from \<open>2 ^ 32\<close> on, wrong.
\<close>

definition limits :: "'k st \<Rightarrow> bool" where
  "limits s \<longleftrightarrow> ucast (global_max_fast s) \<le> MAX_FAST_SIZE \<and> tcache_small_bins (mp s) \<le> TCACHE_SMALL_BINS \<and>
     tcache_count (mp s) \<le> MAX_TCACHE_COUNT \<and> tcache_max_bytes (mp s) \<le> 4194304"

text \<open>The bin of the cache that \<open>malloc\<close> and \<open>free\<close> use for a chunk size below \<open>tcache_max_bytes\<close>.\<close>

definition cache_bin :: "'k st \<Rightarrow> u64 \<Rightarrow> u64" where
  "cache_bin s sz = (if csize2tidx sz < tcache_small_bins (mp s) then csize2tidx sz else large_csize2tidx sz)"

lemma limits_cache_bin:
  assumes "limits s" "sz < tcache_max_bytes (mp s)"
  shows "cache_bin s sz < TCACHE_MAX_BINS"
proof (cases "csize2tidx sz < tcache_small_bins (mp s)")
  case True
  then have "csize2tidx sz < 64" using assms(1) unfolding limits_def by (meson order_less_le_trans)
  then show ?thesis using True by (simp add: cache_bin_def word_less_nat_alt)
next
  case False
  have sz: "unat sz < 2 ^ 22" using assms by (auto simp: limits_def word_less_nat_alt word_le_nat_alt)
  then have "bit_length (unat sz) \<le> 22" by (rule bit_length_le)
  moreover have "unat (large_csize2tidx sz) = 53 + bit_length (unat sz)"
    using sz by (intro unat_large_csize2tidx) simp
  ultimately show ?thesis using False by (simp add: cache_bin_def word_less_nat_alt)
qed

lemma set_max_fast_limit:
  assumes "v \<le> MAX_FAST_SIZE"
  shows "ucast (global_max_fast (set_max_fast v s)) \<le> MAX_FAST_SIZE"
proof -
  let ?x = "(v + 8) AND NOT 15"
  have v: "unat v \<le> 160" using assms by (simp add: word_le_nat_alt)
  then have "unat ?x = (unat v + 8) div 16 * 16"
    unfolding unat_and_not_15 by (simp add: unat_plus_64 minus_mod_eq_div_mult)
  moreover have "(unat v + 8) div 16 \<le> 168 div 16" using v by (intro div_le_mono) simp
  ultimately have x: "unat ?x \<le> 160" by simp
  let ?y = "if v \<le> MALLOC_ALIGN_MASK - SIZE_SZ then MIN_CHUNK_SIZE div 2 else (v + SIZE_SZ) AND NOT MALLOC_ALIGN_MASK"
  have "unat ?y \<le> 160" using x by (cases "v \<le> MALLOC_ALIGN_MASK - SIZE_SZ") auto
  then have "unat (ucast (ucast ?y :: u8) :: u64) \<le> 160"
    by (simp only: unsigned_ucast_eq unsigned_take_bit_eq) (simp add: take_bit_nat_def)
  then show ?thesis unfolding set_max_fast_def word_le_nat_alt st.simps by simp
qed

lemma do_set_mxfast_limits: "limits s \<Longrightarrow> limits (snd (do_set_mxfast v s))"
  using set_max_fast_limit [of v s] by (simp add: do_set_mxfast_def limits_def set_max_fast_def)

lemma small_csize:
  assumes "csize2tidx nb < TCACHE_SMALL_BINS" "32 \<le> unat nb" "unat nb < 2 ^ 32"
  shows "unat nb < 4194304"
proof -
  have "unat (nb - MINSIZE) = unat nb - 32" using assms(2) by (simp add: unat_sub word_le_nat_alt)
  then have "unat (csize2tidx nb) = (unat nb - 32) div 16" by (simp add: csize2tidx_def unat_div)
  then have "(unat nb - 32) div 16 < 64" using assms(1) by (simp add: word_less_nat_alt)
  then show ?thesis by simp
qed

lemma large_csize:
  assumes "large_csize2tidx nb < TCACHE_MAX_BINS" "unat nb < 2 ^ 32"
  shows "unat nb < 4194304"
proof -
  have "53 + bit_length (unat nb) < 76"
    using assms(1) unat_large_csize2tidx [OF assms(2)] by (simp add: word_less_nat_alt)
  then have "(2 :: nat) ^ bit_length (unat nb) \<le> 2 ^ 22" by (intro power_increasing) auto
  then show ?thesis using bit_length_bounds(1) [of "unat nb"] by simp
qed

lemma do_set_tcache_max_limits:
  assumes l: "limits s" and v: "v < 0xFFFFFFE8"
  shows "limits (snd (do_set_tcache_max v s))"
proof -
  let ?nb = "request2size v" and ?small = "csize2tidx (request2size v) < TCACHE_SMALL_BINS"
  have v': "unat v < 4294967272" "v \<le> PTRDIFF_MAX" using v by (simp_all add: word_less_nat_alt word_le_nat_alt)
  note f = request_size_facts [OF v'(2)]
  have e: "checked_request2size v = ?nb" using v'(2) by (simp add: checked_request2size_def leD)
  have nb: "unat ?nb < 2 ^ 32" "32 \<le> unat ?nb" using f(2,4) v'(1) unfolding e by auto
  have fits: "?nb + 1 \<le> 4194304"
    if "(if TCACHE_SMALL_BINS \<le> csize2tidx ?nb then large_csize2tidx ?nb else csize2tidx ?nb) < TCACHE_MAX_BINS"
  proof -
    have "unat ?nb < 4194304"
      using that small_csize [OF _ nb(2,1)] large_csize [OF _ nb(1)] by (cases ?small) (auto simp: not_less)
    then have "?nb < 4194304" by (simp add: word_less_nat_alt)
    then show ?thesis by (rule inc_le)
  qed
  have "t + 1 \<le> 64" if "t < 64" for t :: u64 using that by (rule inc_le)
  then show ?thesis using l fits by (simp add: do_set_tcache_max_def limits_def upd_mp_def Let_def)
qed

text \<open>
  A limit of exactly 4 GiB passes the test of \<open>do_set_tcache_max\<close>, because \<open>large_csize2tidx\<close> sees only
  the low half of the size; a chunk of 4 MiB is then below the limit and its class is out of range.
  It also cuts the number of small bins to 59.
\<close>

lemma tcache_max_4GiB:
  "snd (do_set_tcache_max 0x100000000 s) =
     upd_mp (\<lambda>q. q\<lparr>tcache_small_bins := 59, tcache_max_bytes := 0x100000011\<rparr>) s"
proof -
  have "request2size 0x100000000 = 0x100000010" "large_csize2tidx 0x100000010 = 58"
    "csize2tidx 0x100000010 = 0xFFFFFFF" by code_simp+
  then show ?thesis by (simp add: do_set_tcache_max_def upd_mp_def)
qed

lemma do_set_tcache_count_limits: "limits s \<Longrightarrow> limits (snd (do_set_tcache_count v s))"
  by (simp add: do_set_tcache_count_def limits_def upd_mp_def)

lemma mallopt_switch_limits: "limits s \<Longrightarrow> limits (snd (mallopt_switch q v s))"
  using do_set_mxfast_limits [of s "scast v"]
  by (simp add: mallopt_switch_def do_set_trim_threshold_def do_set_top_pad_def do_set_mmap_threshold_def
      do_set_mmaps_max_def do_set_mallopt_check_def do_set_perturb_byte_def do_set_arena_test_def
      do_set_arena_max_def limits_def upd_mp_def)

section \<open>Properties\<close>



end
