(* ===== verification/Binmap.thy ===== *)
theory Binmap
  imports Malloc SizeClasses
begin

text \<open>
  The search of the bin map in \<open>_int_malloc\<close>: the loop over words and bits of the map is the linear
  search over the bins. It ends, each round clears one of at most 128 marks.
\<close>

section \<open>Marks\<close>

text \<open>Bin number \<open>q\<close> is marked in the bin map with blocks \<open>b\<close>.\<close>

definition marked :: "(u32 \<Rightarrow> u32) \<Rightarrow> nat \<Rightarrow> bool" where
  "marked b q \<longleftrightarrow> bit (b (of_nat (q div 32))) (q mod 32)"

lemma idx_parts:
  assumes "q < 128"
  shows "idx2block (of_nat q) = of_nat (q div 32)" "idx2bit (of_nat q) = 2 ^ (q mod 32)"
proof -
  have u: "unat (of_nat q :: u32) = q" "unat (of_nat (q div 32) :: u32) = q div 32"
    using assms by (simp_all add: unat_of_nat)
  have "unat (drop_bit 5 (of_nat q :: u32)) = q div 32" unfolding unat_drop_bit u by simp
  then show "idx2block (of_nat q) = of_nat (q div 32)"
    using u(2) by (simp add: idx2block_def word_unat_eq_iff)
  have "unat ((of_nat q :: u32) AND mask 5) = q mod 32" unfolding unat_and_mask u by simp
  then show "idx2bit (of_nat q) = 2 ^ (q mod 32)"
    by (simp add: idx2bit_def mask_eq_exp_minus_1 push_bit_eq_mult)
qed

lemma get_binmap_marked: "q < 128 \<Longrightarrow> get_binmap s av (of_nat q) = 0 \<longleftrightarrow> \<not> marked (binmap s av) q"
  by (simp add: get_binmap_def idx_parts and_exp_eq_0_iff_not_bit marked_def)

lemma next_bin_at: "1 \<le> q \<Longrightarrow> q < 128 \<Longrightarrow> next_bin (bin_at av (of_nat q)) = bin_at av (of_nat (Suc q))"
proof -
  assume q: "1 \<le> q" "q < 128"
  then have "unat ((of_nat q - 1) * 2 :: u32) = (q - 1) * 2" "unat (of_nat q * 2 :: u32) = q * 2"
    by (simp_all add: unat_word_ariths unat_sub word_le_nat_alt unat_of_nat)
  then have "unat (ucast (of_nat q * 2 :: u32) :: u64) = unat (ucast ((of_nat q - 1) * 2 :: u32) + 2 :: u64)"
    using q by (simp add: unat_plus_64 unat_ucast_up)
  then have "(ucast (of_nat q * 2 :: u32) :: u64) = ucast ((of_nat q - 1) * 2 :: u32) + 2"
    by (rule unsigned_word_eqI)
  then show ?thesis by (simp add: next_bin_def bin_at_def)
qed

lemma unat_pow2_u32: "i < 32 \<Longrightarrow> unat (2 ^ i :: u32) = 2 ^ i"
proof -
  assume i: "i < 32"
  have "unat (of_nat (2 ^ i) :: u32) = 2 ^ i mod 2 ^ 32" unfolding unat_of_nat by simp
  moreover have "(2 :: nat) ^ i < 2 ^ 32" using i by (intro power_strict_increasing) auto
  ultimately show ?thesis by simp
qed

lemma above_all_bits:
  assumes "i < 32"
  shows "bm < 2 ^ i \<longleftrightarrow> (\<forall>j \<ge> i. \<not> bit (bm :: u32) j)"
proof -
  have "bm < 2 ^ i \<longleftrightarrow> unat bm div 2 ^ i = 0"
    using unat_pow2_u32 [OF assms] by (simp add: word_less_nat_alt div_eq_0_iff)
  also have "\<dots> \<longleftrightarrow> drop_bit i bm = 0" unfolding unat_drop_bit [symmetric] by (rule unat_eq_zero)
  also have "\<dots> \<longleftrightarrow> (\<forall>j \<ge> i. \<not> bit bm j)"
  proof
    assume z: "drop_bit i bm = 0"
    show "\<forall>j \<ge> i. \<not> bit bm j"
    proof (intro allI impI)
      fix j assume "i \<le> j"
      then have "bit bm j = bit (drop_bit i bm) (j - i)" by (simp add: bit_simps)
      then show "\<not> bit bm j" by (simp add: z)
    qed
  next
    assume "\<forall>j \<ge> i. \<not> bit bm j"
    then show "drop_bit i bm = 0" by (intro bit_eqI) (simp add: bit_simps)
  qed
  finally show ?thesis .
qed

lemma next_block_spec:
  assumes "c < 4"
  shows "case next_block b (of_nat c) of
      None \<Rightarrow> \<forall>c'. c < c' \<longrightarrow> c' < 4 \<longrightarrow> b (of_nat c') = 0
    | Some bl \<Rightarrow> \<exists>c'. bl = of_nat c' \<and> c < c' \<and> c' < 4 \<and> b bl \<noteq> 0 \<and> (\<forall>d. c < d \<longrightarrow> d < c' \<longrightarrow> b (of_nat d) = 0)"
  using assms
proof (induction "3 - c" arbitrary: c)
  case 0
  then have "c = 3" by simp
  then show ?case by (subst next_block.simps) simp
next
  case (Suc n)
  then have c: "c < 3" by simp
  have "of_nat c + 1 = (of_nat (Suc c) :: u32)" "\<not> 4 \<le> (of_nat (Suc c) :: u32)"
    using c by (simp, simp add: word_le_nat_alt unat_of_nat del: of_nat_Suc)
  then have e: "next_block b (of_nat c) =
      (if b (of_nat (Suc c)) = 0 then next_block b (of_nat (Suc c)) else Some (of_nat (Suc c)))"
    by (subst next_block.simps) (simp del: of_nat_Suc)
  show ?case
  proof (cases "b (of_nat (Suc c)) = 0")
    case True
    have "case next_block b (of_nat (Suc c)) of
      None \<Rightarrow> \<forall>c'. Suc c < c' \<longrightarrow> c' < 4 \<longrightarrow> b (of_nat c') = 0
    | Some bl \<Rightarrow> \<exists>c'. bl = of_nat c' \<and> Suc c < c' \<and> c' < 4 \<and> b bl \<noteq> 0 \<and>
        (\<forall>d. Suc c < d \<longrightarrow> d < c' \<longrightarrow> b (of_nat d) = 0)"
      using Suc c by (intro Suc.hyps(1)) auto
    then show ?thesis
      using True unfolding e if_P [OF True]
      by (auto split: option.splits simp del: of_nat_Suc) (metis Suc_lessD Suc_lessI)+
  next
    case False
    then show ?thesis using c unfolding e if_not_P [OF False] by (auto simp del: of_nat_Suc)
  qed
qed

section \<open>The reference: one bin after the other\<close>

text \<open>
  The search as a plain walk over bin numbers: an unmarked bin is passed over, a marked empty bin
  is unmarked, the first marked bin that is not empty is used.
\<close>

fun binmap_scan ::
  "'k sys \<Rightarrow> ptr \<Rightarrow> u64 \<Rightarrow> u64 \<Rightarrow> u32 list \<Rightarrow> 'k st \<Rightarrow> abort + ptr option \<times> 'k st" where
  "binmap_scan sy av nb bytes [] s = Inr (None, s)"
| "binmap_scan sy av nb bytes (i # is) s =
     (let victim = get_bk (mem s) (bin_at av i) in
      if get_binmap s av i = 0 then binmap_scan sy av nb bytes is s
      else if victim = bin_at av i then binmap_scan sy av nb bytes is (unmark_bin av i s)
      else
        (let sz = chunksize (mem s) victim in
         bindE (assertE ''size >= nb'' (sz \<ge> nb)) (\<lambda>_.
         bindE (split_or_exhaust sy ''malloc(): corrupted unsorted chunks 2''
                  av nb bytes victim sz s)
           (\<lambda>(p, s). Inr (Some p, s)))))"

definition bins_from :: "nat \<Rightarrow> u32 list" where
  "bins_from q = map of_nat [q..<128]"

lemma bins_from_step: "q < 128 \<Longrightarrow> bins_from q = of_nat q # bins_from (Suc q)"
  by (simp add: bins_from_def upt_rec)

lemma scan_skip:
  assumes "q \<le> q'" "q' \<le> 128" "\<And>r. q \<le> r \<Longrightarrow> r < q' \<Longrightarrow> \<not> marked (binmap s av) r"
  shows "binmap_scan sy av nb bytes (bins_from q) s = binmap_scan sy av nb bytes (bins_from q') s"
  using assms
proof (induction "q' - q" arbitrary: q)
  case (Suc n)
  have "binmap_scan sy av nb bytes (bins_from (Suc q)) s = binmap_scan sy av nb bytes (bins_from q') s"
    using Suc by (intro Suc.hyps(1)) auto
  then show ?case using Suc by (simp add: bins_from_step get_binmap_marked Let_def)
qed simp

section \<open>The loop of the code is the scan\<close>

text \<open>
  The loop is at bin \<open>q\<close>: \<open>block\<close>, \<open>bit\<close> and \<open>bin\<close> belong to it, or the bit was shifted out at the
  end of a block.
\<close>

definition search_at :: "ptr \<Rightarrow> nat \<Rightarrow> u32 \<Rightarrow> u32 \<Rightarrow> ptr \<Rightarrow> bool" where
  "search_at av q block bt bin \<longleftrightarrow> 1 \<le> q \<and>
     (q < 128 \<and> block = of_nat (q div 32) \<and> bt = 2 ^ (q mod 32) \<and> bin = bin_at av (of_nat q) \<or>
      q \<le> 128 \<and> q mod 32 = 0 \<and> block = of_nat (q div 32 - 1) \<and> bt = 0)"

lemma find_bit_finds:
  assumes "1 \<le> q" "q \<le> r" "r < 128" "r div 32 = q div 32" "marked b r"
    "\<And>k. q \<le> k \<Longrightarrow> k < r \<Longrightarrow> \<not> marked b k" "r - q < n"
  shows "find_bit n (b (of_nat (q div 32))) (bin_at av (of_nat q)) (2 ^ (q mod 32)) =
    Inr (bin_at av (of_nat r), 2 ^ (r mod 32))"
  using assms
proof (induction n arbitrary: q)
  case (Suc n)
  have m: "(2 ^ (q mod 32)) AND b (of_nat (q div 32)) = 0 \<longleftrightarrow> \<not> marked b q"
    by (simp add: marked_def and_exp_eq_0_iff_not_bit and.commute)
  show ?case
  proof (cases "q = r")
    case True
    then show ?thesis using m Suc.prems(5) by simp
  next
    case False
    then have q: "Suc q \<le> r" "\<not> marked b q" using Suc.prems(2,6) by auto
    then have d: "Suc q div 32 = q div 32" using Suc.prems(4) div_le_mono [of q "Suc q" 32] div_le_mono [of "Suc q" r 32] by simp
    then have e: "Suc q mod 32 = Suc (q mod 32)"
      using mult_div_mod_eq [of 32 q] mult_div_mod_eq [of 32 "Suc q"] by linarith
    have "find_bit n (b (of_nat (Suc q div 32))) (bin_at av (of_nat (Suc q))) (2 ^ (Suc q mod 32)) =
      Inr (bin_at av (of_nat r), 2 ^ (r mod 32))"
      using Suc.prems q d by (intro Suc.IH) auto
    moreover have "next_bin (bin_at av (of_nat q)) = bin_at av (of_nat (Suc q))"
      using Suc.prems(1-3) q(1) by (intro next_bin_at) auto
    ultimately show ?thesis
      using m q(2) d e by (simp add: push_bit_eq_mult mult.commute del: of_nat_Suc)
  qed
qed simp

lemma marks_of_block:
  assumes "q < 128"
  shows "b (of_nat (q div 32)) < 2 ^ (q mod 32) \<longleftrightarrow> (\<forall>k. q \<le> k \<longrightarrow> k div 32 = q div 32 \<longrightarrow> \<not> marked b k)"
proof -
  have "(\<forall>j \<ge> q mod 32. \<not> bit (b (of_nat (q div 32))) j) \<longleftrightarrow>
    (\<forall>k. q \<le> k \<longrightarrow> k div 32 = q div 32 \<longrightarrow> \<not> marked b k)" (is "?l \<longleftrightarrow> ?r")
  proof
    assume l: ?l
    show ?r
    proof (intro allI impI)
      fix k assume "q \<le> k" "k div 32 = q div 32"
      moreover from this have "q mod 32 \<le> k mod 32"
        using mult_div_mod_eq [of 32 q] mult_div_mod_eq [of 32 k] by linarith
      ultimately show "\<not> marked b k" using l by (simp add: marked_def)
    qed
  next
    assume r: ?r
    show ?l
    proof (intro allI impI)
      fix j assume j: "q mod 32 \<le> j"
      show "\<not> bit (b (of_nat (q div 32))) j"
      proof (cases "j < 32")
        case True
        let ?k = "q div 32 * 32 + j"
        have "?k div 32 = q div 32" "?k mod 32 = j" using True by auto
        moreover have "q \<le> ?k" using j div_mult_mod_eq [of q 32] by linarith
        ultimately show ?thesis using r by (metis marked_def)
      next
        case False
        then show ?thesis using bit_imp_le_length by force
      qed
    qed
  qed
  then show ?thesis using above_all_bits [of "q mod 32" "b (of_nat (q div 32))"] by simp
qed

lemma first_marked_of_block:
  assumes "1 \<le> q0" "q0 < 128" "k div 32 = q0 div 32" "q0 \<le> k" "marked b k"
    "q \<le> q0" "\<And>j. q \<le> j \<Longrightarrow> j < q0 \<Longrightarrow> \<not> marked b j"
  shows "\<exists>r. q \<le> r \<and> r < 128 \<and> marked b r \<and> (\<forall>j. q \<le> j \<longrightarrow> j < r \<longrightarrow> \<not> marked b j) \<and> r div 32 = q0 div 32 \<and>
    find_bit 32 (b (of_nat (q0 div 32))) (bin_at av (of_nat q0)) (2 ^ (q0 mod 32)) =
      Inr (bin_at av (of_nat r), 2 ^ (r mod 32))"
proof -
  define r where "r = (LEAST j. q0 \<le> j \<and> marked b j)"
  have r: "q0 \<le> r" "marked b r" "r \<le> k"
    using LeastI [of "\<lambda>j. q0 \<le> j \<and> marked b j" k] Least_le [of "\<lambda>j. q0 \<le> j \<and> marked b j" k] assms(4,5)
    by (auto simp: r_def)
  have l: "\<not> marked b j" if "q0 \<le> j" "j < r" for j
    using not_less_Least [of j "\<lambda>j. q0 \<le> j \<and> marked b j"] that by (auto simp: r_def)
  have d: "r div 32 = q0 div 32"
    using div_le_mono [OF r(1), of 32] div_le_mono [OF r(3), of 32] assms(3) by simp
  have "q0 div 32 < 4" using assms(2) by (simp add: div_less_iff_less_mult)
  then have "r < 128" using d mult_div_mod_eq [of 32 r] mod_less_divisor [of 32 r] by linarith
  moreover have "r - q0 < 32"
    using d mult_div_mod_eq [of 32 r] mult_div_mod_eq [of 32 q0] mod_less_divisor [of 32 r] by linarith
  ultimately have "find_bit 32 (b (of_nat (q0 div 32))) (bin_at av (of_nat q0)) (2 ^ (q0 mod 32)) =
      Inr (bin_at av (of_nat r), 2 ^ (r mod 32))"
    using r l d assms(1) by (intro find_bit_finds) auto
  moreover have "\<not> marked b j" if "q \<le> j" "j < r" for j
    using l assms(7) that by (cases "q0 \<le> j") auto
  ultimately show ?thesis using r d assms(6) \<open>r < 128\<close> by (intro exI [of _ r]) auto
qed

definition next_candidate ::
  "(u32 \<Rightarrow> u32) \<Rightarrow> ptr \<Rightarrow> ptr \<Rightarrow> u32 \<Rightarrow> u32 \<Rightarrow> u32 \<Rightarrow> (ptr \<times> u32 \<times> u32 \<times> u32) option" where
  "next_candidate b av bin block bm bt =
     (if bt > bm \<or> bt = 0
      then map_option (\<lambda>block. (bin_at av (push_bit BINMAPSHIFT block), block, b block, 1)) (next_block b block)
      else Some (bin, block, bm, bt))"

lemma next_candidate_in_block:
  assumes "search_at av q block bt bin" "\<not> (bt > b block \<or> bt = 0)"
  shows "\<exists>r. q \<le> r \<and> r < 128 \<and> marked b r \<and> (\<forall>k. q \<le> k \<longrightarrow> k < r \<longrightarrow> \<not> marked b k) \<and>
    block = of_nat (r div 32) \<and> find_bit 32 (b block) bin bt = Inr (bin_at av (of_nat r), 2 ^ (r mod 32))"
proof -
  have q: "1 \<le> q" "q < 128" "block = of_nat (q div 32)" "bt = 2 ^ (q mod 32)" "bin = bin_at av (of_nat q)"
    using assms by (auto simp: search_at_def)
  have "\<not> b (of_nat (q div 32)) < 2 ^ (q mod 32)" using assms(2) q(3,4) by simp
  then obtain k where k: "q \<le> k" "k div 32 = q div 32" "marked b k"
    using marks_of_block [OF q(2), of b] by blast
  have "\<not> marked b j" if "q \<le> j" "j < q" for j using that by simp
  from first_marked_of_block [OF q(1,2) k(2,1,3) order_refl this, of av]
  obtain r where "q \<le> r" "r < 128" "marked b r" "\<forall>k. q \<le> k \<longrightarrow> k < r \<longrightarrow> \<not> marked b k" "r div 32 = q div 32"
    "find_bit 32 (b (of_nat (q div 32))) (bin_at av (of_nat q)) (2 ^ (q mod 32)) =
      Inr (bin_at av (of_nat r), 2 ^ (r mod 32))" by blast
  then show ?thesis using q(3-5) by (intro exI [of _ r]) simp
qed

lemma end_of_block:
  assumes "search_at av q block bt bin" "bt > b block \<or> bt = 0"
  obtains c where "c < 4" "block = of_nat c" "q \<le> 32 * Suc c" "\<And>k. q \<le> k \<Longrightarrow> k < 32 * Suc c \<Longrightarrow> \<not> marked b k"
proof (cases "bt = 0")
  case True
  then have "q mod 32 = 0" "block = of_nat (q div 32 - 1)" "1 \<le> q" "q \<le> 128"
    using assms(1) unat_pow2_u32 [of "q mod 32"] by (auto simp: search_at_def)
  then show ?thesis using that [of "q div 32 - 1"] by (auto elim!: dvdE simp: mod_eq_0_iff_dvd)
next
  case False
  then have q: "q < 128" "block = of_nat (q div 32)" "bt = 2 ^ (q mod 32)"
    using assms(1) by (auto simp: search_at_def)
  then have "b (of_nat (q div 32)) < 2 ^ (q mod 32)" using assms(2) False by simp
  then have *: "\<not> marked b k" if "q \<le> k" "k div 32 = q div 32" for k
    using that marks_of_block [OF q(1), of b] by blast
  have "\<not> marked b k" if "q \<le> k" "k < 32 * Suc (q div 32)" for k
  proof -
    have "q div 32 \<le> k div 32" "k div 32 < Suc (q div 32)"
      using that by (simp_all add: div_le_mono less_mult_imp_div_less mult.commute)
    then show ?thesis using * that(1) by simp
  qed
  moreover have "q \<le> 32 * Suc (q div 32)" using mult_div_mod_eq [of 32 q] mod_less_divisor [of 32 q] by simp
  ultimately show ?thesis using q(1,2) that [of "q div 32"] by (auto simp: div_less_iff_less_mult)
qed

lemma zero_block_unmarked: "b (of_nat (k div 32)) = 0 \<Longrightarrow> \<not> marked b k"
  by (simp add: marked_def)

lemma next_candidate_spec:
  assumes "search_at av q block bt bin"
  shows "case next_candidate b av bin block (b block) bt of
      None \<Rightarrow> \<forall>k. q \<le> k \<longrightarrow> k < 128 \<longrightarrow> \<not> marked b k
    | Some (bin', block', bm', bt') \<Rightarrow>
        \<exists>r. q \<le> r \<and> r < 128 \<and> marked b r \<and> (\<forall>k. q \<le> k \<longrightarrow> k < r \<longrightarrow> \<not> marked b k) \<and>
          block' = of_nat (r div 32) \<and> bm' = b block' \<and>
          find_bit 32 bm' bin' bt' = Inr (bin_at av (of_nat r), 2 ^ (r mod 32))"
proof (cases "bt > b block \<or> bt = 0")
  case False
  then show ?thesis
    using next_candidate_in_block [where b = b, OF assms False] by (simp add: next_candidate_def)
next
  case True
  obtain c where c: "c < 4" "block = of_nat c" "q \<le> 32 * Suc c"
    "\<And>k. q \<le> k \<Longrightarrow> k < 32 * Suc c \<Longrightarrow> \<not> marked b k"
    using end_of_block [where b = b, OF assms True] by blast
  have z: "\<not> marked b k" if "q \<le> k" "k < 32 * c'" "\<And>d. c < d \<Longrightarrow> d < c' \<Longrightarrow> b (of_nat d) = 0" for k c'
  proof (cases "k < 32 * Suc c")
    case True
    then show ?thesis using c(4) that(1) by blast
  next
    case False
    then have "c < k div 32" "k div 32 < c'" using that(2) by (simp_all add: div_less_iff_less_mult less_eq_div_iff_mult_less_eq Suc_le_eq [symmetric] mult.commute)
    then show ?thesis using that(3) by (intro zero_block_unmarked)
  qed
  show ?thesis
  proof (cases "next_block b block")
    case None
    then have "\<And>d. c < d \<Longrightarrow> d < 4 \<Longrightarrow> b (of_nat d) = 0"
      using next_block_spec [OF c(1), of b] c(2) by auto
    then show ?thesis using z [of _ 4] True None by (simp add: next_candidate_def)
  next
    case (Some bl)
    then obtain c' where c': "bl = of_nat c'" "c < c'" "c' < 4" "b bl \<noteq> 0"
      "\<And>d. c < d \<Longrightarrow> d < c' \<Longrightarrow> b (of_nat d) = 0"
      using next_block_spec [OF c(1), of b] c(2) by auto
    obtain j where j: "bit (b bl) j" "j < 32"
      using c'(4) bit_imp_le_length by (force simp: bit_eq_iff)
    let ?q = "32 * c'"
    have q: "1 \<le> ?q" "?q < 128" "(?q + j) div 32 = ?q div 32" "?q \<le> ?q + j" "marked b (?q + j)" "q \<le> ?q"
      using c'(1-3) j c(3) by (auto simp: marked_def)
    have "bin_at av (push_bit 5 bl) = bin_at av (of_nat ?q)"
      by (simp add: c'(1) push_bit_eq_mult mult.commute)
    moreover have "\<not> marked b k" if "q \<le> k" "k < ?q" for k using z [of k c'] that c'(5) by blast
    from first_marked_of_block [OF q this, of av]
    obtain r where "q \<le> r" "r < 128" "marked b r" "\<forall>k. q \<le> k \<longrightarrow> k < r \<longrightarrow> \<not> marked b k" "r div 32 = c'"
      "find_bit 32 (b (of_nat c')) (bin_at av (of_nat ?q)) 1 = Inr (bin_at av (of_nat r), 2 ^ (r mod 32))"
      by auto
    ultimately show ?thesis
      using c'(1) Some True by (auto simp: next_candidate_def intro!: exI [of _ r])
  qed
qed

lemma unmark_marked:
  "marked (binmap (unmark_bin av i s) av) k \<Longrightarrow> marked (binmap s av) k"
  by (auto simp: unmark_bin_def marked_def bit_simps split: if_splits)

lemma unmark_self: "r < 128 \<Longrightarrow> \<not> marked (binmap (unmark_bin av (of_nat r) s) av) r"
  by (simp add: unmark_bin_def marked_def idx_parts bit_simps)

lemma search_at_next:
  assumes "1 \<le> r" "r < 128"
  shows "search_at av (Suc r) (of_nat (r div 32)) (push_bit 1 (2 ^ (r mod 32))) (next_bin (bin_at av (of_nat r)))"
proof (cases "r mod 32 = 31")
  case True
  then have "Suc r mod 32 = 0" "Suc r div 32 = Suc (r div 32)" by (simp_all add: mod_Suc div_Suc)
  then show ?thesis using assms True by (simp add: search_at_def)
next
  case False
  then have "Suc r mod 32 = Suc (r mod 32)" "Suc r div 32 = r div 32" by (simp_all add: mod_Suc div_Suc)
  moreover have "Suc r \<noteq> 128"
  proof
    assume "Suc r = 128"
    then have "r = 127" by simp
    then show False using False by simp
  qed
  ultimately show ?thesis
    using assms next_bin_at [OF assms, of av] by (simp add: search_at_def push_bit_eq_mult mult.commute)
qed

lemma binmap_search_is_scan:
  assumes "search_at av q block bt bin" "bm = binmap s av block"
    "card {r. q \<le> r \<and> r < 128 \<and> marked (binmap s av) r} < n"
  shows "binmap_search n sy av nb bytes bin block bm bt s = binmap_scan sy av nb bytes (bins_from q) s"
  using assms
proof (induction n arbitrary: q block bt bin bm s)
  case (Suc n)
  let ?b = "binmap s av"
  note spec = next_candidate_spec [where b = ?b, OF Suc.prems(1)]
  note unfold = binmap_search.simps(2) next_candidate_def [symmetric] Suc.prems(2)
  have q: "1 \<le> q" "q \<le> 128" using Suc.prems(1) by (auto simp: search_at_def)
  show ?case
  proof (cases "next_candidate ?b av bin block (?b block) bt")
    case None
    then have "\<not> marked ?b k" if "q \<le> k" "k < 128" for k using spec that by simp
    then have "binmap_scan sy av nb bytes (bins_from q) s = Inr (None, s)"
      using scan_skip [OF q(2), of s av] by (simp add: bins_from_def)
    then show ?thesis unfolding unfold None by simp
  next
    case (Some c)
    obtain bin' block' bm' bt' where c: "c = (bin', block', bm', bt')" by (cases c)
    then obtain r where r: "q \<le> r" "r < 128" "marked ?b r" "\<And>k. q \<le> k \<Longrightarrow> k < r \<Longrightarrow> \<not> marked ?b k"
      "block' = of_nat (r div 32)" "bm' = ?b block'"
      "find_bit 32 bm' bin' bt' = Inr (bin_at av (of_nat r), 2 ^ (r mod 32))"
      using spec Some by auto
    have scan: "binmap_scan sy av nb bytes (bins_from q) s =
      binmap_scan sy av nb bytes (of_nat r # bins_from (Suc r)) s"
      using scan_skip [where av = av and s = s, OF r(1) _ r(4)] r(2) by (simp add: bins_from_step)
    have u: "s\<lparr>binmap := (binmap s)(av := ?b(block' := bm' AND NOT (2 ^ (r mod 32))))\<rparr> = unmark_bin av (of_nat r) s"
      using r(2,5,6) by (simp add: unmark_bin_def idx_parts)
    let ?s = "unmark_bin av (of_nat r) s"
    let ?M = "\<lambda>q b. {k. q \<le> k \<and> k < 128 \<and> marked b k}"
    have "?M (Suc r) (binmap ?s av) \<subseteq> ?M q ?b - {r}"
      using r(1) unmark_marked by auto
    then have "card (?M (Suc r) (binmap ?s av)) \<le> card (?M q ?b - {r})" by (intro card_mono) auto
    also have "\<dots> < card (?M q ?b)" using r(1-3) by (intro card_Diff1_less) auto
    finally have fuel: "card (?M (Suc r) (binmap ?s av)) < n" using Suc.prems(3) by simp
    have "search_at av (Suc r) block' (push_bit 1 (2 ^ (r mod 32))) (next_bin (bin_at av (of_nat r)))"
      using search_at_next [of r av] q(1) r(1,2,5) by simp
    moreover have "bm' AND NOT (2 ^ (r mod 32)) = binmap ?s av block'" by (simp add: u [symmetric])
    ultimately have "binmap_search n sy av nb bytes (next_bin (bin_at av (of_nat r))) block'
        (bm' AND NOT (2 ^ (r mod 32))) (push_bit 1 (2 ^ (r mod 32))) ?s =
      binmap_scan sy av nb bytes (bins_from (Suc r)) ?s"
      using fuel by (intro Suc.IH)
    then show ?thesis
      unfolding unfold Some scan
      using r(2,3,7) u by (simp add: c Let_def get_binmap_marked)
  qed
qed simp

lemma binmap_search_eq_scan:
  assumes "unat idx < 127"
  shows "int_malloc_binmap sy av nb bytes idx s =
    binmap_scan sy av nb bytes (map of_nat [Suc (unat idx)..<128]) s"
proof -
  let ?q = "Suc (unat idx)"
  have i: "idx + 1 = of_nat ?q" by simp
  have "search_at av ?q (idx2block (idx + 1)) (idx2bit (idx + 1)) (bin_at av (idx + 1))"
    using assms unfolding i by (simp add: search_at_def idx_parts del: of_nat_Suc)
  moreover have "card {r. ?q \<le> r \<and> r < 128 \<and> marked (binmap s av) r} < 129"
  proof -
    have "card {r. ?q \<le> r \<and> r < 128 \<and> marked (binmap s av) r} \<le> card {..<128 :: nat}"
      by (intro card_mono) auto
    then show ?thesis by simp
  qed
  ultimately show ?thesis
    unfolding int_malloc_binmap_def Let_def bins_from_def [symmetric]
    by (intro binmap_search_is_scan) simp_all
qed

section \<open>Properties\<close>

text \<open>
  C14: the search of the bin map is a linear search. The loop of \<open>_int_malloc\<close> over words and bits
  of the bin map ends, its assertion \<open>bit != 0\<close> holds, and it does what a walk over the bins above
  \<open>idx\<close> does that skips unmarked bins, unmarks empty ones and takes the last chunk of the first
  marked bin that is not empty.
\<close>
theorem binmap_search_is_linear_scan:
  assumes "unat idx < 127"
  shows "int_malloc_binmap sy av nb bytes idx s =
    binmap_scan sy av nb bytes (map of_nat [Suc (unat idx)..<128]) s"
  using assms by (rule binmap_search_eq_scan)

text \<open>An arena with one mark, for the empty bin 126 (at 67632): the search unmarks it.\<close>

definition example_mark :: "unit st" where
  "example_mark = (static_state ())\<lparr>mem := (\<lambda>_. 0)(67656 := 67632),
     binmap := (\<lambda>_ _. 0)(65536 := (\<lambda>_. 0)(3 := 1073741824))\<rparr>"

lemma binmap_search_is_linear_scan_witness:
  "\<exists>s'. int_malloc_binmap bare_sys 65536 1024 1000 125 example_mark = Inr (None, s') \<and>
     binmap s' 65536 3 = 0"
proof -
  have u: "unmark_bin 65536 126 example_mark = example_mark\<lparr>binmap := (\<lambda>_ _. 0)(65536 := (\<lambda>_. 0)(3 := 0))\<rparr>"
    by (simp add: unmark_bin_def example_mark_def idx2block_def idx2bit_def static_state_def)
  have v: "get_bk (mem example_mark) (bin_at 65536 126) = bin_at 65536 126"
    "get_binmap example_mark 65536 126 \<noteq> 0"
    by (simp_all add: example_mark_def get_bk_def bin_at_def get_binmap_def idx2block_def idx2bit_def)
  have "map of_nat [Suc (unat (125 :: u32))..<128] = [126, 127 :: u32]" by (simp add: upt_rec)
  then show ?thesis
    using binmap_search_is_linear_scan [of 125 bare_sys 65536 1024 1000 example_mark] u v
    by (simp add: Let_def get_binmap_def)
qed

end
