(* ===== verification/FreshHeap.thy ===== *)
theory FreshHeap
  imports Layout Binmap
begin

text \<open>
  An arena without free chunks: how \<open>malloc_init_state\<close> makes it, and what \<open>_int_malloc\<close> does in it
  from its first stage to the last, for one request and for a sequence of requests.
\<close>

section \<open>An arena without free chunks\<close>

definition no_free_chunks :: "'k st \<Rightarrow> ptr \<Rightarrow> bool" where
  "no_free_chunks s av \<longleftrightarrow>
     (\<forall>i. 1 \<le> i \<longrightarrow> i < 128 \<longrightarrow> bin_list (mem s) (bin_at av (of_nat i)) []) \<and>
     (\<forall>i. i < 10 \<longrightarrow> mem s (fastbin_addr av (of_nat i)) = NULL) \<and> \<not> have_fastchunks s av"

lemma no_free_bin:
  assumes "no_free_chunks s av" "1 \<le> unat i" "unat i < 128"
  shows "get_fd (mem s) (bin_at av i) = bin_at av i" "get_bk (mem s) (bin_at av i) = bin_at av i"
proof -
  have "bin_list (mem s) (bin_at av (of_nat (unat i))) []" using assms unfolding no_free_chunks_def by blast
  then show "get_fd (mem s) (bin_at av i) = bin_at av i" "get_bk (mem s) (bin_at av i) = bin_at av i"
    by (simp_all add: bin_list_empty_iff)
qed

lemma bin_at_nat:
  assumes "1 \<le> i" "i < 128"
  shows "bin_at av (of_nat i) = av + (80 + 16 * of_nat i)"
proof -
  have "unat ((of_nat i - 1) * 2 :: u32) = (i - 1) * 2"
    using assms by (simp add: unat_word_ariths unat_sub word_le_nat_alt unat_of_nat)
  then have "(ucast ((of_nat i - 1) * 2 :: u32) :: u64) = of_nat ((i - 1) * 2)" by (metis of_nat_unat)
  also have "\<dots> = 2 * of_nat i - 2" using assms(1) by (simp add: of_nat_diff algebra_simps)
  finally show ?thesis unfolding bin_at_def by (simp only:) (simp add: algebra_simps)
qed

lemma bin_at_aligned: "aligned av \<Longrightarrow> 1 \<le> i \<Longrightarrow> i < 128 \<Longrightarrow> aligned (bin_at av (of_nat i))"
proof -
  assume a: "aligned av" "1 \<le> i" "i < 128"
  then have "unat (80 + 16 * of_nat i :: u64) = 80 + 16 * i" by (simp add: unat_word_ariths unat_of_nat)
  then show ?thesis using a by (simp add: bin_at_nat aligned_add multiple_iff)
qed

text \<open>The bins after \<open>malloc_init_state\<close> links each one to itself.\<close>

definition link_self :: "ptr \<Rightarrow> nat \<Rightarrow> memory \<Rightarrow> memory" where
  "link_self av i m = (let bin = bin_at av (of_nat i) in set_fd (set_bk m bin bin) bin bin)"

lemma bin_at_inj:
  assumes "1 \<le> i" "i < 128" "1 \<le> j" "j < 128" "bin_at av (of_nat i) = bin_at av (of_nat j)"
  shows "i = j"
proof -
  have "of_nat (80 + 16 * i) = (of_nat (80 + 16 * j) :: u64)"
    using assms bin_at_nat [of i av] bin_at_nat [of j av] by simp
  then have "unat (of_nat (80 + 16 * i) :: u64) = unat (of_nat (80 + 16 * j) :: u64)" by simp
  then show ?thesis using assms(2,4) by (simp only: unat_of_nat) simp
qed

lemma link_self_bins:
  assumes "aligned av" "1 \<le> i" "i < 128" "1 \<le> j" "j < 128"
  shows "bin_list (link_self av j m) (bin_at av (of_nat i)) [] \<longleftrightarrow>
    i = j \<or> bin_list m (bin_at av (of_nat i)) []"
proof -
  have "bin_at av (of_nat i) = bin_at av (of_nat j) \<longleftrightarrow> i = j" using bin_at_inj assms by blast
  then show ?thesis
    using bin_at_aligned [OF assms(1)] assms(2-) by (auto simp: link_self_def Let_def bin_list_empty_iff)
qed

lemma link_self_other:
  assumes "1 \<le> j" "j < 128" "\<And>k. 112 \<le> k \<Longrightarrow> k < 2144 \<Longrightarrow> a \<noteq> av + of_nat k"
  shows "link_self av j m a = m a"
proof -
  have "bin_at av (of_nat j) + 16 = av + of_nat (96 + 16 * j)" "bin_at av (of_nat j) + 24 = av + of_nat (104 + 16 * j)"
    by (simp_all add: bin_at_nat [OF assms(1,2)])
  then show ?thesis
    using assms(3) [of "96 + 16 * j"] assms(3) [of "104 + 16 * j"] assms(1,2)
    by (simp add: link_self_def set_fd_def set_bk_def Let_def del: of_nat_add)
qed

lemma init_bins_eq: "init_bins av m = fold (link_self av) [1..<128] m"
  unfolding init_bins_def link_self_def [abs_def] ..

text \<open>\<open>malloc_init_state\<close> links each bin to itself and writes nothing outside the bins.\<close>

lemma init_bins_links:
  assumes "aligned av" "n \<le> 128"
  shows "\<forall>i. 1 \<le> i \<longrightarrow> i < n \<longrightarrow> bin_list (fold (link_self av) [1..<n] m) (bin_at av (of_nat i)) []"
  using assms(2)
proof (induction n)
  case (Suc n)
  then show ?case
    by (cases "n = 0") (auto simp: link_self_bins [OF assms(1)] less_Suc_eq simp del: of_nat_Suc)
qed simp

lemma init_bins_other:
  assumes "\<And>k. 112 \<le> k \<Longrightarrow> k < 2144 \<Longrightarrow> a \<noteq> av + of_nat k" "n \<le> 128"
  shows "fold (link_self av) [1..<n] m a = m a"
  using assms(2)
proof (induction n)
  case (Suc n)
  then show ?case by (cases "n = 0") (auto simp: link_self_other [OF _ _ assms(1)])
qed simp

lemma field_neq: "j < 4096 \<Longrightarrow> k < 4096 \<Longrightarrow> j \<noteq> k \<Longrightarrow> av + of_nat j \<noteq> av + (of_nat k :: u64)"
proof
  assume a: "j < 4096" "k < 4096" "j \<noteq> k" and e: "av + of_nat j = av + (of_nat k :: u64)"
  then have "unat (of_nat j :: u64) = unat (of_nat k :: u64)" by simp
  then show False using a by (simp add: unat_of_nat)
qed

lemma fastbin_addr_nat: "i < 10 \<Longrightarrow> fastbin_addr av (of_nat i) = av + of_nat (16 + 8 * i)"
proof -
  assume "i < 10"
  then have "unat (of_nat i :: u32) = i" by (simp add: unat_of_nat)
  then have "(ucast (of_nat i :: u32) :: u64) = of_nat i" by (metis of_nat_unat)
  then show ?thesis by (simp add: fastbin_addr_def)
qed

lemma bin_fields_nat:
  assumes "1 \<le> i" "i < 128"
  shows "bin_at av (of_nat i) + 16 = av + of_nat (96 + 16 * i)"
    "bin_at av (of_nat i) + 24 = av + of_nat (104 + 16 * i)"
  by (simp_all add: bin_at_nat [OF assms])

lemma no_free_chunks_cong:
  assumes "no_free_chunks s av" "have_fastchunks s' av = have_fastchunks s av"
    "\<And>k. k < 2144 \<Longrightarrow> k \<noteq> 96 \<Longrightarrow> mem s' (av + of_nat k) = mem s (av + of_nat k)"
  shows "no_free_chunks s' av"
  unfolding no_free_chunks_def
proof (intro conjI allI impI)
  fix i :: nat assume i: "1 \<le> i" "i < 128"
  have "get_fd (mem s') (bin_at av (of_nat i)) = get_fd (mem s) (bin_at av (of_nat i))"
    "get_bk (mem s') (bin_at av (of_nat i)) = get_bk (mem s) (bin_at av (of_nat i))"
    unfolding get_fd_def get_bk_def bin_fields_nat [OF i] using i by (auto intro!: assms(3) simp del: of_nat_add)
  then show "bin_list (mem s') (bin_at av (of_nat i)) []"
    using assms(1) i by (simp add: no_free_chunks_def bin_list_empty_iff)
next
  fix i :: nat assume i: "i < 10"
  have "mem s' (fastbin_addr av (of_nat i)) = mem s (fastbin_addr av (of_nat i))"
    unfolding fastbin_addr_nat [OF i] using i by (intro assms(3)) auto
  then show "mem s' (fastbin_addr av (of_nat i)) = NULL" using assms(1) i by (simp add: no_free_chunks_def)
qed (use assms(1,2) in \<open>simp add: no_free_chunks_def\<close>)

lemma init_state_word:
  assumes "k < 2144" "k \<noteq> 96"
  shows "mem (malloc_init_state sy av s) (av + of_nat k) = init_bins av (mem s) (av + of_nat k)"
proof -
  have "av + of_nat k \<noteq> av + of_nat 96" using assms by (intro field_neq) auto
  then show ?thesis
    by (simp add: malloc_init_state_def Let_def upd_mem_def set_top_def set_have_fastchunks_def
        set_noncontiguous_def set_max_fast_def)
qed

lemma init_state_bins:
  assumes "aligned av"
  shows "1 \<le> i \<Longrightarrow> i < 128 \<Longrightarrow> bin_list (mem (malloc_init_state sy av s)) (bin_at av (of_nat i)) []"
    "i < 10 \<Longrightarrow> mem (malloc_init_state sy av s) (fastbin_addr av (of_nat i)) = mem s (fastbin_addr av (of_nat i))"
proof -
  assume i: "1 \<le> i" "i < 128"
  have "bin_list (init_bins av (mem s)) (bin_at av (of_nat i)) []"
    unfolding init_bins_eq using init_bins_links [OF assms order_refl] i by blast
  moreover have "mem (malloc_init_state sy av s) (bin_at av (of_nat i) + 16) = init_bins av (mem s) (bin_at av (of_nat i) + 16)"
    "mem (malloc_init_state sy av s) (bin_at av (of_nat i) + 24) = init_bins av (mem s) (bin_at av (of_nat i) + 24)"
    unfolding bin_fields_nat [OF i] using i by (auto intro!: init_state_word simp del: of_nat_add)
  ultimately show "bin_list (mem (malloc_init_state sy av s)) (bin_at av (of_nat i)) []"
    by (simp add: bin_list_empty_iff get_fd_def get_bk_def)
next
  assume i: "i < 10"
  have "init_bins av (mem s) (fastbin_addr av (of_nat i)) = mem s (fastbin_addr av (of_nat i))"
    unfolding init_bins_eq fastbin_addr_nat [OF i] using i by (intro init_bins_other field_neq) auto
  then show "mem (malloc_init_state sy av s) (fastbin_addr av (of_nat i)) = mem s (fastbin_addr av (of_nat i))"
    using init_state_word [of "16 + 8 * i" sy av s] i unfolding fastbin_addr_nat [OF i] by simp
qed

lemma init_state_scalars:
  "get_top (mem (malloc_init_state sy av s)) av = unsorted_chunks av"
  "\<not> have_fastchunks (malloc_init_state sy av s) av"
  "contiguous (malloc_init_state sy av s) av \<longleftrightarrow> av = main_arena sy \<and> contiguous s av"
  by (auto simp: malloc_init_state_def Let_def upd_mem_def set_have_fastchunks_def get_top_def set_top_def
      initial_top_def set_noncontiguous_def set_max_fast_def contiguous_def)

lemma init_state_no_free_chunks:
  assumes "aligned av" "\<And>i. i < 10 \<Longrightarrow> mem s (fastbin_addr av (of_nat i)) = NULL"
  shows "no_free_chunks (malloc_init_state sy av s) av"
  unfolding no_free_chunks_def using init_state_bins [OF assms(1)] assms(2) init_state_scalars(2) by (metis (no_types))

section \<open>\<open>_int_malloc\<close> in such an arena\<close>

lemma scan_empty:
  "(\<And>i. i \<in> set is \<Longrightarrow> get_bk (mem s) (bin_at av i) = bin_at av i) \<Longrightarrow>
     \<exists>b. binmap_scan sy av nb bytes is s = Inr (None, s\<lparr>binmap := b\<rparr>)"
proof (induction "is" arbitrary: s)
  case Nil
  then show ?case by (auto intro: exI [of _ "binmap s"])
next
  case (Cons i "is")
  then show ?case
    using Cons.IH [of s] Cons.IH [of "unmark_bin av i s"] by (auto simp: Let_def unmark_bin_def)
qed

lemma no_fast_chunk:
  assumes "no_free_chunks s av" "ucast (global_max_fast s) \<le> MAX_FAST_SIZE" "32 \<le> unat nb"
  shows "int_malloc_fastbin av nb bytes s = Inr (None, s)"
proof -
  have "mem s (fastbin_addr av (fastbin_index nb)) = NULL" if "nb \<le> ucast (global_max_fast s)"
  proof -
    have "unat nb \<le> 160" using that assms(2) by (simp add: word_le_nat_alt)
    then have "unat (fastbin_index nb) < 10" using assms(3) by (simp add: unat_fastbin_index)
    then have "mem s (fastbin_addr av (of_nat (unat (fastbin_index nb)))) = NULL"
      using assms(1) unfolding no_free_chunks_def by blast
    then show ?thesis by simp
  qed
  then show ?thesis using assms(2) by (auto simp: int_malloc_fastbin_def get_max_fast_def Let_def)
qed

lemma no_binned_chunk:
  assumes "no_free_chunks s av" "MINSIZE \<le> nb"
  shows "in_smallbin_range nb \<Longrightarrow> int_malloc_smallbin sy av nb bytes s = Inr (None, s)"
    "\<not> in_smallbin_range nb \<Longrightarrow> int_malloc_largebin sy av nb bytes (bin_index nb) s = Inr (None, s)"
    "get_bk (mem s) (unsorted_chunks av) = unsorted_chunks av"
    "\<exists>b. int_malloc_binmap sy av nb bytes (bin_index nb) s = Inr (None, s\<lparr>binmap := b\<rparr>)"
proof -
  have b: "2 \<le> unat (bin_index nb)" "unat (bin_index nb) \<le> 126"
    using bin_index_range [OF assms(2)] by (simp_all add: word_le_nat_alt)
  then have e: "get_fd (mem s) (bin_at av (bin_index nb)) = bin_at av (bin_index nb)"
    "get_bk (mem s) (bin_at av (bin_index nb)) = bin_at av (bin_index nb)"
    using no_free_bin [OF assms(1), of "bin_index nb"] by auto
  show "int_malloc_smallbin sy av nb bytes s = Inr (None, s)" if "in_smallbin_range nb"
    using that e(2) by (simp add: int_malloc_smallbin_def bin_index_def)
  show "int_malloc_largebin sy av nb bytes (bin_index nb) s = Inr (None, s)" if "\<not> in_smallbin_range nb"
    using e(1) by (simp add: int_malloc_largebin_def Let_def)
  show "get_bk (mem s) (unsorted_chunks av) = unsorted_chunks av"
    using no_free_bin [OF assms(1), of 1] by (simp add: unsorted_chunks_def)
  have "get_bk (mem s) (bin_at av i) = bin_at av i"
    if "i \<in> set (map of_nat [Suc (unat (bin_index nb))..<128])" for i
    using that no_free_bin(2) [OF assms(1), of i] by (auto simp: unat_of_nat simp del: of_nat_Suc)
  then show "\<exists>b. int_malloc_binmap sy av nb bytes (bin_index nb) s = Inr (None, s\<lparr>binmap := b\<rparr>)"
    unfolding binmap_search_eq_scan [OF le_less_trans [OF b(2)], simplified] by (rule scan_empty)
qed

lemma int_malloc_top_none:
  "int_malloc_top sy av nb bytes s = Inr (None, s') \<Longrightarrow> s' = s"
  by (auto simp: int_malloc_top_def Let_def split: if_splits)

lemma int_malloc_without_free_chunks:
  assumes "no_free_chunks s av" "ucast (global_max_fast s) \<le> MAX_FAST_SIZE"
    "bytes \<le> PTRDIFF_MAX" "av \<noteq> NULL" "loop_fuel sy \<noteq> 0"
  defines "nb \<equiv> checked_request2size bytes"
  shows "\<exists>b. int_malloc sy av bytes s =
    bindE (int_malloc_top sy av nb bytes (s\<lparr>binmap := b\<rparr>)) (\<lambda>(r, s).
      case r of Some p \<Rightarrow> Inr (p, s)
      | None \<Rightarrow> int_malloc_sys sy nb av bytes s)"
proof -
  have nb: "32 \<le> unat nb" "MINSIZE \<le> nb"
    using request_size_facts(2) [OF assms(3)] by (simp_all add: nb_def word_le_nat_alt)
  have n: "loop_fuel sy = Suc (loop_fuel sy - 1)" using assms(5) by simp
  obtain b where b: "int_malloc_binmap sy av nb bytes (bin_index nb) s = Inr (None, s\<lparr>binmap := b\<rparr>)"
    using no_binned_chunk(4) [OF assms(1) nb(2)] by blast
  have h: "\<not> have_fastchunks s av" using assms(1) by (simp add: no_free_chunks_def)
  have loop: "int_malloc_loop (loop_fuel sy) sy av nb bytes tc tn 0 False s =
    bindE (int_malloc_top sy av nb bytes (s\<lparr>binmap := b\<rparr>)) (\<lambda>(r, s).
      case r of Some p \<Rightarrow> Inr (p, s)
      | None \<Rightarrow> int_malloc_sys sy nb av bytes s)" for tc tn
    using no_binned_chunk(2) [OF assms(1) nb(2), of sy bytes] no_binned_chunk(3) [OF assms(1) nb(2)] b
    by (subst n, subst int_malloc_loop.simps(2), subst n, subst unsorted_loop.simps(2)) 
      (auto simp: Let_def h bindE_def dest: int_malloc_top_none split: sum.splits option.splits)
  have "\<not> PTRDIFF_MAX < bytes" using assms(3) by simp
  then have e: "int_malloc sy av bytes s = int_malloc_loop (loop_fuel sy) sy av nb bytes (csize2tidx nb)
      (if tcache s \<noteq> NULL \<and> csize2tidx nb < tcache_small_bins (mp s) then nb else 0) 0 False s"
    using assms(4) no_fast_chunk [OF assms(1,2) nb(1), of bytes] no_binned_chunk(1) [OF assms(1) nb(2), of sy bytes] h
    by (cases "in_smallbin_range nb") (simp_all add: int_malloc_def Let_def nb_def [symmetric] del: not_less)
  show ?thesis unfolding e loop by blast
qed


section \<open>A heap without free chunks\<close>

text \<open>
  The heap of arena \<open>av\<close>, which lies behind the arena, is tiled by the chunks \<open>xs\<close> in use and top.
\<close>

definition fresh_heap :: "'k st \<Rightarrow> ptr \<Rightarrow> ptr \<Rightarrow> ptr list \<Rightarrow> bool" where
  "fresh_heap s av base xs \<longleftrightarrow> region (mem s) av base xs \<and> no_free_chunks s av \<and>
     perturb_byte s = 0 \<and> ucast (global_max_fast s) \<le> MAX_FAST_SIZE \<and>
     av \<noteq> NULL \<and> unat av + 2144 \<le> unat base \<and>
     chunksize (mem s) (get_top (mem s) av) \<le> system_mem s av"

lemma carve_top_fresh:
  fixes s :: "'k st" and sy :: "'k sys" and b
  assumes "fresh_heap s av base xs" "nb AND MALLOC_ALIGN_MASK = 0" "MINSIZE \<le> nb"
    "unat nb + 32 \<le> unat (chunksize (mem s) (get_top (mem s) av))"
  defines "s' \<equiv> s\<lparr>mem := carve_top (mem s) av nb (main_bit sy av), binmap := b\<rparr>"
  shows "fresh_heap s' av base (xs @ [get_top (mem s) av])"
proof -
  let ?tp = "get_top (mem s) av"
  have f: "region (mem s) av base xs" "no_free_chunks s av" "perturb_byte s = 0"
    "ucast (global_max_fast s) \<le> MAX_FAST_SIZE" "av \<noteq> NULL" "unat av + 2144 \<le> unat base"
    "chunksize (mem s) ?tp \<le> system_mem s av"
    using assms(1) by (simp_all add: fresh_heap_def)
  note c = carve_top_region [OF f(1) assms(2-4) main_bit_small(2) [of sy av]]
  note t = region_top [OF f(1)]
  have u: "unat base \<le> unat ?tp" using tiles_le [OF t(3)] by (simp add: word_le_nat_alt)
  have above: "mem s' (av + of_nat k) = mem s (av + of_nat k)" if "k < 2144" "k \<noteq> 96" for k
  proof -
    have "unat (av + of_nat k) = unat av + k"
      using that(1) f(6) unat_lt_64 [of base] by (simp add: unat_plus_64 unat_of_nat)
    moreover have "unat (?tp + 8) = unat ?tp + 8" "unat (?tp + nb + 8) = unat ?tp + unat nb + 8"
      using t(6) assms(4) by (simp_all add: unat_plus_64 mod_simps)
    ultimately have "av + of_nat k \<noteq> ?tp + 8" "av + of_nat k \<noteq> ?tp + nb + 8"
      using that(1) f(6) u by auto
    moreover have "av + of_nat k \<noteq> av + of_nat 96" using that by (intro field_neq) auto
    ultimately show ?thesis using c(6) [of "av + of_nat k"] by (auto simp: s'_def)
  qed
  have "no_free_chunks s' av"
    by (rule no_free_chunks_cong [OF f(2) _ above]) (simp_all add: s'_def)
  moreover have "chunksize (mem s') (get_top (mem s') av) \<le> system_mem s' av"
  proof -
    have "chunksize (mem s) ?tp - nb \<le> chunksize (mem s) ?tp"
      using assms(4) by (intro word_sub_le) (simp add: word_le_nat_alt)
    then show ?thesis using c(2,5) f(7) by (simp add: s'_def)
  qed
  ultimately show ?thesis using c(1) f(3-6) by (simp add: fresh_heap_def s'_def)
qed

lemma request_aligned:
  "req \<le> PTRDIFF_MAX \<Longrightarrow> checked_request2size req AND MALLOC_ALIGN_MASK = 0 \<and> MINSIZE \<le> checked_request2size req"
  using request_size_facts(1,2) [of req] by (simp add: multiple_iff word_le_nat_alt)

lemma int_malloc_fresh_heap_cases:
  assumes "fresh_heap s av base xs" "bytes \<le> PTRDIFF_MAX" "loop_fuel sy \<noteq> 0"
  defines "nb \<equiv> checked_request2size bytes" and "tp \<equiv> get_top (mem s) av"
  shows "chunksize (mem s) tp < nb + MINSIZE \<Longrightarrow>
      \<exists>b. int_malloc sy av bytes s = int_malloc_sys sy nb av bytes (s\<lparr>binmap := b\<rparr>)"
    "\<not> chunksize (mem s) tp < nb + MINSIZE \<Longrightarrow> unat nb + 32 \<le> unat (chunksize (mem s) tp) \<and>
      (\<exists>b. int_malloc sy av bytes s =
        Inr (chunk2mem tp, s\<lparr>mem := carve_top (mem s) av nb (main_bit sy av), binmap := b\<rparr>))"
proof -
  have f: "no_free_chunks s av" "perturb_byte s = 0"
    "ucast (global_max_fast s) \<le> MAX_FAST_SIZE" "av \<noteq> NULL" "chunksize (mem s) tp \<le> system_mem s av"
    using assms(1) by (simp_all add: fresh_heap_def tp_def)
  have "unat nb < 2 ^ 64 - 32"
    using request_size_facts [OF assms(2)] assms(2) [unfolded PTRDIFF_MAX_unat]
    unfolding nb_def by auto
  then have u: "unat (nb + 32) = unat nb + 32" by (rule unat_nb_plus)
  obtain b where b: "int_malloc sy av bytes s = bindE (int_malloc_top sy av nb bytes (s\<lparr>binmap := b\<rparr>)) (\<lambda>(r, s).
      case r of Some p \<Rightarrow> Inr (p, s) | None \<Rightarrow> int_malloc_sys sy nb av bytes s)"
    using int_malloc_without_free_chunks [OF f(1,3) assms(2) f(4) assms(3)] unfolding nb_def by blast
  show "\<exists>b. int_malloc sy av bytes s = int_malloc_sys sy nb av bytes (s\<lparr>binmap := b\<rparr>)"
    if "chunksize (mem s) tp < nb + MINSIZE"
  proof -
    have "int_malloc_top sy av nb bytes (s\<lparr>binmap := b\<rparr>) = Inr (None, s\<lparr>binmap := b\<rparr>)"
      using that f(5) by (simp add: int_malloc_top_def Let_def tp_def not_less leD)
    then show ?thesis using b by auto
  qed
  show "unat nb + 32 \<le> unat (chunksize (mem s) tp) \<and> (\<exists>b. int_malloc sy av bytes s =
        Inr (chunk2mem tp, s\<lparr>mem := carve_top (mem s) av nb (main_bit sy av), binmap := b\<rparr>))"
    if big: "\<not> chunksize (mem s) tp < nb + MINSIZE"
  proof -
    have "int_malloc_top sy av nb bytes (s\<lparr>binmap := b\<rparr>) =
      Inr (Some (chunk2mem tp), s\<lparr>mem := carve_top (mem s) av nb (main_bit sy av), binmap := b\<rparr>)"
      using big int_malloc_top_carves [of "s\<lparr>binmap := b\<rparr>" av nb sy bytes] f(2,5) by (simp add: tp_def)
    then show ?thesis using big u b by (auto simp: word_less_nat_alt)
  qed
qed

lemma int_malloc_fresh_heap:
  assumes "fresh_heap s av base xs" "bytes \<le> PTRDIFF_MAX" "loop_fuel sy \<noteq> 0"
  defines "nb \<equiv> checked_request2size bytes" and "tp \<equiv> get_top (mem s) av"
  shows "if chunksize (mem s) tp < nb + MINSIZE
    then \<exists>b. int_malloc sy av bytes s = int_malloc_sys sy nb av bytes (s\<lparr>binmap := b\<rparr>)
    else \<exists>s'. int_malloc sy av bytes s = Inr (chunk2mem tp, s') \<and> fresh_heap s' av base (xs @ [tp]) \<and>
      chunksize (mem s') tp = nb \<and> get_top (mem s') av = tp + nb \<and>
      chunksize (mem s') (tp + nb) = chunksize (mem s) tp - nb \<and>
      (\<forall>a. mem s' a \<noteq> mem s a \<longrightarrow> a = av + 96 \<or> a = tp + 8 \<or> a = tp + nb + 8)"
proof (cases "chunksize (mem s) tp < nb + MINSIZE")
  case True
  then show ?thesis using int_malloc_fresh_heap_cases(1) [OF assms(1-3)] by (simp add: nb_def tp_def)
next
  case False
  then obtain b where fits: "unat nb + 32 \<le> unat (chunksize (mem s) tp)" and
    run: "int_malloc sy av bytes s =
      Inr (chunk2mem tp, s\<lparr>mem := carve_top (mem s) av nb (main_bit sy av), binmap := b\<rparr>)"
    using int_malloc_fresh_heap_cases(2) [OF assms(1-3)] unfolding nb_def tp_def by blast
  have r: "region (mem s) av base xs" using assms(1) by (simp add: fresh_heap_def)
  have nb: "nb AND MALLOC_ALIGN_MASK = 0" "MINSIZE \<le> nb"
    using request_aligned [OF assms(2)] by (simp_all add: nb_def)
  have "fresh_heap (s\<lparr>mem := carve_top (mem s) av nb (main_bit sy av), binmap := b\<rparr>) av base (xs @ [tp])"
    using carve_top_fresh [OF assms(1) nb] fits by (simp add: tp_def)
  then show ?thesis
    using False run carve_top_region(2,3,5,6) [OF r nb _ main_bit_small(2) [of sy av]] fits
    by (auto simp: tp_def)
qed

text \<open>A sequence of requests.\<close>

fun int_mallocs :: "'k sys \<Rightarrow> ptr \<Rightarrow> u64 list \<Rightarrow> 'k st \<Rightarrow> abort + ptr list \<times> 'k st" where
  "int_mallocs sy av [] s = Inr ([], s)"
| "int_mallocs sy av (n # ns) s =
     bindE (int_malloc sy av n s) (\<lambda>(p, s).
     bindE (int_mallocs sy av ns s) (\<lambda>(ps, s). Inr (p # ps, s)))"

lemma int_mallocs_fresh_heap:
  assumes "fresh_heap s av base xs" "\<forall>n \<in> set ns. n \<le> PTRDIFF_MAX" "loop_fuel sy \<noteq> 0"
    "(\<Sum>n \<leftarrow> ns. unat (checked_request2size n)) + 32 \<le> unat (chunksize (mem s) (get_top (mem s) av))"
  shows "\<exists>ps s'. int_mallocs sy av ns s = Inr (map chunk2mem ps, s') \<and> fresh_heap s' av base (xs @ ps) \<and>
    map (chunksize (mem s')) ps = map checked_request2size ns \<and>
    (\<forall>x \<in> set xs. chunksize (mem s') x = chunksize (mem s) x)"
  using assms(1,2,4)
proof (induction ns arbitrary: s xs)
  case Nil
  then show ?case by auto
next
  case (Cons n ns)
  let ?tp = "get_top (mem s) av" and ?nb = "checked_request2size n"
  have r: "region (mem s) av base xs" using Cons.prems(1) by (simp add: fresh_heap_def)
  note t = region_top [OF r]
  have fits: "unat ?nb + 32 \<le> unat (chunksize (mem s) ?tp)" using Cons.prems(3) by simp
  then have "unat (?nb + 32) = unat ?nb + 32" using unat_lt_64 [of "chunksize (mem s) ?tp"] by (intro unat_nb_plus) simp
  then have "\<not> chunksize (mem s) ?tp < ?nb + MINSIZE" using fits by (simp add: word_less_nat_alt)
  then obtain s1 where s1: "int_malloc sy av n s = Inr (chunk2mem ?tp, s1)" "fresh_heap s1 av base (xs @ [?tp])"
    "chunksize (mem s1) ?tp = ?nb" "get_top (mem s1) av = ?tp + ?nb"
    "chunksize (mem s1) (?tp + ?nb) = chunksize (mem s) ?tp - ?nb"
    "\<And>a. mem s1 a \<noteq> mem s a \<Longrightarrow> a = av + 96 \<or> a = ?tp + 8 \<or> a = ?tp + ?nb + 8"
    using int_malloc_fresh_heap [OF Cons.prems(1) _ assms(3), of n] Cons.prems(2) by auto
  have "unat (chunksize (mem s) ?tp - ?nb) = unat (chunksize (mem s) ?tp) - unat ?nb"
    using fits by (simp add: unat_sub word_le_nat_alt)
  then have "(\<Sum>n \<leftarrow> ns. unat (checked_request2size n)) + 32 \<le> unat (chunksize (mem s1) (get_top (mem s1) av))"
    using Cons.prems(3) s1(4,5) by simp
  then obtain ps s' where ps: "int_mallocs sy av ns s1 = Inr (map chunk2mem ps, s')"
    "fresh_heap s' av base ((xs @ [?tp]) @ ps)" "map (chunksize (mem s')) ps = map checked_request2size ns"
    "\<And>x. x \<in> set (xs @ [?tp]) \<Longrightarrow> chunksize (mem s') x = chunksize (mem s1) x"
    using Cons.IH [OF s1(2)] Cons.prems(2) by auto
  have "chunksize (mem s1) x = chunksize (mem s) x" if "x \<in> set xs" for x
  proof -
    have x: "aligned x" "x < ?tp" using t(8) [OF that] by auto
    have "unat (?tp + ?nb) = unat ?tp + unat ?nb" using t(6) fits by (simp add: unat_plus_64)
    then have "x \<noteq> ?tp + ?nb" "x \<noteq> ?tp" using x(2) by (auto simp: word_less_nat_alt)
    moreover have "x + 8 \<noteq> av + 96" using head_ne_top_field [OF t(1) x(1)] by simp
    ultimately have "mem s1 (x + 8) = mem s (x + 8)" using s1(6) [of "x + 8"] by auto
    then show ?thesis by (simp add: chunksize_def chunksize_nomask_def)
  qed
  then show ?case
    using s1(1,3) ps by (intro exI [of _ "?tp # ps"] exI [of _ s']) auto
qed

section \<open>Properties\<close>

text \<open>
  C30: \<open>malloc_init_state\<close> makes every bin a well-formed empty circular list, top the unsorted bin seen
  as a chunk, and the fast chunks flag false. The fast bins it does not write: they keep what they
  held, and as they are null in zeroed static storage, the arena then has no free chunks.
\<close>
theorem init_state_is_empty:
  assumes "aligned av"
  shows "(\<forall>i. 1 \<le> i \<longrightarrow> i < 128 \<longrightarrow> bin_list (mem (malloc_init_state sy av s)) (bin_at av (of_nat i)) []) \<and>
    (\<forall>i < 10. mem (malloc_init_state sy av s) (fastbin_addr av (of_nat i)) = mem s (fastbin_addr av (of_nat i))) \<and>
    get_top (mem (malloc_init_state sy av s)) av = unsorted_chunks av \<and>
    \<not> have_fastchunks (malloc_init_state sy av s) av \<and>
    (contiguous (malloc_init_state sy av s) av \<longleftrightarrow> av = main_arena sy \<and> contiguous s av)"
  using init_state_bins [OF assms] init_state_scalars by (metis (no_types))

definition example_arena :: "unit st" where
  "example_arena = malloc_init_state bare_sys 65536 (static_state ())"

lemma init_state_is_empty_witness:
  "bin_list (mem example_arena) (bin_at 65536 127) [] \<and> mem example_arena (fastbin_addr 65536 9) = NULL \<and>
   get_top (mem example_arena) 65536 = 65632"
proof -
  have "bin_list (mem example_arena) (bin_at 65536 (of_nat 127)) [] \<and>
    mem example_arena (fastbin_addr 65536 (of_nat 9)) = mem (static_state ()) (fastbin_addr 65536 (of_nat 9)) \<and>
    get_top (mem example_arena) 65536 = unsorted_chunks 65536"
    unfolding example_arena_def
    by (intro conjI init_state_is_empty [THEN conjunct1, rule_format] init_state_is_empty [THEN conjunct2, THEN conjunct1, rule_format]
        init_state_is_empty [THEN conjunct2, THEN conjunct2, THEN conjunct1]) (simp_all add: aligned_def)
  then show ?thesis by (simp add: static_state_def unsorted_chunks_def bin_at_def)
qed

text \<open>
  \<open>_int_malloc\<close> in a heap without free chunks, through all its stages: fast bin, small or large
  bin, unsorted list, bin map and top. If top is too small for the request it asks the system for
  memory, with nothing changed but the bin map. Else it returns the memory of the old top as a
  chunk of the padded size, the heap is well-formed with this chunk as its last one, and no word
  changes besides the two headers and \<open>av->top\<close>.
\<close>
theorem malloc_without_free_chunks:
  assumes "fresh_heap s av base xs" "bytes \<le> PTRDIFF_MAX" "loop_fuel sy \<noteq> 0"
  defines "nb \<equiv> checked_request2size bytes" and "tp \<equiv> get_top (mem s) av"
  shows "if chunksize (mem s) tp < nb + MINSIZE
    then \<exists>b. int_malloc sy av bytes s = int_malloc_sys sy nb av bytes (s\<lparr>binmap := b\<rparr>)
    else \<exists>s'. int_malloc sy av bytes s = Inr (chunk2mem tp, s') \<and> fresh_heap s' av base (xs @ [tp]) \<and>
      chunksize (mem s') tp = nb \<and> get_top (mem s') av = tp + nb \<and>
      (\<forall>a. mem s' a \<noteq> mem s a \<longrightarrow> a = av + 96 \<or> a = tp + 8 \<or> a = tp + nb + 8)"
  using int_malloc_fresh_heap [OF assms(1-3)] unfolding nb_def tp_def by auto

text \<open>The arena \<open>example_arena\<close> with a top chunk of 4096 bytes at 131072.\<close>

definition example_fresh :: "unit st" where
  "example_fresh = example_arena\<lparr>mem := (mem example_arena)(65632 := 131072, 131080 := 4097),
     system_mem := (\<lambda>_. 0)(65536 := 4096)\<rparr>"

lemma example_fresh_heap: "fresh_heap example_fresh 65536 131072 []"
proof -
  have e: "no_free_chunks example_arena 65536"
    unfolding example_arena_def by (rule init_state_no_free_chunks) (simp_all add: aligned_def static_state_def)
  have "no_free_chunks example_fresh 65536"
  proof (rule no_free_chunks_cong [OF e])
    fix k :: nat assume k: "k < 2144" "k \<noteq> 96"
    have "unat (65536 + of_nat k :: u64) = 65536 + k" using k by (simp add: unat_plus_64 unat_of_nat)
    then have "65536 + of_nat k \<noteq> (65632 :: u64)" "65536 + of_nat k \<noteq> (131080 :: u64)" using k by auto
    then show "mem example_fresh (65536 + of_nat k) = mem example_arena (65536 + of_nat k)"
      by (simp add: example_fresh_def)
  qed (simp add: example_fresh_def)
  then show ?thesis
    by (simp add: fresh_heap_def region_def example_fresh_def example_arena_def get_top_def chunksize_def
        chunksize_nomask_def next_chunk_def prev_inuse_def aligned_def malloc_init_state_def bare_sys_def
        static_state_def upd_mem_def set_max_fast_def set_have_fastchunks_def Let_def)
qed

lemma example_fresh_top: "get_top (mem example_fresh) 65536 = 131072" "chunksize (mem example_fresh) 131072 = 4096"
  by (simp_all add: example_fresh_def get_top_def chunksize_def chunksize_nomask_def)

lemma malloc_without_free_chunks_witness:
  "\<exists>s'. int_malloc bare_sys 65536 100 example_fresh = Inr (131088, s') \<and>
     fresh_heap s' 65536 131072 [131072] \<and> get_top (mem s') 65536 = 131184"
  using malloc_without_free_chunks [OF example_fresh_heap, of 100 bare_sys]
  by (auto simp: example_fresh_top checked_request2size_def request2size_def bare_sys_def chunk2mem_def)

text \<open>
  Allocations do not overlap. Any sequence of requests that fits in top succeeds, and the
  chunks it returns tile the heap behind those that were there, in the order of the requests, each
  of the size of its request; the sizes of the earlier chunks stay as they are.
\<close>
theorem allocations_do_not_overlap:
  assumes "fresh_heap s av base xs" "\<forall>n \<in> set ns. n \<le> PTRDIFF_MAX" "loop_fuel sy \<noteq> 0"
    "(\<Sum>n \<leftarrow> ns. unat (checked_request2size n)) + 32 \<le> unat (chunksize (mem s) (get_top (mem s) av))"
  shows "\<exists>ps s'. int_mallocs sy av ns s = Inr (map chunk2mem ps, s') \<and> fresh_heap s' av base (xs @ ps) \<and>
    map (chunksize (mem s')) ps = map checked_request2size ns \<and>
    (\<forall>x \<in> set xs. chunksize (mem s') x = chunksize (mem s) x)"
  using int_mallocs_fresh_heap [OF assms] .

lemma allocations_do_not_overlap_witness:
  "\<exists>ps s'. int_mallocs bare_sys 65536 [100, 20, 1000] example_fresh = Inr (map chunk2mem ps, s') \<and>
     map (chunksize (mem s')) ps = [112, 32, 1008]"
proof -
  have r: "checked_request2size 100 = 112" "checked_request2size 20 = 32" "checked_request2size 1000 = 1008"
    by (simp_all add: checked_request2size_def request2size_def)
  have l: "\<forall>n \<in> set [100, 20, 1000]. n \<le> PTRDIFF_MAX" "loop_fuel bare_sys \<noteq> 0"
    "(\<Sum>n \<leftarrow> [100, 20, 1000]. unat (checked_request2size n)) + 32
       \<le> unat (chunksize (mem example_fresh) (get_top (mem example_fresh) 65536))"
    by (simp_all add: example_fresh_top r bare_sys_def)
  show ?thesis
    using allocations_do_not_overlap [OF example_fresh_heap l] unfolding list.map r
    by (elim exE conjE) (intro exI conjI; assumption)
qed

end
