(* ===== verification/CheckProps.thy ===== *)
theory CheckProps
  imports Check FreshHeap
begin

text \<open>
  The debugging checks of the code as a specification: they accept a heap without free chunks, and
  what \<open>_int_malloc\<close> makes of it.
\<close>

section \<open>The bits of a header\<close>

lemma head_bits:
  assumes "sz AND MALLOC_ALIGN_MASK = 0"
  shows "(sz OR PREV_INUSE) AND PREV_INUSE \<noteq> 0" "(sz OR PREV_INUSE) AND IS_MMAPPED = 0"
    "(sz OR PREV_INUSE) AND NON_MAIN_ARENA = 0" "(sz OR PREV_INUSE) AND NOT SIZE_BITS = sz"
    "(sz OR PREV_INUSE) AND NOT (PREV_INUSE OR NON_MAIN_ARENA) = sz"
proof -
  have z: "\<not> bit sz i" if "i < 4" for i
  proof -
    have "sz AND mask 4 = 0" using assms by (simp add: mask_lits)
    then have "\<not> bit (sz AND mask 4) i" by simp
    then show ?thesis using that by (simp add: bit_simps)
  qed
  show "(sz OR PREV_INUSE) AND NOT SIZE_BITS = sz" using assms by (intro size_with_bits) simp_all
  show "(sz OR PREV_INUSE) AND PREV_INUSE \<noteq> 0"
    using bit_and_iff [of "sz OR 1" 1 0] by (auto simp: bit_simps)
  show "(sz OR PREV_INUSE) AND IS_MMAPPED = 0" "(sz OR PREV_INUSE) AND NON_MAIN_ARENA = 0"
    using and_exp_eq_0_iff_not_bit [of "sz OR 1" 1] and_exp_eq_0_iff_not_bit [of "sz OR 1" 2] z [of 1] z [of 2]
    by (simp_all add: bit_simps)
  show "(sz OR PREV_INUSE) AND NOT (PREV_INUSE OR NON_MAIN_ARENA) = sz"
  proof (rule bit_word_eqI)
    fix n assume n: "n < LENGTH(64)"
    have "bit (4 :: u64) n \<longleftrightarrow> n = 2"
      using bit_exp_iff [of 2 n, where 'a = "64 word"] n by auto
    then have "bit (1 OR 4 :: u64) n \<longleftrightarrow> n = 0 \<or> n = 2"
      unfolding bit_or_iff by (auto simp: bit_1_iff)
    then show "bit ((sz OR PREV_INUSE) AND NOT (PREV_INUSE OR NON_MAIN_ARENA)) n = bit sz n"
      using z n unfolding bit_and_iff bit_not_iff bit_or_iff by (auto simp: bit_1_iff)
  qed
qed

section \<open>The checker on a heap without free chunks\<close>

text \<open>
  The main arena's heap is the contiguous area from \<open>sbrk_base\<close> of \<open>system_mem\<close> bytes, and top is
  not marked as mapped.
\<close>

definition accounted :: "'k sys \<Rightarrow> ptr \<Rightarrow> ptr \<Rightarrow> 'k st \<Rightarrow> bool" where
  "accounted sy av base s \<longleftrightarrow>
     av = main_arena sy \<and> (\<forall>t p. arena_for_chunk sy t p = av) \<and> powerof2 (dl_pagesize sy) \<and>
     sbrk_base (mp s) = base \<and> base + system_mem s av = next_chunk (mem s) (get_top (mem s) av) \<and>
     \<not> chunk_is_mmapped (mem s) (get_top (mem s) av)"

lemma accountedD:
  assumes "accounted sy av base s"
  shows "main_arena sy = av" "arena_for_chunk sy t p = av" "powerof2 (dl_pagesize sy)" "sbrk_base (mp s) = base"
    "base + system_mem s av = get_top (mem s) av + chunksize (mem s) (get_top (mem s) av)"
    "\<not> chunk_is_mmapped (mem s) (get_top (mem s) av)"
  using assms unfolding accounted_def next_chunk_def by blast+

lemma check_fastbins_empty:
  assumes "\<And>i. i \<in> set is \<Longrightarrow> mem s (fastbin_addr av i) = NULL" "loop_fuel sy \<noteq> 0"
  shows "check_fastbins is sy av mx s = Inr ()"
  using assms(1)
proof (induction "is")
  case (Cons i "is")
  obtain n where "loop_fuel sy = Suc n" using assms(2) by (cases "loop_fuel sy") auto
  then show ?case using Cons by (simp add: assertE_def)
qed simp

lemma check_bins_empty:
  assumes "\<And>j. j \<in> set js \<Longrightarrow> get_bk (mem s) (bin_at av (of_nat j)) = bin_at av (of_nat j)" "loop_fuel sy \<noteq> 0"
  shows "check_bins js sy av s = Inr ()"
  using assms(1)
proof (induction js)
  case (Cons j js)
  obtain n where n: "loop_fuel sy = Suc n" using assms(2) by (cases "loop_fuel sy") auto
  have "check_bin (loop_fuel sy) sy av (of_nat j) (get_bk (mem s) (bin_at av (of_nat j))) s = Inr ()"
    using Cons.prems [of j] unfolding n by (simp add: Let_def)
  then show ?case using Cons by (simp add: assertE_def Let_def)
qed simp

lemma checker_accepts_fresh_heap:
  assumes "fresh_heap s av base xs" "accounted sy av base s" "loop_fuel sy \<noteq> 0"
  shows "do_check_malloc_state sy av s = Inr ()"
proof -
  let ?tp = "get_top (mem s) av"
  have f: "region (mem s) av base xs" "no_free_chunks s av" "ucast (global_max_fast s) \<le> MAX_FAST_SIZE"
    "unat av + 2144 \<le> unat base"
    using assms(1) by (simp_all add: fresh_heap_def)
  note t = region_top [OF f(1)]
  have "unat base \<le> unat ?tp" using tiles_le [OF t(3)] by (simp add: word_le_nat_alt)
  then have "?tp \<noteq> NULL" using f(4) by auto
  moreover have "check_fastbins [0, 1, 2, 3, 4, 5, 6, 7, 8, 9] sy av mx s = Inr ()" for mx
  proof (rule check_fastbins_empty [OF _ assms(3)])
    fix i :: u32 assume "i \<in> set [0, 1, 2, 3, 4, 5, 6, 7, 8, 9]"
    then have "unat i < 10" by auto
    then have "mem s (fastbin_addr av (of_nat (unat i))) = NULL" using f(2) unfolding no_free_chunks_def by blast
    then show "mem s (fastbin_addr av i) = NULL" by simp
  qed
  moreover have "check_bins [1..<128] sy av s = Inr ()"
    using f(2) by (intro check_bins_empty [OF _ assms(3)]) (simp add: no_free_chunks_def bin_list_empty_iff)
  moreover have "do_check_chunk sy av ?tp s = Inr ()"
    using t(4,7) accountedD(6) [OF assms(2)] by (simp add: do_check_chunk_def Let_def)
  moreover have "(ucast (global_max_fast s) :: u64) AND NOT 1 \<le> request2size MAX_FAST_SIZE"
  proof -
    have "(ucast (global_max_fast s) :: u64) AND NOT 1 \<le> MAX_FAST_SIZE"
      using word_and_le2 f(3) by (rule order_trans)
    moreover have "MAX_FAST_SIZE \<le> request2size MAX_FAST_SIZE" by (simp add: request2size_def)
    ultimately show ?thesis by (rule order_trans)
  qed
  ultimately show ?thesis
    using accountedD(1,3-5) [OF assms(2)] f(3)
    by (simp add: do_check_malloc_state_def Let_def get_max_fast_def leD assertE_def
        del: check_fastbins.simps check_bins.simps upt_rec_numeral)
qed

section \<open>Allocation from top passes the checks\<close>

lemma carved_heads:
  assumes "region m av base xs" "nb AND MALLOC_ALIGN_MASK = 0" "MINSIZE \<le> nb"
    "unat nb + 32 \<le> unat (chunksize m (get_top m av))"
  defines "tp \<equiv> get_top m av" and "m' \<equiv> carve_top m av nb 0"
  shows "chunksize_nomask m' tp = nb OR PREV_INUSE"
    "chunksize_nomask m' (tp + nb) = (chunksize m tp - nb) OR PREV_INUSE"
    "get_top m' av = tp + nb" "chunksize m' tp = nb" "chunksize m' (tp + nb) = chunksize m tp - nb"
    "(chunksize m tp - nb) AND MALLOC_ALIGN_MASK = 0" "MINSIZE \<le> chunksize m tp - nb"
    "aligned tp" "base \<le> tp"
proof -
  note t = region_top [OF assms(1), folded tp_def]
  have nz: "nb \<noteq> 0" using assms(3) by auto
  have m': "m' = m(av + 96 := tp + nb, tp + 8 := nb OR PREV_INUSE, tp + nb + 8 := (chunksize m tp - nb) OR PREV_INUSE)"
    by (simp add: m'_def carve_top_def Let_def set_top_def set_head_def chunk_at_offset_def tp_def)
  show "chunksize_nomask m' tp = nb OR PREV_INUSE"
    "chunksize_nomask m' (tp + nb) = (chunksize m tp - nb) OR PREV_INUSE"
    using nz by (simp_all add: m' chunksize_nomask_def)
  show "get_top m' av = tp + nb" "chunksize m' tp = nb" "chunksize m' (tp + nb) = chunksize m tp - nb"
    using carve_top_region(2,3,5) [OF assms(1-4), of 0] by (simp_all add: m'_def tp_def)
  show "(chunksize m tp - nb) AND MALLOC_ALIGN_MASK = 0" using aligned_sub [OF t(5) assms(2)] .
  show "MINSIZE \<le> chunksize m tp - nb" using assms(4) by (simp add: word_le_nat_alt unat_sub tp_def)
  show "aligned tp" "base \<le> tp" using t(2) tiles_le [OF t(3)] .
qed

lemma carved_chunk_passes:
  fixes s :: "'k st" and sy :: "'k sys" and b
  assumes "region (mem s) av base xs" "nb AND MALLOC_ALIGN_MASK = 0" "MINSIZE \<le> nb"
    "unat nb + 32 \<le> unat (chunksize (mem s) (get_top (mem s) av))" "accounted sy av base s"
  defines "tp \<equiv> get_top (mem s) av"
  defines "s' \<equiv> s\<lparr>mem := carve_top (mem s) av nb (main_bit sy av), binmap := b\<rparr>"
  shows "accounted sy av base s'" "do_check_malloced_chunk sy av tp nb s' = Inr ()"
proof -
  note acc = accountedD(1,2,4,3,5) [OF assms(5), folded tp_def]
  note h = carved_heads [OF assms(1-4), folded tp_def]
  note bits = head_bits [OF assms(2)] head_bits [OF h(6)]
  have m': "mem s' = carve_top (mem s) av nb 0" using acc(1) by (simp add: s'_def main_bit_def)
  note top' = h(3) [folded m'] and hd = h(1,2) [folded m'] and cs = h(4,5) [folded m']
  have mm: "\<not> chunk_is_mmapped (mem s') tp" "\<not> chunk_is_mmapped (mem s') (tp + nb)"
    "chunk_main_arena (mem s') tp" "prev_inuse (mem s') tp" "prev_inuse (mem s') (tp + nb)" "inuse (mem s') tp"
    using bits by (simp_all add: chunk_is_mmapped_def chunk_main_arena_def prev_inuse_def inuse_def
        inuse_bit_at_offset_def hd cs)
  have sm: "system_mem s' av = system_mem s av" by (simp add: s'_def)
  have lim: "tp + nb + (chunksize (mem s) tp - nb) - system_mem s av = base"
    using acc(5) by (simp add: algebra_simps)
  show "accounted sy av base s'"
    using acc mm(2) by (simp add: accounted_def next_chunk_def top' cs sm) (simp add: s'_def)
  have ne: "tp \<noteq> tp + nb" using assms(3) by auto
  have chunk: "do_check_chunk sy av tp s' = Inr ()"
    using mm(1) ne h(9) lim by (simp add: do_check_chunk_def Let_def top' cs sm assertE_def)
  have inuse: "do_check_inuse_chunk sy av tp s' = Inr ()"
    using chunk mm h(7) by (simp add: do_check_inuse_chunk_def Let_def top' cs next_chunk_def assertE_def)
  have "- 32 <s (0 :: u64)" by code_simp
  then show "do_check_malloced_chunk sy av tp nb s' = Inr ()"
    using inuse mm acc(1,2) assms(2,3) bits(5) h(8)
    by (simp add: do_check_malloced_chunk_def do_check_remalloced_chunk_def Let_def assertE_def hd
        misaligned_chunk_iff)
qed

section \<open>Properties\<close>

text \<open>
  C13: what \<open>_int_malloc\<close> does in a heap without free chunks (\<open>fresh_heap\<close>: all bins and fast bins are empty) satisfies
  the assertions that the authors wrote for it. For a request that fits in top, the chunk that is cut from
  top passes \<open>do_check_malloced_chunk\<close> with its padded size, and the arena passes the whole heap check
  \<open>do_check_malloc_state\<close>, as it did before. Chunks taken from bins or fast bins are not covered; for the latter the
  authors do not claim their \<open>PREV_INUSE\<close> bit.
\<close>
theorem allocation_passes_heap_checks:
  assumes "fresh_heap s av base xs" "accounted sy av base s" "bytes \<le> PTRDIFF_MAX" "loop_fuel sy \<noteq> 0"
  defines "nb \<equiv> checked_request2size bytes" and "tp \<equiv> get_top (mem s) av"
  assumes "nb + MINSIZE \<le> chunksize (mem s) tp"
  shows "do_check_malloc_state sy av s = Inr () \<and>
    (\<exists>s'. int_malloc sy av bytes s = Inr (chunk2mem tp, s') \<and>
      do_check_malloced_chunk sy av tp nb s' = Inr () \<and> do_check_malloc_state sy av s' = Inr ())"
proof -
  have r: "region (mem s) av base xs" using assms(1) by (simp add: fresh_heap_def)
  have nb: "nb AND MALLOC_ALIGN_MASK = 0" "MINSIZE \<le> nb"
    using request_aligned [OF assms(3)] by (simp_all add: nb_def)
  obtain b where fits: "unat nb + 32 \<le> unat (chunksize (mem s) tp)" and
    run: "int_malloc sy av bytes s =
      Inr (chunk2mem tp, s\<lparr>mem := carve_top (mem s) av nb (main_bit sy av), binmap := b\<rparr>)"
    using int_malloc_fresh_heap_cases(2) [OF assms(1,3,4)] assms(7) unfolding nb_def tp_def by (meson leD)
  note c = carved_chunk_passes [OF r nb fits [unfolded tp_def] assms(2), of b, folded tp_def]
  have "fresh_heap (s\<lparr>mem := carve_top (mem s) av nb (main_bit sy av), binmap := b\<rparr>) av base (xs @ [tp])"
    using carve_top_fresh [OF assms(1) nb fits [unfolded tp_def]] by (simp add: tp_def)
  then show ?thesis
    using run c checker_accepts_fresh_heap [OF _ _ assms(4)] assms(1,2) by blast
qed

definition example_accounted :: "unit st" where
  "example_accounted = example_fresh\<lparr>mp := mp_init\<lparr>sbrk_base := 131072\<rparr>\<rparr>"

lemma allocation_passes_heap_checks_witness:
  "do_check_malloc_state bare_sys 65536 example_accounted = Inr () \<and>
   (\<exists>s'. int_malloc bare_sys 65536 100 example_accounted = Inr (131088, s') \<and>
      do_check_malloced_chunk bare_sys 65536 131072 112 s' = Inr ())"
proof -
  have "fresh_heap example_accounted 65536 131072 []"
    using example_fresh_heap by (simp add: fresh_heap_def no_free_chunks_def example_accounted_def)
  moreover have "accounted bare_sys 65536 131072 example_accounted"
    by (simp add: accounted_def bare_sys_def example_accounted_def example_fresh_def next_chunk_def get_top_def
        chunksize_def chunksize_nomask_def chunk_is_mmapped_def powerof2_def)
  moreover have "get_top (mem example_accounted) 65536 = 131072" "chunksize (mem example_accounted) 131072 = 4096"
    using example_fresh_top by (simp_all add: example_accounted_def)
  ultimately show ?thesis
    using allocation_passes_heap_checks [of example_accounted 65536 131072 "[]" bare_sys 100]
    by (auto simp: checked_request2size_def request2size_def bare_sys_def chunk2mem_def)
qed

end
