(* ===== verification/Growth.thy ===== *)
theory Growth
  imports CheckProps Mmap
begin

text \<open>
  How the heap of the main arena grows: \<open>sysmalloc\<close> asks \<open>MORECORE\<close> for whole pages and extends top,
  and \<open>_int_malloc\<close> allocates from it.
\<close>

section \<open>A larger top\<close>

lemma region_larger_top:
  assumes "region m av base xs" "sz AND MALLOC_ALIGN_MASK = 0" "chunksize m (get_top m av) \<le> sz"
    "unat (get_top m av) + unat sz < 2 ^ 64"
  defines "m' \<equiv> set_head m (get_top m av) (sz OR PREV_INUSE)"
  shows "region m' av base xs" "get_top m' av = get_top m av" "chunksize m' (get_top m av) = sz"
    "chunksize_nomask m' (get_top m av) = sz OR PREV_INUSE"
    "\<And>a. a \<noteq> get_top m av + 8 \<Longrightarrow> m' a = m a"
proof -
  let ?tp = "get_top m av"
  note t = region_top [OF assms(1)]
  have ne: "?tp + 8 \<noteq> av + 96" using head_ne_top_field [OF t(1,2)] .
  have m': "m' = m(?tp + 8 := sz OR PREV_INUSE)" by (simp add: m'_def set_head_def)
  show frame: "\<And>a. a \<noteq> ?tp + 8 \<Longrightarrow> m' a = m a" by (simp add: m')
  show top': "get_top m' av = ?tp" using ne by (simp add: m' get_top_def)
  show hd: "chunksize_nomask m' ?tp = sz OR PREV_INUSE" by (simp add: m' chunksize_nomask_def)
  then show cs: "chunksize m' ?tp = sz" using head_bits(4) [OF assms(2)] by (simp add: chunksize_def)
  have pi: "prev_inuse m' ?tp" using hd head_bits(1) [OF assms(2)] by (simp add: prev_inuse_def)
  have "tiles m' base xs ?tp"
  proof (rule tiles_cong [THEN iffD2, OF _ t(3)])
    fix x assume "x \<in> set xs"
    then have "x < ?tp" using t(8) by blast
    then have "x + 8 \<noteq> ?tp + 8" by auto
    then show "m' (x + 8) = m (x + 8)" by (rule frame)
  qed
  moreover have "MINSIZE \<le> sz" using t(4) assms(3) by (rule order_trans)
  ultimately show "region m' av base xs"
    using t(1,2) assms(2,4) pi by (simp add: region_def top' tiles_snoc cs next_chunk_def)
qed

section \<open>The contiguous heap of the main arena\<close>

definition heap_end :: "'k st \<Rightarrow> ptr \<Rightarrow> ptr" where
  "heap_end s av = next_chunk (mem s) (get_top (mem s) av)"

text \<open>
  A heap without free chunks that grows by \<open>sbrk\<close>: it ends at a page boundary, and huge pages are
  off. The page size is \<open>2 ^ k\<close>.
\<close>

definition growing :: "'k sys \<Rightarrow> nat \<Rightarrow> 'k st \<Rightarrow> ptr \<Rightarrow> ptr \<Rightarrow> ptr list \<Rightarrow> bool" where
  "growing sy k s av base xs \<longleftrightarrow>
     fresh_heap s av base xs \<and> accounted sy av base s \<and> contiguous s av \<and>
     dl_pagesize sy = 2 ^ k \<and> 4 \<le> k \<and> k < 63 \<and> heap_end s av mod 2 ^ k = 0 \<and>
     thp_pagesize (mp s) = 0 \<and> thp_mode (mp s) \<noteq> malloc_thp_mode_madvise"

lemma growingD:
  assumes "growing sy k s av base xs"
  shows "fresh_heap s av base xs" "accounted sy av base s" "contiguous s av" "dl_pagesize sy = 2 ^ k"
    "4 \<le> k" "k < 63" "heap_end s av mod 2 ^ k = 0" "thp_pagesize (mp s) = 0"
    "thp_mode (mp s) \<noteq> malloc_thp_mode_madvise"
  using assms by (simp_all add: growing_def)

text \<open>The number of bytes that \<open>sysmalloc\<close> asks \<open>MORECORE\<close> for.\<close>

definition more :: "'k sys \<Rightarrow> u64 \<Rightarrow> ptr \<Rightarrow> 'k st \<Rightarrow> u64" where
  "more sy nb av s =
     ALIGN_UP (nb + top_pad (mp s) + MINSIZE - chunksize (mem s) (get_top (mem s) av)) (dl_pagesize sy)"

lemma more_bounds:
  assumes "growing sy k s av base xs" "nb + MINSIZE > chunksize (mem s) (get_top (mem s) av)"
    "unat (heap_end s av) + unat nb + unat (top_pad (mp s)) + 32 + 2 ^ k < 2 ^ 63"
  defines "T \<equiv> chunksize (mem s) (get_top (mem s) av)"
  shows "unat nb + 32 \<le> unat (more sy nb av s) + unat T"
    "unat (heap_end s av) + unat (more sy nb av s) < 2 ^ 63" "0 < unat (more sy nb av s)"
    "unat (more sy nb av s) mod 2 ^ k = 0"
proof -
  let ?x = "nb + top_pad (mp s) + MINSIZE - T"
  have u: "unat (nb + top_pad (mp s) + 32) = unat nb + unat (top_pad (mp s)) + 32" "unat (nb + 32) = unat nb + 32"
    using assms(3) by (simp_all add: unat_plus_64)
  have T: "unat T < unat nb + 32" using assms(2) u(2) by (simp add: word_less_nat_alt T_def)
  then have "unat ?x = unat nb + unat (top_pad (mp s)) + 32 - unat T"
    using u(1) by (simp add: unat_sub word_le_nat_alt)
  moreover have "unat ?x + 2 ^ k \<le> 2 ^ 64" using assms(3) calculation by simp
  moreover have k: "k < 64" using growingD(6) [OF assms(1)] by simp
  ultimately have a: "unat ?x \<le> unat (more sy nb av s)" "unat (more sy nb av s) < unat ?x + 2 ^ k"
    "unat (more sy nb av s) mod 2 ^ k = 0" "unat ?x = unat nb + unat (top_pad (mp s)) + 32 - unat T"
    using align_up_pow2 [of ?x k] growingD(4) [OF assms(1)] by (simp_all add: more_def T_def)
  show "unat (more sy nb av s) mod 2 ^ k = 0" by (rule a(3))
  show "unat nb + 32 \<le> unat (more sy nb av s) + unat T" "0 < unat (more sy nb av s)"
    "unat (heap_end s av) + unat (more sy nb av s) < 2 ^ 63"
    using a(1,2,4) T assms(3) by linarith+
qed

lemma positive_word: "0 < unat x \<Longrightarrow> unat x < 2 ^ 63 \<Longrightarrow> 0 <s x" for x :: u64
proof -
  assume a: "0 < unat x" "unat x < 2 ^ 63"
  have "int (unat x) < int (2 ^ 63)" using a(2) unfolding of_nat_less_iff .
  then have "int (unat x) < 2 ^ 63" by simp
  moreover have "- (2 ^ 63) \<le> int (unat x)" by (rule order_trans [of _ 0]) auto
  ultimately have "signed_take_bit 63 (int (unat x)) = int (unat x)"
    by (intro signed_take_bit_int_eq_self)
  moreover have "sint x = signed_take_bit 63 (int (unat x))"
    unfolding sint_uint uint_nat [symmetric] by simp
  ultimately have "sint x = int (unat x)" by simp
  then show ?thesis using a(1) unfolding word_sless_alt sint_0 by linarith
qed

section \<open>Asking the system for memory\<close>

text \<open>
  The kernel serves the call: \<open>sbrk\<close> returns the old break, which is the end of the heap, and
  leaves the words of memory alone.
\<close>

definition sbrk_serves :: "'k sys \<Rightarrow> u64 \<Rightarrow> ptr \<Rightarrow> 'k st \<Rightarrow> bool" where
  "sbrk_serves sy nb av s \<longleftrightarrow>
     (\<exists>kn. sys_morecore sy (more sy nb av s) (mem s, kern s) = (heap_end s av, mem s, kn))"

lemma madvise_off: "thp_mode (mp s) \<noteq> malloc_thp_mode_madvise \<Longrightarrow> madvise_thp sy p sz s = s"
  by (simp add: madvise_thp_def)

lemma sysmalloc_brk_extends:
  assumes "growing sy k s av base xs" "0 <s more sy nb av s" "heap_end s av \<noteq> NULL"
    "sys_morecore sy (more sy nb av s) (mem s, kern s) = (heap_end s av, mem s, kn)"
  shows "sysmalloc_brk sy nb av (chunksize (mem s) (get_top (mem s) av)) s =
    (heap_end s av, MORECORE_FAILURE, more sy nb av s, s\<lparr>kern := kn\<rparr>)"
  using assms(2-4) growingD(3,8,9) [OF assms(1)]
  by (simp add: sysmalloc_brk_def Let_def more_def [symmetric] MORECORE_def madvise_off)

lemma sysmalloc_extend_top:
  assumes "sbrk_base (mp s) \<noteq> NULL" "brk \<noteq> NULL"
  shows "sysmalloc_extend sy av old_top old_size brk brk MORECORE_FAILURE sz s =
    Inr (upd_mem (\<lambda>m. set_head m old_top ((sz + old_size) OR PREV_INUSE)) (add_system_mem av sz s))"
  using assms by (simp add: sysmalloc_extend_def Let_def)

text \<open>The state in which top has been extended.\<close>

definition extended :: "u64 \<Rightarrow> ptr \<Rightarrow> 'k \<Rightarrow> 'k st \<Rightarrow> 'k st" where
  "extended sz av kn s =
     (let top = get_top (mem s) av;
          s = add_system_mem av sz (s\<lparr>kern := kn,
                mem := set_head (mem s) top ((sz + chunksize (mem s) top) OR PREV_INUSE)\<rparr>)
      in if system_mem s av > max_system_mem s av
         then s\<lparr>max_system_mem := (max_system_mem s)(av := system_mem s av)\<rparr> else s)"

lemma extended_sel:
  "mem (extended sz av kn s) = set_head (mem s) (get_top (mem s) av)
     ((sz + chunksize (mem s) (get_top (mem s) av)) OR PREV_INUSE)"
  "system_mem (extended sz av kn s) av = system_mem s av + sz"
  "mp (extended sz av kn s) = mp s" "flags (extended sz av kn s) = flags s"
  "have_fastchunks (extended sz av kn s) = have_fastchunks s" "perturb_byte (extended sz av kn s) = perturb_byte s"
  "global_max_fast (extended sz av kn s) = global_max_fast s" "kern (extended sz av kn s) = kn"
  by (simp_all add: extended_def add_system_mem_def Let_def)

lemma sysmalloc_finish_carved:
  assumes "nb + MINSIZE \<le> chunksize (mem s) (get_top (mem s) av)"
    "\<not> system_mem s av > max_system_mem s av"
  shows "sysmalloc_finish sy nb av s =
    (chunk2mem (get_top (mem s) av), s\<lparr>mem := carve_top (mem s) av nb (main_bit sy av)\<rparr>)"
  using assms by (simp add: sysmalloc_finish_def carve_top_def upd_mem_def Let_def main_bit_def)

lemma sysmalloc_finish_max:
  "system_mem s av > max_system_mem s av \<Longrightarrow> sysmalloc_finish sy nb av s =
     sysmalloc_finish sy nb av (s\<lparr>max_system_mem := (max_system_mem s)(av := system_mem s av)\<rparr>)"
  by (simp add: sysmalloc_finish_def)

lemma heap_end_value:
  assumes "region (mem s) av base xs"
  shows "unat (heap_end s av) = unat (get_top (mem s) av) + unat (chunksize (mem s) (get_top (mem s) av))"
    "heap_end s av \<noteq> NULL"
proof -
  note t = region_top [OF assms]
  show e: "unat (heap_end s av) = unat (get_top (mem s) av) + unat (chunksize (mem s) (get_top (mem s) av))"
    using t(6) by (simp add: heap_end_def next_chunk_def unat_plus_64)
  have "32 \<le> unat (chunksize (mem s) (get_top (mem s) av))" using t(4) by (simp add: word_le_nat_alt)
  then show "heap_end s av \<noteq> NULL" using e by auto
qed

lemma extended_heap:
  fixes s :: "'k st" and kn :: 'k
  assumes g: "growing sy k s av base xs" and small: "chunksize (mem s) (get_top (mem s) av) < nb + MINSIZE"
    and room: "unat (heap_end s av) + unat nb + unat (top_pad (mp s)) + 32 + 2 ^ k < 2 ^ 63"
  defines "tp \<equiv> get_top (mem s) av" and "sz \<equiv> more sy nb av s" and "T \<equiv> chunksize (mem s) (get_top (mem s) av)"
  defines "s' \<equiv> extended sz av kn s"
  shows "unat (sz + T) = unat sz + unat T" "(sz + T) AND MALLOC_ALIGN_MASK = 0"
    "unat tp + unat (sz + T) < 2 ^ 63" "nb + MINSIZE \<le> sz + T" "region (mem s') av base xs"
    "get_top (mem s') av = tp" "chunksize (mem s') tp = sz + T"
    "chunksize_nomask (mem s') tp = (sz + T) OR PREV_INUSE" "\<And>a. a \<noteq> tp + 8 \<Longrightarrow> mem s' a = mem s a"
proof -
  note f = growingD [OF g] and m = more_bounds [OF g small room, folded sz_def T_def]
  have r: "region (mem s) av base xs" using f(1) by (simp add: fresh_heap_def)
  note t = region_top [OF r, folded tp_def T_def] and e = heap_end_value [OF r, folded tp_def T_def]
  show u: "unat (sz + T) = unat sz + unat T" using m(2) e(1) by (simp add: unat_plus_64)
  show tot: "unat tp + unat (sz + T) < 2 ^ 63" using m(2) e(1) u by simp
  have "16 dvd (2 :: nat) ^ k" using le_imp_power_dvd [OF f(5), of "2 :: nat"] by simp
  then have "16 dvd unat sz" using m(4) by (auto intro: dvd_trans simp: mod_eq_0_iff_dvd)
  moreover have "16 dvd unat T" using t(5) by (simp add: multiple_iff mod_eq_0_iff_dvd T_def tp_def)
  ultimately show a: "(sz + T) AND MALLOC_ALIGN_MASK = 0" by (simp add: multiple_iff u mod_eq_0_iff_dvd)
  have "unat (nb + 32) = unat nb + 32" using room by (simp add: unat_plus_64)
  then show "nb + MINSIZE \<le> sz + T" using m(1) u by (simp add: word_le_nat_alt)
  have "T \<le> sz + T" using u by (simp add: word_le_nat_alt)
  then have l: "chunksize (mem s) (get_top (mem s) av) \<le> sz + T"
    "unat (get_top (mem s) av) + unat (sz + T) < 2 ^ 64"
    using tot by (simp_all add: T_def tp_def)
  note L = region_larger_top [OF r a l]
  have m': "mem s' = set_head (mem s) (get_top (mem s) av) ((sz + T) OR PREV_INUSE)"
    by (simp add: s'_def extended_sel T_def)
  show "region (mem s') av base xs" "get_top (mem s') av = tp" "chunksize (mem s') tp = sz + T"
    "chunksize_nomask (mem s') tp = (sz + T) OR PREV_INUSE" "\<And>a. a \<noteq> tp + 8 \<Longrightarrow> mem s' a = mem s a"
    using L unfolding m' tp_def by auto
qed

lemma sysmalloc_grows:
  assumes g: "growing sy k s av base xs" and small: "chunksize (mem s) (get_top (mem s) av) < nb + MINSIZE"
    and room: "unat (heap_end s av) + unat nb + unat (top_pad (mp s)) + 32 + 2 ^ k < 2 ^ 63"
    and "nb < mmap_threshold (mp s)" "sbrk_serves sy nb av s"
  shows "\<exists>kn. sysmalloc sy nb av s = Inr (chunk2mem (get_top (mem s) av),
    let s' = extended (more sy nb av s) av kn s in s'\<lparr>mem := carve_top (mem s') av nb (main_bit sy av)\<rparr>)"
proof -
  let ?tp = "get_top (mem s) av" and ?sz = "more sy nb av s"
  let ?T = "chunksize (mem s) ?tp"
  note f = growingD [OF g] and acc = accountedD [OF growingD(2) [OF g]]
  have r: "region (mem s) av base xs" and av: "av \<noteq> NULL" "unat av + 2144 \<le> unat base"
    using f(1) by (simp_all add: fresh_heap_def)
  note t = region_top [OF r] and e = heap_end_value [OF r]
  note m = more_bounds [OF g small room] and h = extended_heap [OF g small room]
  obtain kn where kn: "sys_morecore sy ?sz (mem s, kern s) = (heap_end s av, mem s, kn)"
    using assms(5) unfolding sbrk_serves_def by blast
  have direct: "sysmalloc_try_mmap sy nb av s = ((None, False), s)"
    using av(1) leD [of "mmap_threshold (mp s)" nb] assms(4) by (auto simp: sysmalloc_try_mmap_def)
  have brk: "sysmalloc_brk sy nb av ?T s = (heap_end s av, MORECORE_FAILURE, ?sz, s\<lparr>kern := kn\<rparr>)"
    using m(2,3) by (intro sysmalloc_brk_extends [OF g _ e(2) kn] positive_word) auto
  have base: "sbrk_base (mp (s\<lparr>kern := kn\<rparr>)) \<noteq> NULL" using acc(4) av(2) by auto
  let ?s1 = "upd_mem (\<lambda>m. set_head m ?tp ((?sz + ?T) OR PREV_INUSE)) (add_system_mem av ?sz (s\<lparr>kern := kn\<rparr>))"
  have ext: "sysmalloc_extend sy av ?tp ?T (heap_end s av) (heap_end s av) MORECORE_FAILURE ?sz (s\<lparr>kern := kn\<rparr>) = Inr ?s1"
    by (rule sysmalloc_extend_top [OF base e(2)])
  have "take_bit k (heap_end s av) = 0" using f(7) by (simp add: mod_pow2)
  then have page: "heap_end s av AND (dl_pagesize sy - 1) = 0"
    by (simp add: f(4) mask_eq_exp_minus_1 [symmetric] take_bit_eq_mask [symmetric])
  have fin: "sysmalloc_finish sy nb av ?s1 =
    (chunk2mem ?tp, (extended ?sz av kn s)\<lparr>mem := carve_top (mem (extended ?sz av kn s)) av nb (main_bit sy av)\<rparr>)"
  proof -
    let ?e = "extended ?sz av kn s"
    have "sysmalloc_finish sy nb av ?s1 = sysmalloc_finish sy nb av ?e"
    proof (cases "system_mem ?s1 av > max_system_mem ?s1 av")
      case True
      then have "?e = ?s1\<lparr>max_system_mem := (max_system_mem ?s1)(av := system_mem ?s1 av)\<rparr>"
        by (simp add: extended_def add_system_mem_def upd_mem_def Let_def)
      then show ?thesis using sysmalloc_finish_max [OF True, of sy nb] by (simp only:)
    next
      case False
      then have "?e = ?s1" by (simp add: extended_def add_system_mem_def upd_mem_def Let_def)
      then show ?thesis by (simp only:)
    qed
    moreover have "\<not> system_mem ?e av > max_system_mem ?e av" by (simp add: extended_def Let_def)
    moreover have "nb + MINSIZE \<le> chunksize (mem ?e) (get_top (mem ?e) av)" using h(4) unfolding h(6,7) .
    ultimately show ?thesis using sysmalloc_finish_carved [of nb ?e av sy] unfolding h(6) by simp
  qed
  have he: "?tp + ?T = heap_end s av" by (simp add: heap_end_def next_chunk_def)
  have nz: "?T \<noteq> 0" using t(4) by auto
  show ?thesis
    using small t(4,7) page fin ext brk direct acc(1) av(1) nz
    by (intro exI [of _ kn]) (simp add: sysmalloc_def Let_def chunk_at_offset_def assertE_def he)
qed

lemma extended_growing:
  fixes s :: "'k st" and kn :: 'k
  assumes g: "growing sy k s av base xs" and small: "chunksize (mem s) (get_top (mem s) av) < nb + MINSIZE"
    and room: "unat (heap_end s av) + unat nb + unat (top_pad (mp s)) + 32 + 2 ^ k < 2 ^ 63"
  shows "growing sy k (extended (more sy nb av s) av kn s) av base xs"
proof -
  let ?tp = "get_top (mem s) av" and ?sz = "more sy nb av s" and ?T = "chunksize (mem s) (get_top (mem s) av)"
  let ?s = "extended ?sz av kn s"
  note f = growingD [OF g] and acc = accountedD [OF growingD(2) [OF g]]
    and h = extended_heap [OF g small room] and m = more_bounds [OF g small room]
  have fh: "region (mem s) av base xs" "no_free_chunks s av" "perturb_byte s = 0"
    "ucast (global_max_fast s) \<le> MAX_FAST_SIZE" "av \<noteq> NULL" "unat av + 2144 \<le> unat base" "?T \<le> system_mem s av"
    using f(1) by (simp_all add: fresh_heap_def)
  note t = region_top [OF fh(1)] and e = heap_end_value [OF fh(1)]
  have b: "unat base \<le> unat ?tp" using tiles_le [OF t(3)] by (simp add: word_le_nat_alt)
  have he: "?tp + ?T = heap_end s av" by (simp add: heap_end_def next_chunk_def)
  have he': "heap_end ?s av = heap_end s av + ?sz"
    by (simp add: heap_end_def next_chunk_def h(6,7) add.commute add.left_commute)
  have above: "mem ?s (av + of_nat i) = mem s (av + of_nat i)" if "i < 2144" for i
  proof -
    have "unat (av + of_nat i) = unat av + i"
      using that fh(6) unat_lt_64 [of base] by (simp add: unat_plus_64 unat_of_nat)
    moreover have "unat (?tp + 8) = unat ?tp + 8" using t(4,6) by (simp add: unat_plus_64 word_le_nat_alt)
    ultimately have "av + of_nat i \<noteq> ?tp + 8" using that b fh(6) by auto
    then show ?thesis by (rule h(9))
  qed
  have "no_free_chunks ?s av"
    by (rule no_free_chunks_cong [OF fh(2) _ above]) (simp_all add: extended_sel)
  moreover have "?sz + ?T \<le> system_mem s av + ?sz"
  proof -
    have "system_mem s av = heap_end s av - base" using acc(5) unfolding he by (simp add: algebra_simps)
    then have "unat (system_mem s av) \<le> unat (heap_end s av)"
      using b e(1) by (simp add: unat_sub word_le_nat_alt)
    then have "unat (system_mem s av + ?sz) = unat (system_mem s av) + unat ?sz"
      using m(2) by (simp add: unat_plus_64)
    then show ?thesis using fh(7) h(1) by (simp add: word_le_nat_alt)
  qed
  ultimately have "fresh_heap ?s av base xs"
    using h(5) fh(3-6) by (simp add: fresh_heap_def extended_sel(2,6,7) h(6,7))
  moreover have "accounted sy av base ?s"
  proof -
    have "base + (system_mem s av + ?sz) = heap_end s av + ?sz"
      unfolding add.assoc [symmetric] acc(5) he ..
    moreover have "next_chunk (mem ?s) ?tp = heap_end s av + ?sz" using he' by (simp add: heap_end_def h(6))
    ultimately show ?thesis
      using acc(1-4) head_bits(2) [OF h(2)]
      by (simp add: accounted_def extended_sel(2,3) chunk_is_mmapped_def h(6,8))
  qed
  moreover have "heap_end ?s av mod 2 ^ k = 0"
  proof -
    have d: "(2 :: nat) ^ k dvd 2 ^ 64" using f(6) by (intro le_imp_power_dvd) simp
    have "unat (heap_end s av) mod 2 ^ k = 0"
      using f(7) by (simp add: mod_pow2 unat_take_bit [symmetric])
    then have "unat (heap_end ?s av) mod 2 ^ k = 0"
      using m(4) d unfolding he' by (simp add: unat_plus_64 mod_mod_cancel mod_eq_0_iff_dvd)
    then show ?thesis by (simp add: mod_pow2 word_unat_eq_iff unat_take_bit)
  qed
  ultimately show ?thesis
    using f(3-6,8,9) by (simp add: growing_def extended_sel contiguous_def)
qed

lemma growing_binmap: "growing sy k (s\<lparr>binmap := b\<rparr>) av base xs = growing sy k s av base xs"
  by (simp add: growing_def fresh_heap_def no_free_chunks_def accounted_def contiguous_def heap_end_def)

lemma carve_growing:
  fixes s :: "'k st" and b
  assumes g: "growing sy k s av base xs" and nb: "nb AND MALLOC_ALIGN_MASK = 0" "MINSIZE \<le> nb"
    and fits: "unat nb + 32 \<le> unat (chunksize (mem s) (get_top (mem s) av))"
  defines "s' \<equiv> s\<lparr>mem := carve_top (mem s) av nb (main_bit sy av), binmap := b\<rparr>"
  shows "growing sy k s' av base (xs @ [get_top (mem s) av])" "chunksize (mem s') (get_top (mem s) av) = nb"
proof -
  let ?tp = "get_top (mem s) av"
  note f = growingD [OF g]
  have r: "region (mem s) av base xs" using f(1) by (simp add: fresh_heap_def)
  note c = carve_top_region [OF r nb fits main_bit_small(2) [of sy av]]
  have "heap_end s' av = heap_end s av"
    by (simp add: s'_def heap_end_def next_chunk_def c(2,5))
  then show "growing sy k s' av base (xs @ [?tp])"
    using carve_top_fresh [where sy = sy and b = b, OF f(1) nb fits] carved_chunk_passes(1) [where b = b, OF r nb fits f(2)] f(3-9)
    unfolding s'_def by (simp add: growing_def contiguous_def)
  show "chunksize (mem s') ?tp = nb" using c(3) by (simp add: s'_def)
qed

section \<open>Properties\<close>

text \<open>
  C15: a heap without free chunks grows on demand. In the contiguous heap of the main
  arena whose bins and fast bins are all empty and which ends at a page boundary, with huge pages off (\<open>growing\<close>),
  while the kernel serves \<open>sbrk\<close>, \<open>_int_malloc\<close> of a request below the \<open>mmap\<close> threshold returns the
  memory of the old top as a chunk of the padded size: from top if it is large enough, otherwise
  after \<open>sysmalloc\<close> has asked \<open>MORECORE\<close> for whole pages and extended top by them. The heap is again a
  contiguous heap without free chunks that ends at a page boundary, with the new chunk as its last one and
  \<open>system_mem\<close> up to date, so that this goes on for the next request.
\<close>
theorem heap_grows_on_demand:
  assumes "growing sy k s av base xs" "bytes \<le> PTRDIFF_MAX" "loop_fuel sy \<noteq> 0"
  defines "nb \<equiv> checked_request2size bytes" and "tp \<equiv> get_top (mem s) av"
  assumes "nb < mmap_threshold (mp s)"
    and "unat (heap_end s av) + unat nb + unat (top_pad (mp s)) + 32 + 2 ^ k < 2 ^ 63"
    and "sbrk_serves sy nb av s"
  shows "\<exists>s'. int_malloc sy av bytes s = Inr (chunk2mem tp, s') \<and> growing sy k s' av base (xs @ [tp]) \<and>
    chunksize (mem s') tp = nb"
proof (cases "chunksize (mem s) tp < nb + MINSIZE")
  case False
  note f = growingD [OF assms(1)]
  obtain b where "unat nb + 32 \<le> unat (chunksize (mem s) tp)"
    "int_malloc sy av bytes s =
      Inr (chunk2mem tp, s\<lparr>mem := carve_top (mem s) av nb (main_bit sy av), binmap := b\<rparr>)"
    using int_malloc_fresh_heap_cases(2) [OF f(1) assms(2,3)] False unfolding nb_def tp_def by blast
  then show ?thesis
    using carve_growing [where nb = nb and b = b, OF assms(1)] request_aligned [OF assms(2)] by (simp add: nb_def tp_def)
next
  case True
  note f = growingD [OF assms(1)]
  obtain b where run: "int_malloc sy av bytes s = int_malloc_sys sy nb av bytes (s\<lparr>binmap := b\<rparr>)"
    using int_malloc_fresh_heap_cases(1) [OF f(1) assms(2,3)] True unfolding nb_def tp_def by blast
  let ?s = "s\<lparr>binmap := b\<rparr>"
  have g: "growing sy k ?s av base xs" using assms(1) by (simp add: growing_binmap)
  have e: "heap_end ?s av = heap_end s av" "more sy nb av ?s = more sy nb av s"
    by (simp_all add: heap_end_def more_def)
  have pre: "chunksize (mem ?s) (get_top (mem ?s) av) < nb + MINSIZE"
    "unat (heap_end ?s av) + unat nb + unat (top_pad (mp ?s)) + 32 + 2 ^ k < 2 ^ 63"
    "nb < mmap_threshold (mp ?s)" "sbrk_serves sy nb av ?s"
    using True assms(6-8) by (simp_all add: tp_def e sbrk_serves_def)
  obtain kn where kn: "sysmalloc sy nb av ?s = Inr (chunk2mem (get_top (mem ?s) av),
      let s' = extended (more sy nb av ?s) av kn ?s in s'\<lparr>mem := carve_top (mem s') av nb (main_bit sy av)\<rparr>)"
    using sysmalloc_grows [OF g pre] by blast
  let ?e = "extended (more sy nb av ?s) av kn ?s"
  have ge: "growing sy k ?e av base xs" by (rule extended_growing [OF g pre(1,2)])
  note h = extended_heap [OF g pre(1,2)]
  have nb: "nb AND MALLOC_ALIGN_MASK = 0" "MINSIZE \<le> nb"
    using request_aligned [OF assms(2)] by (simp_all add: nb_def)
  have top': "get_top (mem ?e) av = tp" using h(6) by (simp add: tp_def)
  have "unat (nb + 32) = unat nb + 32" using assms(7) by (simp add: unat_plus_64)
  then have fits: "unat nb + 32 \<le> unat (chunksize (mem ?e) (get_top (mem ?e) av))"
    using h(4) unfolding h(6,7) by (simp add: word_le_nat_alt)
  let ?f = "?e\<lparr>mem := carve_top (mem ?e) av nb (main_bit sy av)\<rparr>"
  have id: "?e\<lparr>mem := carve_top (mem ?e) av nb (main_bit sy av), binmap := binmap ?e\<rparr> = ?f" by simp
  note c = carve_growing [where b = "binmap ?e", OF ge nb fits, unfolded id top']
  have "perturb_byte ?f = 0" using growingD(1) [OF c(1)] by (simp add: fresh_heap_def)
  then have "int_malloc sy av bytes s = Inr (chunk2mem tp, ?f)"
    using kn by (simp add: run int_malloc_sys_def Let_def tp_def alloc_perturb_def)
  then show ?thesis using c by blast
qed

text \<open>
  The arena of \<open>sbrk_kernel\<close> with a heap of one page at 131072, all of it top, and the break behind it.
\<close>

definition example_growing :: "u64 st" where
  "example_growing = (let s = malloc_init_state sbrk_kernel 65536 (static_state 135168) in
     s\<lparr>mem := (mem s)(65632 := 131072, 131080 := 4097), system_mem := (\<lambda>_. 0)(65536 := 4096),
       mp := mp_init\<lparr>sbrk_base := 131072\<rparr>\<rparr>)"

lemma example_growing_sel:
  "get_top (mem example_growing) 65536 = 131072" "chunksize_nomask (mem example_growing) 131072 = 4097"
  "chunksize (mem example_growing) 131072 = 4096" "system_mem example_growing 65536 = 4096"
  "mp example_growing = mp_init\<lparr>sbrk_base := 131072\<rparr>" "perturb_byte example_growing = 0"
  "global_max_fast example_growing = 128" "flags example_growing = (\<lambda>_. 0)" "kern example_growing = 135168"
  by (simp_all add: example_growing_def get_top_def chunksize_def chunksize_nomask_def malloc_init_state_def
      static_state_def sbrk_kernel_def bare_sys_def upd_mem_def set_max_fast_def set_have_fastchunks_def Let_def)

lemma example_growing_fresh: "no_free_chunks example_growing 65536"
proof (rule no_free_chunks_cong [OF init_state_no_free_chunks [of 65536 "static_state 135168" sbrk_kernel]])
  fix k :: nat assume k: "k < 2144" "k \<noteq> 96"
  have "unat (65536 + of_nat k :: u64) = 65536 + k" using k by (simp add: unat_plus_64 unat_of_nat)
  then have "65536 + of_nat k \<noteq> (65632 :: u64)" "65536 + of_nat k \<noteq> (131080 :: u64)" using k by auto
  then show "mem example_growing (65536 + of_nat k) =
      mem (malloc_init_state sbrk_kernel 65536 (static_state 135168)) (65536 + of_nat k)"
    by (simp add: example_growing_def Let_def)
qed (simp_all add: aligned_def static_state_def example_growing_def Let_def)

lemma example_growing_heap: "growing sbrk_kernel 12 example_growing 65536 131072 []"
  using example_growing_fresh
  by (simp add: growing_def fresh_heap_def region_def next_chunk_def prev_inuse_def aligned_def accounted_def
      heap_end_def contiguous_def chunk_is_mmapped_def example_growing_sel sbrk_kernel_def bare_sys_def
      mp_init_def mod_pow2 powerof2_def)

lemma heap_grows_on_demand_witness:
  "\<exists>s'. int_malloc sbrk_kernel 65536 10000 example_growing = Inr (131088, s') \<and>
     growing sbrk_kernel 12 s' 65536 131072 [131072] \<and> chunksize (mem s') 131072 = 10016"
proof -
  have r: "checked_request2size 10000 = 10016" by (simp add: checked_request2size_def request2size_def)
  have e: "heap_end example_growing 65536 = 135168" by (simp add: heap_end_def next_chunk_def example_growing_sel)
  have "sbrk_serves sbrk_kernel 10016 65536 example_growing"
    by (simp add: sbrk_serves_def e sbrk_kernel_def example_growing_sel)
  then show ?thesis
    using heap_grows_on_demand [OF example_growing_heap, of 10000] r e
    by (simp add: example_growing_sel mp_init_def sbrk_kernel_def bare_sys_def chunk2mem_def)
qed

end
