(* ===== verification/Info.thy ===== *)
theory Info
  imports Mallopt
begin

text \<open>
  The printed reports \<open>malloc_stats\<close> and \<open>malloc_info\<close> (lines 5358 to 5396 and 5799 to 5995 of
  \<^verbatim>\<open>scalloc/src/scalloc.c\<close>). What they print is a list of items, one for each call of
  \<open>fprintf\<close>, with the values that are printed. The link from a heap to the one before it (a
  field of \<open>heap_info\<close>, which belongs to \<^verbatim>\<open>arena.c\<close>) is an argument.
\<close>

section \<open>malloc_stats\<close>

datatype stats_item =
    Arena u32
  | System_bytes u32
  | In_use_bytes u32
  | Total_incl_mmap
  | Max_mmap_regions u32
  | Max_mmap_bytes u64

fun stats_arenas ::
  "nat \<Rightarrow> 'k sys \<Rightarrow> ptr \<Rightarrow> 'k st \<Rightarrow> u32 \<Rightarrow> u32 \<Rightarrow> u32 \<Rightarrow> abort + stats_item list \<times> u32 \<times> u32" where
  "stats_arenas 0 sy ar_ptr s i system_b in_use_b = Inl Out_of_fuel"
| "stats_arenas (Suc n) sy ar_ptr s i system_b in_use_b =
     bindE (int_mallinfo sy ar_ptr s zero_mallinfo2) (\<lambda>mi.
       let out = [Arena i, System_bytes (ucast (mi_arena mi)), In_use_bytes (ucast (mi_uordblks mi))];
           system_b = system_b + ucast (mi_arena mi);
           in_use_b = in_use_b + ucast (mi_uordblks mi);
           ar_ptr = arena_next (mem s) ar_ptr in
       if ar_ptr = main_arena sy then Inr (out, system_b, in_use_b)
       else bindE (stats_arenas n sy ar_ptr s (i + 1) system_b in_use_b)
              (\<lambda>(out', r). Inr (out @ out', r)))"

definition malloc_stats :: "'k sys \<Rightarrow> 'k st \<Rightarrow> abort + stats_item list" where
  "malloc_stats sy s =
     (let in_use_b = ucast (mmapped_mem (mp s)); system_b = in_use_b in
      bindE (stats_arenas (loop_fuel sy) sy (main_arena sy) s 0 system_b in_use_b)
        (\<lambda>(out, system_b, in_use_b).
          Inr (out @ [Total_incl_mmap, System_bytes system_b, In_use_bytes in_use_b,
                      Max_mmap_regions (max_n_mmaps (mp s)), Max_mmap_bytes (max_mmapped_mem (mp s))])))"

section \<open>malloc_info\<close>

record size_info =
  si_from :: u64
  si_to :: u64
  si_total :: u64
  si_count :: u64

text \<open>The chain of a fast bin.\<close>

fun info_fast_count :: "nat \<Rightarrow> memory \<Rightarrow> ptr \<Rightarrow> u64 \<Rightarrow> abort + u64" where
  "info_fast_count 0 m p nthissize = Inl Out_of_fuel"
| "info_fast_count (Suc n) m p nthissize =
     (if p = NULL then Inr nthissize
      else if misaligned_chunk p
      then Inl (Printerr ''__malloc_info(): unaligned fastbin chunk detected'')
      else info_fast_count n m (REVEAL_PTR (p + 16) (get_fd m p)) (nthissize + 1))"

fun info_fast_sizes ::
  "u32 list \<Rightarrow> nat \<Rightarrow> ptr \<Rightarrow> memory \<Rightarrow> u64 \<Rightarrow> u64 \<Rightarrow> abort + size_info list \<times> u64 \<times> u64" where
  "info_fast_sizes [] fuel av m nfastblocks fastavail = Inr ([], nfastblocks, fastavail)"
| "info_fast_sizes (i # is) fuel av m nfastblocks fastavail =
     (let p = m (fastbin_addr av i) in
      bindE
        (if p \<noteq> NULL
         then
           (let thissize = chunksize m p in
            bindE (info_fast_count fuel m p 0) (\<lambda>nthissize.
              Inr (\<lparr>si_from = thissize - (MALLOC_ALIGNMENT - 1), si_to = thissize,
                     si_total = nthissize * thissize, si_count = nthissize\<rparr>,
                   nfastblocks + nthissize, fastavail + nthissize * thissize)))
         else Inr (\<lparr>si_from = 0, si_to = 0, si_total = 0, si_count = 0\<rparr>, nfastblocks, fastavail))
        (\<lambda>(si, nfastblocks, fastavail).
          bindE (info_fast_sizes is fuel av m nfastblocks fastavail) (\<lambda>(sis, r). Inr (si # sis, r))))"

text \<open>A normal bin, front to back. Its sizes are read with the flag bits (\<open>chunksize_nomask\<close>).\<close>

fun info_bin_walk :: "nat \<Rightarrow> memory \<Rightarrow> ptr \<Rightarrow> ptr \<Rightarrow> size_info \<Rightarrow> abort + size_info" where
  "info_bin_walk 0 m bin r si = Inl Out_of_fuel"
| "info_bin_walk (Suc n) m bin r si =
     (if r = bin then Inr si
      else
        (let r_size = chunksize_nomask m r in
         info_bin_walk n m bin (get_fd m r)
           \<lparr>si_from = min (si_from si) r_size, si_to = max (si_to si) r_size,
            si_total = si_total si + r_size, si_count = si_count si + 1\<rparr>))"

fun info_bin_sizes ::
  "nat list \<Rightarrow> nat \<Rightarrow> ptr \<Rightarrow> memory \<Rightarrow> u64 \<Rightarrow> u64 \<Rightarrow> abort + size_info list \<times> u64 \<times> u64" where
  "info_bin_sizes [] fuel av m nblocks avail = Inr ([], nblocks, avail)"
| "info_bin_sizes (j # js) fuel av m nblocks avail =
     (let bin = bin_at av (of_nat j); r = get_fd m bin;
          si = \<lparr>si_from = SIZE_MAX, si_to = 0, si_total = 0, si_count = 0\<rparr> in
      bindE (if r \<noteq> NULL then info_bin_walk fuel m bin r si else Inr si) (\<lambda>si.
        let si = (if si_count si = 0 then si\<lparr>si_from := 0\<rparr> else si) in
        bindE (info_bin_sizes js fuel av m (nblocks + si_count si) (avail + si_total si))
          (\<lambda>(sis, r). Inr (si # sis, r))))"

text \<open>The heaps of an arena, back to front.\<close>

fun info_heaps ::
  "nat \<Rightarrow> 'k sys \<Rightarrow> ('k st \<Rightarrow> ptr \<Rightarrow> ptr) \<Rightarrow> 'k st \<Rightarrow> ptr \<Rightarrow> u64 \<Rightarrow> u64 \<Rightarrow> u64 \<Rightarrow> abort + u64 \<times> u64 \<times> u64" where
  "info_heaps 0 sy heap_prev s heap hsize hmprotect hcount = Inl Out_of_fuel"
| "info_heaps (Suc n) sy heap_prev s heap hsize hmprotect hcount =
     (let hsize = hsize + heap_size sy s heap;
          hmprotect = hmprotect + heap_mprotect_size sy s heap;
          hcount = hcount + 1;
          heap = heap_prev s heap in
      if heap \<noteq> NULL then info_heaps n sy heap_prev s heap hsize hmprotect hcount
      else Inr (hsize, hmprotect, hcount))"

datatype info_item =
    Malloc_open
  | Heap_open u32
  | Size_line u64 u64 u64 u64
  | Unsorted_line u64 u64 u64 u64
  | Heap_totals u64 u64 u64 u64 u64 u64
  | Aspace_heaps u64 u64 u64
  | Aspace_main u64 u64
  | Heap_close
  | Malloc_totals u64 u64 u64 u64 u32 u64 u64 u64 u64 u64

record info_totals =
  t_nblocks :: u64
  t_nfastblocks :: u64
  t_avail :: u64
  t_fastavail :: u64
  t_system :: u64
  t_max_system :: u64
  t_aspace :: u64
  t_aspace_mprotect :: u64

abbreviation (input) NFASTBINS_nat :: nat where "NFASTBINS_nat \<equiv> 10"

text \<open>The lines of the sizes that occur; the unsorted bin, at index \<open>NFASTBINS\<close>, comes last.\<close>

definition size_lines :: "size_info list \<Rightarrow> info_item list" where
  "size_lines sizes =
     concat (map (\<lambda>i. let si = sizes ! i in
        if si_count si \<noteq> 0 \<and> i \<noteq> NFASTBINS_nat
        then [Size_line (si_from si) (si_to si) (si_total si) (si_count si)] else [])
      [0..<length sizes]) @
     (let si = sizes ! NFASTBINS_nat in
      if si_count si \<noteq> 0 then [Unsorted_line (si_from si) (si_to si) (si_total si) (si_count si)] else [])"

definition info_arena ::
  "'k sys \<Rightarrow> ('k st \<Rightarrow> ptr \<Rightarrow> ptr) \<Rightarrow> ptr \<Rightarrow> 'k st \<Rightarrow> u32 \<Rightarrow> info_totals \<Rightarrow> abort + info_item list \<times> info_totals" where
  "info_arena sy heap_prev ar_ptr s nr tot =
     (let m = mem s; fuel = loop_fuel sy in
      bindE (info_fast_sizes fastbin_indices fuel ar_ptr m 0 0) (\<lambda>(fast_sizes, nfastblocks, fastavail).
      bindE (info_bin_sizes [1..<128] fuel ar_ptr m 1 (chunksize m (get_top m ar_ptr)))
        (\<lambda>(bin_sizes, nblocks, avail).
      bindE (if ar_ptr \<noteq> main_arena sy
             then info_heaps fuel sy heap_prev s (heap_for_ptr sy (get_top m ar_ptr)) 0 0 0
             else Inr (0, 0, 0)) (\<lambda>(hsize, hmprotect, hcount).
        let main = (ar_ptr = main_arena sy);
            aspace = (if main then system_mem s ar_ptr else hsize);
            aspace_mprotect = (if main then system_mem s ar_ptr else hmprotect) in
        Inr (Heap_open nr # size_lines (fast_sizes @ bin_sizes) @
             [Heap_totals nfastblocks fastavail nblocks avail (system_mem s ar_ptr) (max_system_mem s ar_ptr),
              if main then Aspace_main (system_mem s ar_ptr) (system_mem s ar_ptr)
              else Aspace_heaps hsize hmprotect hcount,
              Heap_close],
             \<lparr>t_nblocks = t_nblocks tot + nblocks, t_nfastblocks = t_nfastblocks tot + nfastblocks,
              t_avail = t_avail tot + avail, t_fastavail = t_fastavail tot + fastavail,
              t_system = t_system tot + system_mem s ar_ptr,
              t_max_system = t_max_system tot + max_system_mem s ar_ptr,
              t_aspace = t_aspace tot + aspace, t_aspace_mprotect = t_aspace_mprotect tot + aspace_mprotect\<rparr>)))))"

fun info_all ::
  "nat \<Rightarrow> 'k sys \<Rightarrow> ('k st \<Rightarrow> ptr \<Rightarrow> ptr) \<Rightarrow> ptr \<Rightarrow> 'k st \<Rightarrow> u32 \<Rightarrow> info_totals \<Rightarrow> abort + info_item list \<times> info_totals" where
  "info_all 0 sy heap_prev ar_ptr s nr tot = Inl Out_of_fuel"
| "info_all (Suc n) sy heap_prev ar_ptr s nr tot =
     bindE (info_arena sy heap_prev ar_ptr s nr tot) (\<lambda>(out, tot).
       let ar_ptr = arena_next (mem s) ar_ptr in
       if ar_ptr \<noteq> main_arena sy
       then bindE (info_all n sy heap_prev ar_ptr s (nr + 1) tot) (\<lambda>(out', tot). Inr (out @ out', tot))
       else Inr (out, tot))"

definition malloc_info ::
  "'k sys \<Rightarrow> ('k st \<Rightarrow> ptr \<Rightarrow> ptr) \<Rightarrow> u32 \<Rightarrow> 'k st \<Rightarrow> abort + u32 \<times> info_item list" where
  "malloc_info sy heap_prev options s =
     (if options \<noteq> 0 then Inr (EINVAL, [])
      else
        bindE (info_all (loop_fuel sy) sy heap_prev (main_arena sy) s 0
                 \<lparr>t_nblocks = 0, t_nfastblocks = 0, t_avail = 0, t_fastavail = 0, t_system = 0,
                  t_max_system = 0, t_aspace = 0, t_aspace_mprotect = 0\<rparr>)
          (\<lambda>(out, tot).
            Inr (0, Malloc_open # out @
              [Malloc_totals (t_nfastblocks tot) (t_fastavail tot) (t_nblocks tot) (t_avail tot)
                 (n_mmaps (mp s)) (mmapped_mem (mp s)) (t_system tot) (t_max_system tot)
                 (t_aspace tot) (t_aspace_mprotect tot)])))"

section \<open>What the reports count\<close>

lemma info_bin_counts:
  assumes "links m (b # xs)" "b \<notin> set xs" "length xs < n"
  shows "info_bin n m b (last (b # xs)) k a =
    Inr (k + of_nat (length xs), a + (\<Sum>x \<leftarrow> xs. chunksize m x))"
  using assms
proof (induction xs arbitrary: n k a rule: rev_induct)
  case Nil
  then show ?case by (cases n) simp_all
next
  case (snoc x xs)
  obtain n' where n: "n = Suc n'" using snoc.prems(3) by (cases n) auto
  have l: "links m (b # xs)" "get_bk m x = last (b # xs)"
    using snoc.prems(1) links_append [of m "b # xs" "[x]"] by simp_all
  have "info_bin n' m b (last (b # xs)) (k + 1) (a + chunksize m x) =
    Inr (k + 1 + of_nat (length xs), a + chunksize m x + (\<Sum>x \<leftarrow> xs. chunksize m x))"
    using snoc.prems n by (intro snoc.IH l(1)) auto
  then show ?case using snoc.prems(2) n l(2) by (auto simp: algebra_simps)
qed

lemma info_bin_walk_counts:
  assumes "links m (xs @ [b])" "b \<notin> set xs" "length xs < n"
  shows "\<exists>si'. info_bin_walk n m b (hd (xs @ [b])) si = Inr si' \<and>
    si_count si' = si_count si + of_nat (length xs) \<and>
    si_total si' = si_total si + (\<Sum>x \<leftarrow> xs. chunksize_nomask m x)"
  using assms
proof (induction xs arbitrary: n si)
  case Nil
  then show ?case by (cases n) simp_all
next
  case (Cons x xs)
  obtain n' where n: "n = Suc n'" using Cons.prems(3) by (cases n) auto
  have l: "links m (xs @ [b])" "get_fd m x = hd (xs @ [b])"
    using Cons.prems(1) by (cases xs; simp)+
  let ?si = "\<lparr>si_from = min (si_from si) (chunksize_nomask m x), si_to = max (si_to si) (chunksize_nomask m x),
     si_total = si_total si + chunksize_nomask m x, si_count = si_count si + 1\<rparr>"
  obtain si' where "info_bin_walk n' m b (hd (xs @ [b])) ?si = Inr si'"
    "si_count si' = si_count ?si + of_nat (length xs)"
    "si_total si' = si_total ?si + (\<Sum>x \<leftarrow> xs. chunksize_nomask m x)"
    using Cons.IH [OF l(1), of n' ?si] Cons.prems(2,3) n by auto
  then show ?case using Cons.prems(2) n l(2) by (auto simp: Let_def algebra_simps)
qed

lemma sum_list_plus_one: "(\<And>x. x \<in> set xs \<Longrightarrow> f x = g x + 1) \<Longrightarrow>
    (\<Sum>x \<leftarrow> xs. f x) = (\<Sum>x \<leftarrow> xs. g x) + (of_nat (length xs) :: u64)"
  by (induction xs) (auto simp: algebra_simps)

section \<open>Properties\<close>

text \<open>
  C39: the two reports of a bin do not agree. For a bin that holds the chunks \<open>xs\<close>, \<open>mallinfo\<close> and
  \<open>malloc_info\<close> both end and both count every chunk once; \<open>mallinfo\<close> adds up their sizes, but
  \<open>malloc_info\<close> adds up the raw headers, so that its total is too large by one byte for each
  chunk, because the chunk before a free chunk is in use (the flag \<open>PREV_INUSE\<close>).
\<close>
theorem reports_of_a_bin:
  assumes "bin_list m b xs" "length xs < n" "\<forall>x \<in> set xs. chunksize_nomask m x = chunksize m x + PREV_INUSE"
  shows "info_bin n m b (get_bk m b) k a =
      Inr (k + of_nat (length xs), a + (\<Sum>x \<leftarrow> xs. chunksize m x)) \<and>
    (\<exists>si'. info_bin_walk n m b (get_fd m b) si = Inr si' \<and>
      si_count si' = si_count si + of_nat (length xs) \<and>
      si_total si' = si_total si + (\<Sum>x \<leftarrow> xs. chunksize m x) + of_nat (length xs))"
proof -
  have l: "links m ((b # xs) @ [b])" "b \<notin> set xs" using assms(1) by (simp_all add: bin_list_def)
  then have "links m (b # xs)" "get_bk m b = last (b # xs)"
    unfolding links_append [of m "b # xs" "[b]"] by simp_all
  moreover have "links m (xs @ [b])" "get_fd m b = hd (xs @ [b])"
    using l(1) by (cases xs; simp)+
  ultimately show ?thesis
    using info_bin_counts [of m b xs n k a] info_bin_walk_counts [of m xs b n si] l(2) assms(2)
      sum_list_plus_one [of xs "chunksize_nomask m" "chunksize m"] assms(3)
    by (auto simp: add.assoc)
qed

text \<open>A bin at 65776 with one chunk of 160 bytes at 131072.\<close>

definition example_bin :: memory where
  "example_bin = (\<lambda>_. 0)(65792 := 131072, 65800 := 131072, 131088 := 65776, 131096 := 65776, 131080 := 161)"

lemma reports_of_a_bin_witness:
  "info_bin 5 example_bin 65776 131072 0 0 = Inr (1, 160) \<and>
   (\<exists>si'. info_bin_walk 5 example_bin 65776 131072 \<lparr>si_from = SIZE_MAX, si_to = 0, si_total = 0, si_count = 0\<rparr>
      = Inr si' \<and> si_count si' = 1 \<and> si_total si' = 161)"
proof -
  have b: "bin_list example_bin 65776 [131072]"
    by (simp add: bin_list_def example_bin_def get_fd_def get_bk_def aligned_def)
  have c: "chunksize example_bin 131072 = 160" "chunksize_nomask example_bin 131072 = 161"
    "get_bk example_bin 65776 = 131072" "get_fd example_bin 65776 = 131072"
    by (simp_all add: example_bin_def chunksize_def chunksize_nomask_def get_bk_def get_fd_def)
  show ?thesis
    using reports_of_a_bin [OF b, of 5 0 0 "\<lparr>si_from = SIZE_MAX, si_to = 0, si_total = 0, si_count = 0\<rparr>"] c
    by simp
qed

end
