(* ===== verification/LargeBin.thy ===== *)
theory LargeBin
  imports Binned
begin

text \<open>
  The large bins: sorted by size, largest first, with a circular skip list (\<open>fd_nextsize\<close>,
  \<open>bk_nextsize\<close>) through the first chunk of each size. \<open>unlink_chunk\<close> (lines 1630 to 1666 of
  \<^verbatim>\<open>scalloc/src/scalloc.c\<close>), the placement of a chunk and the best fit search of \<open>_int_malloc\<close>
  are shown to refine removal, sorted insertion and the choice of a smallest sufficient element.
\<close>

section \<open>Circular lists without a header\<close>

definition circ :: "memory \<Rightarrow> ptr list \<Rightarrow> bool" where
  "circ m cs \<longleftrightarrow> cs = [] \<or> bin_list m (hd cs) (tl cs)"

lemma circ_Cons [simp]: "circ m (c # cs) \<longleftrightarrow> bin_list m c cs"
  by (simp add: circ_def)

lemma circ_Nil [simp]: "circ m []"
  by (simp add: circ_def)

lemma circ_links: "cs \<noteq> [] \<Longrightarrow>
    circ m cs \<longleftrightarrow> links m (cs @ [hd cs]) \<and> distinct cs \<and> (\<forall>x \<in> set cs. aligned x)"
  by (cases cs) (auto simp: bin_list_def)

lemma circ_rotate: "circ m (xs @ ys) \<longleftrightarrow> circ m (ys @ xs)"
proof (cases "xs = [] \<or> ys = []")
  case False
  then have "links m ((xs @ ys) @ [hd xs]) \<longleftrightarrow> links m ((ys @ xs) @ [hd ys])"
    by (auto simp: links_append)
  then show ?thesis using False by (auto simp: circ_links)
qed auto

lemma circ_remove:
  assumes "circ m (xs @ p # ys)"
  shows "circ (set_fd (set_bk m (get_fd m p) (get_bk m p)) (get_bk m p) (get_fd m p)) (xs @ ys)"
proof (cases "ys @ xs")
  case (Cons z zs)
  have "circ m ((ys @ xs) @ [p])" using assms circ_rotate [of m "xs @ [p]" ys] circ_rotate [of m xs "p # ys"]
    by simp
  then have "bin_list m z (zs @ p # [])" unfolding Cons by simp
  then show ?thesis using bin_list_remove [of m z zs p "[]"] circ_rotate [of _ xs ys] Cons by simp
qed auto

text \<open>Insertion of \<open>p\<close> before \<open>y\<close>.\<close>

lemma circ_insert:
  assumes "circ m (xs @ y # ys)" "p \<notin> set (xs @ y # ys)" "aligned p"
  shows "circ (link_between m p (get_bk m y) y) (xs @ p # y # ys)"
proof -
  have c: "circ m ((y # ys) @ xs)" using assms(1) circ_rotate by blast
  then have b: "bin_list m y (ys @ xs)" by simp
  have l: "last (y # ys @ xs) = get_bk m y"
  proof (cases "ys @ xs" rule: rev_cases)
    case Nil
    then show ?thesis using b by (simp add: bin_list_def)
  next
    case (snoc zs z)
    then show ?thesis using bin_list_last [of m y zs z] b by (metis last_ConsR last_snoc snoc_eq_iff_butlast)
  qed
  have "bin_list (link_between m p (get_bk m y) y) y ((ys @ xs) @ p # [])"
    by (rule bin_list_insert) (use b assms(2,3) l in auto)
  then have "circ (link_between m p (get_bk m y) y) ((y # ys) @ (xs @ [p]))" by simp
  then show ?thesis using circ_rotate [of _ "y # ys" "xs @ [p]"] by simp
qed

lemma circ_neighbours:
  assumes "circ m (xs @ p # ys)"
  shows "get_fd m p \<in> set (xs @ p # ys)" "get_bk m p \<in> set (xs @ p # ys)"
    "get_bk m (get_fd m p) = p" "get_fd m (get_bk m p) = p"
    "get_fd m p = p \<longleftrightarrow> xs = [] \<and> ys = []"
proof -
  have b: "bin_list m p (ys @ xs)" using assms circ_rotate [of m xs "p # ys"] by simp
  have f: "get_fd m p = hd (ys @ xs @ [p])"
  proof (cases "ys @ xs")
    case (Cons z zs)
    then show ?thesis using bin_list_first [of m p z zs] b by (metis append_assoc append_Cons list.sel(1))
  qed (use b in \<open>simp add: bin_list_empty_iff\<close>)
  have k: "get_bk m p = last (p # ys @ xs)"
  proof (cases "ys @ xs" rule: rev_cases)
    case (snoc zs z)
    then show ?thesis using bin_list_last [of m p zs z] b by (metis last_ConsR last_snoc snoc_eq_iff_butlast)
  qed (use b in \<open>auto simp: bin_list_empty_iff\<close>)
  show "get_fd m p \<in> set (xs @ p # ys)" unfolding f by (cases ys; cases xs) auto
  show "get_bk m p \<in> set (xs @ p # ys)" unfolding k using last_in_set [of "p # ys @ xs"] by auto
  have d: "distinct (p # ys @ xs)" using b by (simp add: bin_list_def)
  show "get_fd m p = p \<longleftrightarrow> xs = [] \<and> ys = []" unfolding f using d by (cases ys; cases xs) auto
  show "get_bk m (get_fd m p) = p"
  proof (cases "ys @ xs")
    case (Cons z zs)
    then have "get_fd m p = z" unfolding f by (metis append_assoc append_Cons list.sel(1))
    then show ?thesis using bin_list_first [of m p z zs] b Cons by simp
  qed (use b f in \<open>auto simp: bin_list_empty_iff\<close>)
  show "get_fd m (get_bk m p) = p"
  proof (cases "ys @ xs" rule: rev_cases)
    case (snoc zs z)
    then show ?thesis using bin_list_last [of m p zs z] b k by (metis last_ConsR last_snoc snoc_eq_iff_butlast)
  qed (use b k in \<open>auto simp: bin_list_empty_iff\<close>)
qed

section \<open>The first chunks of each size\<close>

fun heads_from :: "(ptr \<Rightarrow> u64) \<Rightarrow> u64 \<Rightarrow> ptr list \<Rightarrow> ptr list" where
  "heads_from f c [] = []"
| "heads_from f c (x # xs) = (if f x = c then heads_from f c xs else x # heads_from f (f x) xs)"

definition last_size :: "(ptr \<Rightarrow> u64) \<Rightarrow> u64 \<Rightarrow> ptr list \<Rightarrow> u64" where
  "last_size f c xs = last (c # map f xs)"

lemma last_size_simps [simp]:
  "last_size f c [] = c" "last_size f c (x # xs) = last_size f (f x) xs"
  "last_size f c (xs @ ys) = last_size f (last_size f c xs) ys"
  by (auto simp: last_size_def)

lemma heads_append: "heads_from f c (xs @ ys) = heads_from f c xs @ heads_from f (last_size f c xs) ys"
  by (induction xs arbitrary: c) auto

lemma heads_subset: "set (heads_from f c xs) \<subseteq> set xs"
  by (induction xs arbitrary: c) auto

lemma heads_cong: "(\<And>x. x \<in> set xs \<Longrightarrow> f x = g x) \<Longrightarrow> heads_from f c xs = heads_from g c xs"
  by (induction xs arbitrary: c) auto
section \<open>The skip list of a large bin\<close>

text \<open>
  The \<open>fd_nextsize\<close> and \<open>bk_nextsize\<close> words lie 16 bytes after \<open>fd\<close> and \<open>bk\<close>: in the memory
  moved by 16 bytes they are the links of the same kind.
\<close>

definition skip_links :: "memory \<Rightarrow> memory" where
  "skip_links m = (\<lambda>a. m (a + 16))"

lemma skip_links_fields:
  "get_fd (skip_links m) x = get_fd_nextsize m x" "get_bk (skip_links m) x = get_bk_nextsize m x"
  "set_fd (skip_links m) x v = skip_links (set_fd_nextsize m x v)"
  "set_bk (skip_links m) x v = skip_links (set_bk_nextsize m x v)"
  by (auto simp: skip_links_def field_defs fun_eq_iff add.assoc)

text \<open>
  \<open>skip_list m b xs\<close>: the large bin \<open>b\<close> holds \<open>xs\<close>, largest first; the first chunk of each size is
  in the circular skip list, and the others have no \<open>fd_nextsize\<close>.
\<close>

definition heads :: "memory \<Rightarrow> ptr list \<Rightarrow> ptr list" where
  "heads m xs = heads_from (chunksize m) 0 xs"

definition skip_list :: "memory \<Rightarrow> ptr \<Rightarrow> ptr list \<Rightarrow> bool" where
  "skip_list m b xs \<longleftrightarrow>
     bin_list m b xs \<and> sorted_wrt (\<lambda>x y. chunksize m y \<le> chunksize m x) xs \<and>
     circ (skip_links m) (heads m xs) \<and>
     (\<forall>x \<in> set xs. x \<notin> set (heads m xs) \<longrightarrow> get_fd_nextsize m x = NULL) \<and>
     (\<forall>x \<in> set xs. MIN_LARGE_SIZE \<le> chunksize m x)"

text \<open>The 48 bytes of the fields of each node are apart from those of the others.\<close>

definition spaced :: "ptr set \<Rightarrow> bool" where
  "spaced S \<longleftrightarrow> (\<forall>x \<in> S. unat x + 48 < 2 ^ 64 \<and>
     (\<forall>y \<in> S. x \<noteq> y \<longrightarrow> unat x + 48 \<le> unat y \<or> unat y + 48 \<le> unat x))"

lemma spaced_subset: "spaced S \<Longrightarrow> T \<subseteq> S \<Longrightarrow> spaced T"
  unfolding spaced_def by blast

lemma spaced_neq:
  assumes "spaced S" "x \<in> S" "y \<in> S" "unat i < 48" "unat j < 48" "x \<noteq> y \<or> i \<noteq> j"
  shows "x + i \<noteq> y + j"
proof (cases "x = y")
  case False
  then have "unat x + 48 \<le> unat y \<or> unat y + 48 \<le> unat x" "unat x + 48 < 2 ^ 64" "unat y + 48 < 2 ^ 64"
    using assms(1-3) unfolding spaced_def by blast+
  then show ?thesis using assms(4,5) by (intro offset_neq) auto
qed (use assms(6) in simp)

lemma spaced_get:
  assumes "spaced S" "x \<in> S" "y \<in> S"
  shows "get_fd_nextsize (set_fd m x v) y = get_fd_nextsize m y" "get_fd_nextsize (set_bk m x v) y = get_fd_nextsize m y"
    "get_bk_nextsize (set_fd m x v) y = get_bk_nextsize m y" "get_bk_nextsize (set_bk m x v) y = get_bk_nextsize m y"
    "get_fd (set_fd_nextsize m x v) y = get_fd m y" "get_fd (set_bk_nextsize m x v) y = get_fd m y"
    "get_bk (set_fd_nextsize m x v) y = get_bk m y" "get_bk (set_bk_nextsize m x v) y = get_bk m y"
    "get_fd (set_fd m x v) y = (if y = x then v else get_fd m y)" "get_fd (set_bk m x v) y = get_fd m y"
    "get_bk (set_bk m x v) y = (if y = x then v else get_bk m y)" "get_bk (set_fd m x v) y = get_bk m y"
    "get_fd_nextsize (set_fd_nextsize m x v) y = (if y = x then v else get_fd_nextsize m y)"
    "get_fd_nextsize (set_bk_nextsize m x v) y = get_fd_nextsize m y"
    "get_bk_nextsize (set_bk_nextsize m x v) y = (if y = x then v else get_bk_nextsize m y)"
    "get_bk_nextsize (set_fd_nextsize m x v) y = get_bk_nextsize m y"
    "chunksize_nomask (set_fd m x v) y = chunksize_nomask m y" "chunksize_nomask (set_bk m x v) y = chunksize_nomask m y"
    "chunksize_nomask (set_fd_nextsize m x v) y = chunksize_nomask m y"
    "chunksize_nomask (set_bk_nextsize m x v) y = chunksize_nomask m y"
    "chunksize (set_fd m x v) y = chunksize m y" "chunksize (set_bk m x v) y = chunksize m y"
    "chunksize (set_fd_nextsize m x v) y = chunksize m y" "chunksize (set_bk_nextsize m x v) y = chunksize m y"
  using spaced_neq [OF assms, of 16 32] spaced_neq [OF assms, of 16 40] spaced_neq [OF assms, of 24 32]
    spaced_neq [OF assms, of 24 40] spaced_neq [OF assms, of 32 16] spaced_neq [OF assms, of 40 16]
    spaced_neq [OF assms, of 32 24] spaced_neq [OF assms, of 40 24] spaced_neq [OF assms, of 16 24]
    spaced_neq [OF assms, of 24 16] spaced_neq [OF assms, of 32 40] spaced_neq [OF assms, of 40 32]
    spaced_neq [OF assms, of 16 8] spaced_neq [OF assms, of 24 8] spaced_neq [OF assms, of 32 8]
    spaced_neq [OF assms, of 40 8]
  by (auto simp: field_defs chunksize_def)

text \<open>A chunk removed from the bin list: how the list of heads changes.\<close>

lemma last_size_sorted:
  assumes "sorted_wrt (\<lambda>x y. f y \<le> f x) (us @ p # vs)" "us \<noteq> []"
  shows "f p \<le> last_size f c us"
  using assms by (cases us rule: rev_cases) (auto simp: sorted_wrt_append)

lemma heads_remove:
  fixes f :: "ptr \<Rightarrow> u64"
  assumes s: "sorted_wrt (\<lambda>x y. f y \<le> f x) (us @ p # vs)" and nz: "\<forall>x \<in> set (us @ p # vs). f x \<noteq> 0"
  defines "c \<equiv> last_size f 0 us" and "H \<equiv> heads_from f 0"
  shows "f p = c \<Longrightarrow> H (us @ p # vs) = H (us @ vs)"
    "f p \<noteq> c \<Longrightarrow> H (us @ p # vs) = H us @ p # heads_from f (f p) vs"
    "f p \<noteq> c \<Longrightarrow> vs = v # ws \<Longrightarrow> f v = f p \<Longrightarrow> H (us @ vs) = H us @ v # heads_from f (f p) vs"
    "f p \<noteq> c \<Longrightarrow> vs = [] \<or> f (hd vs) \<noteq> f p \<Longrightarrow> H (us @ vs) = H us @ heads_from f (f p) vs"
proof -
  show "f p = c \<Longrightarrow> H (us @ p # vs) = H (us @ vs)"
    by (simp add: H_def heads_append c_def)
  show "f p \<noteq> c \<Longrightarrow> H (us @ p # vs) = H us @ p # heads_from f (f p) vs"
    by (simp add: H_def heads_append c_def)
  show "f p \<noteq> c \<Longrightarrow> vs = v # ws \<Longrightarrow> f v = f p \<Longrightarrow> H (us @ vs) = H us @ v # heads_from f (f p) vs"
    by (simp add: H_def heads_append c_def)
  show "H (us @ vs) = H us @ heads_from f (f p) vs" if "f p \<noteq> c" "vs = [] \<or> f (hd vs) \<noteq> f p"
  proof (cases vs)
    case (Cons w ws)
    have "f w \<noteq> c"
    proof (cases us)
      case Nil
      then show ?thesis using nz Cons by (simp add: c_def)
    next
      case (Cons u us')
      then have "f p \<le> c" unfolding c_def by (intro last_size_sorted [OF s]) simp
      moreover have "f w \<le> f p" using s \<open>vs = w # ws\<close> by (simp add: sorted_wrt_append)
      ultimately show ?thesis using that(1) by auto
    qed
    then show ?thesis using that Cons by (simp add: H_def heads_append c_def)
  qed (simp add: H_def)
qed
lemma circ_replace:
  assumes c: "circ m (xs @ p # ys)" and ne: "xs @ ys \<noteq> []" and v: "v \<notin> set (xs @ p # ys)" "aligned v"
  defines "mr \<equiv> set_fd (set_bk m (get_fd m p) (get_bk m p)) (get_bk m p) (get_fd m p)"
  shows "circ (link_between mr v (get_bk m p) (get_fd m p)) (xs @ v # ys)"
proof -
  from ne obtain y zs where z: "ys @ xs = y # zs" by (cases "ys @ xs") auto
  have b: "bin_list m p (y # zs)" using c circ_rotate [of m xs "p # ys"] z by simp
  then have f: "get_fd m p = y" by (simp add: bin_list_first)
  have "circ mr (xs @ ys)" unfolding mr_def by (rule circ_remove [OF c])
  then have r: "circ mr (y # zs)" using circ_rotate [of mr xs ys] z by simp
  have al: "aligned y" "aligned (get_bk m p)"
    using b circ_neighbours(2) [OF c] c by (auto simp: bin_list_def circ_links)
  then have k: "get_bk mr y = get_bk m p" using f by (simp add: mr_def)
  have "set (y # zs) = set (ys @ xs)" using z by simp
  then have "circ (link_between mr v (get_bk mr y) y) ([] @ v # y # zs)"
    using r v by (intro circ_insert) auto
  then have "circ (link_between mr v (get_bk m p) (get_fd m p)) ((v # ys) @ xs)" using k f z by simp
  then show ?thesis using circ_rotate [of _ xs "v # ys"] by simp
qed

lemma circ_skip_cong:
  assumes "\<And>x. x \<in> set hs \<Longrightarrow> m' (x + 32) = m (x + 32) \<and> m' (x + 40) = m (x + 40)"
  shows "circ (skip_links m') hs = circ (skip_links m) hs"
  using assms by (cases hs) (auto simp: skip_links_def add.assoc intro!: bin_list_cong)

lemma skip_listD:
  assumes "skip_list m b xs"
  shows "bin_list m b xs" "sorted_wrt (\<lambda>x y. chunksize m y \<le> chunksize m x) xs"
    "circ (skip_links m) (heads m xs)"
    "\<And>x. x \<in> set xs \<Longrightarrow> x \<notin> set (heads m xs) \<Longrightarrow> get_fd_nextsize m x = NULL"
    "\<And>x. x \<in> set xs \<Longrightarrow> MIN_LARGE_SIZE \<le> chunksize m x"
  using assms unfolding skip_list_def by blast+

text \<open>The memory after \<open>p\<close> has left both lists, and the writes that do it.\<close>

lemma skip_list_after:
  assumes sl: "skip_list m b (us @ p # vs)"
    and bl: "bin_list m' b (us @ vs)"
    and cs: "\<And>x. x \<in> set (us @ vs) \<Longrightarrow> chunksize m' x = chunksize m x"
    and ring: "circ (skip_links m') (heads m (us @ vs))"
    and rest: "\<And>x. x \<in> set (us @ vs) \<Longrightarrow> x \<notin> set (heads m (us @ vs)) \<Longrightarrow> get_fd_nextsize m' x = NULL"
  shows "skip_list m' b (us @ vs)"
proof -
  have h: "heads m' (us @ vs) = heads m (us @ vs)" unfolding heads_def using cs by (intro heads_cong) auto
  have "sorted_wrt (\<lambda>x y. chunksize m y \<le> chunksize m x) (us @ vs)"
    using skip_listD(2) [OF sl] by (auto simp: sorted_wrt_append)
  then have "sorted_wrt (\<lambda>x y. chunksize m' y \<le> chunksize m' x) (us @ vs)"
    by (rule sorted_wrt_mono_rel [rotated]) (simp add: cs)
  then show ?thesis
    using bl ring rest skip_listD(5) [OF sl] cs unfolding skip_list_def h by auto
qed

lemma heads_distinct:
  assumes "distinct (us @ p # vs)"
  shows "p \<notin> set (heads_from f c us)" "p \<notin> set (heads_from f c vs)"
  using assms heads_subset [of f c us] heads_subset [of f c vs] by auto
definition unlinked :: "memory \<Rightarrow> ptr \<Rightarrow> memory" where
  "unlinked m p = set_fd (set_bk m (get_fd m p) (get_bk m p)) (get_bk m p) (get_fd m p)"

definition skip_unlinked :: "memory \<Rightarrow> ptr \<Rightarrow> memory" where
  "skip_unlinked m p =
     set_fd_nextsize (set_bk_nextsize m (get_fd_nextsize m p) (get_bk_nextsize m p))
       (get_bk_nextsize m p) (get_fd_nextsize m p)"

text \<open>What a large bin has to satisfy for \<open>unlink_chunk\<close>: the header's \<open>fd_nextsize\<close> is the \<open>fd\<close>
  of the next bin, which is never NULL.\<close>

definition large_node :: "memory \<Rightarrow> ptr \<Rightarrow> ptr list \<Rightarrow> bool" where
  "large_node m b xs \<longleftrightarrow> skip_list m b xs \<and> spaced (set (b # xs)) \<and> NULL \<notin> set xs \<and>
     get_fd_nextsize m b \<noteq> NULL"

definition node_words :: "ptr set \<Rightarrow> ptr set \<Rightarrow> u64 set" where
  "node_words S T = (\<lambda>x. x + 16) ` S \<union> (\<lambda>x. x + 24) ` S \<union> (\<lambda>x. x + 32) ` T \<union> (\<lambda>x. x + 40) ` T"

lemma large_nodeD:
  assumes "large_node m b (us @ p # vs)"
  shows "skip_list m b (us @ p # vs)" "spaced (set (b # us @ p # vs))" "NULL \<notin> set (us @ p # vs)"
    "get_fd_nextsize m b \<noteq> NULL" "get_fd m p \<in> set (b # us @ vs)" "get_bk m p \<in> set (b # us @ vs)"
    "get_bk m (get_fd m p) = p" "get_fd m (get_bk m p) = p" "get_fd m p = hd (vs @ [b])"
    "bin_list (unlinked m p) b (us @ vs)" "distinct (b # us @ p # vs)"
proof -
  show "skip_list m b (us @ p # vs)" "spaced (set (b # us @ p # vs))" "NULL \<notin> set (us @ p # vs)"
    "get_fd_nextsize m b \<noteq> NULL" using assms unfolding large_node_def by blast+
  then have l: "bin_list m b (us @ p # vs)" using skip_listD(1) by blast
  note n = bin_list_neighbours [OF l]
  show "get_fd m p = hd (vs @ [b])" by (rule n(1))
  show "get_fd m p \<in> set (b # us @ vs)" unfolding n(1) by (cases vs) auto
  show "get_bk m p \<in> set (b # us @ vs)" unfolding n(2) using last_in_set [of "b # us"] by auto
  show "get_bk m (get_fd m p) = p" "get_fd m (get_bk m p) = p" using n by simp_all
  show "bin_list (unlinked m p) b (us @ vs)" unfolding unlinked_def by (rule bin_list_remove [OF l])
  show "distinct (b # us @ p # vs)" using l by (simp add: bin_list_def)
qed

lemma unlinked_get:
  assumes "large_node m b (us @ p # vs)" "x \<in> set (b # us @ p # vs)"
  shows "get_fd_nextsize (unlinked m p) x = get_fd_nextsize m x"
    "get_bk_nextsize (unlinked m p) x = get_bk_nextsize m x"
    "chunksize (unlinked m p) x = chunksize m x" "chunksize_nomask (unlinked m p) x = chunksize_nomask m x"
proof -
  note D = large_nodeD [OF assms(1)]
  have f: "get_fd m p \<in> set (b # us @ p # vs)" "get_bk m p \<in> set (b # us @ p # vs)" using D(5,6) by auto
  note g = spaced_get [OF D(2) f(1) assms(2)] spaced_get [OF D(2) f(2) assms(2)]
  show "get_fd_nextsize (unlinked m p) x = get_fd_nextsize m x"
    "get_bk_nextsize (unlinked m p) x = get_bk_nextsize m x"
    "chunksize (unlinked m p) x = chunksize m x" "chunksize_nomask (unlinked m p) x = chunksize_nomask m x"
    unfolding unlinked_def by (simp_all only: g)
qed

lemma unlinked_words:
  assumes "large_node m b (us @ p # vs)" "unlinked m p a \<noteq> m a"
  shows "a \<in> node_words (set (b # us @ vs)) T"
  using assms(2) large_nodeD(5,6) [OF assms(1)] unfolding unlinked_def node_words_def
  by (auto simp: set_fd_def set_bk_def split: if_splits)

lemma unlinked_ring:
  assumes "large_node m b (us @ p # vs)" "set hs \<subseteq> set (us @ p # vs)"
  shows "circ (skip_links (unlinked m p)) hs = circ (skip_links m) hs"
proof (rule circ_skip_cong)
  fix x assume "x \<in> set hs"
  then have "x \<in> set (b # us @ p # vs)" using assms(2) by auto
  then show "unlinked m p (x + 32) = m (x + 32) \<and> unlinked m p (x + 40) = m (x + 40)"
    using unlinked_get(1,2) [OF assms(1)] by (simp add: get_fd_nextsize_def get_bk_nextsize_def)
qed

lemma large_unlink_eq:
  assumes n: "large_node m b (us @ p # vs)" and foot: "prev_size m (next_chunk m p) = chunksize m p"
  defines "m1 \<equiv> unlinked m p" and "fd \<equiv> get_fd m p"
  shows "get_fd_nextsize m p = NULL \<Longrightarrow> unlink_chunk m p = Inr m1"
    "get_fd_nextsize m p \<noteq> NULL \<Longrightarrow>
     get_bk_nextsize m1 (get_fd_nextsize m p) = p \<Longrightarrow> get_fd_nextsize m1 (get_bk_nextsize m p) = p \<Longrightarrow>
     unlink_chunk m p = Inr
       (if get_fd_nextsize m fd = NULL
        then if get_fd_nextsize m p = p then set_fd_nextsize (set_bk_nextsize m1 fd fd) fd fd
             else (let m2 = set_fd_nextsize m1 fd (get_fd_nextsize m p);
                       m3 = set_bk_nextsize m2 fd (get_bk_nextsize m2 p);
                       m4 = set_bk_nextsize m3 (get_fd_nextsize m3 p) fd
                   in set_fd_nextsize m4 (get_bk_nextsize m4 p) fd)
        else (let m2 = set_bk_nextsize m1 (get_fd_nextsize m p) (get_bk_nextsize m p)
              in set_fd_nextsize m2 (get_bk_nextsize m2 p) (get_fd_nextsize m2 p)))"
proof -
  note D = large_nodeD [OF n]
  have p: "p \<in> set (b # us @ p # vs)" and f: "get_fd m p \<in> set (b # us @ p # vs)" using D(5) by auto
  have "MIN_LARGE_SIZE \<le> chunksize m p" using skip_listD(5) [OF D(1)] by simp
  then have l: "\<not> in_smallbin_range (chunksize_nomask m p)"
    using chunksize_le_nomask [of m p] by (simp add: in_smallbin_range_def word_le_nat_alt word_less_nat_alt)
  note g = unlinked_get [OF n p] unlinked_get(1) [OF n f]
  show "get_fd_nextsize m p = NULL \<Longrightarrow> unlink_chunk m p = Inr m1"
    using l foot D(7,8) g by (simp add: unlink_chunk_def Let_def m1_def unlinked_def)
  show "get_fd_nextsize m p \<noteq> NULL \<Longrightarrow>
     get_bk_nextsize m1 (get_fd_nextsize m p) = p \<Longrightarrow> get_fd_nextsize m1 (get_bk_nextsize m p) = p \<Longrightarrow>
     unlink_chunk m p = Inr
       (if get_fd_nextsize m fd = NULL
        then if get_fd_nextsize m p = p then set_fd_nextsize (set_bk_nextsize m1 fd fd) fd fd
             else (let m2 = set_fd_nextsize m1 fd (get_fd_nextsize m p);
                       m3 = set_bk_nextsize m2 fd (get_bk_nextsize m2 p);
                       m4 = set_bk_nextsize m3 (get_fd_nextsize m3 p) fd
                   in set_fd_nextsize m4 (get_bk_nextsize m4 p) fd)
        else (let m2 = set_bk_nextsize m1 (get_fd_nextsize m p) (get_bk_nextsize m p)
              in set_fd_nextsize m2 (get_bk_nextsize m2 p) (get_fd_nextsize m2 p)))"
    using l foot D(7,8) g unfolding m1_def fd_def unlinked_def unlink_chunk_def Let_def by simp
qed

text \<open>The neighbours of a head in the skip list.\<close>

lemma ring_neighbours:
  assumes n: "large_node m b (us @ p # vs)" and h: "heads m (us @ p # vs) = hs @ p # ts"
  defines "fds \<equiv> get_fd_nextsize m p" and "bks \<equiv> get_bk_nextsize m p"
  shows "fds \<in> set (hs @ p # ts)" "bks \<in> set (hs @ p # ts)" "get_bk_nextsize m fds = p"
    "get_fd_nextsize m bks = p" "fds = p \<longleftrightarrow> hs = [] \<and> ts = []" "fds \<noteq> NULL"
    "set (hs @ p # ts) \<subseteq> set (us @ p # vs)" "bks = p \<longleftrightarrow> hs = [] \<and> ts = []"
proof -
  note D = large_nodeD [OF n]
  have c: "circ (skip_links m) (hs @ p # ts)" using skip_listD(3) [OF D(1)] unfolding h .
  note r = circ_neighbours [OF c, unfolded skip_links_fields, folded fds_def bks_def]
  show "fds \<in> set (hs @ p # ts)" "bks \<in> set (hs @ p # ts)" "get_bk_nextsize m fds = p"
    "get_fd_nextsize m bks = p" "fds = p \<longleftrightarrow> hs = [] \<and> ts = []" by (fact r)+
  show sub: "set (hs @ p # ts) \<subseteq> set (us @ p # vs)"
    unfolding h [symmetric] heads_def by (rule heads_subset)
  then show "fds \<noteq> NULL" using r(1) D(3) by auto
  show "bks = p \<longleftrightarrow> hs = [] \<and> ts = []"
    using r(3-5) unfolding fds_def bks_def by metis
qed
lemma skip_link_between:
  "link_between (skip_links m) v x y =
   skip_links (set_bk_nextsize (set_fd_nextsize (set_fd_nextsize (set_bk_nextsize m v x) v y) x v) y v)"
  by (simp add: link_between_def skip_links_fields)

lemma node_words_step:
  assumes "x \<in> T"
  shows "set_fd_nextsize m x v a \<noteq> m a \<Longrightarrow> a \<in> node_words S T" "set_bk_nextsize m x v a \<noteq> m a \<Longrightarrow> a \<in> node_words S T"
  using assms by (auto simp: set_fd_nextsize_def set_bk_nextsize_def node_words_def split: if_splits)

text \<open>Writes to the skip links alone keep the bin list and the sizes.\<close>

lemma skip_writes_keep:
  assumes sp: "spaced (set (b # xs))" and ys: "set ys \<subseteq> set xs"
    and w: "\<And>a. m' a \<noteq> m1 a \<Longrightarrow> \<exists>x \<in> set xs. a = x + 32 \<or> a = x + 40"
  shows "bin_list m' b ys = bin_list m1 b ys" "x \<in> set xs \<Longrightarrow> chunksize m' x = chunksize m1 x"
proof -
  have same: "m' (x + i) = m1 (x + i)" if "x \<in> set (b # xs)" "i = 8 \<or> i = 16 \<or> i = 24" for x i
  proof (rule ccontr)
    assume "m' (x + i) \<noteq> m1 (x + i)"
    then obtain y where y: "y \<in> set xs" "x + i = y + 32 \<or> x + i = y + 40" using w by blast
    then show False using spaced_neq [OF sp that(1), of y i 32] spaced_neq [OF sp that(1), of y i 40] that(2)
      by auto
  qed
  show "bin_list m' b ys = bin_list m1 b ys"
    by (rule bin_list_cong) (use ys same [of _ 16] same [of _ 24] in auto)
  show "x \<in> set xs \<Longrightarrow> chunksize m' x = chunksize m1 x"
    using same [of x 8] by (simp add: chunksize_def chunksize_nomask_def)
qed

lemma unlink_not_head:
  assumes n: "large_node m b (us @ p # vs)" and foot: "prev_size m (next_chunk m p) = chunksize m p"
    and h: "chunksize m p = last_size (chunksize m) 0 us"
  shows "unlink_chunk m p = Inr (unlinked m p)" "skip_list (unlinked m p) b (us @ vs)"
proof -
  note D = large_nodeD [OF n]
  note S = skip_listD [OF D(1)]
  have nz: "\<forall>x \<in> set (us @ p # vs). chunksize m x \<noteq> 0" using S(5) by fastforce
  have hh: "heads m (us @ p # vs) = heads m (us @ vs)"
    unfolding heads_def using heads_remove(1) [OF S(2) nz h] .
  have "heads m (us @ p # vs) = heads_from (chunksize m) 0 us @ heads_from (chunksize m) (chunksize m p) vs"
    by (simp add: heads_def heads_append h)
  then have "p \<notin> set (heads m (us @ p # vs))" using heads_distinct [of us p vs] D(11) by simp
  then have "get_fd_nextsize m p = NULL" using S(4) by simp
  then show "unlink_chunk m p = Inr (unlinked m p)" by (rule large_unlink_eq(1) [OF n foot])
  have sub: "set (heads m (us @ vs)) \<subseteq> set (us @ p # vs)"
    using heads_subset [of "chunksize m" 0 "us @ vs"] by (auto simp: heads_def)
  show "skip_list (unlinked m p) b (us @ vs)"
    by (rule skip_list_after [OF D(1,10)])
      (use unlinked_get [OF n] unlinked_ring [OF n sub] S(3,4) hh in auto)
qed

text \<open>After the skip links of the nodes \<open>Z\<close> have been set to make the new heads a circle.\<close>

lemma skip_ring_updated:
  assumes n: "large_node m b (us @ p # vs)"
    and w: "\<And>a. m' a \<noteq> unlinked m p a \<Longrightarrow> \<exists>x \<in> Z. a = x + 32 \<or> a = x + 40"
    and Z: "Z \<subseteq> set (us @ p # vs)" "Z - {p} \<subseteq> set (heads m (us @ vs))"
    and ring: "circ (skip_links m') (heads m (us @ vs))"
    and old: "\<And>x. x \<in> set (us @ vs) \<Longrightarrow> x \<notin> set (heads m (us @ vs)) \<Longrightarrow> x \<notin> set (heads m (us @ p # vs))"
  shows "skip_list m' b (us @ vs) \<and>
    (\<forall>a. m' a \<noteq> m a \<longrightarrow> a \<in> node_words (set (b # us @ vs)) (set (us @ p # vs)))"
proof
  let ?xs = "us @ p # vs" and ?ys = "us @ vs" and ?m1 = "unlinked m p"
  note D = large_nodeD [OF n] and S = skip_listD [OF large_nodeD(1) [OF n]]
  have w': "\<exists>x \<in> set ?xs. a = x + 32 \<or> a = x + 40" if "m' a \<noteq> ?m1 a" for a
    using w [OF that] Z(1) by blast
  note k = skip_writes_keep [of b ?xs _ m' ?m1, OF D(2) _ w']
  show "skip_list m' b ?ys"
  proof (rule skip_list_after [OF D(1)])
    show "bin_list m' b ?ys" using k(1) [of ?ys] D(10) by auto
    show "chunksize m' x = chunksize m x" if "x \<in> set ?ys" for x
      using k(2) [of ?ys x] unlinked_get(3) [OF n, of x] that by auto
    show "circ (skip_links m') (heads m ?ys)" by (fact ring)
    show "get_fd_nextsize m' x = NULL" if "x \<in> set ?ys" "x \<notin> set (heads m ?ys)" for x
    proof -
      have x: "x \<in> set ?xs" "x \<noteq> p" using that(1) D(11) by auto
      have "x \<notin> Z" using that(2) Z(2) x(2) by blast
      then have "x + 32 \<noteq> y + 32 \<and> x + 32 \<noteq> y + 40" if "y \<in> Z" for y
        using spaced_neq [OF D(2), of x y 32 40] Z(1) that x(1) by auto
      then have "m' (x + 32) = ?m1 (x + 32)" using w [of "x + 32"] by blast
      then show ?thesis using unlinked_get(1) [OF n, of x] S(4) [of x] old [of x] that x
        by (auto simp: get_fd_nextsize_def)
    qed
  qed
  show "\<forall>a. m' a \<noteq> m a \<longrightarrow> a \<in> node_words (set (b # ?ys)) (set ?xs)"
  proof (intro allI impI)
    fix a assume "m' a \<noteq> m a"
    then show "a \<in> node_words (set (b # ?ys)) (set ?xs)"
      using unlinked_words [OF n, of a] w' [of a] by (cases "m' a = ?m1 a") (auto simp: node_words_def)
  qed
qed

lemma unlink_head_next_same:
  assumes n: "large_node m b (us @ p # v # ws)" and foot: "prev_size m (next_chunk m p) = chunksize m p"
    and h: "chunksize m p \<noteq> last_size (chunksize m) 0 us" "chunksize m v = chunksize m p"
  shows "\<exists>m'. unlink_chunk m p = Inr m' \<and> skip_list m' b (us @ v # ws) \<and>
    (\<forall>a. m' a \<noteq> m a \<longrightarrow> a \<in> node_words (set (b # us @ v # ws)) (set (us @ p # v # ws)))"
proof -
  let ?xs = "us @ p # v # ws" and ?ys = "us @ v # ws" and ?f = "chunksize m" and ?m1 = "unlinked m p"
  note D = large_nodeD [OF n] and S = skip_listD [OF large_nodeD(1) [OF n]]
  have nz: "\<forall>x \<in> set ?xs. ?f x \<noteq> 0" using S(5) by fastforce
  define hs ts where "hs = heads_from ?f 0 us" and "ts = heads_from ?f (?f p) ws"
  have H: "heads m ?xs = hs @ p # ts" "heads m ?ys = hs @ v # ts"
    using heads_remove(2,3) [OF S(2) nz h(1)] h(2) unfolding heads_def hs_def ts_def by auto
  note r = ring_neighbours [OF n H(1)]
  let ?fds = "get_fd_nextsize m p" and ?bks = "get_bk_nextsize m p"
  have c: "circ (skip_links m) (hs @ p # ts)" using S(3) unfolding H(1) .
  have vn: "v \<notin> set (hs @ p # ts)"
    using heads_distinct [of "us @ [p]" v ws ?f] heads_subset [of ?f 0 us] heads_subset [of ?f "?f p" ws] D(11)
    unfolding hs_def ts_def by auto
  have fd: "get_fd m p = v" using D(9) by simp
  have al: "aligned x" if "x \<in> set (b # ?xs)" for x using bin_list_aligned [OF S(1)] that by auto
  have fv: "get_fd_nextsize m v = NULL" using S(4) [of v] vn H(1) by simp
  have mem: "?fds \<in> set ?xs" "?bks \<in> set ?xs" using r(1,2,7) by auto
  have g: "get_bk_nextsize ?m1 ?fds = p" "get_fd_nextsize ?m1 ?bks = p"
    "get_fd_nextsize ?m1 p = ?fds" "get_bk_nextsize ?m1 p = ?bks"
    using unlinked_get(1,2) [OF n] mem r(3,4) by auto
  note sg = spaced_get [OF D(2)]
  have ringc: "circ (skip_links ?m1) (hs @ p # ts)"
    using unlinked_ring [OF n] r(7) c by blast
  obtain m' where m': "unlink_chunk m p = Inr m'" "circ (skip_links m') (hs @ v # ts)"
    and w: "\<And>a. m' a \<noteq> ?m1 a \<Longrightarrow> \<exists>x \<in> {v, ?fds, ?bks}. a = x + 32 \<or> a = x + 40"
  proof (cases "?fds = p")
    case True
    let ?m' = "set_fd_nextsize (set_bk_nextsize ?m1 v v) v v"
    have "unlink_chunk m p = Inr ?m'"
      using large_unlink_eq(2) [OF n foot r(6) g(1,2)] fd fv True by simp
    moreover have "bin_list (skip_links ?m') v []"
      using al [of v] sg [of v v] by (simp add: bin_list_empty_iff skip_links_fields)
    moreover have "hs = []" "ts = []" using r(5) True by auto
    moreover have "\<exists>x \<in> {v, ?fds, ?bks}. a = x + 32 \<or> a = x + 40" if "?m' a \<noteq> ?m1 a" for a
      using that by (auto simp: set_fd_nextsize_def set_bk_nextsize_def split: if_splits)
    ultimately show thesis using that [of ?m'] by simp
  next
    case False
    then have nb: "?bks \<noteq> p" "hs @ ts \<noteq> []" using r(5,8) by auto
    let ?m2 = "set_fd_nextsize ?m1 v ?fds" let ?m3 = "set_bk_nextsize ?m2 v ?bks"
    let ?m4 = "set_bk_nextsize ?m3 ?fds v" let ?m' = "set_fd_nextsize ?m4 ?bks v"
    have vp: "v \<noteq> p" using vn by auto
    have e: "get_bk_nextsize ?m2 p = ?bks" "get_fd_nextsize ?m3 p = ?fds" "get_bk_nextsize ?m4 p = ?bks"
      using sg mem vp g(3,4) False nb(1) by simp_all
    have "unlink_chunk m p = Inr ?m'"
      using large_unlink_eq(2) [OF n foot r(6) g(1,2)] fd fv False e by (simp add: Let_def)
    moreover have "circ (skip_links ?m') (hs @ v # ts)"
    proof -
      have vf: "v \<noteq> ?fds" "v \<noteq> ?bks" using vn r(1,2) by auto
      have n32: "x + 32 \<noteq> y + 40" if "x \<in> set ?xs" "y \<in> set ?xs" for x y
        using spaced_neq [OF D(2), of x y 32 40] that by auto
      have ne: "?bks + 32 \<noteq> ?fds + 40" "v + 32 \<noteq> ?fds + 40" "?bks + 32 \<noteq> v + 40" "v + 32 \<noteq> v + 40"
        "?fds + 40 \<noteq> ?bks + 32" "?fds + 40 \<noteq> v + 32" "v + 40 \<noteq> ?bks + 32"
        using n32 [OF mem(2,1)] n32 [OF _ mem(1), of v] n32 [OF mem(2), of v] n32 [of v v] by auto
      have "circ (link_between (set_fd (set_bk (skip_links ?m1) ?fds ?bks) ?bks ?fds) v ?bks ?fds) (hs @ v # ts)"
        using circ_replace [OF ringc nb(2) vn] al [of v] g(3,4) by (simp add: skip_links_fields)
      moreover have "link_between (set_fd (set_bk (skip_links ?m1) ?fds ?bks) ?bks ?fds) v ?bks ?fds = skip_links ?m'"
        unfolding skip_links_fields(3,4) skip_link_between
        using ne by (intro arg_cong [of _ _ skip_links])
          (auto simp: set_fd_nextsize_def set_bk_nextsize_def fun_eq_iff)
      ultimately show ?thesis by simp
    qed
    moreover have "\<exists>x \<in> {v, ?fds, ?bks}. a = x + 32 \<or> a = x + 40" if "?m' a \<noteq> ?m1 a" for a
      using that by (auto simp: set_fd_nextsize_def set_bk_nextsize_def split: if_splits)
    ultimately show thesis using that [of ?m'] by blast
  qed
  have sub: "{v, ?fds, ?bks} \<subseteq> set ?xs" "{v, ?fds, ?bks} - {p} \<subseteq> set (heads m ?ys)"
    using mem r(1,2) unfolding H(2) by auto
  have old: "x \<notin> set (heads m ?xs)" if "x \<in> set ?ys" "x \<notin> set (heads m ?ys)" for x
    using that D(11) unfolding H by auto
  show ?thesis using skip_ring_updated [OF n w sub m'(2) [folded H(2)] old] m'(1) by blast
qed

lemma unlink_head_last_of_size:
  assumes n: "large_node m b (us @ p # vs)" and foot: "prev_size m (next_chunk m p) = chunksize m p"
    and h: "chunksize m p \<noteq> last_size (chunksize m) 0 us" "vs = [] \<or> chunksize m (hd vs) \<noteq> chunksize m p"
  shows "\<exists>m'. unlink_chunk m p = Inr m' \<and> skip_list m' b (us @ vs) \<and>
    (\<forall>a. m' a \<noteq> m a \<longrightarrow> a \<in> node_words (set (b # us @ vs)) (set (us @ p # vs)))"
proof -
  let ?xs = "us @ p # vs" and ?ys = "us @ vs" and ?f = "chunksize m" and ?m1 = "unlinked m p"
  note D = large_nodeD [OF n] and S = skip_listD [OF large_nodeD(1) [OF n]]
  have nz: "\<forall>x \<in> set ?xs. ?f x \<noteq> 0" using S(5) by fastforce
  define hs ts where "hs = heads_from ?f 0 us" and "ts = heads_from ?f (?f p) vs"
  have H: "heads m ?xs = hs @ p # ts" "heads m ?ys = hs @ ts"
    using heads_remove(2,4) [OF S(2) nz h(1)] h(2) unfolding heads_def hs_def ts_def by auto
  note r = ring_neighbours [OF n H(1)]
  let ?fds = "get_fd_nextsize m p" and ?bks = "get_bk_nextsize m p"
  have fd: "get_fd_nextsize m (get_fd m p) \<noteq> NULL"
  proof (cases vs)
    case Nil
    then show ?thesis using D(4,9) by simp
  next
    case (Cons v ws)
    then have "ts = v # heads_from ?f (?f v) ws" using h(2) by (simp add: ts_def)
    then have "heads m ((us @ [p]) @ v # ws) = (hs @ [p]) @ v # heads_from ?f (?f v) ws"
      using H(1) Cons by simp
    moreover have "large_node m b ((us @ [p]) @ v # ws)" using n Cons by simp
    ultimately have "get_fd_nextsize m v \<noteq> NULL" using ring_neighbours(6) by blast
    then show ?thesis using D(9) Cons by simp
  qed
  have mem: "?fds \<in> set ?xs" "?bks \<in> set ?xs" using r(1,2,7) by auto
  have g: "get_bk_nextsize ?m1 ?fds = p" "get_fd_nextsize ?m1 ?bks = p"
    "get_fd_nextsize ?m1 p = ?fds" "get_bk_nextsize ?m1 p = ?bks"
    using unlinked_get(1,2) [OF n] mem r(3,4) by auto
  let ?m2 = "set_bk_nextsize ?m1 ?fds ?bks" let ?m' = "set_fd_nextsize ?m2 ?bks ?fds"
  have e: "get_bk_nextsize ?m2 p = ?bks" "get_fd_nextsize ?m2 p = ?fds"
    using spaced_get [OF D(2), of ?fds p] mem g(3,4) by auto
  have u: "unlink_chunk m p = Inr ?m'"
    using large_unlink_eq(2) [OF n foot r(6) g(1,2)] fd e by (simp add: Let_def)
  have "circ (skip_links ?m1) (hs @ p # ts)"
    using unlinked_ring [OF n] r(7) S(3) H(1) by metis
  from circ_remove [OF this] have ring: "circ (skip_links ?m') (heads m ?ys)"
    by (simp add: skip_links_fields g H(2))
  have w: "\<exists>x \<in> {?fds, ?bks}. a = x + 32 \<or> a = x + 40" if "?m' a \<noteq> ?m1 a" for a
    using that by (auto simp: set_fd_nextsize_def set_bk_nextsize_def split: if_splits)
  have sub: "{?fds, ?bks} \<subseteq> set ?xs" "{?fds, ?bks} - {p} \<subseteq> set (heads m ?ys)"
    using mem r(1,2) unfolding H(2) by auto
  have old: "x \<notin> set (heads m ?xs)" if "x \<in> set ?ys" "x \<notin> set (heads m ?ys)" for x
    using that D(11) unfolding H by auto
  show ?thesis using skip_ring_updated [OF n w sub ring old] u by blast
qed

lemma unlink_large:
  assumes n: "large_node m b (us @ p # vs)" and foot: "prev_size m (next_chunk m p) = chunksize m p"
  shows "\<exists>m'. unlink_chunk m p = Inr m' \<and> skip_list m' b (us @ vs) \<and>
    (\<forall>a. m' a \<noteq> m a \<longrightarrow> a \<in> node_words (set (b # us @ vs)) (set (us @ p # vs)))"
proof -
  consider (rest) "chunksize m p = last_size (chunksize m) 0 us"
    | (same) v ws where "chunksize m p \<noteq> last_size (chunksize m) 0 us" "vs = v # ws" "chunksize m v = chunksize m p"
    | (last) "chunksize m p \<noteq> last_size (chunksize m) 0 us" "vs = [] \<or> chunksize m (hd vs) \<noteq> chunksize m p"
    by (metis list.exhaust_sel)
  then show ?thesis
  proof cases
    case rest
    then show ?thesis using unlink_not_head [OF n foot] unlinked_words [OF n] by blast
  next
    case same
    then show ?thesis using unlink_head_next_same [of m b us p v ws] n foot by blast
  next
    case last
    then show ?thesis using unlink_head_last_of_size [OF n foot] by blast
  qed
qed
section \<open>Placing a chunk in a large bin\<close>

text \<open>Where \<open>_int_malloc\<close> puts a chunk: by size, and second among the chunks of its size.\<close>

fun place_sorted :: "(ptr \<Rightarrow> u64) \<Rightarrow> ptr \<Rightarrow> ptr list \<Rightarrow> ptr list" where
  "place_sorted f v [] = [v]"
| "place_sorted f v (x # xs) =
     (if f v < f x then x # place_sorted f v xs
      else if f v = f x then x # v # xs
      else v # x # xs)"

lemma set_place_sorted: "set (place_sorted f v xs) = insert v (set xs)"
  by (induction xs) auto

lemma place_sorted_sorted:
  "sorted_wrt (\<lambda>x y. f y \<le> f x) xs \<Longrightarrow> sorted_wrt (\<lambda>x y. f y \<le> f x) (place_sorted f v xs)"
  by (induction xs) (auto simp: set_place_sorted)

lemma place_sorted_append:
  "\<forall>x \<in> set us. f v < f x \<Longrightarrow> place_sorted f v (us @ xs) = us @ place_sorted f v xs"
  by (induction us) auto

lemma or_1_even:
  fixes a :: u64
  assumes "a AND MALLOC_ALIGN_MASK = 0"
  shows "unat (a OR 1) = unat a + 1"
proof -
  have "a AND 1 = (a AND 15) AND 1" by (simp add: and.assoc)
  then have "a AND 1 = 0" using assms by simp
  then have "a OR 1 = a + 1" by (simp add: disjunctive_add_eq_or)
  moreover have "unat a \<noteq> 2 ^ 64 - 1"
    using assms by (auto simp: multiple_iff)
  then have "unat a + 1 < 2 ^ 64" using unat_lt_64 [of a] by linarith
  ultimately show ?thesis by (simp add: unat_plus_64)
qed

lemma or_1_less:
  fixes a b :: u64
  assumes "a AND MALLOC_ALIGN_MASK = 0" "b AND MALLOC_ALIGN_MASK = 0"
  shows "a OR 1 < b OR 1 \<longleftrightarrow> a < b" "a OR 1 = b OR 1 \<longleftrightarrow> a = b"
  using or_1_even [OF assms(1)] or_1_even [OF assms(2)]
  by (simp_all only: word_less_nat_alt word_unat_eq_iff) auto

text \<open>The header of a free chunk of the main arena.\<close>

definition plain_head :: "memory \<Rightarrow> ptr \<Rightarrow> bool" where
  "plain_head m x \<longleftrightarrow> chunksize_nomask m x = chunksize m x OR PREV_INUSE \<and>
     chunksize m x AND MALLOC_ALIGN_MASK = 0"

lemma plain_head_main: "plain_head m x \<Longrightarrow> chunk_main_arena m x"
proof -
  assume p: "plain_head m x"
  have "chunksize m x AND 4 = (chunksize m x AND 15) AND 4" by (simp add: and.assoc)
  then have "chunksize m x AND 4 = 0" using p by (simp add: plain_head_def)
  then show ?thesis using p by (simp add: chunk_main_arena_def plain_head_def bit.conj_disj_distrib2)
qed

lemma largebin_walk_stops:
  assumes "links (skip_links m) (hs @ [h])" "\<forall>x \<in> set hs. sz < chunksize_nomask m x"
    "\<not> sz < chunksize_nomask m h" "\<forall>x \<in> set (hs @ [h]). chunk_main_arena m x" "length hs < n"
  shows "largebin_walk n m sz (hd (hs @ [h])) = Inr h"
  using assms
proof (induction hs arbitrary: n)
  case Nil
  then show ?case by (cases n) auto
next
  case (Cons x hs)
  obtain k where k: "n = Suc k" using Cons.prems(5) by (cases n) auto
  obtain y ys where y: "hs @ [h] = y # ys" by (cases hs) auto
  have "get_fd_nextsize m x = y" "links (skip_links m) (hs @ [h])"
    using Cons.prems(1) y by (simp_all add: skip_links_fields)
  moreover have "chunk_main_arena m y" using Cons.prems(4) y by (metis append_Cons list.set_intros set_ConsD)
  ultimately show ?case using Cons.IH [of k] Cons.prems k y by simp
qed
lemma placed_skip_list:
  assumes sl: "skip_list m b (us @ vs)" and sp: "spaced (set (b # v # us @ vs))"
    and v: "v \<notin> set (b # us @ vs)" "aligned v" "MIN_LARGE_SIZE \<le> chunksize m v"
    and w: "\<And>a. m2 a \<noteq> m a \<Longrightarrow> \<exists>x \<in> Z. a = x + 32 \<or> a = x + 40"
    and Z: "Z \<subseteq> set (heads m (us @ v # vs))"
    and ring: "circ (skip_links m2) (heads m (us @ v # vs))"
    and old: "\<And>x. x \<in> set (us @ v # vs) \<Longrightarrow> x \<notin> set (heads m (us @ v # vs)) \<Longrightarrow> get_fd_nextsize m x = NULL"
    and srt: "sorted_wrt (\<lambda>x y. chunksize m y \<le> chunksize m x) (us @ v # vs)"
    and ends: "last (b # us) = bck" "hd (vs @ [b]) = fwd"
  defines "m' \<equiv> link_between m2 v bck fwd"
  shows "skip_list m' b (us @ v # vs)" "x \<in> set (b # us @ v # vs) \<Longrightarrow> chunksize_nomask m' x = chunksize_nomask m x"
proof -
  let ?xs = "us @ v # vs"
  have S: "set (b # ?xs) = set (b # v # us @ vs)" by auto
  have sp': "spaced (set (b # ?xs))" using sp unfolding S .
  have Zx: "Z \<subseteq> set ?xs" using Z heads_subset [of "chunksize m" 0 ?xs] unfolding heads_def by blast
  have w': "\<exists>x \<in> set ?xs. a = x + 32 \<or> a = x + 40" if "m2 a \<noteq> m a" for a using w [OF that] Zx by blast
  note k = skip_writes_keep [of b ?xs _ m2 m, OF sp' _ w']
  have bl2: "bin_list m2 b (us @ vs)" using k(1) [of "us @ vs"] skip_listD(1) [OF sl] by auto
  have bl: "bin_list m' b ?xs" unfolding m'_def by (rule bin_list_insert [OF bl2 v(1,2) ends])
  have mem: "bck \<in> set (b # ?xs)" "fwd \<in> set (b # ?xs)"
    unfolding ends [symmetric] using last_in_set [of "b # us"] by (cases vs; auto)+
  have m'w: "m' a = m2 a" if "\<forall>x \<in> set (b # ?xs). a \<noteq> x + 16 \<and> a \<noteq> x + 24" for a
    using that mem unfolding m'_def by (auto simp: link_between_def set_fd_def set_bk_def)
  have keep: "m' (x + i) = m2 (x + i)" if "x \<in> set (b # ?xs)" "i = 8 \<or> i = 32 \<or> i = 40" for x i
  proof (rule m'w, rule ballI)
    fix y assume "y \<in> set (b # ?xs)"
    then show "x + i \<noteq> y + 16 \<and> x + i \<noteq> y + 24"
      using spaced_neq [OF sp' that(1), of y i 16] spaced_neq [OF sp' that(1), of y i 24] that(2) by auto
  qed
  have head: "m2 (x + 8) = m (x + 8)" if "x \<in> set (b # ?xs)" for x
  proof (rule ccontr)
    assume "m2 (x + 8) \<noteq> m (x + 8)"
    then obtain y where y: "y \<in> set ?xs" "x + 8 = y + 32 \<or> x + 8 = y + 40" using w' by blast
    then show False using spaced_neq [OF sp' that, of y 8 32] spaced_neq [OF sp' that, of y 8 40] by auto
  qed
  show nm: "chunksize_nomask m' x = chunksize_nomask m x" if "x \<in> set (b # ?xs)" for x
    using keep [OF that, of 8] head [OF that] by (simp add: chunksize_nomask_def)
  then have cs: "chunksize m' x = chunksize m x" if "x \<in> set ?xs" for x
    using that by (simp add: chunksize_def)
  then have h: "heads m' ?xs = heads m ?xs" unfolding heads_def by (intro heads_cong) auto
  have "circ (skip_links m') (heads m ?xs) = circ (skip_links m2) (heads m ?xs)"
    by (rule circ_skip_cong) (use keep [of _ 32] keep [of _ 40] heads_subset [of "chunksize m" 0 ?xs] in \<open>auto simp: heads_def\<close>)
  then have ring': "circ (skip_links m') (heads m' ?xs)" using ring h by simp
  have old': "get_fd_nextsize m' x = NULL" if x: "x \<in> set ?xs" "x \<notin> set (heads m' ?xs)" for x
  proof -
    have "x + 32 \<noteq> y + 32 \<and> x + 32 \<noteq> y + 40" if "y \<in> Z" for y
      using spaced_neq [OF sp', of x y 32 40] x Z Zx that unfolding h by auto
    then have "m2 (x + 32) = m (x + 32)" using w [of "x + 32"] by blast
    then show ?thesis using keep [of x 32] x old [of x] unfolding h by (simp add: get_fd_nextsize_def)
  qed
  have "sorted_wrt (\<lambda>x y. chunksize m' y \<le> chunksize m' x) ?xs"
    using srt by (rule sorted_wrt_mono_rel [rotated]) (simp only: cs)
  then show "skip_list m' b ?xs"
    using bl ring' old' skip_listD(5) [OF sl] v(3) cs unfolding skip_list_def by auto
qed

text \<open>The two ends of the list as the code reads them.\<close>

lemma skip_list_ends:
  assumes "skip_list m b xs" "xs \<noteq> []"
  shows "get_fd m b = hd xs" "get_bk m b = last xs" "hd xs \<noteq> b"
    "\<exists>hs. heads m xs = hd xs # hs" "x \<in> set xs \<Longrightarrow> chunksize m (last xs) \<le> chunksize m x"
proof -
  note S = skip_listD [OF assms(1)]
  obtain y ys z zs where xs: "xs = y # ys" "xs = zs @ [z]" using assms(2) by (metis list.exhaust rev_exhaust)
  show "get_fd m b = hd xs" using bin_list_first [of m b y ys] S(1) xs(1) by simp
  show "get_bk m b = last xs" using bin_list_last [of m b zs z] S(1) xs(2) by simp
  show "hd xs \<noteq> b" using S(1) xs(1) by (auto simp: bin_list_def)
  have "chunksize m y \<noteq> 0" using S(5) [of y] xs(1) by auto
  then show "\<exists>hs. heads m xs = hd xs # hs" using xs(1) by (simp add: heads_def)
  show "x \<in> set xs \<Longrightarrow> chunksize m (last xs) \<le> chunksize m x"
    using S(2) xs(2) by (auto simp: sorted_wrt_append)
qed
text \<open>The skip list with \<open>v\<close> before \<open>h\<close>: the four stores in any of the two orders of the code.\<close>

definition skip_inserted :: "memory \<Rightarrow> ptr \<Rightarrow> ptr \<Rightarrow> memory" where
  "skip_inserted m v h =
     (let m1 = set_bk_nextsize (set_fd_nextsize m v h) v (get_bk_nextsize m h)
      in set_fd_nextsize (set_bk_nextsize m1 h v) (get_bk_nextsize m h) v)"

lemma skip_inserted_ring:
  assumes c: "circ (skip_links m) (hs @ h # ts)" and sp: "spaced (set (v # hs @ h # ts))"
    and v: "v \<notin> set (hs @ h # ts)" "aligned v"
  shows "circ (skip_links (skip_inserted m v h)) (hs @ v # h # ts)"
    "set_bk_nextsize (set_fd_nextsize (set_bk_nextsize (set_fd_nextsize m v h) v (get_bk_nextsize m h))
       (get_bk_nextsize m h) v) h v = skip_inserted m v h"
    "skip_inserted m v h a \<noteq> m a \<Longrightarrow> \<exists>x \<in> {v, h, get_bk_nextsize m h}. a = x + 32 \<or> a = x + 40"
    "get_bk_nextsize m h \<in> set (hs @ h # ts)" "get_fd_nextsize m (get_bk_nextsize m h) = h"
proof -
  let ?k = "get_bk_nextsize m h"
  note n = circ_neighbours [OF c, unfolded skip_links_fields]
  show k: "?k \<in> set (hs @ h # ts)" "get_fd_nextsize m ?k = h" by (rule n(2), rule n(4))
  have n32: "x + 32 \<noteq> y + 40" "y + 40 \<noteq> x + 32" if "x \<in> set (v # hs @ h # ts)" "y \<in> set (v # hs @ h # ts)" for x y
    using spaced_neq [OF sp, of x y 32 40] that by auto
  have ne: "?k + 32 \<noteq> h + 40" "?k + 32 \<noteq> v + 40" "v + 32 \<noteq> h + 40" "v + 32 \<noteq> v + 40"
    "h + 40 \<noteq> ?k + 32" "v + 40 \<noteq> ?k + 32" "h + 40 \<noteq> v + 32" "v + 40 \<noteq> v + 32"
    using n32 k(1) by auto
  have vn: "v \<noteq> h" "v \<noteq> ?k" using v(1) k(1) by auto
  show "set_bk_nextsize (set_fd_nextsize (set_bk_nextsize (set_fd_nextsize m v h) v ?k) ?k v) h v = skip_inserted m v h"
    using ne by (auto simp: skip_inserted_def Let_def set_fd_nextsize_def set_bk_nextsize_def fun_eq_iff)
  show "skip_inserted m v h a \<noteq> m a \<Longrightarrow> \<exists>x \<in> {v, h, ?k}. a = x + 32 \<or> a = x + 40"
    by (auto simp: skip_inserted_def Let_def set_fd_nextsize_def set_bk_nextsize_def split: if_splits)
  have "circ (link_between (skip_links m) v (get_bk (skip_links m) h) h) (hs @ v # h # ts)"
    by (rule circ_insert [OF c v])
  moreover have "link_between (skip_links m) v (get_bk (skip_links m) h) h = skip_links (skip_inserted m v h)"
    unfolding skip_link_between skip_links_fields using ne vn
    by (intro arg_cong [of _ _ skip_links])
      (auto simp: skip_inserted_def Let_def set_fd_nextsize_def set_bk_nextsize_def fun_eq_iff)
  ultimately show "circ (skip_links (skip_inserted m v h)) (hs @ v # h # ts)" by simp
qed

text \<open>A chunk that may be placed in the large bin \<open>b\<close>.\<close>

definition placeable :: "memory \<Rightarrow> ptr \<Rightarrow> ptr \<Rightarrow> ptr list \<Rightarrow> bool" where
  "placeable m b v xs \<longleftrightarrow> skip_list m b xs \<and> spaced (set (b # v # xs)) \<and> v \<notin> set (b # xs) \<and>
     aligned v \<and> MIN_LARGE_SIZE \<le> chunksize m v \<and> chunksize m v AND MALLOC_ALIGN_MASK = 0 \<and>
     get_fd_nextsize m v = NULL \<and> (\<forall>x \<in> set xs. plain_head m x)"

lemma placeableD:
  assumes "placeable m b v xs"
  shows "skip_list m b xs" "spaced (set (b # v # xs))" "v \<notin> set (b # xs)" "aligned v"
    "MIN_LARGE_SIZE \<le> chunksize m v" "chunksize m v AND MALLOC_ALIGN_MASK = 0"
    "get_fd_nextsize m v = NULL" "\<And>x. x \<in> set xs \<Longrightarrow> plain_head m x" "chunksize m v \<noteq> 0"
    "\<And>x. x \<in> set xs \<Longrightarrow> chunksize m x \<noteq> 0"
proof -
  show *: "skip_list m b xs" "spaced (set (b # v # xs))" "v \<notin> set (b # xs)" "aligned v"
    "MIN_LARGE_SIZE \<le> chunksize m v" "chunksize m v AND MALLOC_ALIGN_MASK = 0"
    "get_fd_nextsize m v = NULL" "\<And>x. x \<in> set xs \<Longrightarrow> plain_head m x"
    using assms unfolding placeable_def by blast+
  show "chunksize m v \<noteq> 0" using *(5) by auto
  show "\<And>x. x \<in> set xs \<Longrightarrow> chunksize m x \<noteq> 0" using skip_listD(5) [OF *(1)] by fastforce
qed

lemma placed_words:
  assumes "\<And>a. mr a \<noteq> m a \<Longrightarrow> \<exists>x \<in> Z. a = x + 32 \<or> a = x + 40" "Z \<subseteq> T"
    and "{v, bck, fwd} \<subseteq> S" "link_between mr v bck fwd a \<noteq> m a"
  shows "a \<in> node_words S T"
proof (cases "mr a = m a")
  case True
  then show ?thesis using assms(3,4)
    by (auto simp: link_between_def set_fd_def set_bk_def node_words_def split: if_splits)
next
  case False
  then show ?thesis using assms(1) [OF False] assms(2) by (auto simp: node_words_def)
qed

lemma place_in_empty:
  assumes p: "placeable m b v []"
  defines "m2 \<equiv> set_fd_nextsize (set_bk_nextsize m v v) v v"
  shows "largebin_place sy b v (chunksize m v) m = Inr (b, b, m2)"
    "skip_list (link_between m2 v b b) b [v]"
proof -
  note P = placeableD [OF p]
  have "get_fd m b = b" using skip_listD(1) [OF P(1)] by (simp add: bin_list_empty_iff)
  then show "largebin_place sy b v (chunksize m v) m = Inr (b, b, m2)"
    by (simp add: largebin_place_def m2_def)
  have h: "heads m ([] @ v # []) = [v]" using P(9) by (simp add: heads_def)
  have w: "\<exists>x \<in> {v}. a = x + 32 \<or> a = x + 40" if "m2 a \<noteq> m a" for a
    using that by (auto simp: m2_def set_fd_nextsize_def set_bk_nextsize_def split: if_splits)
  have ring: "circ (skip_links m2) [v]"
    using P(4) spaced_get [OF P(2), of v v] by (simp add: bin_list_empty_iff skip_links_fields m2_def)
  show "skip_list (link_between m2 v b b) b [v]"
    using placed_skip_list [where us = "[]" and vs = "[]" and Z = "{v}", simplified, OF P(1)] P w ring h by simp
qed
lemma place_smallest:
  assumes p: "placeable m b v xs" and ph: "xs \<noteq> []" and less: "chunksize m v < chunksize m (last xs)"
  defines "m2 \<equiv> skip_inserted m v (hd xs)"
  shows "largebin_place sy b v (chunksize m v) m = Inr (last xs, b, m2)"
    "skip_list (link_between m2 v (last xs) b) b (xs @ [v])"
    "\<And>a. m2 a \<noteq> m a \<Longrightarrow> \<exists>x \<in> set (v # xs). a = x + 32 \<or> a = x + 40"
proof -
  note P = placeableD [OF p] and S = skip_listD [OF placeableD(1) [OF p]]
  note E = skip_list_ends [OF P(1) ph]
  obtain hs where hs: "heads m xs = hd xs # hs" using E(4) by blast
  have hsub: "set (hd xs # hs) \<subseteq> set xs" unfolding hs [symmetric] heads_def by (rule heads_subset)
  have c: "circ (skip_links m) ([] @ hd xs # hs)" using S(3) hs by simp
  have sp: "spaced (set (v # [] @ hd xs # hs))" using P(2) by (rule spaced_subset) (use hsub in auto)
  have vn: "v \<notin> set ([] @ hd xs # hs)" using P(3) hsub by auto
  note I = skip_inserted_ring [OF c sp vn P(4)]
  let ?k = "get_bk_nextsize m (hd xs)"
  have k: "?k \<in> set xs" "hd xs \<in> set xs" using I(4) hsub by auto
  then have vk: "v \<noteq> ?k" using P(3) by auto
  note g = spaced_get [OF P(2), of v]
  let ?m1 = "set_fd_nextsize m v (hd xs)" let ?m1' = "set_bk_nextsize ?m1 v ?k"
  have b1: "get_fd ?m1 b = hd xs" "get_fd ?m1' b = hd xs" "get_bk_nextsize ?m1' v = ?k"
    "get_bk_nextsize ?m1 (hd xs) = ?k"
    using g [of b] g [of v] g [of "hd xs"] k E(1) by auto
  have b2: "get_fd (set_fd_nextsize ?m1' ?k v) b = hd xs"
    using spaced_get [OF P(2), of ?k b] k b1(2) by auto
  have pl: "plain_head m (last xs)" using P(8) ph by simp
  have lt: "chunksize m v OR 1 < chunksize_nomask m (last xs)"
    using pl less or_1_less(1) [OF P(6), of "chunksize m (last xs)"] by (simp add: plain_head_def)
  show "largebin_place sy b v (chunksize m v) m = Inr (last xs, b, m2)"
    using E(1-3) pl lt I(5) b1 b2 I(2) plain_head_main [OF pl]
    by (simp add: largebin_place_def Let_def m2_def)
  have ls: "last_size (chunksize m) 0 xs = chunksize m (last xs)"
    using ph by (cases xs rule: rev_cases) auto
  have H: "heads m (xs @ v # []) = hd xs # hs @ [v]"
    using hs less ls by (simp add: heads_def heads_append)
  have ring: "circ (skip_links m2) (heads m (xs @ v # []))"
    using I(1) circ_rotate [of _ "[v]" "hd xs # hs"] unfolding H m2_def by simp
  have srt: "sorted_wrt (\<lambda>x y. chunksize m y \<le> chunksize m x) (xs @ v # [])"
  proof -
    have "chunksize m v \<le> chunksize m x" if "x \<in> set xs" for x using E(5) [OF that] less by simp
    then show ?thesis using S(2) by (simp add: sorted_wrt_append)
  qed
  have w: "\<exists>x \<in> {v, hd xs, ?k}. a = x + 32 \<or> a = x + 40" if "m2 a \<noteq> m a" for a
    using I(3) that unfolding m2_def .
  have Z: "{v, hd xs, ?k} \<subseteq> set (heads m (xs @ v # []))" using I(4) unfolding H by auto
  have old: "get_fd_nextsize m x = NULL" if "x \<in> set (xs @ v # [])" "x \<notin> set (heads m (xs @ v # []))" for x
    using that S(4) [of x] unfolding H hs by auto
  show "skip_list (link_between m2 v (last xs) b) b (xs @ [v])"
    using placed_skip_list [where us = xs and vs = "[]", OF _ _ _ P(4,5) w Z ring old srt] P(1-3) ph by simp
  show "\<exists>x \<in> set (v # xs). a = x + 32 \<or> a = x + 40" if "m2 a \<noteq> m a" for a
    using w [OF that] k by auto
qed

text \<open>The walk reaches the first head that is not larger than the chunk.\<close>

lemma largebin_walk_head:
  assumes p: "placeable m b v (us @ h # vs)" and big: "\<forall>x \<in> set us. chunksize m v < chunksize m x"
    and le: "chunksize m h \<le> chunksize m v" and fuel: "length us < n"
  shows "largebin_walk n m (chunksize m v OR PREV_INUSE) (hd (us @ h # vs)) = Inr h"
    "heads m (us @ h # vs) = heads m us @ h # heads_from (chunksize m) (chunksize m h) vs"
    "heads m (us @ v # ws) = heads m us @ v # heads_from (chunksize m) (chunksize m v) ws"
proof -
  let ?f = "chunksize m" and ?xs = "us @ h # vs"
  note P = placeableD [OF p] and S = skip_listD [OF placeableD(1) [OF p]]
  have c: "?f v < last_size ?f 0 us" if "us \<noteq> []"
    using that big by (cases us rule: rev_cases) auto
  have "?f h \<noteq> last_size ?f 0 us"
    using c le P(10) [of h] by (cases "us = []") auto
  then show H: "heads m ?xs = heads m us @ h # heads_from ?f (?f h) vs" by (simp add: heads_def heads_append)
  have "?f v \<noteq> last_size ?f 0 us" using c P(9) by (cases "us = []") auto
  then show "heads m (us @ v # ws) = heads m us @ v # heads_from ?f (?f v) ws" by (simp add: heads_def heads_append)
  have sub: "set (heads m us) \<subseteq> set us" unfolding heads_def by (rule heads_subset)
  have len: "length (heads_from ?f a us) \<le> length us" for a by (induction us arbitrary: a) (auto intro: le_SucI)
  have ps: "plain_head m x" if "x \<in> set ?xs" for x using P(8) that .
  have "links (skip_links m) (heads m ?xs @ [hd (heads m ?xs)])"
    using S(3) H circ_links [of "heads m ?xs"] by simp
  then have "links (skip_links m) ((heads m us @ [h]) @ (heads_from ?f (?f h) vs @ [hd (heads m ?xs)]))"
    unfolding H by simp
  then have l: "links (skip_links m) (heads m us @ [h])" unfolding links_append by blast
  have gt: "\<forall>x \<in> set (heads m us). ?f v OR 1 < chunksize_nomask m x"
  proof
    fix x assume "x \<in> set (heads m us)"
    then have x: "x \<in> set us" using sub by blast
    then have "plain_head m x" "?f v < ?f x" using ps big by auto
    then show "?f v OR 1 < chunksize_nomask m x"
      using or_1_less(1) [OF P(6), of "?f x"] by (simp add: plain_head_def)
  qed
  have "\<not> ?f v OR 1 < chunksize_nomask m h"
    using or_1_less(1) [OF P(6), of "?f h"] ps [of h] le by (simp add: plain_head_def)
  moreover have "\<forall>x \<in> set (heads m us @ [h]). chunk_main_arena m x"
    using ps sub plain_head_main by auto
  moreover have "length (heads m us) < n" using len [of 0] fuel by (simp add: heads_def)
  ultimately have "largebin_walk n m (?f v OR 1) (hd (heads m us @ [h])) = Inr h"
    using largebin_walk_stops [OF l gt] by blast
  moreover have "hd (heads m us @ [h]) = hd ?xs"
  proof (cases us)
    case (Cons u us')
    then have "?f u \<noteq> 0" using P(10) [of u] by simp
    then show ?thesis using Cons by (simp add: heads_def)
  qed (simp add: heads_def)
  ultimately show "largebin_walk n m (?f v OR PREV_INUSE) (hd ?xs) = Inr h" by simp
qed
lemma place_before_smaller:
  assumes p: "placeable m b v (us @ h # vs)" and big: "\<forall>x \<in> set us. chunksize m v < chunksize m x"
    and less: "chunksize m h < chunksize m v" and last: "\<not> chunksize m v < chunksize m (last (us @ h # vs))"
    and fuel: "length us < loop_fuel sy"
  defines "m2 \<equiv> skip_inserted m v h"
  shows "largebin_place sy b v (chunksize m v) m = Inr (last (b # us), h, m2)"
    "skip_list (link_between m2 v (last (b # us)) h) b (us @ v # h # vs)"
    "\<And>a. m2 a \<noteq> m a \<Longrightarrow> \<exists>x \<in> set (v # us @ h # vs). a = x + 32 \<or> a = x + 40"
proof -
  let ?xs = "us @ h # vs" and ?f = "chunksize m"
  note P = placeableD [OF p] and S = skip_listD [OF placeableD(1) [OF p]]
  have ne: "?xs \<noteq> []" by simp
  note E = skip_list_ends [OF P(1) ne]
  note W = largebin_walk_head [OF p big order_less_imp_le [OF less] fuel]
  define hs ts where "hs = heads m us" and "ts = heads_from ?f (?f h) vs"
  have H: "heads m ?xs = hs @ h # ts" "heads m (us @ v # h # vs) = hs @ v # h # ts"
    using W(2,3) less by (auto simp: hs_def ts_def)
  have hsub: "set (hs @ h # ts) \<subseteq> set ?xs" unfolding H(1) [symmetric] heads_def by (rule heads_subset)
  have c: "circ (skip_links m) (hs @ h # ts)" using S(3) unfolding H(1) .
  have sp: "spaced (set (v # hs @ h # ts))" using P(2) by (rule spaced_subset) (use hsub in auto)
  have vn: "v \<notin> set (hs @ h # ts)" using P(3) hsub by auto
  note I = skip_inserted_ring [OF c sp vn P(4)]
  let ?k = "get_bk_nextsize m h"
  have k: "?k \<in> set ?xs" "h \<in> set ?xs" using I(4) hsub by auto
  have vk: "v \<noteq> ?k" "v \<noteq> h" using P(3) k by auto
  note g = spaced_get [OF P(2)]
  let ?m1 = "set_fd_nextsize m v h" let ?m1' = "set_bk_nextsize ?m1 v ?k"
  have r: "get_bk_nextsize ?m1 h = ?k" "get_bk_nextsize ?m1' h = ?k" "get_fd_nextsize ?m1' ?k = h"
    "get_bk_nextsize (set_bk_nextsize ?m1' h v) v = ?k"
    using g k vk I(5) by simp_all
  note nb = bin_list_neighbours [OF S(1)]
  have mem: "last (b # us) \<in> set (b # v # ?xs)" using last_in_set [of "b # us"] by auto
  have bk: "get_bk m2 h = last (b # us)" "get_fd m2 (last (b # us)) = h"
    using g k mem nb(2,4) by (auto simp: m2_def skip_inserted_def Let_def)
  have pl: "plain_head m (last ?xs)" "plain_head m (hd ?xs)" "plain_head m h" using P(8) by (auto simp: hd_append)
  have nlt: "\<not> ?f v OR 1 < chunksize_nomask m (last ?xs)"
    using pl(1) last or_1_less(1) [OF P(6), of "?f (last ?xs)"] by (simp add: plain_head_def)
  have neq: "?f v OR 1 \<noteq> chunksize_nomask m h"
    using pl(3) less or_1_less(2) [OF P(6), of "?f h"] by (auto simp: plain_head_def)
  show "largebin_place sy b v (?f v) m = Inr (last (b # us), h, m2)"
    unfolding largebin_place_def
    using E(1-3) pl(1,2) [THEN plain_head_main] nlt W(1) neq r bk
    by (simp add: Let_def m2_def [unfolded skip_inserted_def Let_def])
  have ring: "circ (skip_links m2) (heads m (us @ v # h # vs))" using I(1) unfolding H m2_def .
  have srt: "sorted_wrt (\<lambda>x y. ?f y \<le> ?f x) (us @ v # h # vs)"
    using S(2) big less by (auto simp: sorted_wrt_append)
  have w: "\<exists>x \<in> {v, h, ?k}. a = x + 32 \<or> a = x + 40" if "m2 a \<noteq> m a" for a
    using I(3) that unfolding m2_def .
  have Z: "{v, h, ?k} \<subseteq> set (heads m (us @ v # h # vs))" using I(4) unfolding H by auto
  have old: "get_fd_nextsize m x = NULL"
    if "x \<in> set (us @ v # h # vs)" "x \<notin> set (heads m (us @ v # h # vs))" for x
    using that S(4) [of x] unfolding H by auto
  show "skip_list (link_between m2 v (last (b # us)) h) b (us @ v # h # vs)"
    using placed_skip_list [where us = us and vs = "h # vs", OF P(1,2,3,4,5) w Z ring old srt] by simp
  show "\<exists>x \<in> set (v # ?xs). a = x + 32 \<or> a = x + 40" if "m2 a \<noteq> m a" for a
    using w [OF that] k by auto
qed

lemma place_after_equal:
  assumes p: "placeable m b v (us @ h # vs)" and big: "\<forall>x \<in> set us. chunksize m v < chunksize m x"
    and eq: "chunksize m h = chunksize m v" and last: "\<not> chunksize m v < chunksize m (last (us @ h # vs))"
    and fuel: "length us < loop_fuel sy"
  shows "largebin_place sy b v (chunksize m v) m = Inr (h, hd (vs @ [b]), m)"
    "skip_list (link_between m v h (hd (vs @ [b]))) b (us @ h # v # vs)"
proof -
  let ?xs = "us @ h # vs" and ?f = "chunksize m"
  note P = placeableD [OF p] and S = skip_listD [OF placeableD(1) [OF p]]
  have ne: "?xs \<noteq> []" by simp
  note E = skip_list_ends [OF P(1) ne]
  have le: "?f h \<le> ?f v" using eq by simp
  note W = largebin_walk_head [OF p big le fuel]
  have H: "heads m (us @ h # v # vs) = heads m ?xs"
    using W(2) eq by (simp add: heads_def heads_append split: if_splits)
  note nb = bin_list_neighbours [OF S(1)]
  have pl: "plain_head m (last ?xs)" "plain_head m (hd ?xs)" "plain_head m h" using P(8) by (auto simp: hd_append)
  have nlt: "\<not> ?f v OR 1 < chunksize_nomask m (last ?xs)"
    using pl(1) last or_1_less(1) [OF P(6), of "?f (last ?xs)"] by (simp add: plain_head_def)
  have same: "?f v OR 1 = chunksize_nomask m h" using pl(3) eq by (simp add: plain_head_def)
  show "largebin_place sy b v (?f v) m = Inr (h, hd (vs @ [b]), m)"
    unfolding largebin_place_def
    using E(1-3) pl(1,2) [THEN plain_head_main] nlt W(1) same nb(1,3)
    by (simp add: Let_def)
  have v: "v \<notin> set (b # (us @ [h]) @ vs)" "spaced (set (b # v # (us @ [h]) @ vs))" using P(2,3) by auto
  have sl: "skip_list m b ((us @ [h]) @ vs)" using P(1) by simp
  have l: "last (b # us @ [h]) = h" by simp
  have srt: "sorted_wrt (\<lambda>x y. ?f y \<le> ?f x) ((us @ [h]) @ v # vs)"
    using S(2) eq by (auto simp: sorted_wrt_append)
  have ring: "circ (skip_links m) (heads m ((us @ [h]) @ v # vs))" using S(3) H by simp
  have old: "get_fd_nextsize m x = NULL"
    if "x \<in> set ((us @ [h]) @ v # vs)" "x \<notin> set (heads m ((us @ [h]) @ v # vs))" for x
  proof (cases "x = v")
    case False
    then have "x \<in> set ?xs" "x \<notin> set (heads m ?xs)" using that H by auto
    then show ?thesis by (rule S(4))
  qed (use P(7) in simp)
  have w: "\<exists>x \<in> {}. a = x + 32 \<or> a = x + 40" if "m a \<noteq> m a" for a using that by simp
  have "skip_list (link_between m v h (hd (vs @ [b]))) b ((us @ [h]) @ v # vs)"
    by (rule placed_skip_list(1) [OF sl v(2,1) P(4,5) w _ ring old srt l refl]) auto
  then show "skip_list (link_between m v h (hd (vs @ [b]))) b (us @ h # v # vs)" by simp
qed

text \<open>All cases: the code computes sorted insertion.\<close>

lemma place_large:
  assumes p: "placeable m b v xs" and fuel: "length xs < loop_fuel sy"
  shows "\<exists>bck fwd m2. largebin_place sy b v (chunksize m v) m = Inr (bck, fwd, m2) \<and>
    skip_list (link_between m2 v bck fwd) b (place_sorted (chunksize m) v xs) \<and>
    {bck, fwd} \<subseteq> set (b # xs) \<and>
    (\<forall>a. m2 a \<noteq> m a \<longrightarrow> (\<exists>x \<in> set (v # xs). a = x + 32 \<or> a = x + 40))"
proof -
  let ?f = "chunksize m"
  have result: ?thesis
    if "largebin_place sy b v (?f v) m = Inr (bck, fwd, m2)" "skip_list (link_between m2 v bck fwd) b ys"
      "place_sorted ?f v xs = ys" "{bck, fwd} \<subseteq> set (b # xs)"
      "\<And>a. m2 a \<noteq> m a \<Longrightarrow> \<exists>x \<in> set (v # xs). a = x + 32 \<or> a = x + 40" for bck fwd m2 ys
    using that by blast
  consider (empty) "xs = []"
    | (least) "xs \<noteq> []" "?f v < ?f (last xs)"
    | (mid) us h vs where "xs = us @ h # vs" "\<forall>x \<in> set us. ?f v < ?f x" "?f h \<le> ?f v" "\<not> ?f v < ?f (last xs)"
  proof -
    define us where "us = takeWhile (\<lambda>x. ?f v < ?f x) xs"
    have all: "\<forall>x \<in> set us. ?f v < ?f x" unfolding us_def by (auto dest: set_takeWhileD)
    have xs: "xs = us @ dropWhile (\<lambda>x. ?f v < ?f x) xs" by (simp add: us_def)
    show thesis
    proof (cases "dropWhile (\<lambda>x. ?f v < ?f x) xs")
      case Nil
      then have "\<forall>x \<in> set xs. ?f v < ?f x" using all xs by simp
      then show thesis using that(1,2) by (cases "xs = []") auto
    next
      case (Cons h vs)
      then have "?f h \<le> ?f v" by (auto simp: dropWhile_eq_Cons_conv)
      moreover have "?f (last xs) \<le> ?f h"
        using skip_list_ends(5) [OF placeableD(1) [OF p], of h] xs Cons by (metis in_set_conv_decomp list.distinct(1) append_is_Nil_conv)
      ultimately show thesis using that(3) [of us h vs] all xs Cons by simp
    qed
  qed
  then show ?thesis
  proof cases
    case empty
    have "\<exists>x \<in> set (v # xs). a = x + 32 \<or> a = x + 40"
      if "set_fd_nextsize (set_bk_nextsize m v v) v v a \<noteq> m a" for a
      using that by (auto simp: set_fd_nextsize_def set_bk_nextsize_def split: if_splits)
    then show ?thesis by (intro result [OF place_in_empty [OF p [unfolded empty]]]) (use empty in auto)
  next
    case least
    have e: "place_sorted ?f v xs = xs @ [v]"
      using place_sorted_append [of xs ?f v "[]"] least(2) skip_list_ends(5) [OF placeableD(1) [OF p] least(1)]
      by (metis append_Nil2 order_less_le_trans place_sorted.simps(1))
    note l = place_smallest [OF p least]
    show ?thesis by (rule result [OF l(1,2) e]) (use least(1) l(3) in auto)
  next
    case (mid us h vs)
    have fu: "length us < loop_fuel sy" using fuel mid(1) by simp
    note q = p [unfolded mid(1)] mid(2)
    show ?thesis
    proof (cases "?f h = ?f v")
      case True
      have e: "place_sorted ?f v xs = us @ h # v # vs"
        using place_sorted_append [OF mid(2)] True by (simp add: mid(1))
      have "hd (vs @ [b]) \<in> set (b # xs)" using mid(1) by (cases vs) auto
      then show ?thesis
        by (intro result [OF place_after_equal [OF q True mid(4) [unfolded mid(1)] fu] e]) (use mid(1) in auto)
    next
      case False
      then have lt: "?f h < ?f v" using mid(3) by auto
      have e: "place_sorted ?f v xs = us @ v # h # vs"
        using place_sorted_append [OF mid(2)] lt by (auto simp: mid(1))
      have "last (b # us) \<in> set (b # xs)" using mid(1) last_in_set [of "b # us"] by auto
      note l = place_before_smaller [OF q lt mid(4) [unfolded mid(1)] fu]
      show ?thesis by (rule result [OF l(1,2) e])
          (use \<open>last (b # us) \<in> set (b # xs)\<close> mid(1) l(3) in auto)
    qed
  qed
qed
section \<open>The search of a large bin\<close>

lemma largebin_fit_stops:
  assumes "links (skip_links m) (h # ts)" "\<forall>x \<in> set ts. chunksize m x < nb" "\<not> chunksize m h < nb"
    "length ts < n"
  shows "largebin_fit n m nb (last (h # ts)) = Inr h"
  using assms
proof (induction ts arbitrary: n rule: rev_induct)
  case Nil
  then show ?case by (cases n) auto
next
  case (snoc t ts)
  obtain k where k: "n = Suc k" using snoc.prems(4) by (cases n) auto
  have "links (skip_links m) ((h # ts) @ [t])" using snoc.prems(1) by simp
  then have "links (skip_links m) (h # ts)" "get_bk_nextsize m t = last (h # ts)"
    by (auto simp: links_append skip_links_fields simp del: append_Cons)
  then show ?case using snoc.IH [of k] snoc.prems k by simp
qed

text \<open>Every size in the bin is the size of a head.\<close>

lemma heads_sizes:
  assumes "x \<in> set xs" "f x \<noteq> c" 
  shows "\<exists>h \<in> set (heads_from f c xs). f h = f x"
  using assms
proof (induction xs arbitrary: c)
  case (Cons y ys)
  show ?case
  proof (cases "f y = c \<or> f x \<noteq> f y")
    case True
    then have "x \<in> set ys" "f x \<noteq> f y \<or> f y = c" using Cons.prems by auto
    then show ?thesis using Cons.IH [of c] Cons.IH [of "f y"] Cons.prems(2) by (cases "f y = c") simp_all
  next
    case False
    then show ?thesis by simp
  qed
qed simp

lemma heads_sorted:
  "sorted_wrt (\<lambda>x y. f y \<le> f x) xs \<Longrightarrow> sorted_wrt (\<lambda>x y. f y \<le> f x) (heads_from f c xs)"
proof (induction xs arbitrary: c)
  case (Cons x xs)
  then show ?case using heads_subset [of f "f x" xs] by auto
qed simp

lemma skip_list_fit:
  assumes sl: "skip_list m b xs" "xs \<noteq> []" and fits: "nb \<le> chunksize m (hd xs)" and fuel: "length xs < n"
  shows "\<exists>h. largebin_fit n m nb (get_bk_nextsize m (hd xs)) = Inr h \<and> h \<in> set (heads m xs) \<and>
    nb \<le> chunksize m h \<and> (\<forall>x \<in> set xs. nb \<le> chunksize m x \<longrightarrow> chunksize m h \<le> chunksize m x)"
proof -
  let ?f = "chunksize m" let ?P = "\<lambda>x. ?f x < nb"
  note S = skip_listD [OF sl(1)]
  obtain hs0 where H: "heads m xs = hd xs # hs0" using skip_list_ends(4) [OF sl] by blast
  define ts where "ts = rev (takeWhile ?P (rev (heads m xs)))"
  define hs where "hs = rev (dropWhile ?P (rev (heads m xs)))"
  have split: "heads m xs = hs @ ts"
    unfolding hs_def ts_def by (metis rev_append rev_rev_ident takeWhile_dropWhile_id)
  have small: "\<forall>x \<in> set ts. ?P x" unfolding ts_def by (auto dest: set_takeWhileD)
  have "dropWhile ?P (rev (heads m xs)) \<noteq> []" using H fits by (auto simp: dropWhile_append)
  then obtain h gs where hg: "dropWhile ?P (rev (heads m xs)) = h # gs" by (cases "dropWhile ?P (rev (heads m xs))") auto
  then have hs: "hs = rev gs @ [h]" by (simp only: hs_def rev.simps)
  have hP: "\<not> ?P h" using hg by (auto simp: dropWhile_eq_Cons_conv)
  have L: "heads m xs = rev gs @ h # ts" using split hs by simp
  have ln: "links (skip_links m) (heads m xs @ [hd (heads m xs)])"
    using S(3) H circ_links [of "heads m xs"] by simp
  then have "links (skip_links m) (rev gs @ (h # ts) @ [hd xs])" unfolding L using H L by (metis append.assoc append_Cons list.sel(1))
  then have lt: "links (skip_links m) (h # ts)" unfolding links_append by blast
  have bk: "get_bk_nextsize m (hd xs) = last (h # ts)"
  proof -
    have "links (skip_links m) (heads m xs @ [hd xs])" using ln H by simp
    then have "get_bk (skip_links m) (hd xs) = last (heads m xs)" unfolding links_append using H by simp
    then show ?thesis unfolding L by (simp add: skip_links_fields)
  qed
  have len: "length (heads_from ?f c xs) \<le> length xs" for c by (induction xs arbitrary: c) (auto intro: le_SucI)
  have "length ts < n" using len [of 0] fuel L by (simp add: heads_def)
  then have w: "largebin_fit n m nb (get_bk_nextsize m (hd xs)) = Inr h"
    unfolding bk by (intro largebin_fit_stops [OF lt small hP])
  have srt: "sorted_wrt (\<lambda>x y. ?f y \<le> ?f x) (rev gs @ h # ts)"
    unfolding L [symmetric] heads_def by (rule heads_sorted [OF S(2)])
  have "?f h \<le> ?f x" if x: "x \<in> set xs" "nb \<le> ?f x" for x
  proof -
    have "?f x \<noteq> 0" using S(5) [OF x(1)] by auto
    then obtain y where y: "y \<in> set (heads m xs)" "?f y = ?f x" using heads_sizes [OF x(1)] unfolding heads_def by blast
    then have "y \<notin> set ts" using small x(2) by auto
    then have "y \<in> set gs \<or> y = h" using y(1) unfolding L by auto
    then have "?f h \<le> ?f y" using srt by (auto simp: sorted_wrt_append)
    then show ?thesis using y(2) by simp
  qed
  then show ?thesis using w hP L by auto
qed

text \<open>
  The chunk that is taken: the second one of the best size, so that the skip list stays as it is,
  unless there is only one, or it is the last chunk of the bin.
\<close>

lemma not_successor: "a mod 16 = 0 \<Longrightarrow> b mod 16 = 0 \<Longrightarrow> a \<noteq> b + 1" for a b :: nat
  by presburger

lemma largebin_victim:
  assumes sl: "skip_list m b xs" "xs \<noteq> []" and ph: "\<forall>x \<in> set xs. plain_head m x"
    and nb: "nb AND MALLOC_ALIGN_MASK = 0"
  defines "first \<equiv> get_fd m b"
  shows "first \<noteq> b" "chunksize_nomask m first \<ge> nb \<longleftrightarrow> nb \<le> chunksize m (hd xs)"
    "h \<in> set xs \<Longrightarrow> v = (if h \<noteq> get_bk m b \<and> chunksize_nomask m h = chunksize_nomask m (get_fd m h)
       then get_fd m h else h) \<Longrightarrow> v \<in> set xs \<and> chunksize m v = chunksize m h"
proof -
  note E = skip_list_ends [OF sl]
  show "first \<noteq> b" using E(1,3) by (simp add: first_def)
  have p: "plain_head m (hd xs)" using ph sl(2) by simp
  have "nb \<le> chunksize m (hd xs) OR 1 \<longleftrightarrow> nb \<le> chunksize m (hd xs)"
  proof -
    have u: "unat (chunksize m (hd xs) OR 1) = unat (chunksize m (hd xs)) + 1"
      using p by (intro or_1_even) (simp add: plain_head_def)
    have "unat nb mod 16 = 0" "unat (chunksize m (hd xs)) mod 16 = 0"
      using nb p by (simp_all add: plain_head_def multiple_iff)
    then have "unat nb \<noteq> unat (chunksize m (hd xs)) + 1" by (rule not_successor)
    then show ?thesis using u by (auto simp: word_le_nat_alt)
  qed
  then show "chunksize_nomask m first \<ge> nb \<longleftrightarrow> nb \<le> chunksize m (hd xs)"
    using p E(1) by (simp add: plain_head_def first_def)
  show "v \<in> set xs \<and> chunksize m v = chunksize m h"
    if h: "h \<in> set xs" and v: "v = (if h \<noteq> get_bk m b \<and> chunksize_nomask m h = chunksize_nomask m (get_fd m h)
       then get_fd m h else h)"
  proof (cases "h \<noteq> get_bk m b \<and> chunksize_nomask m h = chunksize_nomask m (get_fd m h)")
    case True
    obtain us vs where xs: "xs = us @ h # vs" using h by (auto simp: in_set_conv_decomp)
    have "vs \<noteq> []" using True E(2) xs by auto
    then have "get_fd m h = hd vs"
      using bin_list_neighbours(1) [of m b us h vs] skip_listD(1) [OF sl(1)] xs by simp
    then have f: "get_fd m h \<in> set xs" using xs \<open>vs \<noteq> []\<close> by simp
    have "chunksize m (get_fd m h) = chunksize m h" using True by (simp add: chunksize_def)
    then show ?thesis using v True f by simp
  qed (use v h in auto)
qed
lemma place_in_bin_large:
  assumes "placeable (mem s) b v xs" "length xs < loop_fuel sy" "b = bin_at av (largebin_index (chunksize (mem s) v))"
  shows "\<exists>m'. place_in_bin sy av v (chunksize (mem s) v) s =
      Inr (mark_bin av (largebin_index (chunksize (mem s) v)) s\<lparr>mem := m'\<rparr>) \<and>
    skip_list m' b (place_sorted (chunksize (mem s)) v xs) \<and>
    (\<forall>a. m' a \<noteq> mem s a \<longrightarrow> a \<in> node_words (set (b # v # xs)) (set (v # xs)))"
proof -
  let ?sz = "chunksize (mem s) v" let ?i = "largebin_index ?sz"
  note P = placeableD [OF assms(1)]
  have n: "\<not> in_smallbin_range ?sz" using P(5) by (simp add: in_smallbin_range_def)
  obtain bck fwd m2 where r: "largebin_place sy b v ?sz (mem s) = Inr (bck, fwd, m2)"
    and sl: "skip_list (link_between m2 v bck fwd) b (place_sorted (chunksize (mem s)) v xs)"
    and mem: "{bck, fwd} \<subseteq> set (b # xs)"
    and w: "\<forall>a. m2 a \<noteq> mem s a \<longrightarrow> (\<exists>x \<in> set (v # xs). a = x + 32 \<or> a = x + 40)"
    using place_large [OF assms(1,2)] by blast
  have "aligned bck" "aligned fwd" using mem bin_list_aligned [OF skip_listD(1) [OF P(1)]] by auto
  then have c: "set_fd (set_bk (set_fd (set_bk m2 v bck) v fwd) fwd v) bck v = link_between m2 v bck fwd"
    by (auto simp: link_between_def set_fd_def set_bk_def fun_eq_iff)
  let ?s = "mark_bin av ?i s\<lparr>mem := link_between m2 v bck fwd\<rparr>"
  have "place_in_bin sy av v ?sz s = Inr ?s"
    using n r assms(3) c by (simp add: place_in_bin_def Let_def upd_mem_def mark_bin_def)
  moreover have "a \<in> node_words (set (b # v # xs)) (set (v # xs))" if "link_between m2 v bck fwd a \<noteq> mem s a" for a
    by (rule placed_words [where Z = "set (v # xs)" and m = "mem s" and mr = m2 and v = v and bck = bck and fwd = fwd])
      (use w mem that in auto)
  ultimately show ?thesis using sl by blast
qed

section \<open>Properties\<close>

text \<open>
  C12: \<open>unlink_chunk\<close> on a large bin. For a chunk \<open>p\<close> with a matching footer it succeeds, whether \<open>p\<close>
  is a head of the skip list or not, alone in its size or not, and at either end: the bin then
  holds the same chunks without \<open>p\<close>, in their order, with a correct skip list over the first
  chunks of each size; only link words of the bin's nodes change.
\<close>
theorem unlink_keeps_skip_list:
  assumes "large_node m b (us @ p # vs)" "prev_size m (next_chunk m p) = chunksize m p"
  shows "\<exists>m'. unlink_chunk m p = Inr m' \<and> skip_list m' b (us @ vs) \<and>
    (\<forall>a. m' a \<noteq> m a \<longrightarrow> a \<in> node_words (set (b # us @ vs)) (set (us @ p # vs)))"
  using assms by (rule unlink_large)

text \<open>
  A large bin (number 64 of the arena 65536) with three chunks, of 1072, 1056 and 1056 bytes.
\<close>

definition example_large :: memory where
  "example_large = (\<lambda>_. 0)(66656 := 131072, 66664 := 135168, 66672 := 66656,
     131080 := 1073, 131088 := 133120, 131096 := 66640, 131104 := 133120, 131112 := 133120, 132144 := 1072,
     133128 := 1057, 133136 := 135168, 133144 := 131072, 133152 := 131072, 133160 := 131072, 134176 := 1056,
     135176 := 1057, 135184 := 66640, 135192 := 133120, 136224 := 1056,
     139272 := 1057)"

lemma example_large_sizes:
  "chunksize example_large 131072 = 1072" "chunksize example_large 133120 = 1056"
  "chunksize example_large 135168 = 1056" "chunksize example_large 139264 = 1056"
  by (simp_all add: example_large_def chunksize_def chunksize_nomask_def)

lemma example_large_skip_list: "skip_list example_large 66640 [131072, 133120, 135168]"
proof -
  have "heads example_large [131072, 133120, 135168] = [131072, 133120]"
    by (simp add: heads_def example_large_sizes)
  then show ?thesis
    by (simp add: skip_list_def example_large_sizes bin_list_def aligned_def word_le_nat_alt)
      (simp add: example_large_def skip_links_def field_defs)
qed

lemma example_large_node: "large_node example_large 66640 [131072, 133120, 135168]"
  using example_large_skip_list
  by (simp add: large_node_def spaced_def) (simp add: example_large_def field_defs)

lemma unlink_keeps_skip_list_witness:
  "\<exists>m'. unlink_chunk example_large 133120 = Inr m' \<and> skip_list m' 66640 [131072, 135168]"
proof -
  have "prev_size example_large (next_chunk example_large 133120) = chunksize example_large 133120"
    by (simp add: next_chunk_def example_large_sizes) (simp add: example_large_def prev_size_def)
  then show ?thesis
    using unlink_keeps_skip_list [of example_large 66640 "[131072]" 133120 "[135168]"] example_large_node by auto
qed

text \<open>
  C10: the placement of a large chunk in its bin (\<open>_int_malloc\<close>, the part after
  \<open>place chunk in bin\<close>) is sorted insertion. On a well-formed bin it succeeds, the bin then holds
  the chunk after the larger ones, second among those of its size and before the smaller ones,
  with a correct skip list, and its bit is set in the bin map.
\<close>
theorem large_bin_placement_sorts:
  assumes "placeable (mem s) b v xs" "length xs < loop_fuel sy" "b = bin_at av (largebin_index (chunksize (mem s) v))"
  shows "\<exists>s'. place_in_bin sy av v (chunksize (mem s) v) s = Inr s' \<and>
    skip_list (mem s') b (place_sorted (chunksize (mem s)) v xs) \<and>
    get_binmap s' av (largebin_index (chunksize (mem s) v)) \<noteq> 0 \<and>
    (\<forall>a. mem s' a \<noteq> mem s a \<longrightarrow> a \<in> node_words (set (b # v # xs)) (set (v # xs)))"
proof -
  let ?i = "largebin_index (chunksize (mem s) v)"
  obtain m' where m': "place_in_bin sy av v (chunksize (mem s) v) s = Inr (mark_bin av ?i s\<lparr>mem := m'\<rparr>)"
    "skip_list m' b (place_sorted (chunksize (mem s)) v xs)"
    "\<forall>a. m' a \<noteq> mem s a \<longrightarrow> a \<in> node_words (set (b # v # xs)) (set (v # xs))"
    using place_in_bin_large [OF assms] by blast
  moreover have "get_binmap (mark_bin av ?i s\<lparr>mem := m'\<rparr>) av ?i \<noteq> 0"
    using mark_bin_get [of av ?i s] by (simp add: get_binmap_def)
  ultimately show ?thesis by auto
qed

definition example_sorting :: "unit st" where
  "example_sorting = (static_state ())\<lparr>mem := example_large\<rparr>"

lemma example_sorting_heads: "\<forall>x \<in> set [131072, 133120, 135168]. plain_head (mem example_sorting) x"
  by (simp add: example_sorting_def plain_head_def example_large_sizes) (simp add: example_large_def field_defs)

lemma example_sorting_placeable: "placeable (mem example_sorting) 66640 139264 [131072, 133120, 135168]"
proof -
  have "spaced (set (66640 # 139264 # [131072, 133120, 135168]))" by (simp add: spaced_def)
  moreover have "get_fd_nextsize (mem example_sorting) 139264 = NULL"
    by (simp add: example_sorting_def example_large_def field_defs)
  moreover have "skip_list (mem example_sorting) 66640 [131072, 133120, 135168]"
    using example_large_skip_list by (simp add: example_sorting_def)
  moreover have "chunksize (mem example_sorting) 139264 = 1056" by (simp add: example_sorting_def example_large_sizes)
  moreover have "aligned 139264" by (simp add: aligned_def)
  ultimately show ?thesis using example_sorting_heads unfolding placeable_def by simp
qed

lemma large_bin_placement_sorts_witness:
  "\<exists>s'. place_in_bin bare_sys 65536 139264 1056 example_sorting = Inr s' \<and>
    skip_list (mem s') 66640 [131072, 133120, 139264, 135168]"
proof -
  have v: "chunksize (mem example_sorting) 139264 = 1056" by (simp add: example_sorting_def example_large_sizes)
  have b: "66640 = bin_at 65536 (largebin_index (chunksize (mem example_sorting) 139264))"
    unfolding v by (simp add: largebin_index_def largebin_index_64_def bin_at_def)
  have l: "place_sorted (chunksize (mem example_sorting)) 139264 [131072, 133120, 135168]
      = [131072, 133120, 139264, 135168]"
    by (simp add: example_sorting_def example_large_sizes)
  have "length [131072 :: ptr, 133120, 135168] < loop_fuel bare_sys" by (simp add: bare_sys_def)
  from large_bin_placement_sorts [OF example_sorting_placeable this b] show ?thesis
    unfolding l v by blast
qed

lemma largebin_best_fit:
  assumes "skip_list (mem s) b xs" "xs \<noteq> []" "\<forall>x \<in> set xs. plain_head (mem s) x"
    "nb AND MALLOC_ALIGN_MASK = 0" "length xs < loop_fuel sy" "b = bin_at av idx"
  shows "if nb \<le> chunksize (mem s) (hd xs)
    then \<exists>v \<in> set xs. nb \<le> chunksize (mem s) v \<and>
      (\<forall>x \<in> set xs. nb \<le> chunksize (mem s) x \<longrightarrow> chunksize (mem s) v \<le> chunksize (mem s) x) \<and>
      int_malloc_largebin sy av nb bytes idx s =
        bindE (split_or_exhaust sy ''malloc(): corrupted unsorted chunks'' av nb bytes v
            (chunksize (mem s) v) s) (\<lambda>(p, s). Inr (Some p, s))
    else int_malloc_largebin sy av nb bytes idx s = Inr (None, s)"
proof -
  note E = skip_list_ends [OF assms(1,2)] and V = largebin_victim [OF assms(1-4)]
  show ?thesis
  proof (cases "nb \<le> chunksize (mem s) (hd xs)")
    case False
    then show ?thesis using V(1,2) assms(6) by (simp add: int_malloc_largebin_def Let_def)
  next
    case True
    obtain h where h: "largebin_fit (loop_fuel sy) (mem s) nb (get_bk_nextsize (mem s) (hd xs)) = Inr h"
      "h \<in> set (heads (mem s) xs)" "nb \<le> chunksize (mem s) h"
      "\<forall>x \<in> set xs. nb \<le> chunksize (mem s) x \<longrightarrow> chunksize (mem s) h \<le> chunksize (mem s) x"
      using skip_list_fit [OF assms(1,2) True assms(5)] by blast
    have hx: "h \<in> set xs" using h(2) heads_subset [of "chunksize (mem s)" 0 xs] unfolding heads_def by blast
    define v where "v = (if h \<noteq> get_bk (mem s) b \<and>
      chunksize_nomask (mem s) h = chunksize_nomask (mem s) (get_fd (mem s) h) then get_fd (mem s) h else h)"
    have v: "v \<in> set xs" "chunksize (mem s) v = chunksize (mem s) h" using V(3) [OF hx v_def] by auto
    have "int_malloc_largebin sy av nb bytes idx s =
        bindE (split_or_exhaust sy ''malloc(): corrupted unsorted chunks'' av nb bytes v
            (chunksize (mem s) v) s) (\<lambda>(p, s). Inr (Some p, s))"
      unfolding int_malloc_largebin_def Let_def assms(6) [symmetric] v_def [symmetric] v(2)
      using V(1,2) True E(1) h(1) by (simp add: v_def)
    moreover have "nb \<le> chunksize (mem s) v"
      "\<forall>x \<in> set xs. nb \<le> chunksize (mem s) x \<longrightarrow> chunksize (mem s) v \<le> chunksize (mem s) x"
      using h(3,4) unfolding v(2) .
    ultimately show ?thesis using True v(1) by (simp only: if_True) blast
  qed
qed

text \<open>
  C11: \<open>_int_malloc\<close> takes the best fit from a large bin. If some chunk of a well-formed bin
  is large enough, the search ends and takes a chunk of the bin that is large enough and not
  larger than any other one that is. Otherwise, and so if the bin is empty, it takes nothing and
  changes nothing.
\<close>
theorem large_bin_best_fit:
  assumes "skip_list (mem s) b xs" "\<forall>x \<in> set xs. plain_head (mem s) x"
    "nb AND MALLOC_ALIGN_MASK = 0" "length xs < loop_fuel sy" "b = bin_at av idx"
  shows "if \<exists>x \<in> set xs. nb \<le> chunksize (mem s) x
    then \<exists>v \<in> set xs. nb \<le> chunksize (mem s) v \<and>
      (\<forall>x \<in> set xs. nb \<le> chunksize (mem s) x \<longrightarrow> chunksize (mem s) v \<le> chunksize (mem s) x) \<and>
      int_malloc_largebin sy av nb bytes idx s =
        bindE (split_or_exhaust sy ''malloc(): corrupted unsorted chunks'' av nb bytes v
            (chunksize (mem s) v) s) (\<lambda>(p, s). Inr (Some p, s))
    else int_malloc_largebin sy av nb bytes idx s = Inr (None, s)"
proof (cases xs)
  case Nil
  then have "get_fd (mem s) b = b" using skip_listD(1) [OF assms(1)] by (simp add: bin_list_empty_iff)
  then show ?thesis using Nil assms(5) by (simp add: int_malloc_largebin_def)
next
  case (Cons y ys)
  then have ne: "xs \<noteq> []" by simp
  have "chunksize (mem s) x \<le> chunksize (mem s) (hd xs)" if "x \<in> set xs" for x
    using skip_listD(2) [OF assms(1)] that unfolding Cons by auto
  then have "(\<exists>x \<in> set xs. nb \<le> chunksize (mem s) x) \<longleftrightarrow> nb \<le> chunksize (mem s) (hd xs)"
    using hd_in_set [OF ne] by (meson order_trans)
  then show ?thesis using largebin_best_fit [OF assms(1) ne assms(2-5), of bytes] by (simp only:)
qed

text \<open>
  In the example a request for 1040 bytes takes a chunk of 1056 bytes, and one for 1088 bytes nothing.
\<close>

lemma example_large_splits:
  assumes "v \<in> {133120, 135168}"
  shows "\<exists>s'. split_or_exhaust bare_sys msg 65536 1040 1032 v 1056 example_sorting = Inr (chunk2mem v, s')"
proof -
  have "prev_size example_large (next_chunk example_large v) = chunksize example_large v"
    using assms by (auto simp: next_chunk_def example_large_sizes) (simp_all add: example_large_def prev_size_def)
  moreover have "v \<in> set [131072, 133120, 135168]" using assms by auto
  then obtain us vs where "[131072, 133120, 135168] = us @ v # vs" by (meson split_list)
  ultimately obtain m' where "unlink_chunk example_large v = Inr m'"
    using unlink_large [of example_large 66640 us v vs] example_large_node by auto
  then show ?thesis by (simp add: split_or_exhaust_def example_sorting_def Let_def)
qed

lemma large_bin_best_fit_witness:
  "(\<exists>v \<in> {133120, 135168}. \<exists>s'. int_malloc_largebin bare_sys 65536 1040 1032 64 example_sorting
      = Inr (Some (chunk2mem v), s')) \<and>
   int_malloc_largebin bare_sys 65536 1088 1080 64 example_sorting = Inr (None, example_sorting)"
proof -
  have m: "mem example_sorting = example_large" by (simp add: example_sorting_def)
  have al: "(1040 :: u64) AND MALLOC_ALIGN_MASK = 0" "(1088 :: u64) AND MALLOC_ALIGN_MASK = 0"
    and b: "66640 = bin_at 65536 64" and fuel: "length [131072 :: ptr, 133120, 135168] < loop_fuel bare_sys"
    by (simp_all add: bin_at_def bare_sys_def)
  note fit = large_bin_best_fit [OF example_large_skip_list [folded m] example_sorting_heads _ fuel b, unfolded m]
  have "\<exists>x \<in> set [131072, 133120, 135168]. 1040 \<le> chunksize example_large x" by (simp add: example_large_sizes)
  then obtain v where v: "v \<in> set [131072, 133120, 135168]"
    "\<forall>x \<in> set [131072, 133120, 135168]. 1040 \<le> chunksize example_large x \<longrightarrow> chunksize example_large v \<le> chunksize example_large x"
    "int_malloc_largebin bare_sys 65536 1040 1032 64 example_sorting =
      bindE (split_or_exhaust bare_sys ''malloc(): corrupted unsorted chunks'' 65536 1040 1032 v
        (chunksize example_large v) example_sorting) (\<lambda>(p, s). Inr (Some p, s))"
    using fit [OF al(1), of 1032] by (simp only: if_True) blast
  have "v \<noteq> 131072" using v(2) by (auto simp: example_large_sizes)
  then have w: "v \<in> {133120, 135168}" "chunksize example_large v = 1056" using v(1) by (auto simp: example_large_sizes)
  obtain s' where "split_or_exhaust bare_sys ''malloc(): corrupted unsorted chunks'' 65536 1040 1032 v 1056 example_sorting
      = Inr (chunk2mem v, s')" using example_large_splits [OF w(1)] by blast
  then have "\<exists>v \<in> {133120, 135168}. \<exists>s'. int_malloc_largebin bare_sys 65536 1040 1032 64 example_sorting
      = Inr (Some (chunk2mem v), s')"
    using v(3) w by (intro bexI [of _ v] exI [of _ s']) simp_all
  moreover have "\<not> (\<exists>x \<in> set [131072, 133120, 135168]. 1088 \<le> chunksize example_large x)"
    by (simp add: example_large_sizes)
  then have "int_malloc_largebin bare_sys 65536 1088 1080 64 example_sorting = Inr (None, example_sorting)"
    using fit [OF al(2), of 1080] by (simp only: if_False)
  ultimately show ?thesis ..
qed

end
