(* ===== verification/Blocks.thy ===== *)
theory Blocks
  imports LargeBin CheckProps SizeClasses
begin

text \<open>
  The heap as a list of blocks between \<open>base\<close> and top, free or in use (\<open>seg\<close>, \<open>lay\<close>), and all bins of
  an arena together (\<open>bins_hold\<close>). The lemmas say which words these depend on, and that
  \<open>unlink_chunk\<close> takes a free block out of whichever bin it is in and leaves the rest as it is.
\<close>

section \<open>Blocks\<close>

text \<open>
  The heap between two chunk boundaries as a list of blocks: the address of each chunk and whether
  it is in use. \<open>block m pu x u\<close>: the chunk \<open>x\<close> is well-formed after a block whose use is \<open>pu\<close>. No
  two adjacent chunks are free, and a free chunk has a plain header and its size as footer.
\<close>

definition block :: "memory \<Rightarrow> bool \<Rightarrow> ptr \<Rightarrow> bool \<Rightarrow> bool" where
  "block m pu x u \<longleftrightarrow>
     aligned x \<and> MINSIZE \<le> chunksize m x \<and> chunksize m x AND MALLOC_ALIGN_MASK = 0 \<and>
     unat x + unat (chunksize m x) + 16 < 2 ^ 64 \<and> (prev_inuse m x \<longleftrightarrow> pu) \<and> (pu \<or> u) \<and>
     (u \<or> plain_head m x \<and> prev_size m (next_chunk m x) = chunksize m x)"

fun seg :: "memory \<Rightarrow> ptr \<Rightarrow> bool \<Rightarrow> (ptr \<times> bool) list \<Rightarrow> ptr \<Rightarrow> bool \<Rightarrow> bool" where
  "seg m p pu [] e eu \<longleftrightarrow> p = e \<and> pu = eu"
| "seg m p pu ((x, u) # bs) e eu \<longleftrightarrow> p = x \<and> block m pu x u \<and> seg m (next_chunk m x) u bs e eu"

definition frees :: "(ptr \<times> bool) list \<Rightarrow> ptr set" where
  "frees bs = {x. (x, False) \<in> set bs}"

lemma frees_simps [simp]:
  "frees [] = {}" "frees ((x, u) # bs) = (if u then frees bs else insert x (frees bs))"
  "frees (as @ bs) = frees as \<union> frees bs"
  by (auto simp: frees_def)

lemma blockD:
  assumes "block m pu x u"
  shows "aligned x" "32 \<le> unat (chunksize m x)" "chunksize m x AND MALLOC_ALIGN_MASK = 0"
    "unat x + unat (chunksize m x) + 16 < 2 ^ 64" "prev_inuse m x \<longleftrightarrow> pu" "pu \<or> u"
    "\<not> u \<Longrightarrow> plain_head m x" "\<not> u \<Longrightarrow> prev_size m (next_chunk m x) = chunksize m x"
    "unat (next_chunk m x) = unat x + unat (chunksize m x)" "MINSIZE \<le> chunksize m x"
proof -
  show *: "aligned x" "chunksize m x AND MALLOC_ALIGN_MASK = 0"
    "unat x + unat (chunksize m x) + 16 < 2 ^ 64" "prev_inuse m x \<longleftrightarrow> pu" "pu \<or> u"
    "\<not> u \<Longrightarrow> plain_head m x" "\<not> u \<Longrightarrow> prev_size m (next_chunk m x) = chunksize m x" "MINSIZE \<le> chunksize m x"
    using assms unfolding block_def by blast+
  show "32 \<le> unat (chunksize m x)" using *(8) by (simp add: word_le_nat_alt)
  show "unat (next_chunk m x) = unat x + unat (chunksize m x)"
    unfolding next_chunk_def using *(3) by (intro unat_offset) simp
qed

lemma seg_append: "seg m p pu (as @ bs) e eu \<longleftrightarrow> (\<exists>q qu. seg m p pu as q qu \<and> seg m q qu bs e eu)"
proof (induction as arbitrary: p pu)
  case (Cons c as)
  show ?case by (cases c) (simp add: Cons.IH conj_assoc)
qed simp

lemma seg_le: "seg m p pu bs e eu \<Longrightarrow> unat p \<le> unat e"
proof (induction bs arbitrary: p pu)
  case (Cons c bs)
  then show ?case using blockD(9) by (cases c) fastforce
qed simp

lemma seg_block:
  assumes "seg m p pu bs e eu" "(x, u) \<in> set bs"
  shows "unat p \<le> unat x" "unat x + unat (chunksize m x) \<le> unat e" "\<exists>pu. block m pu x u"
proof -
  obtain as cs where bs: "bs = as @ (x, u) # cs" using assms(2) by (auto simp: in_set_conv_decomp)
  then obtain q qu where q: "seg m p pu as q qu" "seg m q qu ((x, u) # cs) e eu"
    using assms(1) unfolding bs seg_append by blast
  then have b: "block m qu x u" "q = x" "seg m (next_chunk m x) u cs e eu" by auto
  show "unat p \<le> unat x" using seg_le [OF q(1)] b(2) by simp
  show "unat x + unat (chunksize m x) \<le> unat e" using seg_le [OF b(3)] blockD(9) [OF b(1)] by simp
  show "\<exists>pu. block m pu x u" using b(1) by blast
qed

lemma seg_apart:
  assumes "seg m p pu (as @ (x, u) # cs) e eu"
  shows "(y, w) \<in> set as \<Longrightarrow> unat y + unat (chunksize m y) \<le> unat x"
    "(y, w) \<in> set cs \<Longrightarrow> unat x + unat (chunksize m x) \<le> unat y"
proof -
  obtain q qu where q: "seg m p pu as q qu" "seg m q qu ((x, u) # cs) e eu"
    using assms unfolding seg_append by blast
  then have b: "block m qu x u" "q = x" "seg m (next_chunk m x) u cs e eu" by auto
  show "(y, w) \<in> set as \<Longrightarrow> unat y + unat (chunksize m y) \<le> unat x"
    using seg_block(2) [OF q(1)] b(2) by blast
  show "(y, w) \<in> set cs \<Longrightarrow> unat x + unat (chunksize m x) \<le> unat y"
    using seg_block(1) [OF b(3)] blockD(9) [OF b(1)] by fastforce
qed

lemma seg_disjoint:
  assumes "seg m p pu bs e eu" "(x, u) \<in> set bs" "(y, w) \<in> set bs" "(x, u) \<noteq> (y, w)"
  shows "unat x + unat (chunksize m x) \<le> unat y \<or> unat y + unat (chunksize m y) \<le> unat x" "x \<noteq> y"
proof -
  obtain as cs where bs: "bs = as @ (x, u) # cs" using assms(2) by (auto simp: in_set_conv_decomp)
  then have "(y, w) \<in> set as \<or> (y, w) \<in> set cs" using assms(3,4) by auto
  then show *: "unat x + unat (chunksize m x) \<le> unat y \<or> unat y + unat (chunksize m y) \<le> unat x"
    using seg_apart [OF assms(1) [unfolded bs]] by blast
  obtain a b where "block m a x u" "block m b y w" using seg_block(3) [OF assms(1)] assms(2,3) by blast
  then show "x \<noteq> y" using * blockD(2) by fastforce
qed

lemma seg_distinct: "seg m p pu bs e eu \<Longrightarrow> distinct (map fst bs)"
proof (induction bs arbitrary: p pu)
  case (Cons c bs)
  obtain x u where c: "c = (x, u)" by (cases c)
  have b: "block m pu x u" "seg m (next_chunk m x) u bs e eu" using Cons.prems c by auto
  have "x \<notin> fst ` set bs"
  proof
    assume "x \<in> fst ` set bs"
    then obtain w where "(x, w) \<in> set bs" by auto
    then have "unat (next_chunk m x) \<le> unat x" using seg_block(1) [OF b(2)] by blast
    then show False using blockD(2,9) [OF b(1)] by simp
  qed
  then show ?case using Cons.IH [OF b(2)] c by simp
qed simp

text \<open>What the list of blocks depends on: the headers, and the footers of free chunks.\<close>

lemma block_cong:
  assumes "m' (x + 8) = m (x + 8)" "\<not> u \<Longrightarrow> m' (next_chunk m x) = m (next_chunk m x)"
  shows "block m' pu x u = block m pu x u" "next_chunk m' x = next_chunk m x" "chunksize m' x = chunksize m x"
proof -
  show c: "chunksize m' x = chunksize m x" using assms(1) by (simp add: chunksize_def chunksize_nomask_def)
  then show n: "next_chunk m' x = next_chunk m x" by (simp add: next_chunk_def)
  show "block m' pu x u = block m pu x u"
    unfolding block_def n c plain_head_def using assms
    by (auto simp: prev_inuse_def chunksize_nomask_def prev_size_def)
qed

lemma seg_cong:
  assumes "\<And>x u. (x, u) \<in> set bs \<Longrightarrow> m' (x + 8) = m (x + 8) \<and> (u \<or> m' (next_chunk m x) = m (next_chunk m x))"
  shows "seg m' p pu bs e eu = seg m p pu bs e eu"
  using assms
proof (induction bs arbitrary: p pu)
  case (Cons c bs)
  obtain x u where c: "c = (x, u)" by (cases c)
  have e: "m' (x + 8) = m (x + 8)" "\<not> u \<Longrightarrow> m' (next_chunk m x) = m (next_chunk m x)"
    using Cons.prems [of x u] c by auto
  note b = block_cong [OF e]
  have "seg m' (next_chunk m x) u bs e eu = seg m (next_chunk m x) u bs e eu"
    by (rule Cons.IH) (use Cons.prems in auto)
  then show ?case by (simp add: c b)
qed simp
section \<open>The bins of an arena\<close>

lemma skip_list_cong:
  assumes "\<And>x i. x \<in> set xs \<Longrightarrow> i = 8 \<or> i = 16 \<or> i = 24 \<or> i = 32 \<or> i = 40 \<Longrightarrow> m' (x + i) = m (x + i)"
    and "m' (b + 16) = m (b + 16)" "m' (b + 24) = m (b + 24)"
  shows "skip_list m' b xs = skip_list m b xs"
proof -
  have cs: "chunksize m' x = chunksize m x" if "x \<in> set xs" for x
    using assms(1) [OF that, of 8] by (simp add: chunksize_def chunksize_nomask_def)
  have h: "heads m' xs = heads m xs" unfolding heads_def using cs by (intro heads_cong) auto
  have bl: "bin_list m' b xs = bin_list m b xs"
    by (rule bin_list_cong) (use assms in auto)
  have "circ (skip_links m') (heads m xs) = circ (skip_links m) (heads m xs)"
    by (rule circ_skip_cong) (use assms(1) heads_subset [of "chunksize m" 0 xs] in \<open>auto simp: heads_def\<close>)
  moreover have "get_fd_nextsize m' x = get_fd_nextsize m x" if "x \<in> set xs" for x
    using assms(1) [OF that, of 32] by (simp add: get_fd_nextsize_def)
  moreover have "sorted_wrt (\<lambda>x y. chunksize m' y \<le> chunksize m' x) xs =
      sorted_wrt (\<lambda>x y. chunksize m y \<le> chunksize m x) xs"
    using cs by (auto intro: sorted_wrt_mono_rel [of xs, rotated])
  ultimately show ?thesis unfolding skip_list_def h bl using cs by auto
qed

text \<open>
  Bin \<open>i\<close> holds the chunks \<open>xs\<close>: a circular list, for the large bins with its skip list; the sizes
  are those of the bin, except in the unsorted list (1), whose large chunks have no \<open>fd_nextsize\<close>.
\<close>

abbreviation header :: "ptr \<Rightarrow> nat \<Rightarrow> ptr" where "header av i \<equiv> bin_at av (of_nat i)"

definition bin_ok :: "memory \<Rightarrow> ptr \<Rightarrow> nat \<Rightarrow> ptr list \<Rightarrow> bool" where
  "bin_ok m av i xs \<longleftrightarrow>
     bin_list m (header av i) xs \<and> (64 \<le> i \<longrightarrow> skip_list m (header av i) xs) \<and>
     (2 \<le> i \<longrightarrow> (\<forall>x \<in> set xs. unat (bin_index (chunksize m x)) = i)) \<and>
     (i = 1 \<longrightarrow> (\<forall>x \<in> set xs. MIN_LARGE_SIZE \<le> chunksize m x \<longrightarrow> get_fd_nextsize m x = NULL))"

lemma bin_ok_cong:
  assumes "\<And>x i. x \<in> set xs \<Longrightarrow> i = 8 \<or> i = 16 \<or> i = 24 \<Longrightarrow> m' (x + i) = m (x + i)"
    and "\<And>x i. x \<in> set xs \<Longrightarrow> MIN_LARGE_SIZE \<le> chunksize m x \<Longrightarrow> i = 32 \<or> i = 40 \<Longrightarrow> m' (x + i) = m (x + i)"
    and "m' (header av i + 16) = m (header av i + 16)" "m' (header av i + 24) = m (header av i + 24)"
    and "bin_ok m av i xs"
  shows "bin_ok m' av i xs"
proof -
  have cs: "chunksize m' x = chunksize m x" if "x \<in> set xs" for x
    using assms(1) [OF that, of 8] by (simp add: chunksize_def chunksize_nomask_def)
  have bl: "bin_list m' (header av i) xs = bin_list m (header av i) xs"
    by (rule bin_list_cong) (use assms(1,3,4) in auto)
  have sl: "skip_list m' (header av i) xs" if "64 \<le> i"
  proof -
    have s: "skip_list m (header av i) xs" using assms(5) that by (simp add: bin_ok_def)
    have "skip_list m' (header av i) xs = skip_list m (header av i) xs"
      using assms(1) assms(2) skip_listD(5) [OF s] assms(3,4) by (intro skip_list_cong) blast+
    then show ?thesis using s by simp
  qed
  have "get_fd_nextsize m' x = get_fd_nextsize m x" if "x \<in> set xs" "MIN_LARGE_SIZE \<le> chunksize m x" for x
    using assms(2) [OF that, of 32] by (simp add: get_fd_nextsize_def)
  then show ?thesis using assms(5) sl cs by (auto simp: bin_ok_def bl)
qed

text \<open>All bins; \<open>binned L\<close> are the chunks in them.\<close>

definition bins_hold :: "memory \<Rightarrow> ptr \<Rightarrow> (nat \<Rightarrow> ptr list) \<Rightarrow> bool" where
  "bins_hold m av L \<longleftrightarrow>
     (\<forall>i. L i \<noteq> [] \<longrightarrow> 1 \<le> i \<and> i < 127) \<and> (\<forall>i. 1 \<le> i \<and> i < 128 \<longrightarrow> bin_ok m av i (L i)) \<and>
     (\<forall>i j. i \<noteq> j \<longrightarrow> set (L i) \<inter> set (L j) = {})"

definition binned :: "(nat \<Rightarrow> ptr list) \<Rightarrow> ptr set" where
  "binned L = (\<Union>i. set (L i))"

lemma bins_holdD:
  assumes "bins_hold m av L"
  shows "x \<in> set (L i) \<Longrightarrow> 1 \<le> i \<and> i < 127" "1 \<le> i \<Longrightarrow> i < 128 \<Longrightarrow> bin_ok m av i (L i)"
    "i \<noteq> j \<Longrightarrow> x \<in> set (L i) \<Longrightarrow> x \<notin> set (L j)"
proof -
  have *: "\<forall>i. L i \<noteq> [] \<longrightarrow> 1 \<le> i \<and> i < 127" "\<forall>i. 1 \<le> i \<and> i < 128 \<longrightarrow> bin_ok m av i (L i)"
    "\<forall>i j. i \<noteq> j \<longrightarrow> set (L i) \<inter> set (L j) = {}"
    using assms unfolding bins_hold_def by blast+
  show "x \<in> set (L i) \<Longrightarrow> 1 \<le> i \<and> i < 127" using *(1) by (metis empty_iff list.set(1))
  show "1 \<le> i \<Longrightarrow> i < 128 \<Longrightarrow> bin_ok m av i (L i)" using *(2) by blast
  show "i \<noteq> j \<Longrightarrow> x \<in> set (L i) \<Longrightarrow> x \<notin> set (L j)" using *(3) by blast
qed

lemma bin_okD:
  assumes "bin_ok m av i xs"
  shows "bin_list m (header av i) xs" "64 \<le> i \<Longrightarrow> skip_list m (header av i) xs"
    "2 \<le> i \<Longrightarrow> x \<in> set xs \<Longrightarrow> unat (bin_index (chunksize m x)) = i"
    "i = 1 \<Longrightarrow> x \<in> set xs \<Longrightarrow> MIN_LARGE_SIZE \<le> chunksize m x \<Longrightarrow> get_fd_nextsize m x = NULL"
  using assms unfolding bin_ok_def by blast+

text \<open>The addresses of the headers.\<close>

lemma unat_header:
  assumes "1 \<le> i" "i < 128" "unat av + 2144 \<le> unat (base :: ptr)"
  shows "unat (header av i) = unat av + 80 + 16 * i" "unat (header av i + 16) = unat av + 96 + 16 * i"
    "unat (header av i + 24) = unat av + 104 + 16 * i"
proof -
  have b: "unat av + 2144 < 2 ^ 64" using assms(3) unat_lt_64 [of base] by linarith
  have "unat (80 + 16 * of_nat i :: u64) = 80 + 16 * i" using assms(2) by (simp add: unat_word_ariths unat_of_nat)
  moreover have "unat av + (80 + 16 * i) < 2 ^ 64" using assms(2) b by simp
  ultimately show h: "unat (header av i) = unat av + 80 + 16 * i"
    unfolding bin_at_nat [OF assms(1,2)] using unat_offset [of av "80 + 16 * of_nat i"] by simp
  show "unat (header av i + 16) = unat av + 96 + 16 * i" "unat (header av i + 24) = unat av + 104 + 16 * i"
    using h b assms(2) unat_offset [of "header av i" 16] unat_offset [of "header av i" 24] by simp_all
qed

section \<open>The layout of the heap\<close>

text \<open>
  \<open>lay m av base bs\<close>: behind the arena, the blocks \<open>bs\<close> and then top fill the heap from \<open>base\<close> on; the
  first block counts as following a used one, and the last block is in use.
\<close>

definition lay :: "memory \<Rightarrow> ptr \<Rightarrow> ptr \<Rightarrow> (ptr \<times> bool) list \<Rightarrow> bool" where
  "lay m av base bs \<longleftrightarrow>
     aligned av \<and> unat av + 2144 \<le> unat base \<and> seg m base True bs (get_top m av) True \<and>
     block m True (get_top m av) True"

lemma layD:
  assumes "lay m av base bs"
  shows "aligned av" "unat av + 2144 \<le> unat base" "seg m base True bs (get_top m av) True"
    "block m True (get_top m av) True" "unat base \<le> unat (get_top m av)"
  using assms seg_le unfolding lay_def by blast+

text \<open>The words that the links of the bins may use: of the headers, and inside the free chunks.\<close>

definition inner :: "memory \<Rightarrow> ptr \<Rightarrow> u64 \<Rightarrow> bool" where
  "inner m x a \<longleftrightarrow> unat x + 16 \<le> unat a \<and> unat a < unat x + unat (chunksize m x)"

definition link_word :: "memory \<Rightarrow> ptr \<Rightarrow> (ptr \<times> bool) list \<Rightarrow> u64 \<Rightarrow> bool" where
  "link_word m av bs a \<longleftrightarrow>
     unat av + 112 \<le> unat a \<and> unat a < unat av + 2144 \<or> (\<exists>z \<in> frees bs. inner m z a)"

lemma not_link_word:
  assumes l: "lay m av base bs"
  shows "(x, u) \<in> set bs \<Longrightarrow> \<not> link_word m av bs (x + 8)"
    "(x, u) \<in> set bs \<Longrightarrow> \<not> link_word m av bs (next_chunk m x)"
    "\<not> link_word m av bs (get_top m av + 8)" "\<not> link_word m av bs (av + 96)"
    "(x, True) \<in> set bs \<Longrightarrow> unat x + 8 \<le> unat a \<Longrightarrow> unat a \<le> unat x + unat (chunksize m x) \<Longrightarrow>
      \<not> link_word m av bs a"
proof -
  note D = layD [OF l]
  have range: "unat base \<le> unat z \<and> unat z + unat (chunksize m z) \<le> unat (get_top m av)"
    if "z \<in> frees bs" for z using seg_block(1,2) [OF D(3), of z False] that by (auto simp: frees_def)
  have top: "unat (get_top m av) + 16 < 2 ^ 64" using blockD(4) [OF D(4)] by simp
  then have t8: "unat (get_top m av + 8) = unat (get_top m av) + 8" by (intro unat_offset [of _ 8, simplified]) simp
  then show "\<not> link_word m av bs (get_top m av + 8)"
    using range D(2,5) by (fastforce simp: link_word_def inner_def)
  have "unat (av + 96) = unat av + 96" using D(2) unat_lt_64 [of base] by (intro unat_offset [of _ 96, simplified]) simp
  then show "\<not> link_word m av bs (av + 96)" using range D(2) by (fastforce simp: link_word_def inner_def)
  have used: "\<not> link_word m av bs a"
    if x: "(x, u) \<in> set bs" and a: "unat x + 8 \<le> unat a" "unat a \<le> unat x + unat (chunksize m x)"
      and c: "u \<or> unat a < unat x + 16 \<or> unat a = unat x + unat (chunksize m x)" for x u a
  proof
    assume "link_word m av bs a"
    moreover have "unat base \<le> unat x" using seg_block(1) [OF D(3) x] .
    ultimately obtain z where z: "(z, False) \<in> set bs" "inner m z a"
      using a D(2) by (auto simp: link_word_def frees_def)
    show False
    proof (cases "(z, False) = (x, u)")
      case True
      then show False using z(2) c by (auto simp: inner_def)
    next
      case False
      then show False using seg_disjoint(1) [OF D(3) z(1) x] z(2) a by (auto simp: inner_def)
    qed
  qed
  show "(x, u) \<in> set bs \<Longrightarrow> \<not> link_word m av bs (x + 8)"
    and "(x, u) \<in> set bs \<Longrightarrow> \<not> link_word m av bs (next_chunk m x)"
  proof -
    assume x: "(x, u) \<in> set bs"
    then obtain pu where b: "block m pu x u" using seg_block(3) [OF D(3)] by blast
    have "unat (x + 8) = unat x + 8" using blockD(4) [OF b] by (intro unat_offset [of _ 8, simplified]) simp
    then show "\<not> link_word m av bs (x + 8)" using used [OF x, of "x + 8"] blockD(2) [OF b] by simp
    show "\<not> link_word m av bs (next_chunk m x)" using used [OF x, of "next_chunk m x"] blockD(2,9) [OF b] by simp
  qed
  show "(x, True) \<in> set bs \<Longrightarrow> unat x + 8 \<le> unat a \<Longrightarrow> unat a \<le> unat x + unat (chunksize m x) \<Longrightarrow>
      \<not> link_word m av bs a" using used by blast
qed

lemma lay_cong:
  assumes l: "lay m av base bs" and "\<forall>a. m' a \<noteq> m a \<longrightarrow> link_word m av bs a"
  shows "lay m' av base bs" "get_top m' av = get_top m av"
    "(x, u) \<in> set bs \<Longrightarrow> m' (x + 8) = m (x + 8)" "m' (get_top m av + 8) = m (get_top m av + 8)"
    "(x, u) \<in> set bs \<Longrightarrow> chunksize m' x = chunksize m x"
    "(x, True) \<in> set bs \<Longrightarrow> unat x + 8 \<le> unat a \<Longrightarrow> unat a \<le> unat x + unat (chunksize m x) \<Longrightarrow> m' a = m a"
proof -
  have w: "\<And>a. m' a \<noteq> m a \<Longrightarrow> link_word m av bs a" using assms(2) by blast
  note D = layD [OF l] and N = not_link_word [OF l]
  show t: "get_top m' av = get_top m av" using w [of "av + 96"] N(4) by (auto simp: get_top_def)
  show h: "(x, u) \<in> set bs \<Longrightarrow> m' (x + 8) = m (x + 8)" for x u using w [of "x + 8"] N(1) by blast
  have n: "(x, u) \<in> set bs \<Longrightarrow> m' (next_chunk m x) = m (next_chunk m x)" for x u using w N(2) by blast
  show th: "m' (get_top m av + 8) = m (get_top m av + 8)" using w N(3) by blast
  have "seg m' base True bs (get_top m av) True = seg m base True bs (get_top m av) True"
    by (rule seg_cong) (use h n in blast)
  moreover have "block m' True (get_top m av) True = block m True (get_top m av) True"
    by (rule block_cong(1)) (use th in simp_all)
  ultimately show "lay m' av base bs" using D unfolding lay_def t by simp
  show "(x, u) \<in> set bs \<Longrightarrow> chunksize m' x = chunksize m x"
    using h by (simp add: chunksize_def chunksize_nomask_def)
  show "(x, True) \<in> set bs \<Longrightarrow> unat x + 8 \<le> unat a \<Longrightarrow> unat a \<le> unat x + unat (chunksize m x) \<Longrightarrow> m' a = m a"
    using w N(5) by blast
qed
section \<open>One bin changes, the others stay\<close>

definition in_bin :: "memory \<Rightarrow> ptr \<Rightarrow> nat \<Rightarrow> ptr set \<Rightarrow> u64 \<Rightarrow> bool" where
  "in_bin m av i S a \<longleftrightarrow> a = header av i + 16 \<or> a = header av i + 24 \<or> (\<exists>z \<in> S. inner m z a)"

lemma free_block:
  assumes "lay m av base bs" "x \<in> frees bs"
  shows "block m True x False" "(x, False) \<in> set bs" "unat base \<le> unat x"
    "unat x + unat (chunksize m x) \<le> unat (get_top m av)"
proof -
  show *: "(x, False) \<in> set bs" using assms(2) by (simp add: frees_def)
  note D = layD [OF assms(1)]
  obtain pu where "block m pu x False" using seg_block(3) [OF D(3) *] by blast
  moreover from this have "pu" using blockD(6) by blast
  ultimately show "block m True x False" by simp
  show "unat base \<le> unat x" "unat x + unat (chunksize m x) \<le> unat (get_top m av)"
    using seg_block(1,2) [OF D(3) *] .
qed

lemma inner_fields:
  assumes "lay m av base bs" "x \<in> frees bs"
  shows "inner m x (x + 16)" "inner m x (x + 24)"
    "MIN_LARGE_SIZE \<le> chunksize m x \<Longrightarrow> inner m x (x + 32)"
    "MIN_LARGE_SIZE \<le> chunksize m x \<Longrightarrow> inner m x (x + 40)"
proof -
  note B = blockD [OF free_block(1) [OF assms]]
  have u: "unat (x + i) = unat x + unat i" if "unat i < unat (chunksize m x)" for i
    using that B(4) by (intro unat_offset) simp
  show "inner m x (x + 16)" "inner m x (x + 24)"
    using u [of 16] u [of 24] B(2) by (simp_all add: inner_def)
  show "MIN_LARGE_SIZE \<le> chunksize m x \<Longrightarrow> inner m x (x + 32)"
    "MIN_LARGE_SIZE \<le> chunksize m x \<Longrightarrow> inner m x (x + 40)"
    using u [of 32] u [of 40] by (simp_all add: inner_def word_le_nat_alt)
qed

lemma inner_unique:
  assumes "lay m av base bs" "x \<in> frees bs" "y \<in> frees bs" "inner m x a" "inner m y a"
  shows "x = y"
  using seg_disjoint(1) [OF layD(3) [OF assms(1)], of x False y False] assms(2-5)
  by (auto simp: frees_def inner_def)

lemma header_not_inner:
  assumes "lay m av base bs" "x \<in> frees bs" "1 \<le> i" "i < 128"
  shows "\<not> inner m x (header av i + 16)" "\<not> inner m x (header av i + 24)"
proof -
  note D = layD [OF assms(1)] and F = free_block [OF assms(1,2)]
  note U = unat_header [OF assms(3,4) D(2)]
  show "\<not> inner m x (header av i + 16)" "\<not> inner m x (header av i + 24)"
    using U(2,3) F(3) D(2) assms(4) by (simp_all add: inner_def)
qed

lemma in_bin_link_word:
  assumes "lay m av base bs" "1 \<le> i" "i < 128" "S \<subseteq> frees bs" "in_bin m av i S a"
  shows "link_word m av bs a"
  using assms(5) unat_header [OF assms(2,3) layD(2) [OF assms(1)]] assms(2-4)
  by (auto simp: in_bin_def link_word_def)

lemma bin_list_header:
  assumes "aligned av" "1 \<le> i" "i < 128" "1 \<le> j" "j < 128" "i \<noteq> j"
  shows "header av i + 16 \<noteq> header av j + 16" "header av i + 16 \<noteq> header av j + 24"
    "header av i + 24 \<noteq> header av j + 16" "header av i + 24 \<noteq> header av j + 24"
  using bin_at_inj [OF assms(2-5), of av] assms(6)
    aligned_field_neq [OF bin_at_aligned [OF assms(1-3)] bin_at_aligned [OF assms(1,4,5)]] by auto

text \<open>The words that a bin depends on: of its header, and of its chunks from the header on.\<close>

definition uses :: "memory \<Rightarrow> ptr \<Rightarrow> nat \<Rightarrow> ptr set \<Rightarrow> u64 \<Rightarrow> bool" where
  "uses m av i S a \<longleftrightarrow> a = header av i + 16 \<or> a = header av i + 24 \<or>
     (\<exists>x \<in> S. unat x + 8 \<le> unat a \<and> unat a < unat x + unat (chunksize m x))"

lemma bin_ok_unused:
  assumes l: "lay m av base bs" and S: "set xs \<subseteq> frees bs" and ok: "bin_ok m av i xs"
    and w: "\<And>a. m' a \<noteq> m a \<Longrightarrow> \<not> uses m av i (set xs) a"
  shows "bin_ok m' av i xs"
proof (rule bin_ok_cong [OF _ _ _ _ ok])
  have keep: "m' a = m a" if "uses m av i (set xs) a" for a using w that by blast
  have fr: "x \<in> frees bs" if "x \<in> set xs" for x using S that by blast
  have in_uses: "uses m av i (set xs) a" if "x \<in> set xs" "inner m x a" for x a
    using that by (auto simp: uses_def inner_def intro!: bexI [of _ x])
  show "m' (x + k) = m (x + k)" if "x \<in> set xs" "k = 8 \<or> k = 16 \<or> k = 24" for x k
  proof (cases "k = 8")
    case True
    note B = blockD [OF free_block(1) [OF l fr [OF that(1)]]]
    have "unat (x + 8) = unat x + 8" using B(4) by (intro unat_offset [of _ 8, simplified]) simp
    then have "uses m av i (set xs) (x + 8)" using that(1) B(2) by (auto simp: uses_def intro!: bexI [of _ x])
    then show ?thesis using keep True by simp
  next
    case False
    then have "inner m x (x + k)" using inner_fields(1,2) [OF l fr [OF that(1)]] that(2) by auto
    then show ?thesis using keep in_uses that(1) by blast
  qed
  show "m' (x + k) = m (x + k)" if "x \<in> set xs" "MIN_LARGE_SIZE \<le> chunksize m x" "k = 32 \<or> k = 40" for x k
  proof -
    have "inner m x (x + k)" using inner_fields(3,4) [OF l fr [OF that(1)] that(2)] that(3) by auto
    then show ?thesis using keep in_uses that(1) by blast
  qed
  show "m' (header av i + 16) = m (header av i + 16)" "m' (header av i + 24) = m (header av i + 24)"
    by (rule keep, simp add: uses_def)+
qed

text \<open>The words of one bin are not those of another.\<close>

lemma uses_separate:
  assumes l: "lay m av base bs" and i: "1 \<le> i" "i < 128" and j: "1 \<le> j" "j < 128" "j \<noteq> i"
    and S: "S \<subseteq> frees bs" "T \<subseteq> frees bs" "S \<inter> T = {}" and a: "in_bin m av i S a"
  shows "\<not> uses m av j T a"
proof
  note D = layD [OF l]
  assume "uses m av j T a"
  then consider "a = header av j + 16 \<or> a = header av j + 24"
    | x where "x \<in> T" "unat x + 8 \<le> unat a" "unat a < unat x + unat (chunksize m x)"
    unfolding uses_def by blast
  then show False
  proof cases
    case 1
    then show False using a bin_list_header [OF D(1) j(1,2) i j(3)] header_not_inner [OF l _ j(1,2)] S(1)
      by (auto simp: in_bin_def)
  next
    case 2
    have xb: "(x, False) \<in> set bs" "unat base \<le> unat x" using free_block(2,3) [OF l, of x] 2(1) S(2) by auto
    from a consider "a = header av i + 16 \<or> a = header av i + 24" | z where "z \<in> S" "inner m z a"
      unfolding in_bin_def by blast
    then show False
    proof cases
      case 1
      then show False using unat_header(2,3) [OF i D(2)] 2(2) xb(2) D(2) i(2) by auto
    next
      case z: 2
      have "(z, False) \<in> set bs" "z \<noteq> x" using z(1) 2(1) S by (auto simp: frees_def)
      then show False using seg_disjoint(1) [OF D(3) _ xb(1)] z(2) 2(2,3) by (fastforce simp: inner_def)
    qed
  qed
qed

lemma bins_hold_update:
  assumes l: "lay m av base bs" and b: "bins_hold m av L" and sub: "binned L \<subseteq> frees bs"
    and i: "1 \<le> i" "i < 127"
    and w: "\<And>a. m' a \<noteq> m a \<Longrightarrow> in_bin m av i S a \<or> (\<forall>j. 1 \<le> j \<and> j < 128 \<longrightarrow> \<not> uses m av j (set (L j)) a)"
    and S: "S \<subseteq> frees bs" "\<And>j. j \<noteq> i \<Longrightarrow> set (L j) \<inter> S = {}" "\<And>j. j \<noteq> i \<Longrightarrow> set (L j) \<inter> set ys = {}"
    and ok: "bin_ok m' av i ys"
  shows "bins_hold m' av (L(i := ys))"
proof -
  note D = bins_holdD [OF b]
  have other: "bin_ok m' av j (L j)" if j: "1 \<le> j" "j < 128" "j \<noteq> i" for j
  proof (rule bin_ok_unused [OF l _ D(2) [OF j(1,2)]])
    show T: "set (L j) \<subseteq> frees bs" using sub unfolding binned_def by blast
    fix a assume "m' a \<noteq> m a"
    then show "\<not> uses m av j (set (L j)) a"
      using w [of a] uses_separate [OF l i(1) _ j S(1) T] i(2) S(2) [OF j(3)] j(1,2) by auto
  qed
  have dj: "set (L j) \<inter> set (L k) = {}" if "j \<noteq> k" for j k using D(3) [OF that] by blast
  have "set ((L(i := ys)) j) \<inter> set ((L(i := ys)) k) = {}" if "j \<noteq> k" for j k
    using that dj [OF that] S(3) [of j] S(3) [of k] by (cases "j = i"; cases "k = i") auto
  moreover have "1 \<le> j \<and> j < 127" if "(L(i := ys)) j \<noteq> []" for j
  proof (cases "j = i")
    case False
    then have "last (L j) \<in> set (L j)" using that by simp
    then show ?thesis by (rule D(1))
  qed (use i in simp)
  moreover have "bin_ok m' av j ((L(i := ys)) j)" if "1 \<le> j" "j < 128" for j
    using other that ok by (cases "j = i") auto
  ultimately show ?thesis unfolding bins_hold_def by blast
qed

lemma bins_hold_unused:
  assumes l: "lay m av base bs" and b: "bins_hold m av L" and sub: "binned L \<subseteq> frees bs"
    and w: "\<And>a j. m' a \<noteq> m a \<Longrightarrow> 1 \<le> j \<Longrightarrow> j < 128 \<Longrightarrow> \<not> uses m av j (set (L j)) a"
  shows "bins_hold m' av L"
proof -
  note D = bins_holdD [OF b]
  have "bin_ok m' av j (L j)" if j: "1 \<le> j" "j < 128" for j
  proof (rule bin_ok_unused [OF l _ D(2) [OF j]])
    show "set (L j) \<subseteq> frees bs" using sub unfolding binned_def by blast
    show "\<not> uses m av j (set (L j)) a" if "m' a \<noteq> m a" for a by (rule w [OF that j])
  qed
  then show ?thesis using b unfolding bins_hold_def by blast
qed

text \<open>Words that no bin uses: below the headers or behind them, and outside the binned chunks.\<close>

lemma uses_outside:
  assumes l: "lay m av base bs" and sub: "binned L \<subseteq> frees bs" and j: "1 \<le> j" "j < 128"
    and a: "unat a < unat av + 112 \<or> unat av + 2144 \<le> unat a"
    and x: "\<And>x. x \<in> binned L \<Longrightarrow> unat a < unat x + 8 \<or> unat x + unat (chunksize m x) \<le> unat a"
  shows "\<not> uses m av j (set (L j)) a"
proof -
  have "unat (header av j + 16) = unat av + 96 + 16 * j" "unat (header av j + 24) = unat av + 104 + 16 * j"
    using unat_header(2,3) [OF j layD(2) [OF l]] by auto
  then show ?thesis using a j x unfolding uses_def binned_def by (auto simp: not_less) (meson leD)+
qed
section \<open>Unlinking a chunk of any bin\<close>

lemma unlink_plain:
  assumes "bin_list m b (us @ p # vs)" "prev_size m (next_chunk m p) = chunksize m p"
    and "chunksize_nomask (unlinked m p) p = chunksize_nomask m p"
    and "in_smallbin_range (chunksize_nomask m p) \<or> get_fd_nextsize (unlinked m p) p = NULL"
  shows "unlink_chunk m p = Inr (unlinked m p)"
proof -
  note nb = bin_list_neighbours [OF assms(1)]
  have "get_bk m (get_fd m p) = p" "get_fd m (get_bk m p) = p" using nb by simp_all
  then show ?thesis using assms(2-4) by (auto simp: unlink_chunk_def Let_def unlinked_def)
qed

lemma large_bin_number: "MIN_LARGE_SIZE \<le> sz \<Longrightarrow> 64 \<le> unat (bin_index sz)"
proof -
  assume "MIN_LARGE_SIZE \<le> sz"
  then have s: "1024 \<le> unat sz" by (simp add: word_le_nat_alt)
  moreover have "large_index 1024 = 64" by (simp add: large_index_def)
  ultimately show ?thesis using large_index_mono [OF s] by (simp add: unat_bin_index)
qed

lemma small_multiple: "n mod 16 = 0 \<Longrightarrow> n < 1024 \<Longrightarrow> n + 1 < 1024" for n :: nat
  by presburger

lemma small_head:
  assumes "plain_head m x" "chunksize m x < MIN_LARGE_SIZE"
  shows "in_smallbin_range (chunksize_nomask m x)"
proof -
  have a: "chunksize m x AND 15 = 0" using assms(1) by (simp add: plain_head_def)
  have "unat (chunksize m x) mod 16 = 0" "unat (chunksize m x) < 1024"
    using a assms(2) by (simp_all add: multiple_iff word_less_nat_alt)
  then have "unat (chunksize m x) + 1 < 1024" by (rule small_multiple)
  then show ?thesis using assms(1) or_1_even [OF a]
    by (simp add: plain_head_def in_smallbin_range_def word_less_nat_alt)
qed

text \<open>The neighbours of a binned chunk are headers and chunks of the same bin.\<close>

lemma unlinked_in_bin:
  assumes l: "lay m av base bs" and i: "1 \<le> i" "i < 127" and b: "bin_list m (header av i) (us @ x # vs)"
    and S: "set (us @ x # vs) \<subseteq> frees bs" and a: "unlinked m x a \<noteq> m a"
  shows "\<exists>y \<in> set (header av i # us @ vs). a = y + 16 \<or> a = y + 24"
    "in_bin m av i (set (us @ vs)) a"
proof -
  note nb = bin_list_neighbours [OF b]
  have f: "get_fd m x \<in> set (header av i # us @ vs)" unfolding nb(1) by (cases vs) auto
  have k: "get_bk m x \<in> set (header av i # us @ vs)" unfolding nb(2) using last_in_set [of "header av i # us"] by auto
  have "a = get_fd m x + 24 \<or> a = get_bk m x + 16"
    using a by (auto simp: unlinked_def set_fd_def set_bk_def split: if_splits)
  then obtain y where y: "y \<in> set (header av i # us @ vs)" "a = y + 16 \<or> a = y + 24" using f k by blast
  then show "\<exists>y \<in> set (header av i # us @ vs). a = y + 16 \<or> a = y + 24" by blast
  show "in_bin m av i (set (us @ vs)) a"
  proof (cases "y = header av i")
    case True
    then show ?thesis using y(2) by (auto simp: in_bin_def)
  next
    case False
    then have "y \<in> set (us @ vs)" "y \<in> frees bs" using y(1) S by auto
    then show ?thesis using y(2) inner_fields(1,2) [OF l \<open>y \<in> frees bs\<close>] by (auto simp: in_bin_def)
  qed
qed

lemma unlink_small_bin:
  assumes l: "lay m av base bs" and i: "1 \<le> i" "i < 64" and ok: "bin_ok m av i (us @ x # vs)"
    and S: "set (us @ x # vs) \<subseteq> frees bs"
  shows "unlink_chunk m x = Inr (unlinked m x)" "bin_ok (unlinked m x) av i (us @ vs)"
proof -
  let ?xs = "us @ x # vs" and ?m = "unlinked m x"
  note B = bin_okD [OF ok]
  have i': "i < 127" using i by simp
  note W = unlinked_in_bin [OF l i(1) i' B(1) S]
  have f: "z \<in> frees bs" if "z \<in> set ?xs" for z using S that by blast
  note xb = free_block(1) [OF l f]
  have x: "x \<in> set ?xs" by simp
  have keep: "?m a = m a" if "\<not> link_word m av bs a" for a
  proof (rule ccontr)
    assume "?m a \<noteq> m a"
    then have "in_bin m av i (set (us @ vs)) a" by (rule W(2))
    then show False using in_bin_link_word [OF l i(1) _ _ \<open>in_bin m av i (set (us @ vs)) a\<close>] i S that by auto
  qed
  have head: "?m (z + 8) = m (z + 8)" if "z \<in> set ?xs" for z
    using keep not_link_word(1) [OF l] f [OF that] by (auto simp: frees_def)
  have nxt: "?m (z + 32) = m (z + 32)" if z: "z \<in> set ?xs" "MIN_LARGE_SIZE \<le> chunksize m z" for z
  proof (rule ccontr)
    assume "?m (z + 32) \<noteq> m (z + 32)"
    then obtain y where y: "y \<in> set (header av i # us @ vs)" "z + 32 = y + 16 \<or> z + 32 = y + 24"
      using W(1) by blast
    have iz: "inner m z (z + 32)" by (rule inner_fields(3) [OF l f [OF z(1)] z(2)])
    show False
    proof (cases "y = header av i")
      case True
      have "\<not> inner m z (header av i + 16)" "\<not> inner m z (header av i + 24)"
        using header_not_inner [OF l f [OF z(1)] i(1)] i(2) by auto
      then show False using y(2) iz unfolding True by metis
    next
      case False
      then have yx: "y \<in> set ?xs" using y(1) by auto
      then have "inner m y (z + 32)" using inner_fields(1,2) [OF l f [OF yx]] y(2) by metis
      then have "y = z" using inner_unique [OF l f [OF yx] f [OF z(1)] _ iz] by blast
      then show False using y(2) by auto
    qed
  qed
  have cs: "chunksize ?m z = chunksize m z" if "z \<in> set ?xs" for z
    using head [OF that] by (simp add: chunksize_def chunksize_nomask_def)
  have large: "i = 1" if z: "z \<in> set ?xs" "MIN_LARGE_SIZE \<le> chunksize m z" for z
  proof (rule ccontr)
    assume "i \<noteq> 1"
    then have "unat (bin_index (chunksize m z)) = i" using B(3) z(1) i(1) by simp
    moreover have "64 \<le> unat (bin_index (chunksize m z))"
      by (rule large_bin_number [OF z(2)])
    ultimately show False using i(2) by simp
  qed
  have c: "in_smallbin_range (chunksize_nomask m x) \<or> get_fd_nextsize ?m x = NULL"
  proof (cases "MIN_LARGE_SIZE \<le> chunksize m x")
    case True
    then show ?thesis using B(4) [OF large [OF x True] x True] nxt [OF x True] by (simp add: get_fd_nextsize_def)
  next
    case False
    then show ?thesis using small_head blockD(7) [OF xb [OF x]] by simp
  qed
  show "unlink_chunk m x = Inr ?m"
    by (rule unlink_plain [OF B(1) _ _ c])
      (use blockD(8) [OF xb [OF x]] head [OF x] in \<open>simp_all add: chunksize_nomask_def\<close>)
  have "bin_list ?m (header av i) (us @ vs)" unfolding unlinked_def by (rule bin_list_remove [OF B(1)])
  then show "bin_ok ?m av i (us @ vs)"
    using i(2) B(3,4) cs nxt by (auto simp: bin_ok_def get_fd_nextsize_def)
qed
lemma spaced_bin:
  assumes l: "lay m av base bs" and i: "1 \<le> i" "i < 127" and S: "set xs \<subseteq> frees bs"
    and big: "\<And>x. x \<in> set xs \<Longrightarrow> MIN_LARGE_SIZE \<le> chunksize m x"
  shows "spaced (set (header av i # xs))"
proof -
  note D = layD [OF l]
  have h: "unat (header av i) + 48 \<le> unat base" using unat_header(1) [OF i(1) _ D(2)] i(2) D(2) by simp
  have b: "unat base < 2 ^ 64" by (rule unat_lt_64)
  have x: "unat base \<le> unat x \<and> unat x + 48 < 2 ^ 64 \<and> 48 \<le> unat (chunksize m x)" if "x \<in> set xs" for x
    using free_block(3) [OF l, of x] blockD(4) [OF free_block(1) [OF l, of x]] big [OF that] S that
    by (auto simp: word_le_nat_alt)
  have xy: "unat x + 48 \<le> unat y \<or> unat y + 48 \<le> unat x" if "x \<in> set xs" "y \<in> set xs" "x \<noteq> y" for x y
  proof -
    have m: "(x, False) \<in> set bs" "(y, False) \<in> set bs" using S that by (auto simp: frees_def)
    show ?thesis using seg_disjoint(1) [OF D(3) m] that x [OF that(1)] x [OF that(2)] by auto
  qed
  show ?thesis unfolding spaced_def using h b x xy by fastforce
qed

lemma unlink_large_bin:
  assumes l: "lay m av base bs" and b: "bins_hold m av L" and i: "64 \<le> i" "i < 127"
    and L: "L i = us @ x # vs" and S: "binned L \<subseteq> frees bs"
  shows "\<exists>m'. unlink_chunk m x = Inr m' \<and> bin_ok m' av i (us @ vs) \<and>
    (\<forall>a. m' a \<noteq> m a \<longrightarrow> in_bin m av i (set (L i)) a)"
proof -
  have i1: "1 \<le> i" "i < 128" "1 \<le> i + 1" "i + 1 < 128" using i by auto
  note D = layD [OF l]
  note B = bin_okD [OF bins_holdD(2) [OF b i1(1,2)], unfolded L]
  have sl: "skip_list m (header av i) (us @ x # vs)" using B(2) i by simp
  have sub: "set (us @ x # vs) \<subseteq> frees bs" using S unfolding binned_def L [symmetric] by blast
  have pos: "z \<noteq> NULL" if "z \<in> frees bs" for z
    using free_block(3) [OF l that] D(2) by auto
  have "get_fd m (header av (i + 1)) = hd (L (i + 1) @ [header av (i + 1)])"
    using bin_okD(1) [OF bins_holdD(2) [OF b i1(3,4)]] by (cases "L (i + 1)") (auto simp: bin_list_def)
  moreover have "hd (L (i + 1) @ [header av (i + 1)]) \<noteq> NULL"
  proof (cases "L (i + 1)")
    case Nil
    then show ?thesis using unat_header(1) [OF i1(3,4) D(2)] by auto
  next
    case (Cons z zs)
    then have "z \<in> set (L (i + 1))" by simp
    then have "z \<in> frees bs" using S unfolding binned_def by blast
    then show ?thesis using pos Cons by simp
  qed
  moreover have "get_fd_nextsize m (header av i) = get_fd m (header av (i + 1))"
    unfolding get_fd_nextsize_def get_fd_def bin_at_nat [OF i1(1,2)] bin_at_nat [OF i1(3,4)]
    by (simp add: algebra_simps)
  ultimately have "get_fd_nextsize m (header av i) \<noteq> NULL" by simp
  moreover have "spaced (set (header av i # us @ x # vs))"
    by (rule spaced_bin [OF l i1(1) i(2) sub skip_listD(5) [OF sl]])
  moreover have "NULL \<notin> set (us @ x # vs)" using pos sub by blast
  ultimately have n: "large_node m (header av i) (us @ x # vs)" unfolding large_node_def using sl by blast
  have xf: "x \<in> frees bs" using sub by simp
  have "prev_size m (next_chunk m x) = chunksize m x" using blockD(8) [OF free_block(1) [OF l xf]] by simp
  from unlink_large [OF n this] obtain m' where m': "unlink_chunk m x = Inr m'"
    "skip_list m' (header av i) (us @ vs)"
    "\<And>a. m' a \<noteq> m a \<Longrightarrow> a \<in> node_words (set (header av i # us @ vs)) (set (us @ x # vs))" by blast
  have w: "in_bin m av i (set (L i)) a" if "m' a \<noteq> m a" for a
  proof -
    have "a \<in> node_words (set (header av i # us @ vs)) (set (us @ x # vs))" by (rule m'(3) [OF that])
    then consider "a = header av i + 16" | "a = header av i + 24"
      | z where "z \<in> set (us @ x # vs)" "a = z + 16 \<or> a = z + 24 \<or> a = z + 32 \<or> a = z + 40"
      by (auto simp: node_words_def)
    then show ?thesis
    proof cases
      case 3
      then have "inner m z a" using inner_fields [OF l, of z] sub skip_listD(5) [OF sl 3(1)] by auto
      then show ?thesis using 3(1) L by (auto simp: in_bin_def)
    qed (simp_all add: in_bin_def)
  qed
  have cs: "chunksize m' z = chunksize m z" if "z \<in> set (us @ vs)" for z
  proof -
    have z: "z \<in> frees bs" using sub that by auto
    then have "\<not> link_word m av bs (z + 8)" using not_link_word(1) [OF l] by (auto simp: frees_def)
    then have "m' (z + 8) = m (z + 8)"
      using w in_bin_link_word [OF l i1(1,2)] sub L by (metis (no_types, lifting))
    then show ?thesis by (simp add: chunksize_def chunksize_nomask_def)
  qed
  have "bin_ok m' av i (us @ vs)"
    using skip_listD(1) [OF m'(2)] m'(2) B(3) cs i by (auto simp: bin_ok_def)
  then show ?thesis using m'(1) w by blast
qed

lemma binned_split: "binned L = (\<Union>j \<in> - {i}. set (L j)) \<union> set (L i)"
  by (auto simp: binned_def)

lemma binned_update: "binned (L(i := ys)) = (\<Union>j \<in> - {i}. set (L j)) \<union> set ys"
  by (auto simp: binned_def split: if_splits)

lemma unlink_step:
  assumes l: "lay m av base bs" and b: "bins_hold m av L" and S: "binned L \<subseteq> frees bs" and x: "x \<in> binned L"
  shows "\<exists>m' L'. unlink_chunk m x = Inr m' \<and> bins_hold m' av L' \<and> binned L' = binned L - {x} \<and>
    (\<forall>i. set (L' i) \<subseteq> set (L i)) \<and> (\<forall>a. m' a \<noteq> m a \<longrightarrow> link_word m av bs a)"
proof -
  obtain i where i: "x \<in> set (L i)" using x unfolding binned_def by blast
  have r: "1 \<le> i" "i < 127" "i < 128" using bins_holdD(1) [OF b i] by auto
  obtain us vs where L: "L i = us @ x # vs" using i by (auto simp: in_set_conv_decomp)
  have sub: "set (us @ x # vs) \<subseteq> frees bs" using S unfolding binned_def L [symmetric] by blast
  note ok = bins_holdD(2) [OF b r(1,3)]
  obtain m' where m': "unlink_chunk m x = Inr m'" "bin_ok m' av i (us @ vs)"
    "\<And>a. m' a \<noteq> m a \<Longrightarrow> in_bin m av i (set (L i)) a"
  proof (cases "i < 64")
    case True
    note u = unlink_small_bin [OF l r(1) True ok [unfolded L] sub]
    have "in_bin m av i (set (L i)) a" if "unlinked m x a \<noteq> m a" for a
      using unlinked_in_bin(2) [OF l r(1,2) bin_okD(1) [OF ok, unfolded L] sub that] unfolding L in_bin_def by auto
    then show thesis using that u by blast
  next
    case False
    then show thesis using that unlink_large_bin [OF l b _ r(2) L S] by force
  qed
  have "bins_hold m' av (L(i := us @ vs))"
  proof (rule bins_hold_update [OF l b S r(1,2)])
    show "in_bin m av i (set (L i)) a \<or> (\<forall>j. 1 \<le> j \<and> j < 128 \<longrightarrow> \<not> uses m av j (set (L j)) a)"
      if "m' a \<noteq> m a" for a using m'(3) [OF that] by blast
    show "set (L i) \<subseteq> frees bs" using sub L by simp
    show "set (L j) \<inter> set (L i) = {}" if "j \<noteq> i" for j using bins_holdD(3) [OF b that] by blast
    show "set (L j) \<inter> set (us @ vs) = {}" if "j \<noteq> i" for j using bins_holdD(3) [OF b that] L by auto
  qed (rule m'(2))
  moreover have "binned (L(i := us @ vs)) = binned L - {x}"
  proof -
    have "distinct (us @ x # vs)" using bin_okD(1) [OF ok] unfolding L by (simp add: bin_list_def)
    moreover have "x \<notin> (\<Union>j \<in> - {i}. set (L j))" using bins_holdD(3) [OF b] i by blast
    ultimately show ?thesis unfolding binned_update binned_split [of L i] L by auto
  qed
  moreover have "link_word m av bs a" if "m' a \<noteq> m a" for a
    using in_bin_link_word [OF l r(1,3)] m'(3) [OF that] sub L by metis
  moreover have "set ((L(i := us @ vs)) j) \<subseteq> set (L j)" for j using L by auto
  ultimately show ?thesis using m'(1) by blast
qed

end
