(* ===== verification/Rebin.thy ===== *)
theory Rebin
  imports Blocks
begin

text \<open>
  A used block between used ones becomes free (\<open>becomes_free\<close>): the stores of a free, a consolidation
  or a split put it first in a small bin or in the unsorted list; the layout, the bins and the words of
  the blocks in use stay as they are.
\<close>

lemma unat_neq: "unat a \<noteq> unat b \<Longrightarrow> a \<noteq> b"
  by blast

section \<open>A used block between used ones becomes free\<close>

definition free_index :: "u64 \<Rightarrow> nat" where
  "free_index sz = (if in_smallbin_range sz then unat sz div 16 else 1)"

lemma free_index_bin:
  assumes "MINSIZE \<le> sz"
  shows "1 \<le> free_index sz" "free_index sz < 64" "free_bin av sz = header av (free_index sz)"
proof -
  have s: "32 \<le> unat sz" using assms by (simp add: word_le_nat_alt)
  show "1 \<le> free_index sz" "free_index sz < 64" using s by (auto simp: free_index_def in_smallbin_range_iff)
  show "free_bin av sz = header av (free_index sz)"
  proof (cases "in_smallbin_range sz")
    case True
    then have "unat (smallbin_index sz) = unat sz div 16"
      by (intro unat_smallbin_index) (simp add: in_smallbin_range_iff)
    then have "smallbin_index sz = of_nat (unat sz div 16)" by (metis of_nat_unat ucast_id)
    then show ?thesis using True by (simp add: free_bin_def free_index_def)
  qed (simp add: free_bin_def free_index_def unsorted_chunks_def)
qed

text \<open>
  The list that a free block of size \<open>sz\<close> may go to: the unsorted list, or the small bin of its size.
\<close>

definition goes_to :: "nat \<Rightarrow> u64 \<Rightarrow> bool" where
  "goes_to i sz \<longleftrightarrow> i = 1 \<or> in_smallbin_range sz \<and> i = unat sz div 16"

lemma goes_to_unsorted [simp]: "goes_to 1 sz"
  by (simp add: goes_to_def)

lemma goes_to_free_index [simp]: "goes_to (free_index sz) sz"
  by (simp add: goes_to_def free_index_def)

lemma goes_toD:
  assumes "goes_to i sz" "MINSIZE \<le> sz"
  shows "1 \<le> i" "i < 64" "i < 127" "i < 128"
    "2 \<le> i \<Longrightarrow> unat (bin_index sz) = i"
proof -
  have s: "32 \<le> unat sz" using assms(2) by (simp add: word_le_nat_alt)
  show "1 \<le> i" and i: "i < 64" using s assms(1) by (auto simp: goes_to_def in_smallbin_range_iff)
  then show "i < 127" "i < 128" by simp_all
  show "unat (bin_index sz) = i" if "2 \<le> i"
    using that assms(1) by (auto simp: goes_to_def unat_bin_index in_smallbin_range_iff small_index_def)
qed

lemma bin_free_chunk_head:
  assumes "p + sz \<noteq> p + 8"
  shows "bin_free_chunk m p sz b fwd (p + 8) = sz OR PREV_INUSE"
  using assms by (simp add: bin_free_chunk_def Let_def set_foot_def set_prev_size_def set_head_def)

lemma bin_free_chunk_words:
  assumes "bin_free_chunk m p sz b fwd a \<noteq> m a"
  shows "a \<in> {p + 8, p + 16, p + 24, p + sz, p + sz + 8, b + 16, fwd + 24} \<or>
    \<not> in_smallbin_range sz \<and> a \<in> {p + 32, p + 40}"
  using assms by (auto simp: bin_free_chunk_def Let_def set_foot_def clear_nextsize_def link_between_def
      clear_inuse_bit_at_offset_def set_head_def set_fd_def set_bk_def set_prev_size_def set_fd_nextsize_def
      set_bk_nextsize_def split: if_splits)

text \<open>The situation of a block that is about to be put in its bin.\<close>

definition ready :: "memory \<Rightarrow> ptr \<Rightarrow> ptr \<Rightarrow> (ptr \<times> bool) list \<Rightarrow> ptr \<Rightarrow> ptr \<Rightarrow> (ptr \<times> bool) list \<Rightarrow>
    (nat \<Rightarrow> ptr list) \<Rightarrow> bool" where
  "ready m av base ls p t rs L \<longleftrightarrow>
     lay m av base (ls @ (p, True) # (t, True) # rs) \<and> prev_inuse m p \<and> bins_hold m av L \<and>
     binned L \<subseteq> frees (ls @ rs)"

lemma readyD:
  assumes "ready m av base ls p t rs L"
  defines "sz \<equiv> chunksize m p"
  shows "lay m av base (ls @ (p, True) # (t, True) # rs)" "prev_inuse m p" "bins_hold m av L"
    "binned L \<subseteq> frees (ls @ rs)" "binned L \<subseteq> frees (ls @ (p, True) # (t, True) # rs)"
    "block m True p True" "block m True t True" "t = p + sz" "unat t = unat p + unat sz"
    "seg m base True ls p True" "seg m (next_chunk m t) True rs (get_top m av) True"
    "x \<in> binned L \<Longrightarrow> unat x + unat (chunksize m x) \<le> unat p \<or> unat t + 32 \<le> unat x"
    "unat base \<le> unat p"
proof -
  show l: "lay m av base (ls @ (p, True) # (t, True) # rs)" and p: "prev_inuse m p" and "bins_hold m av L"
    and sub: "binned L \<subseteq> frees (ls @ rs)" using assms(1) unfolding ready_def by blast+
  then show "binned L \<subseteq> frees (ls @ (p, True) # (t, True) # rs)" by auto
  note D = layD [OF l]
  obtain q qu where q: "seg m base True ls q qu" "seg m q qu ((p, True) # (t, True) # rs) (get_top m av) True"
    using D(3) unfolding seg_append by blast
  then have b: "q = p" "block m qu p True" "next_chunk m p = t" "block m True t True"
    "seg m (next_chunk m t) True rs (get_top m av) True" by auto
  have qu: "qu = True" using blockD(5) [OF b(2)] p by simp
  show bp: "block m True p True" "block m True t True" "seg m base True ls p True"
    "seg m (next_chunk m t) True rs (get_top m av) True" using q(1) b qu by auto
  show tp: "t = p + sz" using b(3) by (simp add: next_chunk_def sz_def)
  show ut: "unat t = unat p + unat sz" using blockD(9) [OF bp(1)] b(3) by (simp add: sz_def)
  show "unat base \<le> unat p" using seg_le [OF bp(3)] .
  show "unat x + unat (chunksize m x) \<le> unat p \<or> unat t + 32 \<le> unat x" if x: "x \<in> binned L"
  proof -
    have "(x, False) \<in> set ls \<or> (x, False) \<in> set rs" using sub x by (auto simp: frees_def)
    then show ?thesis
    proof
      assume "(x, False) \<in> set ls"
      then show ?thesis using seg_block(2) [OF bp(3)] by blast
    next
      assume "(x, False) \<in> set rs"
      then show ?thesis using seg_block(1) [OF bp(4)] blockD(2,9) [OF bp(2)] by fastforce
    qed
  qed
qed

lemma ready_apart:
  assumes r: "ready m av base ls p t rs L" and i: "1 \<le> i" "i < 127" and x: "x \<in> set (header av i # L i)"
  shows "apart x p (chunksize m p)"
proof -
  note R = readyD [OF r]
  note D = layD [OF R(1)]
  show ?thesis
  proof (cases "x = header av i")
    case True
    have "unat (header av i) + 32 \<le> unat base" using unat_header(1) [OF i(1) _ D(2)] i(2) D(2) by simp
    then show ?thesis using True R(13) unat_lt_64 [of base] by (simp add: apart_def)
  next
    case False
    then have xb: "x \<in> binned L" using x by (auto simp: binned_def)
    then have "x \<in> frees (ls @ (p, True) # (t, True) # rs)" using R(5) by blast
    note X = blockD [OF free_block(1) [OF R(1) this]]
    show ?thesis using R(12) [OF xb] X(2,4) R(9) by (auto simp: apart_def)
  qed
qed
text \<open>The words that change when \<open>p\<close> becomes free.\<close>

definition freed_words :: "memory \<Rightarrow> ptr \<Rightarrow> nat \<Rightarrow> (nat \<Rightarrow> ptr list) \<Rightarrow> ptr \<Rightarrow> u64 \<Rightarrow> bool" where
  "freed_words m av i L p a \<longleftrightarrow>
     unat p + 8 \<le> unat a \<and> unat a \<le> unat p + unat (chunksize m p) + 8 \<or> in_bin m av i (set (L i)) a"

lemma becomes_free_words:
  assumes r: "ready m av base ls p t rs L" and g: "goes_to i (chunksize m p)"
  defines "sz \<equiv> chunksize m p"
  defines "m' \<equiv> bin_free_chunk m p sz (header av i) (get_fd m (header av i))"
  shows "m' a \<noteq> m a \<Longrightarrow> freed_words m av i L p a"
proof -
  note R = readyD [OF r, folded sz_def]
  note P = blockD [OF R(6), folded sz_def]
  note i = goes_toD [OF g [folded sz_def] P(10)]
  note ok = bin_okD(1) [OF bins_holdD(2) [OF R(3) i(1,4)]]
  have u: "unat (p + k) = unat p + unat k" if "unat k \<le> unat sz + 8" for k
    using that P(4) by (intro unat_offset) simp
  have sz8: "unat (sz + 8) = unat sz + 8" using P(4) by (intro unat_offset [of _ 8, simplified]) simp
  have fwd: "get_fd m (header av i) \<in> set (header av i # L i)"
    using ok by (cases "L i") (auto simp: bin_list_def)
  have bin24: "in_bin m av i (set (L i)) (x + 24)" if "x \<in> set (header av i # L i)" for x
  proof (cases "x = header av i")
    case False
    then have x: "x \<in> set (L i)" using that by simp
    then have "x \<in> frees (ls @ (p, True) # (t, True) # rs)" using R(5) by (auto simp: binned_def)
    then show ?thesis using inner_fields(2) [OF R(1)] x by (auto simp: in_bin_def)
  qed (simp add: in_bin_def)
  assume "m' a \<noteq> m a"
  then have "a \<in> {p + 8, p + 16, p + 24, p + sz, p + sz + 8, header av i + 16, get_fd m (header av i) + 24} \<or>
      \<not> in_smallbin_range sz \<and> a \<in> {p + 32, p + 40}"
    unfolding m'_def by (rule bin_free_chunk_words)
  then consider "a = header av i + 16" | "a = get_fd m (header av i) + 24"
    | k where "a = p + k" "8 \<le> unat k" "unat k \<le> unat sz + 8"
  proof -
    have big: "1024 \<le> unat sz" if "\<not> in_smallbin_range sz" using that by (simp add: in_smallbin_range_iff)
    assume "a \<in> {p + 8, p + 16, p + 24, p + sz, p + sz + 8, header av i + 16, get_fd m (header av i) + 24} \<or>
      \<not> in_smallbin_range sz \<and> a \<in> {p + 32, p + 40}"
    then show thesis
      using that(1,2) that(3) [of 8] that(3) [of 16] that(3) [of 24] that(3) [of sz] that(3) [of "sz + 8"]
        that(3) [of 32] that(3) [of 40] P(2) sz8 big by (auto simp: add.assoc)
  qed
  then show "freed_words m av i L p a"
  proof cases
    case 1
    then show ?thesis by (simp add: freed_words_def in_bin_def sz_def)
  next
    case 2
    then show ?thesis using bin24 [OF fwd] by (simp add: freed_words_def sz_def)
  next
    case 3
    then show ?thesis using u [of k] by (simp add: freed_words_def sz_def)
  qed
qed

text \<open>Words of other blocks are not among them.\<close>

lemma not_freed_word:
  assumes r: "ready m av base ls p t rs L" and g: "goes_to i (chunksize m p)"
  shows "(x, u) \<in> set (ls @ rs) \<Longrightarrow> \<not> freed_words m av i L p (x + 8)"
    "(x, u) \<in> set (ls @ rs) \<Longrightarrow> \<not> freed_words m av i L p (next_chunk m x)"
    "\<not> freed_words m av i L p (av + 96)" "\<not> freed_words m av i L p (get_top m av + 8)"
    "(x, True) \<in> set (ls @ rs) \<Longrightarrow> unat x + 8 \<le> unat a \<Longrightarrow> unat a \<le> unat x + unat (chunksize m x) \<Longrightarrow>
      \<not> freed_words m av i L p a"
proof -
  let ?sz = "chunksize m p"
  note R = readyD [OF r]
  note l = R(1)
  note D = layD [OF l] and P = blockD [OF R(6)] and T = blockD [OF R(7)] and N = not_link_word [OF l]
  note i = goes_toD [OF g P(10)]
  have S: "set (L i) \<subseteq> frees (ls @ (p, True) # (t, True) # rs)" using R(5) by (auto simp: binned_def)
  have lw: "\<not> in_bin m av i (set (L i)) a" if "\<not> link_word m av (ls @ (p, True) # (t, True) # rs) a" for a
    using in_bin_link_word [OF l i(1,4) S] that by blast
  have bl: "unat x + unat (chunksize m x) \<le> unat p \<or> unat t + 32 \<le> unat x"
    "\<exists>pu. block m pu x u" "(x, u) \<in> set (ls @ (p, True) # (t, True) # rs)"
    if x: "(x, u) \<in> set (ls @ rs)" for x u
  proof -
    show x': "(x, u) \<in> set (ls @ (p, True) # (t, True) # rs)" using x by auto
    show "\<exists>pu. block m pu x u" using seg_block(3) [OF D(3) x'] .
    show "unat x + unat (chunksize m x) \<le> unat p \<or> unat t + 32 \<le> unat x"
      using x seg_block(2) [OF R(10), of x u] seg_block(1) [OF R(11), of x u] T(2,9) by auto
  qed
  have far: "\<not> (unat p + 8 \<le> unat a \<and> unat a \<le> unat p + unat ?sz + 8)"
    if "(x, u) \<in> set (ls @ rs)" "unat x + 8 \<le> unat a" "unat a \<le> unat x + unat (chunksize m x)" for x u a
    using bl(1) [OF that(1)] that(2,3) R(9) by auto
  show "(x, u) \<in> set (ls @ rs) \<Longrightarrow> \<not> freed_words m av i L p (x + 8)"
    and "(x, u) \<in> set (ls @ rs) \<Longrightarrow> \<not> freed_words m av i L p (next_chunk m x)"
  proof -
    assume x: "(x, u) \<in> set (ls @ rs)"
    obtain a where "block m a x u" using bl(2) [OF x] by blast
    note X = blockD [OF this]
    have "unat (x + 8) = unat x + 8" using X(4) by (intro unat_offset [of _ 8, simplified]) simp
    then show "\<not> freed_words m av i L p (x + 8)"
      using far [OF x, of "x + 8"] X(2) lw [OF N(1) [OF bl(3) [OF x]]] by (simp add: freed_words_def)
    show "\<not> freed_words m av i L p (next_chunk m x)"
      using far [OF x, of "next_chunk m x"] X(2,9) lw [OF N(2) [OF bl(3) [OF x]]] by (simp add: freed_words_def)
  qed
  show "\<not> freed_words m av i L p (av + 96)"
  proof -
    have "unat (av + 96) = unat av + 96" using D(2) unat_lt_64 [of base] by (intro unat_offset [of _ 96, simplified]) simp
    then show ?thesis using R(13) D(2) lw [OF N(4)] by (simp add: freed_words_def)
  qed
  show "\<not> freed_words m av i L p (get_top m av + 8)"
  proof -
    have "unat (next_chunk m t) \<le> unat (get_top m av)" using seg_le [OF R(11)] .
    moreover have "unat (get_top m av + 8) = unat (get_top m av) + 8"
      using blockD(4) [OF D(4)] by (intro unat_offset [of _ 8, simplified]) simp
    ultimately show ?thesis using T(2,9) R(9) lw [OF N(3)] by (simp add: freed_words_def)
  qed
  show "(x, True) \<in> set (ls @ rs) \<Longrightarrow> unat x + 8 \<le> unat a \<Longrightarrow> unat a \<le> unat x + unat (chunksize m x) \<Longrightarrow>
      \<not> freed_words m av i L p a"
  proof -
    assume x: "(x, True) \<in> set (ls @ rs)" "unat x + 8 \<le> unat a" "unat a \<le> unat x + unat (chunksize m x)"
    show ?thesis using far [OF x] lw [OF N(5) [OF bl(3) [OF x(1)] x(2,3)]] by (simp add: freed_words_def)
  qed
qed
lemma bin_free_chunk_nextsize:
  assumes "\<not> in_smallbin_range sz" "p + sz \<noteq> p + 32" "p + 32 \<noteq> b + 16" "p + 32 \<noteq> fwd + 24"
  shows "get_fd_nextsize (bin_free_chunk m p sz b fwd) p = NULL"
  using assms by (simp add: bin_free_chunk_def Let_def set_foot_def clear_nextsize_def link_between_def
      clear_inuse_bit_at_offset_def set_head_def set_fd_def set_bk_def set_prev_size_def set_fd_nextsize_def
      set_bk_nextsize_def get_fd_nextsize_def)

text \<open>The \<open>fd_nextsize\<close> of the chunks in the list stays, and that of a large chunk is cleared.\<close>

lemma freed_keeps_nextsize:
  assumes r: "ready m av base ls p t rs L" and g: "goes_to i (chunksize m p)"
    and x: "x \<in> set (L i)" and large: "MIN_LARGE_SIZE \<le> chunksize m x"
  defines "sz \<equiv> chunksize m p"
  defines "m' \<equiv> bin_free_chunk m p sz (header av i) (get_fd m (header av i))"
  shows "m' (x + 32) = m (x + 32)"
proof (rule ccontr)
  note R = readyD [OF r, folded sz_def]
  note P = blockD [OF R(6), folded sz_def]
  note i = goes_toD [OF g [folded sz_def] P(10)]
  note ok = bins_holdD(2) [OF R(3) i(1,4)]
  assume "m' (x + 32) \<noteq> m (x + 32)"
  then have w: "x + 32 \<in> {p + 8, p + 16, p + 24, p + sz, p + sz + 8, header av i + 16, get_fd m (header av i) + 24} \<or>
      \<not> in_smallbin_range sz \<and> x + 32 \<in> {p + 32, p + 40}"
    unfolding m'_def by (rule bin_free_chunk_words)
  have xb: "x \<in> binned L" using x by (auto simp: binned_def)
  then have xf: "x \<in> frees (ls @ (p, True) # (t, True) # rs)" using R(5) by blast
  note X = blockD [OF free_block(1) [OF R(1) xf]] and ix = inner_fields(3) [OF R(1) xf large]
  have u: "unat (p + k) = unat p + unat k" if "unat k \<le> unat sz + 8" for k
    using that P(4) by (intro unat_offset) simp
  have sz8: "unat (sz + 8) = unat sz + 8" using P(4) by (intro unat_offset [of _ 8, simplified]) simp
  have np: "x + 32 \<noteq> p + k" if "unat k \<le> unat sz + 8" for k
    using R(12) [OF xb] ix u [OF that] R(9) that by (intro unat_neq) (auto simp: inner_def)
  have big: "1024 \<le> unat sz" if "\<not> in_smallbin_range sz" using that by (simp add: in_smallbin_range_iff)
  have "x + 32 = header av i + 16 \<or> x + 32 = get_fd m (header av i) + 24"
    using w np [of 8] np [of 16] np [of 24] np [of sz] np [of "sz + 8"] np [of 32] np [of 40] P(2) sz8 big
    by (auto simp: add.assoc)
  then show False
  proof
    assume "x + 32 = header av i + 16"
    then show False using header_not_inner(1) [OF R(1) xf i(1) i(4)] ix by metis
  next
    assume e: "x + 32 = get_fd m (header av i) + 24"
    show False
    proof (cases "get_fd m (header av i) = header av i")
      case True
      then show False using header_not_inner(2) [OF R(1) xf i(1) i(4)] ix e by simp
    next
      case False
      then have f: "get_fd m (header av i) \<in> set (L i)"
        using bin_okD(1) [OF ok] by (cases "L i") (auto simp: bin_list_def)
      then have ff: "get_fd m (header av i) \<in> frees (ls @ (p, True) # (t, True) # rs)"
        using R(5) by (auto simp: binned_def)
      have "inner m (get_fd m (header av i)) (x + 32)" unfolding e by (rule inner_fields(2) [OF R(1) ff])
      then have "get_fd m (header av i) = x" using inner_unique [OF R(1) ff xf _ ix] by blast
      then show False using e by simp
    qed
  qed
qed

lemma freed_clears_nextsize:
  assumes r: "ready m av base ls p t rs L" and g: "goes_to i (chunksize m p)"
    and large: "\<not> in_smallbin_range (chunksize m p)"
  defines "sz \<equiv> chunksize m p"
  defines "m' \<equiv> bin_free_chunk m p sz (header av i) (get_fd m (header av i))"
  shows "get_fd_nextsize m' p = NULL"
proof -
  note R = readyD [OF r, folded sz_def]
  note P = blockD [OF R(6), folded sz_def]
  note i = goes_toD [OF g [folded sz_def] P(10)]
  note ok = bins_holdD(2) [OF R(3) i(1,4)]
  have ap: "apart x p sz" if "x \<in> set (header av i # L i)" for x
    using ready_apart [OF r i(1,3)] that by (simp add: sz_def)
  have sz: "1024 \<le> unat sz" "32 \<le> unat sz" "48 \<le> unat sz" using large [folded sz_def] by (simp_all add: in_smallbin_range_iff)
  have f: "get_fd m (header av i) \<in> set (header av i # L i)"
    using bin_okD(1) [OF ok] by (cases "L i") (auto simp: bin_list_def)
  have "p + sz \<noteq> p + 32" using sz(1) by auto
  moreover have "p + 32 \<noteq> header av i + 16"
    using apart_fields(6) [OF ap sz(2) P(4), of "header av i" 16] sz(3) by auto
  moreover have "p + 32 \<noteq> get_fd m (header av i) + 24"
    using apart_fields(6) [OF ap [OF f] sz(2) P(4), of 24] sz(3) by auto
  ultimately show ?thesis unfolding m'_def by (rule bin_free_chunk_nextsize [OF large [folded sz_def]])
qed

lemma becomes_free_lay:
  assumes r: "ready m av base ls p t rs L" and g: "goes_to i (chunksize m p)"
  defines "sz \<equiv> chunksize m p"
  defines "m' \<equiv> bin_free_chunk m p sz (header av i) (get_fd m (header av i))"
  shows "lay m' av base (ls @ (p, False) # (t, True) # rs)"
    "get_top m' av = get_top m av" "chunksize m' p = sz" "chunksize m' t = chunksize m t"
    "bin_list m' (header av i) (p # L i)" "\<And>x u. (x, u) \<in> set (ls @ rs) \<Longrightarrow> chunksize m' x = chunksize m x"
proof -
  note R = readyD [OF r, folded sz_def]
  note D = layD [OF R(1)] and P = blockD [OF R(6), folded sz_def] and T = blockD [OF R(7)]
  note i = goes_toD [OF g [folded sz_def] P(10)]
  note ok = bins_holdD(2) [OF R(3) i(1,4)]
  note W = becomes_free_words [OF r g, folded sz_def, folded m'_def] and N = not_freed_word [OF r g]
  have ap: "apart x p sz" if "x \<in> set (header av i # L i)" for x
    using ready_apart [OF r i(1) i(3)] that by (simp add: sz_def)
  note F = bin_free_chunk_facts [OF bin_okD(1) [OF ok] ap P(1,3,10,4), folded m'_def]
  have tp: "t = p + sz" using R(8) .
  have n8: "p + sz \<noteq> p + 8" using P(2) by auto
  have hp: "m' (p + 8) = sz OR PREV_INUSE" unfolding m'_def by (rule bin_free_chunk_head [OF n8])
  show cp: "chunksize m' p = sz" by (rule F(2))
  show ct: "chunksize m' t = chunksize m t" using F(6) tp by simp
  show top: "get_top m' av = get_top m av" using W [of "av + 96"] N(3) by (auto simp: get_top_def)
  have th: "m' (get_top m av + 8) = m (get_top m av + 8)" using W N(4) by blast
  have keep: "m' (x + 8) = m (x + 8) \<and> (u \<or> m' (next_chunk m x) = m (next_chunk m x))"
    if "(x, u) \<in> set (ls @ rs)" for x u using W N(1,2) [OF that] by blast
  have np: "next_chunk m' p = t" using cp tp by (simp add: next_chunk_def)
  have "block m' True p False"
    using P F(3,4) cp hp tp np unfolding block_def by (simp add: plain_head_def chunksize_nomask_def)
  moreover have "block m' False t True" using T F(5) ct tp unfolding block_def by simp
  moreover have "seg m' base True ls p True = seg m base True ls p True"
    by (rule seg_cong) (use keep in auto)
  moreover have "seg m' (next_chunk m t) True rs (get_top m av) True = seg m (next_chunk m t) True rs (get_top m av) True"
    by (rule seg_cong) (use keep in auto)
  moreover have "block m' True (get_top m av) True = block m True (get_top m av) True"
    by (rule block_cong(1)) (use th in simp_all)
  moreover have "next_chunk m' t = next_chunk m t" by (simp add: next_chunk_def ct)
  ultimately show "lay m' av base (ls @ (p, False) # (t, True) # rs)"
    unfolding lay_def top seg_append using D(1,2,4) R(10,11) np by auto
  show "bin_list m' (header av i) (p # L i)" using F(1) .
  show "chunksize m' x = chunksize m x" if "(x, u) \<in> set (ls @ rs)" for x u
    using keep [OF that] by (simp add: chunksize_def chunksize_nomask_def)
qed

lemma becomes_free_bins:
  assumes r: "ready m av base ls p t rs L" and g: "goes_to i (chunksize m p)"
  defines "sz \<equiv> chunksize m p"
  defines "m' \<equiv> bin_free_chunk m p sz (header av i) (get_fd m (header av i))"
  shows "bins_hold m' av (L(i := p # L i))"
proof -
  note R = readyD [OF r, folded sz_def]
  note D = layD [OF R(1)] and P = blockD [OF R(6), folded sz_def]
  note i = goes_toD [OF g [folded sz_def] P(10)]
  note ok = bins_holdD(2) [OF R(3) i(1,4)]
  note W = becomes_free_words [OF r g, folded sz_def, folded m'_def]
  note B = becomes_free_lay [OF r g, folded sz_def, folded m'_def]
  note cp = B(3)
  show "bins_hold m' av (L(i := p # L i))"
  proof (rule bins_hold_update [OF R(1,3,5) i(1) i(3)])
    fix a assume "m' a \<noteq> m a"
    then have fw: "freed_words m av i L p a" by (rule W)
    have "\<not> uses m av j (set (L j)) a"
      if a: "unat p + 8 \<le> unat a" "unat a \<le> unat p + unat sz + 8" and j: "1 \<le> j" "j < 128" for j
    proof (rule uses_outside [OF R(1,5) j])
      show "unat a < unat av + 112 \<or> unat av + 2144 \<le> unat a" using a R(13) D(2) by simp
      show "unat a < unat x + 8 \<or> unat x + unat (chunksize m x) \<le> unat a" if "x \<in> binned L" for x
        using R(12) [OF that] a R(9) by auto
    qed
    then show "in_bin m av i (set (L i)) a \<or> (\<forall>j. 1 \<le> j \<and> j < 128 \<longrightarrow> \<not> uses m av j (set (L j)) a)"
      using fw unfolding freed_words_def sz_def [symmetric] by blast
  next
    show "set (L i) \<subseteq> frees (ls @ (p, True) # (t, True) # rs)" using R(5) by (auto simp: binned_def)
    show "set (L j) \<inter> set (L i) = {}" if "j \<noteq> i" for j using bins_holdD(3) [OF R(3) that] by blast
    have "p \<notin> set (L j)" for j
      using R(12) [of p] P(2) R(9) by (auto simp: binned_def sz_def)
    then show "set (L j) \<inter> set (p # L i) = {}" if "j \<noteq> i" for j using bins_holdD(3) [OF R(3) that] by auto
    have cs: "chunksize m' x = chunksize m x" if "x \<in> set (L i)" for x
    proof -
      have "(x, False) \<in> set (ls @ rs)" using R(4) that by (auto simp: binned_def frees_def)
      then show ?thesis by (rule B(6))
    qed
    note nx = freed_keeps_nextsize [OF r g, folded sz_def, folded m'_def]
      and pn = freed_clears_nextsize [OF r g, folded sz_def, folded m'_def]
    have "bin_list m' (header av i) (p # L i)" by (rule B(5))
    moreover have "unat (bin_index (chunksize m' x)) = i" if "2 \<le> i" "x \<in> set (p # L i)" for x
    proof (cases "x = p")
      case True
      then show ?thesis using cp i(5) [OF that(1)] by simp
    next
      case False
      then show ?thesis using bin_okD(3) [OF ok that(1)] cs that(2) by simp
    qed
    moreover have "get_fd_nextsize m' x = NULL" if "i = 1" "x \<in> set (p # L i)" "MIN_LARGE_SIZE \<le> chunksize m' x" for x
    proof (cases "x = p")
      case True
      then show ?thesis using pn that(3) cp by (simp add: in_smallbin_range_def)
    next
      case False
      then have "x \<in> set (L i)" "MIN_LARGE_SIZE \<le> chunksize m x" using that cs by auto
      then show ?thesis using nx bin_okD(4) [OF ok that(1)] that(1) by (simp add: get_fd_nextsize_def)
    qed
    ultimately show "bin_ok m' av i (p # L i)" using i(2) unfolding bin_ok_def by auto
  qed
qed

lemmas becomes_free = becomes_free_lay(1) becomes_free_bins becomes_free_lay(2-4)

section \<open>The blocks in use are kept\<close>

text \<open>What an operation leaves as it was in the blocks \<open>bs\<close> in use: their words and their flags.\<close>

definition used_kept :: "memory \<Rightarrow> memory \<Rightarrow> (ptr \<times> bool) list \<Rightarrow> bool" where
  "used_kept m m' bs \<longleftrightarrow> (\<forall>x. (x, True) \<in> set bs \<longrightarrow>
     chunksize_nomask m' x AND NOT PREV_INUSE = chunksize_nomask m x AND NOT PREV_INUSE \<and>
     (\<forall>a. unat x + 16 \<le> unat a \<and> unat a \<le> unat x + unat (chunksize m x) \<longrightarrow> m' a = m a))"

lemma used_kept_trans:
  assumes "used_kept m m1 bs" "used_kept m1 m2 bs"
  shows "used_kept m m2 bs"
proof -
  have "chunksize m1 x = chunksize m x" if "(x, True) \<in> set bs" for x
  proof -
    have "chunksize_nomask m1 x AND NOT 1 = chunksize_nomask m x AND NOT 1"
      using assms(1) that unfolding used_kept_def by blast
    then have "(chunksize_nomask m1 x AND NOT 1) AND NOT 7 = (chunksize_nomask m x AND NOT 1) AND NOT 7" by simp
    then show ?thesis by (simp add: chunksize_def and.assoc)
  qed
  then show ?thesis using assms unfolding used_kept_def by simp
qed

lemma used_kept_chunksize:
  assumes "used_kept m m' bs" "(x, True) \<in> set bs"
  shows "chunksize m' x = chunksize m x"
proof -
  have "chunksize_nomask m' x AND NOT 1 = chunksize_nomask m x AND NOT 1"
    using assms unfolding used_kept_def by blast
  then have "(chunksize_nomask m' x AND NOT 1) AND NOT 7 = (chunksize_nomask m x AND NOT 1) AND NOT 7" by simp
  then show ?thesis by (simp add: chunksize_def and.assoc)
qed

lemma used_kept_link_words:
  assumes l: "lay m av base bs" and w: "\<forall>a. m' a \<noteq> m a \<longrightarrow> link_word m av bs a" and sub: "set cs \<subseteq> set bs"
  shows "used_kept m m' cs"
  unfolding used_kept_def
proof (intro allI impI conjI)
  fix x assume "(x, True) \<in> set cs"
  then have x: "(x, True) \<in> set bs" using sub by blast
  show "chunksize_nomask m' x AND NOT PREV_INUSE = chunksize_nomask m x AND NOT PREV_INUSE"
    using lay_cong(3) [OF l w x] by (simp add: chunksize_nomask_def)
  show "m' a = m a" if "unat x + 16 \<le> unat a \<and> unat a \<le> unat x + unat (chunksize m x)" for a
    by (rule lay_cong(6) [OF l w x]) (use that in auto)
qed

lemma becomes_free_used:
  assumes r: "ready m av base ls p t rs L" and g: "goes_to i (chunksize m p)"
  defines "sz \<equiv> chunksize m p"
  defines "m' \<equiv> bin_free_chunk m p sz (header av i) (get_fd m (header av i))"
  shows "used_kept m m' (ls @ (t, True) # rs)"
  unfolding used_kept_def
proof (intro allI impI)
  note R = readyD [OF r, folded sz_def]
  note D = layD [OF R(1)] and P = blockD [OF R(6), folded sz_def] and T = blockD [OF R(7)]
  note W = becomes_free_words [OF r g, folded sz_def, folded m'_def]
  note i = goes_toD [OF g [folded sz_def] P(10)]
  note ok = bin_okD(1) [OF bins_holdD(2) [OF R(3) i(1,4)]]
  fix x assume x: "(x, True) \<in> set (ls @ (t, True) # rs)"
  show "chunksize_nomask m' x AND NOT PREV_INUSE = chunksize_nomask m x AND NOT PREV_INUSE \<and>
     (\<forall>a. unat x + 16 \<le> unat a \<and> unat a \<le> unat x + unat (chunksize m x) \<longrightarrow> m' a = m a)"
  proof (cases "(x, True) \<in> set (ls @ rs)")
    case True
    have "m' (x + 8) = m (x + 8)" using W not_freed_word(1) [OF r g True] by blast
    moreover have "m' a = m a" if "unat x + 16 \<le> unat a" "unat a \<le> unat x + unat (chunksize m x)" for a
      using W not_freed_word(5) [OF r g True, of a] that by auto
    ultimately show ?thesis by (simp add: chunksize_nomask_def)
  next
    case False
    then have xt: "x = t" using x by auto
    have f: "get_fd m (header av i) \<in> set (header av i # L i)"
      using ok by (cases "L i") (auto simp: bin_list_def)
    have ap: "apart y p sz" if "y \<in> set (header av i # L i)" for y
      using ready_apart [OF r i(1,3), folded sz_def] that by simp
    have sz8: "unat (sz + 8) = unat sz + 8" using P(4) by (intro unat_offset [of _ 8, simplified]) simp
    have ne: "p + (sz + 8) \<noteq> p + k" if "unat k < 40" for k using sz8 P(2) that by auto
    have ne40: "p + (sz + 8) \<noteq> p + 40" if "\<not> in_smallbin_range sz"
      using sz8 that by (auto simp: in_smallbin_range_iff)
    have "m' (p + (sz + 8)) = clear_inuse_bit_at_offset m (p + sz) 0 (p + (sz + 8))"
      unfolding m'_def
    proof (rule bin_free_chunk_other)
      show "p + (sz + 8) \<noteq> header av i + 16" "p + (sz + 8) \<noteq> get_fd m (header av i) + 24"
        using apart_fields(5) [OF ap P(2,4), of "header av i" 16] apart_fields(5) [OF ap [OF f] P(2,4), of 24]
        by auto
      show "p + (sz + 8) \<noteq> p + 8" "p + (sz + 8) \<noteq> p + 16" "p + (sz + 8) \<noteq> p + 24"
        using ne [of 8] ne [of 16] ne [of 24] by simp_all
      show "in_smallbin_range sz \<or> p + (sz + 8) \<noteq> p + 32 \<and> p + (sz + 8) \<noteq> p + 40"
        using ne [of 32] ne40 by auto
      show "p + (sz + 8) \<noteq> p + sz" by simp
    qed
    then have "m' (t + 8) = m (t + 8) AND NOT 1"
      unfolding R(8) by (simp add: clear_inuse_bit_at_offset_def set_head_def chunksize_nomask_def add.assoc)
    then have "chunksize_nomask m' x AND NOT PREV_INUSE = chunksize_nomask m x AND NOT PREV_INUSE"
      unfolding xt by (simp add: chunksize_nomask_def and.assoc)
    moreover have "m' a = m a" if a: "unat x + 16 \<le> unat a" "unat a \<le> unat x + unat (chunksize m x)" for a
    proof (rule ccontr)
      assume "m' a \<noteq> m a"
      then have "freed_words m av i L p a" by (rule W)
      moreover have "\<not> link_word m av (ls @ (p, True) # (t, True) # rs) a"
        by (rule not_link_word(5) [OF R(1), of t]) (use a xt in auto)
      moreover have "set (L i) \<subseteq> frees (ls @ (p, True) # (t, True) # rs)"
        using R(5) by (auto simp: binned_def)
      ultimately have "unat p + 8 \<le> unat a \<and> unat a \<le> unat p + unat sz + 8"
        using in_bin_link_word [OF R(1) i(1,4)] unfolding freed_words_def sz_def by blast
      then show False using a R(9) unfolding xt by simp
    qed
    ultimately show ?thesis by blast
  qed
qed

end
