(* ===== verification/Coalesce.thy ===== *)
theory Coalesce
  imports Rebin
begin

text \<open>
  Freeing with coalescing: \<open>_int_free_merge_chunk\<close> and \<open>_int_free_create_chunk\<close> (lines 4621 to 4753 of
  \<^verbatim>\<open>scalloc/src/scalloc.c\<close>) refine an operation on the list of blocks (\<open>free_block_at\<close>), which
  absorbs free neighbours and gives a block at the end to top.
\<close>

section \<open>Adjacent blocks become one\<close>

text \<open>The blocks \<open>mid\<close> from \<open>q\<close> to \<open>e\<close> taken as one block in use, before the used block \<open>t\<close>.\<close>

definition merged :: "memory \<Rightarrow> ptr \<Rightarrow> ptr \<Rightarrow> memory" where
  "merged m q e = set_head (set_inuse_bit_at_offset m e 0) q ((e - q) OR PREV_INUSE)"

lemma or_1_and_not_7: "(x OR 1) AND NOT 7 = x AND NOT 7" for x :: u64
  by (simp add: bit.conj_disj_distrib2)

lemma seg_size:
  assumes "seg m q pu bs e eu" "bs \<noteq> []"
  shows "unat q + 32 \<le> unat e" "unat (e - q) = unat e - unat q" "(e - q) AND MALLOC_ALIGN_MASK = 0" "aligned q"
    "aligned e"
proof -
  obtain x u cs where bs: "bs = (x, u) # cs" using assms(2) by (cases bs) auto
  have b: "q = x" "block m pu x u" "seg m (next_chunk m x) u cs e eu" using assms(1) bs by auto
  note B = blockD [OF b(2)]
  show le: "unat q + 32 \<le> unat e" using seg_le [OF b(3)] B(2,9) b(1) by simp
  then show "unat (e - q) = unat e - unat q" by (intro unat_sub) (simp add: word_le_nat_alt)
  show aq: "aligned q" using B(1) b(1) by simp
  have ae: "aligned e" using assms(1,2)
  proof (induction bs arbitrary: q pu)
    case (Cons c ds)
    obtain y w where c: "c = (y, w)" by (cases c)
    have y: "block m pu y w" "seg m (next_chunk m y) w ds e eu" using Cons.prems c by auto
    show ?case
    proof (cases ds)
      case Nil
      then have "e = y + chunksize m y" using y(2) by (simp add: next_chunk_def)
      then show ?thesis using aligned_add blockD(1,3) [OF y(1)] by simp
    next
      case (Cons d es)
      then show ?thesis using Cons.IH [OF y(2)] by simp
    qed
  qed simp
  then show "aligned e" .
  show "(e - q) AND MALLOC_ALIGN_MASK = 0" using aligned_sub aq ae by (simp add: aligned_def)
qed

lemma merged_lay:
  assumes l: "lay m av base (ls @ mid @ (t, True) # rs)" and s: "seg m base True ls q True"
    and mid: "seg m q True mid t eu" "mid \<noteq> []" and t: "seg m t eu ((t, True) # rs) (get_top m av) True"
  defines "m' \<equiv> merged m q t"
  shows "lay m' av base (ls @ (q, True) # (t, True) # rs)" "chunksize m' q = t - q" "prev_inuse m' q"
    "get_top m' av = get_top m av" "chunksize m' t = chunksize m t"
    "m' a \<noteq> m a \<Longrightarrow> a = q + 8 \<or> a = t + 8" "next_chunk m' q = t"
proof -
  note D = layD [OF l] and z = seg_size [OF mid]
  have bt: "block m eu t True" "seg m (next_chunk m t) True rs (get_top m av) True" using t by auto
  note T = blockD [OF bt(1)]
  have lt: "unat q < unat t" "unat base \<le> unat q" using z(1) seg_le [OF s] by auto
  have q8: "unat (q + 8) = unat q + 8" "unat (t + 8) = unat t + 8"
    using T(4) lt(1) by (auto intro!: unat_offset [of _ 8, simplified])
  have m': "m' = m(t + 8 := m (t + 8) OR 1, q + 8 := (t - q) OR 1)"
    by (simp add: m'_def merged_def set_inuse_bit_at_offset_def set_head_def chunksize_nomask_def)
  show w: "m' a \<noteq> m a \<Longrightarrow> a = q + 8 \<or> a = t + 8" for a by (auto simp: m' split: if_splits)
  have av96: "unat (av + 96) = unat av + 96"
    using D(2) unat_lt_64 [of base] by (intro unat_offset [of _ 96, simplified]) simp
  then have "av + 96 \<noteq> q + 8" "av + 96 \<noteq> t + 8" using q8 lt D(2) by (intro unat_neq; linarith)+
  then show top: "get_top m' av = get_top m av" by (simp add: m' get_top_def)
  have qt: "q + 8 \<noteq> t + 8" using lt(1) by auto
  have hq: "m' (q + 8) = (t - q) OR PREV_INUSE" by (simp add: m')
  show cq: "chunksize m' q = t - q" by (rule head_same [where bits = PREV_INUSE]) (use z(3) hq in simp_all)
  show pq: "prev_inuse m' q" using prev_inuse_bit [of m' q "t - q" 0] hq by simp
  show ct: "chunksize m' t = chunksize m t"
    using qt or_1_and_not_7 by (simp add: m' chunksize_def chunksize_nomask_def)
  have pt: "prev_inuse m' t" using prev_inuse_bit [of m' t "m (t + 8)" 0] qt by (simp add: m')
  show nq: "next_chunk m' q = t" by (simp add: next_chunk_def cq)
  have "MINSIZE \<le> t - q" using z(1,2) by (simp add: word_le_nat_alt)
  then have "block m' True q True"
    unfolding block_def using z cq pq T(4) lt(1) by simp
  moreover have "block m' True t True"
    using bt(1) ct pt unfolding block_def by (simp add: next_chunk_def)
  moreover have "seg m' base True ls q True = seg m base True ls q True"
  proof (rule seg_cong)
    fix x u assume x: "(x, u) \<in> set ls"
    obtain a where "block m a x u" using seg_block(3) [OF s x] by blast
    note X = blockD [OF this]
    have xq: "unat x + unat (chunksize m x) \<le> unat q" using seg_block(2) [OF s x] .
    have x8: "unat (x + 8) = unat x + 8" using X(4) by (intro unat_offset [of _ 8, simplified]) simp
    have "x + 8 \<noteq> q + 8 \<and> x + 8 \<noteq> t + 8 \<and> next_chunk m x \<noteq> q + 8 \<and> next_chunk m x \<noteq> t + 8"
      using x8 q8 X(2,9) xq lt by (intro conjI unat_neq; linarith)
    then show "m' (x + 8) = m (x + 8) \<and> (u \<or> m' (next_chunk m x) = m (next_chunk m x))" using w by blast
  qed
  moreover have "seg m' (next_chunk m t) True rs (get_top m av) True = seg m (next_chunk m t) True rs (get_top m av) True"
  proof (rule seg_cong)
    fix x u assume x: "(x, u) \<in> set rs"
    obtain a where "block m a x u" using seg_block(3) [OF bt(2) x] by blast
    note X = blockD [OF this]
    have tx: "unat t + 32 \<le> unat x" using seg_block(1) [OF bt(2) x] T(2,9) by simp
    have x8: "unat (x + 8) = unat x + 8" using X(4) by (intro unat_offset [of _ 8, simplified]) simp
    have "x + 8 \<noteq> q + 8 \<and> x + 8 \<noteq> t + 8 \<and> next_chunk m x \<noteq> q + 8 \<and> next_chunk m x \<noteq> t + 8"
      using x8 q8 X(2,9) tx lt by (intro conjI unat_neq; linarith)
    then show "m' (x + 8) = m (x + 8) \<and> (u \<or> m' (next_chunk m x) = m (next_chunk m x))" using w by blast
  qed
  moreover have "block m' True (get_top m av) True"
  proof -
    have "unat (next_chunk m t) \<le> unat (get_top m av)" using seg_le [OF bt(2)] .
    then have "unat t + 32 \<le> unat (get_top m av)" using T(2,9) by simp
    then have "get_top m av + 8 \<noteq> q + 8" "get_top m av + 8 \<noteq> t + 8" using lt by auto
    then have "m' (get_top m av + 8) = m (get_top m av + 8)" using w by blast
    then have "block m' True (get_top m av) True = block m True (get_top m av) True" by (intro block_cong(1)) auto
    then show ?thesis using D(4) by simp
  qed
  moreover have "next_chunk m' t = next_chunk m t" by (simp add: next_chunk_def ct)
  ultimately show "lay m' av base (ls @ (q, True) # (t, True) # rs)"
    unfolding lay_def top seg_append using D(1,2) s bt(2) nq by auto
qed

text \<open>Blocks before top that become part of top.\<close>

lemma top_merged_lay:
  assumes l: "lay m av base (ls @ mid)" and s: "seg m base True ls q True"
    and mid: "seg m q True mid (get_top m av) True" "mid \<noteq> []"
  defines "tp \<equiv> get_top m av"
  defines "sz \<equiv> (tp - q) + chunksize m tp"
  defines "m' \<equiv> set_top (set_head m q (sz OR PREV_INUSE)) av q"
  shows "lay m' av base ls" "get_top m' av = q" "chunksize m' q = sz"
    "unat sz = unat tp - unat q + unat (chunksize m tp)"
    "m' a \<noteq> m a \<Longrightarrow> a = q + 8 \<or> a = av + 96"
proof -
  note D = layD [OF l, folded tp_def] and z = seg_size [OF mid, folded tp_def]
  note T = blockD [OF D(4)]
  show us: "unat sz = unat tp - unat q + unat (chunksize m tp)"
    unfolding sz_def using z(1,2) T(4) unat_offset [of "tp - q" "chunksize m tp"] by simp
  have bq: "unat base \<le> unat q" using seg_le [OF s] .
  have q8: "unat (q + 8) = unat q + 8" using z(1) T(4) by (intro unat_offset [of _ 8, simplified]) simp
  have av96: "unat (av + 96) = unat av + 96"
    using D(2) unat_lt_64 [of base] by (intro unat_offset [of _ 96, simplified]) simp
  have ne: "av + 96 \<noteq> q + 8" using q8 av96 bq D(2) by (intro unat_neq) linarith
  have m': "m' = m(q + 8 := sz OR 1, av + 96 := q)" by (simp add: m'_def set_top_def set_head_def)
  show w: "m' a \<noteq> m a \<Longrightarrow> a = q + 8 \<or> a = av + 96" for a by (auto simp: m' split: if_splits)
  show top: "get_top m' av = q" by (simp add: m' get_top_def)
  have al: "sz AND MALLOC_ALIGN_MASK = 0"
    using z(3) T(3) aligned_add [of "tp - q" "chunksize m tp"] by (simp add: aligned_def sz_def)
  have hq: "m' (q + 8) = sz OR PREV_INUSE" using ne by (simp add: m')
  show cq: "chunksize m' q = sz" by (rule head_same [where bits = PREV_INUSE]) (use al hq in simp_all)
  have pq: "prev_inuse m' q" using prev_inuse_bit [of m' q sz 0] hq by simp
  have "MINSIZE \<le> sz" "unat q + unat sz + 16 < 2 ^ 64" using us z(1) T(4) by (simp_all add: word_le_nat_alt)
  then have "block m' True q True" unfolding block_def using z(4) cq pq al by simp
  moreover have "seg m' base True ls q True = seg m base True ls q True"
  proof (rule seg_cong)
    fix x u assume x: "(x, u) \<in> set ls"
    obtain a where "block m a x u" using seg_block(3) [OF s x] by blast
    note X = blockD [OF this]
    have r: "unat x + unat (chunksize m x) \<le> unat q" "unat base \<le> unat x" using seg_block(1,2) [OF s x] by auto
    have x8: "unat (x + 8) = unat x + 8" using X(4) by (intro unat_offset [of _ 8, simplified]) simp
    have "x + 8 \<noteq> q + 8 \<and> x + 8 \<noteq> av + 96 \<and> next_chunk m x \<noteq> q + 8 \<and> next_chunk m x \<noteq> av + 96"
      using x8 q8 av96 X(2,9) r D(2) by (intro conjI unat_neq; linarith)
    then show "m' (x + 8) = m (x + 8) \<and> (u \<or> m' (next_chunk m x) = m (next_chunk m x))" using w by blast
  qed
  ultimately show "lay m' av base ls" unfolding lay_def top using D(1,2) s by simp
qed

section \<open>The second half of \<open>_int_free_create_chunk\<close>\<close>

text \<open>What follows once the next chunk has been unlinked or marked: the chunk goes to its bin.\<close>

definition create_tail :: "ptr \<Rightarrow> ptr \<Rightarrow> u64 \<Rightarrow> 'k st \<Rightarrow> abort + u64 \<times> 'k st" where
  "create_tail av p sz s =
     bindE
       (if \<not> in_smallbin_range sz
        then (let bck = unsorted_chunks av; fwd = get_fd (mem s) bck in
              if get_bk (mem s) fwd \<noteq> bck
              then Inl (Printerr ''free(): corrupted unsorted chunks'')
              else Inr (bck, fwd, upd_mem (\<lambda>m. clear_nextsize m p) s))
        else (let chunk_index = smallbin_index sz; bck = bin_at av chunk_index;
                  fwd = get_fd (mem s) bck in
              if get_bk (mem s) fwd \<noteq> bck
              then Inl (Printerr ''free(): chunks in smallbin corrupted'')
              else Inr (bck, fwd, mark_bin av chunk_index s)))
     (\<lambda>(bck, fwd, s).
       let s = upd_mem (\<lambda>m. link_between m p bck fwd) s;
           s = upd_mem (\<lambda>m. set_head m p (sz OR PREV_INUSE)) s;
           s = upd_mem (\<lambda>m. set_foot m p sz) s
       in Inr (sz, s))"

lemma create_chunk_cases:
  assumes "r \<noteq> get_top (mem s) av"
  shows "inuse_bit_at_offset (mem s) r n \<Longrightarrow>
      int_free_create_chunk av p sz r n s =
        create_tail av p sz (s\<lparr>mem := clear_inuse_bit_at_offset (mem s) r 0\<rparr>)"
    "\<not> inuse_bit_at_offset (mem s) r n \<Longrightarrow> unlink_chunk (mem s) r = Inr m' \<Longrightarrow>
      int_free_create_chunk av p sz r n s = create_tail av p (sz + n) (s\<lparr>mem := m'\<rparr>)"
  using assms by (simp_all add: int_free_create_chunk_def create_tail_def upd_mem_def)

lemma clear_unused:
  assumes "\<not> prev_inuse m t"
  shows "clear_inuse_bit_at_offset m t 0 = m"
proof -
  have z: "m (t + 8) AND 1 = 0" using assms by (simp add: prev_inuse_def chunksize_nomask_def)
  have "m (t + 8) AND NOT 1 = m (t + 8)"
  proof (rule bit_word_eqI)
    fix n assume "n < LENGTH(64)"
    then show "bit (m (t + 8) AND NOT 1) n = bit (m (t + 8)) n"
      using arg_cong [OF z, of "\<lambda>w. bit w n"] by (auto simp: bit_simps)
  qed
  then show ?thesis by (simp add: clear_inuse_bit_at_offset_def set_head_def chunksize_nomask_def fun_upd_idem)
qed

definition bin_marked :: "ptr \<Rightarrow> u64 \<Rightarrow> 'k st \<Rightarrow> 'k st" where
  "bin_marked av sz s = (if in_smallbin_range sz then mark_bin av (smallbin_index sz) s else s)"

lemma create_tail_binned:
  assumes "get_bk (mem s) (get_fd (mem s) (free_bin av sz)) = free_bin av sz" "\<not> prev_inuse (mem s) (p + sz)"
  shows "create_tail av p sz s = Inr (sz, bin_marked av sz s
    \<lparr>mem := bin_free_chunk (mem s) p sz (free_bin av sz) (get_fd (mem s) (free_bin av sz))\<rparr>)"
  using assms clear_unused [OF assms(2)] unfolding free_bin_def bin_free_chunk_def bin_marked_def
  by (cases "in_smallbin_range sz") (auto simp: create_tail_def upd_mem_def Let_def mark_bin_def)

text \<open>Whether the merged block counts as used before does not matter for the result.\<close>

lemma bin_free_chunk_merged:
  "t = q + sz \<Longrightarrow> bin_free_chunk (merged m q t) q sz b fwd = bin_free_chunk m q sz b fwd"
  if "t \<noteq> q"
proof
  fix a assume t: "t = q + sz"
  have "(x OR 1) AND NOT 1 = x AND NOT 1" for x :: u64 by (simp add: bit.conj_disj_distrib2)
  moreover have "q + 8 \<noteq> q + sz + 8" using that t by simp
  ultimately show "bin_free_chunk (merged m q t) q sz b fwd a = bin_free_chunk m q sz b fwd a"
    using t that by (auto simp: bin_free_chunk_def Let_def set_foot_def clear_nextsize_def link_between_def
      clear_inuse_bit_at_offset_def set_inuse_bit_at_offset_def set_head_def set_fd_def set_bk_def
      set_prev_size_def set_fd_nextsize_def set_bk_nextsize_def merged_def chunksize_nomask_def)
qed

lemma bin_free_chunk_cleared:
  "bin_free_chunk (clear_inuse_bit_at_offset m (q + sz) 0) q sz b fwd = bin_free_chunk m q sz b fwd"
proof -
  have "(x AND NOT 1) AND NOT 1 = x AND NOT 1" for x :: u64 by (simp add: and.assoc)
  then have "clear_inuse_bit_at_offset (clear_inuse_bit_at_offset m (q + sz) 0) (q + sz) 0 =
      clear_inuse_bit_at_offset m (q + sz) 0"
    by (simp add: clear_inuse_bit_at_offset_def set_head_def chunksize_nomask_def)
  then show ?thesis by (simp only: bin_free_chunk_def)
qed
section \<open>The abstract operation\<close>

text \<open>
  Freeing the block \<open>p\<close> between \<open>ls\<close> and \<open>rs\<close>: a free neighbour on either side is absorbed, and a
  block at the end goes to top.
\<close>

definition absorb_left :: "(ptr \<times> bool) list \<Rightarrow> ptr \<Rightarrow> (ptr \<times> bool) list \<times> ptr" where
  "absorb_left ls p = (if ls \<noteq> [] \<and> \<not> snd (last ls) then (butlast ls, fst (last ls)) else (ls, p))"

fun absorb_right :: "(ptr \<times> bool) list \<Rightarrow> (ptr \<times> bool) list" where
  "absorb_right ((r, False) # rs) = rs"
| "absorb_right rs = rs"

definition free_block_at :: "(ptr \<times> bool) list \<Rightarrow> ptr \<Rightarrow> (ptr \<times> bool) list \<Rightarrow> (ptr \<times> bool) list" where
  "free_block_at ls p rs =
     (case absorb_left ls p of (ls, q) \<Rightarrow> if rs = [] then ls else ls @ (q, False) # absorb_right rs)"

text \<open>
  The heap of the arena: its layout, its bins, which hold the free blocks and are marked in the bin
  map, and its size, which is not above \<open>system_mem\<close>.
\<close>

definition heap_ok :: "'k st \<Rightarrow> ptr \<Rightarrow> ptr \<Rightarrow> (ptr \<times> bool) list \<Rightarrow> (nat \<Rightarrow> ptr list) \<Rightarrow> bool" where
  "heap_ok s av base bs L \<longleftrightarrow>
     lay (mem s) av base bs \<and> bins_hold (mem s) av L \<and> binned L = frees bs \<and>
     (\<forall>i. 2 \<le> i \<and> L i \<noteq> [] \<longrightarrow> get_binmap s av (of_nat i) \<noteq> 0) \<and>
     unat (next_chunk (mem s) (get_top (mem s) av)) \<le> unat base + unat (system_mem s av)"

lemma heap_okD:
  assumes "heap_ok s av base bs L"
  shows "lay (mem s) av base bs" "bins_hold (mem s) av L" "binned L = frees bs"
    "\<And>i. 2 \<le> i \<Longrightarrow> L i \<noteq> [] \<Longrightarrow> get_binmap s av (of_nat i) \<noteq> 0"
    "unat (next_chunk (mem s) (get_top (mem s) av)) \<le> unat base + unat (system_mem s av)"
  using assms unfolding heap_ok_def by blast+

section \<open>The free neighbours are unlinked\<close>

lemma link_word_mono:
  assumes "\<And>x. x \<in> frees bs' \<Longrightarrow> x \<in> frees bs \<and> chunksize m' x = chunksize m x" "link_word m' av bs' a"
  shows "link_word m av bs a"
  using assms by (auto simp: link_word_def inner_def)

lemma seg_split:
  assumes "seg m p pu (as @ (x, u) # cs) e eu"
  shows "\<exists>a. seg m p pu as x a \<and> block m a x u \<and> seg m (next_chunk m x) u cs e eu"
  using assms unfolding seg_append by auto

lemma frees_subset: "frees bs \<subseteq> fst ` set bs"
  by (force simp: frees_def)

lemma absorb_left_cases:
  "ls = [] \<or> (\<exists>ks q. ls = ks @ [(q, True)]) \<Longrightarrow> absorb_left ls p = (ls, p)"
  "absorb_left (ks @ [(q, False)]) p = (ks, q)"
  by (auto simp: absorb_left_def)

lemma left_stage:
  assumes l: "lay m av base (ls @ (p, True) # rs)" and b: "bins_hold m av L" and S: "binned L = frees (ls @ rs)"
  defines "t \<equiv> next_chunk m p" and "bs \<equiv> ls @ (p, True) # rs"
  obtains ls' q mid m1 L1 where "absorb_left ls p = (ls', q)" "ls @ [(p, True)] = ls' @ mid" "mid \<noteq> []"
    "lay m1 av base bs" "seg m1 base True ls' q True" "seg m1 q True mid t True"
    "seg m1 t True rs (get_top m1 av) True" "bins_hold m1 av L1" "binned L1 = frees (ls' @ rs)"
    "\<And>i. set (L1 i) \<subseteq> set (L i)" "\<forall>a. m1 a \<noteq> m a \<longrightarrow> link_word m av bs a" "prev_inuse m p \<Longrightarrow> q = p \<and> m1 = m \<and> chunksize m p = t - q"
    "\<not> prev_inuse m p \<Longrightarrow> p - prev_size m p = q \<and> chunksize m q = prev_size m p \<and>
       unlink_chunk m q = Inr m1 \<and> chunksize m p + prev_size m p = t - q"
proof -
  note D = layD [OF l]
  obtain u where u: "seg m base True ls p u" "block m u p True" "seg m t True rs (get_top m av) True"
    using seg_split [OF D(3)] unfolding t_def by blast
  have pu: "prev_inuse m p \<longleftrightarrow> u" using blockD(5) [OF u(2)] .
  have tq: "chunksize m p = t - p" by (simp add: t_def next_chunk_def)
  show thesis
  proof (cases u)
    case True
    have a: "absorb_left ls p = (ls, p)"
    proof (rule absorb_left_cases(1), cases ls rule: rev_cases)
      case (snoc ks c)
      obtain q w where c: "c = (q, w)" by (cases c)
      have "w = u" using u(1) unfolding snoc seg_append c by auto
      then show "ls = [] \<or> (\<exists>ks q. ls = ks @ [(q, True)])" using snoc c True by auto
    qed simp
    have s: "seg m p True [(p, True)] t True" using u(2) True by (simp add: t_def)
    show thesis
      by (rule that [OF a refl _ _ _ s, of L]) (use l u b S True pu tq in \<open>simp_all add: bs_def\<close>)
  next
    case False
    then have "ls \<noteq> []" using u(1) by (cases ls) auto
    then obtain ks q w where ls: "ls = ks @ [(q, w)]" by (metis rev_exhaust surj_pair)
    obtain a where q: "seg m base True ks q a" "block m a q w" "next_chunk m q = p" "w = u"
      using u(1) unfolding ls seg_append by auto
    have w: "w = False" "a = True" using q(2,4) False blockD(6) [OF q(2)] by auto
    note Q = blockD [OF q(2)]
    have qf: "q \<in> binned L" unfolding S ls using w by simp
    have "binned L \<subseteq> frees (ls @ (p, True) # rs)" using S by simp
    from unlink_step [OF l b this qf] obtain m1 L1 where m1: "unlink_chunk m q = Inr m1" "bins_hold m1 av L1"
      "binned L1 = binned L - {q}" "\<forall>i. set (L1 i) \<subseteq> set (L i)" "\<forall>a. m1 a \<noteq> m a \<longrightarrow> link_word m av (ls @ (p, True) # rs) a" by blast
    note C = lay_cong [OF l m1(5)]
    have foot: "prev_size m p = chunksize m q" using Q(8) w(1) q(3) by simp
    have "p - chunksize m q = q" using q(3) unfolding next_chunk_def by (metis add_diff_cancel_right')
    then have pq: "p - prev_size m p = q" by (simp only: foot)
    have sg: "seg m1 base True ls p u"
      "seg m1 t True rs (get_top m av) True" "block m1 u p True" "next_chunk m1 p = t" "next_chunk m1 q = p"
    proof -
      note L1 = layD(3) [OF C(1), unfolded C(2)]
      have cp: "chunksize m1 p = chunksize m p" "chunksize m1 q = chunksize m q"
        using C(5) [where x = p and u = True] C(5) [where x = q and u = w] by (simp_all add: ls)
      then have "next_chunk m1 p = next_chunk m p" "next_chunk m1 q = next_chunk m q"
        by (simp_all only: next_chunk_def)
      then show n: "next_chunk m1 p = t" "next_chunk m1 q = p" by (simp_all only: t_def q(3))
      from seg_split [OF L1] obtain u' where s: "seg m1 base True ls p u'" "block m1 u' p True"
        "seg m1 (next_chunk m1 p) True rs (get_top m av) True" by (elim exE conjE)
      have "u' = w" using s(1) unfolding ls seg_append by auto
      then have "u' = u" using q(4) by simp
      then show "seg m1 base True ls p u" "seg m1 t True rs (get_top m av) True" "block m1 u p True"
        using s n by auto
    qed
    obtain a' where q1: "seg m1 base True ks q a'" "block m1 a' q False"
      using seg_split [of m1 base True ks q w "[]" p u] sg(1) w unfolding ls by auto
    then have a': "a' = True" using blockD(6) by blast
    have mid: "seg m1 q True [(q, False), (p, True)] t True"
      using q1 a' sg(3-5) False by simp
    have "distinct (map fst (ls @ (p, True) # rs))" by (rule seg_distinct [OF D(3)])
    then have "q \<notin> fst ` set ks" "q \<notin> fst ` set rs" by (simp_all add: ls)
    then have "q \<notin> frees ks \<union> frees rs" using frees_subset [of ks] frees_subset [of rs] by blast
    then have fr: "binned L1 = frees (ks @ rs)" unfolding m1(3) S ls using w by auto
    have np: "\<not> prev_inuse m p" using pu False by simp
    have sz: "chunksize m p + prev_size m p = t - q"
      unfolding tq foot using pq [unfolded foot] by (metis add.commute add_diff_eq diff_add_cancel diff_diff_eq2)
    show thesis
    proof (rule that [of ks q "[(q, False), (p, True)]" m1 L1])
      show "absorb_left ls p = (ks, q)" unfolding ls w by (rule absorb_left_cases(2))
      show "ls @ [(p, True)] = ks @ [(q, False), (p, True)]" using ls w by simp
      show "seg m1 base True ks q True" using q1 a' by simp
      show "seg m1 t True rs (get_top m1 av) True" using sg(2) C(2) by simp
      show "lay m1 av base bs" using C(1) by (simp add: bs_def)
      show "\<not> prev_inuse m p \<Longrightarrow> p - prev_size m p = q \<and> chunksize m q = prev_size m p \<and>
          unlink_chunk m q = Inr m1 \<and> chunksize m p + prev_size m p = t - q"
        using pq foot m1(1) sz by simp
    qed (use mid m1 fr np in \<open>simp_all add: bs_def\<close>)
  qed
qed
text \<open>
  The free neighbours of the block that starts at \<open>q\<close> have left their bins; the block ends at the
  used block \<open>t\<close>.
\<close>

definition staged :: "memory \<Rightarrow> ptr \<Rightarrow> ptr \<Rightarrow> (ptr \<times> bool) list \<Rightarrow> ptr \<Rightarrow> ptr \<Rightarrow> (ptr \<times> bool) list \<Rightarrow>
    (nat \<Rightarrow> ptr list) \<Rightarrow> bool" where
  "staged m av base ls q t ts L \<longleftrightarrow>
     ready (merged m q t) av base ls q t ts L \<and> chunksize (merged m q t) q = t - q \<and>
     unat q < unat t \<and> binned L = frees (ls @ ts)"

text \<open>The two headers that merging writes are not used by any bin.\<close>

lemma merged_unused:
  assumes l: "lay m av base (ls @ mid @ (t, True) # rs)" and s: "seg m base True ls q True"
    and mid: "seg m q True mid t eu" "mid \<noteq> []" and t: "seg m t eu ((t, True) # rs) (get_top m av) True"
    and S: "binned L \<subseteq> frees (ls @ rs)" and j: "1 \<le> j" "j < 128" and a: "merged m q t a \<noteq> m a"
  shows "\<not> uses m av j (set (L j)) a"
proof (rule uses_outside [OF l _ j])
  note D = layD [OF l] and z = seg_size [OF mid]
  have bt: "block m eu t True" "seg m (next_chunk m t) True rs (get_top m av) True" using t by auto
  note T = blockD [OF bt(1)]
  have aa: "a = q + 8 \<or> a = t + 8" by (rule merged_lay(6) [OF l s mid t a])
  have u: "unat (q + 8) = unat q + 8" "unat (t + 8) = unat t + 8"
    using z(1) T(4) by (auto intro!: unat_offset [of _ 8, simplified])
  have q: "unat base \<le> unat q" using seg_le [OF s] .
  show "binned L \<subseteq> frees (ls @ mid @ (t, True) # rs)" using S by auto
  show "unat a < unat av + 112 \<or> unat av + 2144 \<le> unat a" using aa u q z(1) D(2) by auto
  show "unat a < unat x + 8 \<or> unat x + unat (chunksize m x) \<le> unat a" if "x \<in> binned L" for x
  proof -
    have "(x, False) \<in> set ls \<or> (x, False) \<in> set rs" using that S by (auto simp: frees_def)
    then have "unat x + unat (chunksize m x) \<le> unat q \<or> unat (next_chunk m t) \<le> unat x"
      using seg_block(2) [OF s] seg_block(1) [OF bt(2)] by blast
    then show ?thesis using aa u z(1) T(2,9) by auto
  qed
qed

lemma right_stage:
  assumes l: "lay m av base (ls @ mid @ (r, u) # rs)" and s: "seg m base True ls q True"
    and mid: "seg m q True mid r True" "mid \<noteq> []" and rs: "seg m r True ((r, u) # rs) (get_top m av) True"
    and b: "bins_hold m av L" and S: "binned L = frees (ls @ (r, u) # rs)"
  obtains t ts m2 L2 where "absorb_right ((r, u) # rs) = (t, True) # ts"
    "staged m2 av base ls q t ts L2" "get_top m2 av = get_top m av" "\<And>i. set (L2 i) \<subseteq> set (L i)"
    "\<forall>a. m2 a \<noteq> m a \<longrightarrow> link_word m av (ls @ mid @ (r, u) # rs) a" "set ((t, True) # ts) \<subseteq> set ((r, u) # rs)"
    "u \<Longrightarrow> t = r \<and> m2 = m \<and> inuse_bit_at_offset m r (chunksize m r)"
    "\<not> u \<Longrightarrow> \<not> inuse_bit_at_offset m r (chunksize m r) \<and> unlink_chunk m r = Inr m2 \<and>
       (r - q) + chunksize m r = t - q \<and> \<not> prev_inuse m2 t"
proof -
  note D = layD [OF l]
  have ru: "block m True r u" "seg m (next_chunk m r) u rs (get_top m av) True" using rs by auto
  have inuse: "inuse_bit_at_offset m r (chunksize m r) \<longleftrightarrow> u"
  proof (cases rs)
    case Nil
    then show ?thesis using ru(2) blockD(5) [OF D(4)]
      by (auto simp: next_chunk_def inuse_bit_at_offset_def prev_inuse_def)
  next
    case (Cons c cs)
    then obtain x w where "c = (x, w)" by (cases c)
    then have "block m u (next_chunk m r) w" using ru(2) Cons by auto
    then show ?thesis using blockD(5) by (auto simp: next_chunk_def inuse_bit_at_offset_def prev_inuse_def)
  qed
  show thesis
  proof (cases u)
    case True
    have rs': "seg m r True ((r, True) # rs) (get_top m av) True" using rs True by simp
    have l': "lay m av base (ls @ mid @ (r, True) # rs)" using l True by simp
    note M = merged_lay [OF l' s mid rs']
    have lt: "unat q < unat r" using seg_size(1) [OF mid] by simp
    have "bins_hold (merged m q r) av L"
    proof (rule bins_hold_unused [OF l b])
      show "binned L \<subseteq> frees (ls @ mid @ (r, u) # rs)" using S by auto
      fix a j assume a: "merged m q r a \<noteq> m a" and j: "1 \<le> j" "j < (128 :: nat)"
      show "\<not> uses m av j (set (L j)) a" by (rule merged_unused [OF l' s mid rs' _ j a]) (use S True in simp)
    qed
    then have "ready (merged m q r) av base ls q r rs L"
      using M(1,3) S True by (simp add: ready_def)
    then have "staged m av base ls q r rs L" using M(2) lt S True by (simp add: staged_def)
    then show thesis
      by (intro that [of r rs m L]) (use True inuse in auto)
  next
    case False
    have rf: "r \<in> binned L" "binned L \<subseteq> frees (ls @ mid @ (r, u) # rs)" using S False by auto
    from unlink_step [OF l b rf(2,1)] obtain m2 L2 where m2: "unlink_chunk m r = Inr m2" "bins_hold m2 av L2"
      "binned L2 = binned L - {r}" "\<forall>i. set (L2 i) \<subseteq> set (L i)" "\<forall>a. m2 a \<noteq> m a \<longrightarrow> link_word m av (ls @ mid @ (r, u) # rs) a" by blast
    note C = lay_cong [OF l m2(5)]
    have "rs \<noteq> []" using ru(2) False by auto
    then obtain t w ts where rs_eq: "rs = (t, w) # ts" by (metis list.exhaust surj_pair)
    have t: "next_chunk m r = t" "block m False t w" using ru(2) False unfolding rs_eq by auto
    have w: "w = True" using blockD(6) [OF t(2)] by simp
    have cr: "chunksize m2 r = chunksize m r" using C(5) [where x = r and u = u] by simp
    have seg2: "seg m2 base True ls q True" "seg m2 q True mid r True"
      "seg m2 t False ((t, True) # ts) (get_top m2 av) True" "block m2 True r False"
    proof -
      have k: "m2 (x + 8) = m (x + 8) \<and> (v \<or> m2 (next_chunk m x) = m (next_chunk m x))"
        if "(x, v) \<in> set (ls @ mid @ (r, u) # rs)" for x v
        using C(3) [OF that] not_link_word(2) [OF l that] m2(5) by blast
      have "seg m2 base True ls q True = seg m base True ls q True" by (rule seg_cong) (use k in auto)
      then show "seg m2 base True ls q True" using s by simp
      have "seg m2 q True mid r True = seg m q True mid r True" by (rule seg_cong) (use k in auto)
      then show "seg m2 q True mid r True" using mid(1) by simp
      have "seg m2 t False rs (get_top m av) True = seg m t False rs (get_top m av) True"
        by (rule seg_cong) (use k in auto)
      then show "seg m2 t False ((t, True) # ts) (get_top m2 av) True"
        using ru(2) False t(1) C(2) w unfolding rs_eq by simp
      have "block m2 True r False = block m True r False"
        by (rule block_cong(1)) (use k [of r u] False in auto)
      then show "block m2 True r False" using ru(1) False by simp
    qed
    have nr: "next_chunk m2 r = t" using cr t(1) by (simp add: next_chunk_def)
    have mid2: "seg m2 q True (mid @ [(r, False)]) t False" "mid @ [(r, False)] \<noteq> []"
      using seg2(2,4) nr unfolding seg_append by auto
    have l2: "lay m2 av base (ls @ (mid @ [(r, False)]) @ (t, True) # ts)"
      using C(1) False w unfolding rs_eq by simp
    note M = merged_lay [OF l2 seg2(1) mid2 seg2(3)]
    have dist: "distinct (map fst (ls @ mid @ (r, u) # rs))" by (rule seg_distinct [OF D(3)])
    then have "r \<notin> fst ` set ls" "r \<notin> fst ` set ts" by (auto simp: rs_eq)
    then have fr: "binned L2 = frees (ls @ ts)"
      using m2(3) S False w frees_subset [of ls] frees_subset [of ts] unfolding rs_eq by auto
    have "bins_hold (merged m2 q t) av L2"
    proof (rule bins_hold_unused [OF l2 m2(2)])
      show "binned L2 \<subseteq> frees (ls @ (mid @ [(r, False)]) @ (t, True) # ts)" using fr by auto
      fix a j assume a: "merged m2 q t a \<noteq> m2 a" and j: "1 \<le> j" "j < (128 :: nat)"
      show "\<not> uses m2 av j (set (L2 j)) a"
        by (rule merged_unused [OF l2 seg2(1) mid2 seg2(3) _ j a]) (use fr in simp)
    qed
    then have rd: "ready (merged m2 q t) av base ls q t ts L2" using M(1,3) fr by (simp add: ready_def)
    have lt: "unat q < unat t" using seg_size(1) [OF mid2] by simp
    have sz: "(r - q) + chunksize m r = t - q" using t(1) by (simp add: next_chunk_def algebra_simps)
    have npt: "\<not> prev_inuse m2 t" using seg2(3) blockD(5) by fastforce
    have "staged m2 av base ls q t ts L2" using rd M(2) lt fr by (simp add: staged_def)
    then show thesis
      by (intro that [of t ts m2 L2]) (use C(2) m2 inuse sz npt False w rs_eq in auto)
  qed
qed

lemma merged_used:
  assumes lt: "unat q < unat t" and tq: "unat t + 16 < 2 ^ 64"
    and x: "\<And>x. (x, True) \<in> set bs \<Longrightarrow> unat x + unat (chunksize m x) \<le> unat q \<or> unat t \<le> unat x"
    and b: "\<And>x. (x, True) \<in> set bs \<Longrightarrow> \<exists>a. block m a x True"
  shows "used_kept m (merged m q t) bs"
  unfolding used_kept_def
proof (intro allI impI conjI)
  have u: "unat (q + 8) = unat q + 8" "unat (t + 8) = unat t + 8"
    using lt tq by (auto intro!: unat_offset [of _ 8, simplified])
  have m': "merged m q t = m(t + 8 := m (t + 8) OR 1, q + 8 := (t - q) OR 1)"
    by (simp add: merged_def set_inuse_bit_at_offset_def set_head_def chunksize_nomask_def)
  fix x assume xb: "(x, True) \<in> set bs"
  then obtain a where "block m a x True" using b by blast
  note X = blockD [OF this]
  have x8: "unat (x + 8) = unat x + 8" using X(4) by (intro unat_offset [of _ 8, simplified]) simp
  have xq: "x + 8 \<noteq> q + 8" using x [OF xb] X(2) lt by auto
  have "(y OR 1) AND NOT 1 = y AND NOT 1" for y :: u64 by (simp add: bit.conj_disj_distrib2)
  then show "chunksize_nomask (merged m q t) x AND NOT PREV_INUSE = chunksize_nomask m x AND NOT PREV_INUSE"
    using xq by (auto simp: m' chunksize_nomask_def)
  show "merged m q t a = m a" if a: "unat x + 16 \<le> unat a \<and> unat a \<le> unat x + unat (chunksize m x)" for a
  proof -
    have "a \<noteq> q + 8" "a \<noteq> t + 8" using x [OF xb] a u lt by auto
    then show ?thesis by (simp add: m')
  qed
qed
section \<open>Freeing a block\<close>

lemma create_top:
  assumes "r = get_top (mem s) av"
  shows "int_free_create_chunk av p sz r n s
    = Inr (sz + n, s\<lparr>mem := set_top (set_head (mem s) p ((sz + n) OR PREV_INUSE)) av p\<rparr>)"
  using assms by (simp add: int_free_create_chunk_def upd_mem_def Let_def)

lemma merged_words:
  "merged m q t = m(t + 8 := m (t + 8) OR 1, q + 8 := (t - q) OR 1)"
  by (simp add: merged_def set_inuse_bit_at_offset_def set_head_def chunksize_nomask_def)

lemma or_1_and_minus_8: "(x OR 1) AND - 8 = x AND - 8" for x :: u64
  by (simp add: bit.conj_disj_distrib2)

text \<open>Merging changes two headers, which are neither link words of the bins nor header fields.\<close>

lemma staged_words:
  assumes st: "staged m av base ls q t ts L" and g: "goes_to i (t - q)"
  defines "mg \<equiv> merged m q t" and "b \<equiv> header av i"
  shows "b + 16 \<noteq> t + 8" "mg (b + 16) = m (b + 16)" "get_fd mg b = get_fd m b"
    "get_bk m (get_fd m b) = b" "get_fd m b + 24 \<noteq> t + 8" "get_top mg av = get_top m av"
    "mg (get_top m av + 8) = m (get_top m av + 8)" "MINSIZE \<le> t - q" "unat t \<le> unat (get_top m av)"
proof -
  have r: "ready mg av base ls q t ts L" and cq: "chunksize mg q = t - q" and lt: "unat q < unat t"
    using st by (simp_all add: staged_def mg_def)
  note R = readyD [OF r]
  note D = layD [OF R(1)] and Q = blockD [OF R(6), unfolded cq] and T = blockD [OF R(7)]
  show min: "MINSIZE \<le> t - q" by (rule Q(10))
  note i = goes_toD [OF g min]
  have bi: "b = header av i" by (simp add: b_def)
  have u8: "unat (q + 8) = unat q + 8" "unat (t + 8) = unat t + 8"
    using lt T(4) by (auto intro!: unat_offset [of _ 8, simplified])
  have base: "unat base \<le> unat q" using R(13) .
  have hd: "unat (b + 16) < unat base" "unat (b + 24) < unat base"
    using unat_header(2,3) [OF i(1,4) D(2)] i(2) D(2) by (simp_all add: bi)
  show "b + 16 \<noteq> t + 8" using hd base u8 lt by (intro unat_neq) linarith
  moreover have "b + 16 \<noteq> q + 8" using hd base u8 by (intro unat_neq) linarith
  ultimately show b16: "mg (b + 16) = m (b + 16)" by (simp add: mg_def merged_words)
  then show fd: "get_fd mg b = get_fd m b" by (simp add: get_fd_def)
  have av96: "unat (av + 96) = unat av + 96"
    using D(2) unat_lt_64 [of base] by (intro unat_offset [of _ 96, simplified]) simp
  have "av + 96 \<noteq> q + 8" "av + 96 \<noteq> t + 8" using av96 u8 base lt D(2) by (intro unat_neq; linarith)+
  then show top: "get_top mg av = get_top m av" by (simp add: mg_def merged_words get_top_def)
  have tt: "unat t + 32 \<le> unat (get_top m av)" using seg_le [OF R(11)] T(2,9) top by simp
  then show "unat t \<le> unat (get_top m av)" by simp
  have "get_top m av \<noteq> q" "get_top m av \<noteq> t" using tt lt by auto
  then show "mg (get_top m av + 8) = m (get_top m av + 8)" by (simp add: mg_def merged_words)
  note ok = bin_okD(1) [OF bins_holdD(2) [OF R(3) i(1,4)], folded bi]
  have bk: "get_bk mg (get_fd mg b) = b" and mem: "get_fd mg b \<in> set (b # L i)"
    using ok by (cases "L i"; auto simp: bin_list_def)+
  have ne: "get_fd mg b + 24 \<noteq> q + 8 \<and> get_fd mg b + 24 \<noteq> t + 8"
  proof (cases "get_fd mg b = b")
    case True
    then show ?thesis using hd(2) base u8 lt by (intro conjI unat_neq; simp)
  next
    case False
    then have y: "get_fd mg b \<in> binned L" using mem by (auto simp: binned_def)
    have "inner mg (get_fd mg b) (get_fd mg b + 24)" using inner_fields(2) [OF R(1)] R(5) y by blast
    then show ?thesis using R(12) [OF y] u8 lt by (intro conjI unat_neq; auto simp: inner_def)
  qed
  then show "get_bk m (get_fd m b) = b" "get_fd m b + 24 \<noteq> t + 8"
    using bk unfolding fd by (auto simp: mg_def merged_words get_bk_def)
qed

text \<open>The heap once the block is in its bin.\<close>

lemma staged_result:
  assumes st: "staged m av base ls q t ts L" and g: "goes_to i (t - q)"
  defines "n \<equiv> t - q"
  defines "m' \<equiv> bin_free_chunk m q n (header av i) (get_fd m (header av i))"
  shows "lay m' av base (ls @ (q, False) # (t, True) # ts)" "bins_hold m' av (L(i := q # L i))"
    "binned (L(i := q # L i)) = frees (ls @ (q, False) # (t, True) # ts)" "get_top m' av = get_top m av"
    "chunksize m' (get_top m' av) = chunksize m (get_top m av)" "used_kept m m' (ls @ (t, True) # ts)"
proof -
  let ?mg = "merged m q t"
  have r: "ready ?mg av base ls q t ts L" and cq: "chunksize ?mg q = t - q" and lt: "unat q < unat t"
    and fr: "binned L = frees (ls @ ts)"
    using st by (simp_all add: staged_def)
  have g': "goes_to i (chunksize ?mg q)" using g by (simp add: cq)
  note R = readyD [OF r] and W = staged_words [OF st g, folded n_def]
  have e: "bin_free_chunk ?mg q n (header av i) (get_fd ?mg (header av i)) = m'"
    unfolding m'_def W(3) by (rule bin_free_chunk_merged) (use lt in \<open>auto simp: n_def\<close>)
  note F = becomes_free [OF r g', unfolded cq, folded n_def, unfolded e]
  show "lay m' av base (ls @ (q, False) # (t, True) # ts)" by (rule F(1))
  show "bins_hold m' av (L(i := q # L i))" by (rule F(2))
  show "binned (L(i := q # L i)) = frees (ls @ (q, False) # (t, True) # ts)"
    using fr unfolding binned_update binned_split [of L i] by auto
  show top: "get_top m' av = get_top m av" using F(3) W(6) by simp
  have "m' (get_top m av + 8) = ?mg (get_top m av + 8)"
    using becomes_free_words [OF r g', unfolded cq, folded n_def, unfolded e] not_freed_word(4) [OF r g'] W(6) by metis
  then show "chunksize m' (get_top m' av) = chunksize m (get_top m av)"
    using W(7) unfolding top by (simp add: chunksize_def chunksize_nomask_def)
  have "used_kept m ?mg (ls @ (t, True) # ts)"
  proof (rule merged_used [OF lt])
    show "unat t + 16 < 2 ^ 64" using blockD(4) [OF R(7)] by simp
    have sg: "seg ?mg base True (ls @ (q, True) # (t, True) # ts) (get_top ?mg av) True" using layD(3) [OF R(1)] .
    fix x assume x: "(x, True) \<in> set (ls @ (t, True) # ts)"
    then obtain a where bx: "block ?mg a x True" using seg_block(3) [OF sg, of x True] by auto
    have xq: "x = t \<or> (x, True) \<in> set ls \<or> (x, True) \<in> set ts" using x by auto
    have loc: "unat x + unat (chunksize ?mg x) \<le> unat q \<or> unat t \<le> unat x"
      using xq seg_block(2) [OF R(10), of x True] seg_block(1) [OF R(11), of x True] blockD(9) [OF R(7)] by auto
    then have ne: "x + 8 \<noteq> q + 8" using blockD(2) [OF bx] lt by auto
    then have c: "chunksize m x = chunksize ?mg x"
      by (auto simp: merged_words chunksize_def chunksize_nomask_def or_1_and_minus_8)
    show "unat x + unat (chunksize m x) \<le> unat q \<or> unat t \<le> unat x" using loc unfolding c .
    have "block m (prev_inuse m x) x True" using bx c unfolding block_def by auto
    then show "\<exists>a. block m a x True" by blast
  qed
  moreover have "used_kept ?mg m' (ls @ (t, True) # ts)"
    using becomes_free_used [OF r g', unfolded cq, folded n_def, unfolded e] .
  ultimately show "used_kept m m' (ls @ (t, True) # ts)" by (rule used_kept_trans)
qed
lemma absorb_right_used: "(x, True) \<in> set (absorb_right ys) \<longleftrightarrow> (x, True) \<in> set ys"
  by (cases ys rule: absorb_right.cases) auto

lemma used_kept_same:
  assumes "used_kept m m' bs" "\<And>x. (x, True) \<in> set cs \<Longrightarrow> (x, True) \<in> set bs"
  shows "used_kept m m' cs"
  using assms unfolding used_kept_def by blast

text \<open>\<open>_int_free_create_chunk\<close> below top: what it computes, from the staged block.\<close>

lemma create_staged:
  assumes st: "staged m2 av base ls q t ts L" and r: "r \<noteq> get_top (mem s) av" and lt: "unat q < unat t"
    and used: "u \<Longrightarrow> t = r \<and> m2 = mem s \<and> inuse_bit_at_offset (mem s) r (chunksize (mem s) r)"
    and free: "\<not> u \<Longrightarrow> \<not> inuse_bit_at_offset (mem s) r (chunksize (mem s) r) \<and> unlink_chunk (mem s) r = Inr m2 \<and>
       (r - q) + chunksize (mem s) r = t - q \<and> \<not> prev_inuse m2 t"
  defines "n \<equiv> t - q"
  shows "int_free_create_chunk av q (r - q) r (chunksize (mem s) r) s = Inr (n, bin_marked av n s
    \<lparr>mem := bin_free_chunk m2 q n (free_bin av n) (get_fd m2 (free_bin av n))\<rparr>)"
proof -
  note W = staged_words [OF st goes_to_free_index, folded n_def]
  note b = free_index_bin(3) [OF W(8), of av, symmetric]
  note W = W [unfolded b]
  have t: "q + n = t" by (simp add: n_def)
  have mk: "bin_marked av n (s\<lparr>mem := x\<rparr>)\<lparr>mem := y\<rparr> = bin_marked av n s\<lparr>mem := y\<rparr>" for x y
    by (simp add: bin_marked_def mark_bin_def)
  show ?thesis
  proof (cases u)
    case True
    let ?c = "clear_inuse_bit_at_offset m2 t 0"
    have c8: "?c a = m2 a" if "a \<noteq> t + 8" for a
      using that by (simp add: clear_inuse_bit_at_offset_def set_head_def)
    have fc: "get_fd ?c (free_bin av n) = get_fd m2 (free_bin av n)" using c8 [OF W(1)] by (simp add: get_fd_def)
    have "get_bk ?c (get_fd ?c (free_bin av n)) = free_bin av n"
      using W(4) c8 [OF W(5)] by (simp add: fc get_bk_def)
    moreover have "\<not> prev_inuse ?c (q + n)"
      by (simp add: t prev_inuse_def chunksize_nomask_def clear_inuse_bit_at_offset_def set_head_def and.assoc)
    ultimately have "create_tail av q n (s\<lparr>mem := ?c\<rparr>) = Inr (n, bin_marked av n s
        \<lparr>mem := bin_free_chunk ?c q n (free_bin av n) (get_fd ?c (free_bin av n))\<rparr>)"
      using create_tail_binned [of "s\<lparr>mem := ?c\<rparr>" av n q] by (simp add: mk)
    then show ?thesis
      using create_chunk_cases(1) [OF r, of "chunksize (mem s) r" q "r - q"] used [OF True]
        bin_free_chunk_cleared [of m2 q n] fc unfolding t n_def by simp
  next
    case False
    have "create_tail av q n (s\<lparr>mem := m2\<rparr>) = Inr (n, bin_marked av n s
        \<lparr>mem := bin_free_chunk m2 q n (free_bin av n) (get_fd m2 (free_bin av n))\<rparr>)"
      using create_tail_binned [of "s\<lparr>mem := m2\<rparr>" av n q] W(4) free [OF False] by (simp add: t mk)
    then show ?thesis
      using create_chunk_cases(2) [OF r, of "chunksize (mem s) r" m2 q "r - q"] free [OF False]
      by (simp add: n_def)
  qed
qed

text \<open>The bin map after the marking of a bin.\<close>

lemma get_binmap_mem [simp]: "get_binmap (s\<lparr>mem := m\<rparr>) av i = get_binmap s av i"
  by (simp add: get_binmap_def)

lemma mark_bin_keeps: "get_binmap s av j \<noteq> 0 \<Longrightarrow> get_binmap (mark_bin av i s) av j \<noteq> 0"
proof -
  assume "get_binmap s av j \<noteq> 0"
  then obtain n where n: "bit (get_binmap s av j) n" by (auto simp: bit_eq_iff)
  have "bit (get_binmap (mark_bin av i s) av j) n"
    using n by (auto simp: get_binmap_def mark_bin_def bit_and_iff bit_or_iff)
  then show ?thesis by auto
qed

lemma bin_marked_binmap:
  assumes "\<And>i. 2 \<le> i \<Longrightarrow> L i \<noteq> [] \<Longrightarrow> get_binmap s av (of_nat i) \<noteq> 0"
    and "MINSIZE \<le> n" "2 \<le> i" "L i \<noteq> [] \<or> i = free_index n"
  shows "get_binmap (bin_marked av n s) av (of_nat i) \<noteq> 0"
proof (cases "i = free_index n")
  case True
  then have "in_smallbin_range n" "i = unat n div 16" using assms(3) by (auto simp: free_index_def split: if_splits)
  moreover from this have "unat (smallbin_index n) = i"
    by (simp add: unat_smallbin_index in_smallbin_range_iff)
  then have "of_nat i = smallbin_index n" by (metis of_nat_unat ucast_id)
  ultimately show ?thesis using mark_bin_get [of av "smallbin_index n" s] by (simp add: bin_marked_def)
next
  case False
  then have "get_binmap s av (of_nat i) \<noteq> 0" using assms(1) [OF assms(3)] assms(4) by blast
  then show ?thesis using mark_bin_keeps by (auto simp: bin_marked_def)
qed

end
