(* ===== verification/FreeHalves.thy ===== *)
theory FreeHalves
  imports Coalesce
begin

text \<open>
  The two halves of a free. The first half absorbs the left neighbour (\<open>finish_free\<close>), once for every
  second half that keeps the contract \<open>free_finisher\<close>; \<open>finishes_in_bin\<close> and \<open>finishes_in_top\<close> say what a
  second half leaves when the block goes to a list or to top. \<open>drained\<close> relates the heap before and
  after blocks have left it, one after the other.
\<close>

section \<open>The end of a free\<close>

text \<open>
  Both ends of a free: the left neighbour has been dealt with, and the second half of the code
  finishes the heap.
\<close>

definition arena_kept :: "ptr \<Rightarrow> memory \<Rightarrow> memory \<Rightarrow> bool" where
  "arena_kept av m m' \<longleftrightarrow> (\<forall>a. unat a < unat av + 112 \<longrightarrow> a \<noteq> av + 96 \<longrightarrow> m' a = m a)"

lemma arena_kept_trans: "arena_kept av m m1 \<Longrightarrow> arena_kept av m1 m2 \<Longrightarrow> arena_kept av m m2"
  by (simp add: arena_kept_def)

lemma link_word_arena:
  assumes l: "lay m av base bs" and w: "link_word m av bs a"
  shows "unat av + 112 \<le> unat a"
proof -
  have "unat base \<le> unat z" if "z \<in> frees bs" for z using free_block(3) [OF l that] .
  then show ?thesis using w layD(2) [OF l] unfolding link_word_def inner_def by fastforce
qed

lemma link_words_arena:
  assumes l: "lay m av base bs" and w: "\<forall>a. m' a \<noteq> m a \<longrightarrow> link_word m av bs a"
  shows "arena_kept av m m'"
  unfolding arena_kept_def using link_word_arena [OF l] w by (metis leD)

lemma staged_arena:
  assumes st: "staged m av base ls q t ts L" and g: "goes_to i (t - q)"
  shows "arena_kept av m (bin_free_chunk m q (t - q) (header av i) (get_fd m (header av i)))"
  unfolding arena_kept_def
proof (intro allI impI)
  let ?mg = "merged m q t" let ?m' = "bin_free_chunk m q (t - q) (header av i) (get_fd m (header av i))"
  have r: "ready ?mg av base ls q t ts L" and cq: "chunksize ?mg q = t - q" and lt: "unat q < unat t"
    using st by (simp_all add: staged_def)
  note W = staged_words [OF st g] and R = readyD [OF r] and i = goes_toD [OF g staged_words(8) [OF st g]]
  note D = layD [OF R(1)]
  have e: "bin_free_chunk ?mg q (t - q) (header av i) (get_fd ?mg (header av i)) = ?m'"
    unfolding W(3) by (rule bin_free_chunk_merged) (use lt in auto)
  fix a assume a: "unat a < unat av + 112" "a \<noteq> av + 96"
  have u8: "unat (q + 8) = unat q + 8" "unat (t + 8) = unat t + 8"
    using lt blockD(4) [OF R(7)] by (auto intro!: unat_offset [of _ 8, simplified])
  have "\<not> freed_words ?mg av i L q a"
  proof
    assume "freed_words ?mg av i L q a"
    moreover have "set (L i) \<subseteq> frees (ls @ (q, True) # (t, True) # ts)" using R(5) by (auto simp: binned_def)
    ultimately show False
      using in_bin_link_word [OF R(1) i(1,4)] link_word_arena [OF R(1), of a] a R(13) D(2)
      unfolding freed_words_def by (auto simp: not_le)
  qed
  then have "?m' a = ?mg a"
    using becomes_free_words [OF r, unfolded cq, OF g, unfolded e] by blast
  moreover have "a \<noteq> q + 8" "a \<noteq> t + 8" using a u8 lt R(13) D(2) by auto
  then have "?mg a = m a" by (simp add: merged_words)
  ultimately show "?m' a = m a" by simp
qed

definition finished :: "'k st \<Rightarrow> ptr \<Rightarrow> ptr \<Rightarrow> (ptr \<times> bool) list \<Rightarrow>
    (ptr \<times> bool) list \<Rightarrow> u64 \<Rightarrow> 'k st \<Rightarrow> bool" where
  "finished s av base bs us n s' \<longleftrightarrow>
     (\<exists>m b. s' = s\<lparr>mem := m, binmap := b\<rparr>) \<and> (\<exists>L'. heap_ok s' av base bs L') \<and>
     next_chunk (mem s') (get_top (mem s') av) = next_chunk (mem s) (get_top (mem s) av) \<and>
     arena_kept av (mem s) (mem s') \<and> used_kept (mem s) (mem s') us \<and> unat n \<le> unat (next_chunk (mem s) (get_top (mem s) av)) - unat base"

lemma get_binmap_cong: "binmap s' = binmap s \<Longrightarrow> get_binmap s' av i = get_binmap s av i"
  by (simp add: get_binmap_def)

text \<open>The block from \<open>q\<close> to \<open>t\<close> goes to list \<open>i\<close>.\<close>

lemma finishes_in_bin:
  assumes l: "lay (mem s) av base (ls @ mid @ (r, u) # rs)" and sg: "seg (mem s) base True ls q True"
    and bm: "\<And>j. 2 \<le> j \<Longrightarrow> L j \<noteq> [] \<or> j = i \<Longrightarrow> get_binmap s' av (of_nat j) \<noteq> 0"
    and sys: "unat (next_chunk (mem s) (get_top (mem s) av)) \<le> unat base + unat (system_mem s av)"
    and R: "absorb_right ((r, u) # rs) = (t, True) # ts" "staged m2 av base ls q t ts L2"
      "get_top m2 av = get_top (mem s) av" "\<And>i. set (L2 i) \<subseteq> set (L i)"
      "\<forall>a. m2 a \<noteq> mem s a \<longrightarrow> link_word (mem s) av (ls @ mid @ (r, u) # rs) a"
    and g: "goes_to i (t - q)"
    and s': "mem s' = bin_free_chunk m2 q (t - q) (header av i) (get_fd m2 (header av i))"
      "\<exists>m b. s' = s\<lparr>mem := m, binmap := b\<rparr>"
  shows "finished s av base (ls @ (q, False) # absorb_right ((r, u) # rs)) (ls @ (r, u) # rs) (t - q) s'"
proof -
  let ?m = "mem s" let ?L = "L2(i := q # L2 i)"
  have lt: "unat q < unat t" using R(2) by (simp add: staged_def)
  note C = lay_cong [OF l R(5)]
  note W = staged_words [OF R(2) g] and F = staged_result [OF R(2) g, folded s'(1)]
  have bm': "get_binmap s' av (of_nat j) \<noteq> 0" if "2 \<le> j" "?L j \<noteq> []" for j
  proof -
    have "L j \<noteq> []" if "L2 j \<noteq> []" using R(4) [of j] that by auto
    then show ?thesis using bm [OF that(1)] that(2) by (cases "j = i") auto
  qed
  have top: "get_top (mem s') av = get_top ?m av" using F(4) R(3) by simp
  have ct: "chunksize (mem s') (get_top ?m av) = chunksize ?m (get_top ?m av)"
    using F(5) C(4) unfolding top R(3) by (simp add: chunksize_def chunksize_nomask_def)
  have nx: "next_chunk (mem s') (get_top (mem s') av) = next_chunk ?m (get_top ?m av)"
    unfolding top by (simp add: next_chunk_def ct)
  have sm: "system_mem s' av = system_mem s av" using s'(2) by auto
  have "heap_ok s' av base (ls @ (q, False) # absorb_right ((r, u) # rs)) ?L"
    unfolding heap_ok_def R(1) using F(1-3) bm' sys nx sm by auto
  moreover have "used_kept ?m (mem s') (ls @ (r, u) # rs)"
  proof (rule used_kept_trans)
    show "used_kept ?m m2 (ls @ (r, u) # rs)" by (rule used_kept_link_words [OF l R(5)]) auto
    show "used_kept m2 (mem s') (ls @ (r, u) # rs)"
      by (rule used_kept_same [OF F(6)]) (use absorb_right_used [of _ "(r, u) # rs"] R(1) in auto)
  qed
  moreover have "unat (t - q) \<le> unat (next_chunk ?m (get_top ?m av)) - unat base"
  proof -
    have "unat (t - q) = unat t - unat q" using lt by (intro unat_sub) (simp add: word_le_nat_alt)
    moreover have "unat (next_chunk ?m (get_top ?m av)) = unat (get_top ?m av) + unat (chunksize ?m (get_top ?m av))"
      using blockD(9) [OF layD(4) [OF l]] .
    ultimately show ?thesis using W(9) R(3) seg_le [OF sg] by simp
  qed
  moreover have "arena_kept av ?m (mem s')"
    using arena_kept_trans [OF link_words_arena [OF l R(5)] staged_arena [OF R(2) g]] by (simp only: s'(1))
  ultimately show ?thesis using nx s'(2) unfolding finished_def by auto
qed

text \<open>The block from \<open>q\<close> to top goes to top.\<close>

lemma finishes_in_top:
  assumes l: "lay (mem s) av base (ls @ mid)" and sg: "seg (mem s) base True ls q True"
    and mid: "seg (mem s) q True mid (get_top (mem s) av) True" "mid \<noteq> []"
    and b: "bins_hold (mem s) av L" and S: "binned L = frees ls"
    and bm: "\<And>i. 2 \<le> i \<Longrightarrow> L i \<noteq> [] \<Longrightarrow> get_binmap s av (of_nat i) \<noteq> 0"
    and sys: "unat (next_chunk (mem s) (get_top (mem s) av)) \<le> unat base + unat (system_mem s av)"
  defines "tp \<equiv> get_top (mem s) av"
  defines "n \<equiv> (tp - q) + chunksize (mem s) tp"
  shows "finished s av base ls ls n (s\<lparr>mem := set_top (set_head (mem s) q (n OR PREV_INUSE)) av q\<rparr>)"
proof -
  let ?m = "mem s"
  let ?m' = "set_top (set_head ?m q (n OR PREV_INUSE)) av q"
  note T = top_merged_lay [OF l sg mid, folded tp_def, folded n_def]
  note D = layD [OF l, folded tp_def]
  have lt: "unat q + 32 \<le> unat tp" "unat base \<le> unat q" using seg_size(1) [OF mid] seg_le [OF sg] by (simp_all add: tp_def)
  have nx: "unat (next_chunk ?m' q) = unat (next_chunk ?m tp)"
    using T(3,4) blockD(4,9) [OF D(4)] lt(1) by (simp add: next_chunk_def unat_offset)
  have q8: "unat (q + 8) = unat q + 8" "unat (av + 96) = unat av + 96"
    using lt D(2) blockD(4) [OF D(4)] unat_lt_64 [of base]
    by (auto intro!: unat_offset [of _ 8, simplified] unat_offset [of _ 96, simplified])
  have far: "unat x + unat (chunksize ?m x) \<le> unat q" if "(x, u) \<in> set ls" for x u
    using seg_block(2) [OF sg that] .
  have bh: "bins_hold ?m' av L"
  proof (rule bins_hold_unused [OF l b])
    show sub: "binned L \<subseteq> frees (ls @ mid)" using S by simp
    fix a and j :: nat assume a: "?m' a \<noteq> ?m a" and j: "1 \<le> j" "j < 128"
    have aa: "a = q + 8 \<or> a = av + 96" by (rule T(5) [OF a])
    show "\<not> uses ?m av j (set (L j)) a"
    proof (rule uses_outside [OF l sub j])
      show "unat a < unat av + 112 \<or> unat av + 2144 \<le> unat a" using aa q8 lt D(2) by auto
      fix x assume "x \<in> binned L"
      then have "(x, False) \<in> set ls" using S by (simp add: frees_def)
      then show "unat a < unat x + 8 \<or> unat x + unat (chunksize ?m x) \<le> unat a"
        using far [of x False] seg_block(1) [OF sg, of x False] aa q8 D(2) by auto
    qed
  qed
  have uk: "used_kept ?m ?m' ls"
    unfolding used_kept_def
  proof (intro allI impI)
    fix x assume x: "(x, True) \<in> set ls"
    obtain a where "block ?m a x True" using seg_block(3) [OF sg x] by blast
    note X = blockD [OF this]
    have x8: "unat (x + 8) = unat x + 8" using X(4) by (intro unat_offset [of _ 8, simplified]) simp
    have keep: "?m' a = ?m a" if "unat x + 8 \<le> unat a" "unat a \<le> unat x + unat (chunksize ?m x)" for a
      using T(5) [of a] that far [OF x] seg_block(1) [OF sg x] q8 D(2) by fastforce
    have "?m' (x + 8) = ?m (x + 8)" using keep [of "x + 8"] x8 X(2) by simp
    then show "chunksize_nomask ?m' x AND NOT PREV_INUSE = chunksize_nomask ?m x AND NOT PREV_INUSE \<and>
       (\<forall>a. unat x + 16 \<le> unat a \<and> unat a \<le> unat x + unat (chunksize ?m x) \<longrightarrow> ?m' a = ?m a)"
      using keep by (auto simp: chunksize_nomask_def)
  qed
  have "heap_ok (s\<lparr>mem := ?m'\<rparr>) av base ls L"
    unfolding heap_ok_def using T(1) bh S bm sys nx T(2) tp_def by simp
  moreover have nx': "next_chunk ?m' (get_top ?m' av) = next_chunk ?m tp"
    unfolding T(2) using nx by (simp only: word_unat_eq_iff)
  moreover have "unat n \<le> unat (next_chunk ?m tp) - unat base"
    using T(4) blockD(9) [OF D(4)] lt by simp
  moreover have "\<exists>m b. s\<lparr>mem := ?m'\<rparr> = s\<lparr>mem := m, binmap := b\<rparr>" by (cases s) auto
  moreover have "arena_kept av ?m ?m'"
    unfolding arena_kept_def
  proof (intro allI impI)
    fix a assume a: "unat a < unat av + 112" "a \<noteq> av + 96"
    then have "a \<noteq> q + 8" using q8(1) lt(2) D(2) by auto
    then show "?m' a = ?m a" using T(5) [of a] a(2) by blast
  qed
  ultimately show ?thesis using uk nx' unfolding finished_def tp_def [symmetric] by auto
qed

text \<open>The next chunk of a block in use, and the checks of \<open>_int_free_merge_chunk\<close>.\<close>

lemma block_in_heap:
  assumes H: "heap_ok s av base (ls @ (p, True) # rs) L"
  defines "m \<equiv> mem s" and "t \<equiv> next_chunk (mem s) p"
  shows "p \<noteq> get_top m av" "t < next_chunk m (get_top m av)" "prev_inuse m t" "16 < chunksize_nomask m t"
    "chunksize m t < system_mem s av" "(\<exists>u. (t, u) \<in> set rs) \<or> t = get_top m av"
    "rs = [] \<longleftrightarrow> t = get_top m av" "unat t \<le> unat (get_top m av)"
proof -
  note h = heap_okD [OF H, folded m_def]
  note D = layD [OF h(1)]
  obtain a where a: "block m a p True" "seg m t True rs (get_top m av) True" "seg m base True ls p a"
    using seg_split [OF D(3)] unfolding t_def m_def by blast
  note P = blockD [OF a(1)] and T = blockD [OF D(4)]
  have ut: "unat t = unat p + unat (chunksize m p)" using P(9) by (simp add: t_def m_def)
  show le: "unat t \<le> unat (get_top m av)" by (rule seg_le [OF a(2)])
  have bp: "unat base \<le> unat p" by (rule seg_le [OF a(3)])
  show "p \<noteq> get_top m av" using le ut P(2) by auto
  show "t < next_chunk m (get_top m av)" using le T(2,9) by (simp add: word_less_nat_alt)
  obtain w where bt: "block m True t w" "unat (next_chunk m t) \<le> unat (next_chunk m (get_top m av))"
    and tt: "(\<exists>u. (t, u) \<in> set rs) \<or> t = get_top m av" "rs = [] \<longleftrightarrow> t = get_top m av"
  proof (cases rs)
    case Nil
    then show thesis using that [of True] a(2) D(4) by simp
  next
    case (Cons c cs)
    obtain x w where c: "c = (x, w)" by (cases c)
    have b: "block m True t w" "x = t" "seg m (next_chunk m t) w cs (get_top m av) True" using a(2) Cons c by auto
    have "unat (next_chunk m t) \<le> unat (get_top m av)" using seg_le [OF b(3)] .
    then have "t \<noteq> get_top m av" "unat (next_chunk m t) \<le> unat (next_chunk m (get_top m av))"
      using blockD(2,9) [OF b(1)] T(9) by auto
    then show thesis using that [of w] b Cons c by auto
  qed
  note X = blockD [OF bt(1)]
  show "prev_inuse m t" using X(5) by simp
  show "16 < chunksize_nomask m t" using X(2) chunksize_le_nomask [of m t] by (simp add: word_less_nat_alt)
  show "(\<exists>u. (t, u) \<in> set rs) \<or> t = get_top m av" "rs = [] \<longleftrightarrow> t = get_top m av" by (fact tt)+
  have "unat (chunksize m t) < unat (system_mem s av)"
    using h(5) bt(2) X(9) ut P(2) bp by (simp add: m_def)
  then show "chunksize m t < system_mem s av" by (simp add: word_less_nat_alt)
qed

lemma absorb_left_used: "(x, True) \<in> set ls \<Longrightarrow> (x, True) \<in> set (fst (absorb_left ls p))"
  by (cases ls rule: rev_cases) (auto simp: absorb_left_def)

text \<open>
  What a free and a consolidation expect of their second half \<open>fin av q n r nextsize\<close>, where the block
  from \<open>q\<close> to \<open>r\<close> of size \<open>n\<close> is no longer in use: it finishes the heap, below top and at top.
\<close>

locale free_finisher =
  fixes fin :: "ptr \<Rightarrow> ptr \<Rightarrow> u64 \<Rightarrow> ptr \<Rightarrow> u64 \<Rightarrow> 'k st \<Rightarrow> abort + u64 \<times> 'k st"
  assumes in_bin: "\<And>s av base ls mid r u rs q L.
      \<lbrakk>lay (mem s) av base (ls @ mid @ (r, u) # rs); seg (mem s) base True ls q True;
       seg (mem s) q True mid r True; mid \<noteq> []; seg (mem s) r True ((r, u) # rs) (get_top (mem s) av) True;
       bins_hold (mem s) av L; binned L = frees (ls @ (r, u) # rs);
       \<And>i. 2 \<le> i \<Longrightarrow> L i \<noteq> [] \<Longrightarrow> get_binmap s av (of_nat i) \<noteq> 0;
       unat (next_chunk (mem s) (get_top (mem s) av)) \<le> unat base + unat (system_mem s av)\<rbrakk> \<Longrightarrow>
      \<exists>n s'. fin av q (r - q) r (chunksize (mem s) r) s = Inr (n, s') \<and>
        finished s av base (ls @ (q, False) # absorb_right ((r, u) # rs)) (ls @ (r, u) # rs) n s'"
    and in_top: "\<And>s av base ls mid q L.
      \<lbrakk>lay (mem s) av base (ls @ mid); seg (mem s) base True ls q True;
       seg (mem s) q True mid (get_top (mem s) av) True; mid \<noteq> []; bins_hold (mem s) av L; binned L = frees ls;
       \<And>i. 2 \<le> i \<Longrightarrow> L i \<noteq> [] \<Longrightarrow> get_binmap s av (of_nat i) \<noteq> 0;
       unat (next_chunk (mem s) (get_top (mem s) av)) \<le> unat base + unat (system_mem s av)\<rbrakk> \<Longrightarrow>
      \<exists>n s'. fin av q (get_top (mem s) av - q) (get_top (mem s) av) (chunksize (mem s) (get_top (mem s) av)) s =
        Inr (n, s') \<and> finished s av base ls ls n s'"
begin

text \<open>The left neighbour is absorbed, then the second half finishes.\<close>

lemma finish_free:
  assumes H: "heap_ok s av base (ls @ (p, True) # rs) L"
  obtains q m1 n s' where
    "fin av q (next_chunk (mem s) p - q) (next_chunk (mem s) p) (chunksize (mem s) (next_chunk (mem s) p))
       (s\<lparr>mem := m1\<rparr>) = Inr (n, s')"
    "finished s av base (free_block_at ls p rs) (ls @ rs) n s'"
    "prev_inuse (mem s) p \<Longrightarrow> q = p \<and> m1 = mem s \<and> chunksize (mem s) p = next_chunk (mem s) p - q"
    "\<not> prev_inuse (mem s) p \<Longrightarrow> p - prev_size (mem s) p = q \<and> chunksize (mem s) q = prev_size (mem s) p \<and>
       unlink_chunk (mem s) q = Inr m1 \<and> chunksize (mem s) p + prev_size (mem s) p = next_chunk (mem s) p - q"
    "get_top m1 av = get_top (mem s) av"
proof -
  let ?m = "mem s" let ?t = "next_chunk ?m p" let ?tp = "get_top ?m av"
  note h = heap_okD [OF H] and K = block_in_heap [OF H]
  have S: "binned L = frees (ls @ rs)" using h(3) by simp
  obtain ls' q mid m1 L1 where Q: "absorb_left ls p = (ls', q)" "ls @ [(p, True)] = ls' @ mid" "mid \<noteq> []"
    "lay m1 av base (ls @ (p, True) # rs)" "seg m1 base True ls' q True" "seg m1 q True mid ?t True"
    "seg m1 ?t True rs (get_top m1 av) True" "bins_hold m1 av L1" "binned L1 = frees (ls' @ rs)"
    "\<And>i. set (L1 i) \<subseteq> set (L i)" "\<forall>a. m1 a \<noteq> ?m a \<longrightarrow> link_word ?m av (ls @ (p, True) # rs) a"
    "prev_inuse ?m p \<Longrightarrow> q = p \<and> m1 = ?m \<and> chunksize ?m p = ?t - q"
    "\<not> prev_inuse ?m p \<Longrightarrow> p - prev_size ?m p = q \<and> chunksize ?m q = prev_size ?m p \<and>
       unlink_chunk ?m q = Inr m1 \<and> chunksize ?m p + prev_size ?m p = ?t - q"
    by (rule left_stage [OF h(1,2) S]) (rule that)
  let ?s = "s\<lparr>mem := m1\<rparr>"
  note C = lay_cong [OF h(1) Q(11)]
  have ct: "chunksize m1 ?t = chunksize ?m ?t"
  proof -
    from K(6) have "m1 (?t + 8) = ?m (?t + 8)"
    proof
      assume "\<exists>u. (?t, u) \<in> set rs"
      then obtain u where "(?t, u) \<in> set (ls @ (p, True) # rs)" by auto
      then show ?thesis by (rule C(3))
    qed (simp only: C(4))
    then show ?thesis by (simp add: chunksize_def chunksize_nomask_def)
  qed
  have tp1: "get_top m1 av = ?tp" by (rule C(2))
  have ctp: "chunksize m1 ?tp = chunksize ?m ?tp" using C(4) by (simp add: chunksize_def chunksize_nomask_def)
  have all: "ls @ (p, True) # rs = ls' @ mid @ rs" using Q(2) by (metis append.assoc append_Cons append_Nil)
  have l1: "lay (mem ?s) av base (ls' @ mid @ rs)" using Q(4) unfolding all by simp
  have bm: "get_binmap ?s av (of_nat i) \<noteq> 0" if "2 \<le> i" "L1 i \<noteq> []" for i
  proof -
    have "L i \<noteq> []" using Q(10) [of i] that(2) by (cases "L i") auto
    then show ?thesis using h(4) [OF that(1)] by simp
  qed
  have sys: "unat (next_chunk (mem ?s) (get_top (mem ?s) av)) \<le> unat base + unat (system_mem ?s av)"
    using h(5) ctp tp1 by (simp add: next_chunk_def)
  have "\<exists>n s'. fin av q (?t - q) ?t (chunksize ?m ?t) ?s = Inr (n, s') \<and>
      finished ?s av base (free_block_at ls p rs) (ls' @ rs) n s'"
  proof (cases rs)
    case Nil
    have e: "free_block_at ls p rs = ls'" using Nil by (simp add: free_block_at_def Q(1))
    have top: "?t = get_top (mem ?s) av" using K(7) Nil tp1 by simp
    have "\<exists>n s'. fin av q (get_top (mem ?s) av - q) (get_top (mem ?s) av)
          (chunksize (mem ?s) (get_top (mem ?s) av)) ?s = Inr (n, s') \<and> finished ?s av base ls' ls' n s'"
      by (rule in_top [where mid = mid and L = L1])
        (use l1 Q(3,5,6,8,9) top Nil bm sys in auto)
    then show ?thesis using e ct unfolding top [symmetric] Nil by simp
  next
    case (Cons c cs)
    obtain r u where c: "c = (r, u)" by (cases c)
    have r: "r = ?t" using Q(7) unfolding Cons c by simp
    have rs: "rs = (?t, u) # cs" using Cons c r by simp
    have e: "free_block_at ls p rs = ls' @ (q, False) # absorb_right ((?t, u) # cs)"
      by (simp add: free_block_at_def Q(1) rs)
    have "\<exists>n s'. fin av q (?t - q) ?t (chunksize (mem ?s) ?t) ?s = Inr (n, s') \<and>
        finished ?s av base (ls' @ (q, False) # absorb_right ((?t, u) # cs)) (ls' @ (?t, u) # cs) n s'"
      by (rule in_bin [where mid = mid and L = L1])
        (use l1 [unfolded rs] Q(3,5,6,8) Q(7,9) [unfolded rs] bm sys in auto)
    then show ?thesis unfolding e unfolding rs by (simp add: ct)
  qed
  then obtain n s' where create: "fin av q (?t - q) ?t (chunksize ?m ?t) ?s = Inr (n, s')"
    and f: "finished ?s av base (free_block_at ls p rs) (ls' @ rs) n s'" by blast
  have fin: "finished s av base (free_block_at ls p rs) (ls @ rs) n s'"
  proof -
    have "used_kept ?m m1 (ls @ rs)" by (rule used_kept_link_words [OF h(1) Q(11)]) auto
    moreover have "used_kept m1 (mem s') (ls @ rs)"
    proof (rule used_kept_same)
      show "used_kept m1 (mem s') (ls' @ rs)" using f unfolding finished_def by simp
      fix x assume "(x, True) \<in> set (ls @ rs)"
      then show "(x, True) \<in> set (ls' @ rs)" using absorb_left_used [where ls = ls and p = p and x = x] Q(1) by auto
    qed
    ultimately have uk: "used_kept ?m (mem s') (ls @ rs)" by (rule used_kept_trans)
    have nx: "next_chunk m1 (get_top m1 av) = next_chunk ?m ?tp" unfolding tp1 by (simp add: next_chunk_def ctp)
    obtain m b where "s' = ?s\<lparr>mem := m, binmap := b\<rparr>" using f unfolding finished_def by blast
    then have "s' = s\<lparr>mem := m, binmap := b\<rparr>" by simp
    moreover have "arena_kept av ?m (mem s')"
      using arena_kept_trans [OF link_words_arena [OF h(1) Q(11)]] f unfolding finished_def by simp
    ultimately show ?thesis using f uk nx unfolding finished_def by auto
  qed
  show thesis by (rule that [OF create fin Q(12,13) tp1])
qed

end

abbreviation heap_end :: "'k st \<Rightarrow> ptr \<Rightarrow> ptr" where
  "heap_end s av \<equiv> next_chunk (mem s) (get_top (mem s) av)"

lemma free_block_at_used: "(x, True) \<in> set (free_block_at ls p rs) \<longleftrightarrow> (x, True) \<in> set (ls @ rs)"
proof -
  have "(x, True) \<in> set (fst (absorb_left ls p)) \<longleftrightarrow> (x, True) \<in> set ls"
    by (cases ls rule: rev_cases) (auto simp: absorb_left_def)
  then show ?thesis
    by (cases "absorb_left ls p") (auto simp: free_block_at_def absorb_right_used)
qed

section \<open>Blocks leave the heap one after the other\<close>

text \<open>
  From \<open>s\<close> to \<open>s'\<close> the blocks \<open>xs\<close> are no longer in use; the other blocks in use and the words of the
  arena below its bins, top and the words \<open>A\<close> excepted, are as they were.
\<close>

definition drained :: "'k st \<Rightarrow> ptr \<Rightarrow> ptr \<Rightarrow> (ptr \<times> bool) list \<Rightarrow> ptr list \<Rightarrow> ptr set \<Rightarrow>
    'k st \<Rightarrow> (ptr \<times> bool) list \<Rightarrow> bool" where
  "drained s av base bs xs A s' bs' \<longleftrightarrow>
     (\<exists>m b. s' = s\<lparr>mem := m, binmap := b\<rparr>) \<and> (\<exists>L'. heap_ok s' av base bs' L') \<and>
     heap_end s' av = heap_end s av \<and> used_kept (mem s) (mem s') bs' \<and>
     (\<forall>a. unat a < unat av + 112 \<longrightarrow> a \<noteq> av + 96 \<longrightarrow> a \<notin> A \<longrightarrow> mem s' a = mem s a) \<and>
     (\<forall>x. (x, True) \<in> set bs' \<longleftrightarrow> (x, True) \<in> set bs \<and> x \<notin> set xs)"

lemma drained_refl: "heap_ok s av base bs L \<Longrightarrow> drained s av base bs [] {} s bs"
  unfolding drained_def used_kept_def by (auto intro!: exI [of _ "mem s"] exI [of _ "binmap s"])

lemma drained_trans:
  assumes "drained s av base bs xs A s1 bs1" "drained s1 av base bs1 ys B s2 bs2"
  shows "drained s av base bs (xs @ ys) (A \<union> B) s2 bs2"
proof -
  have "used_kept (mem s) (mem s1) bs2"
    by (rule used_kept_same [where bs = bs1]) (use assms in \<open>auto simp: drained_def\<close>)
  then have "used_kept (mem s) (mem s2) bs2"
    by (rule used_kept_trans) (use assms(2) in \<open>simp add: drained_def\<close>)
  moreover have "\<exists>m b. s2 = s\<lparr>mem := m, binmap := b\<rparr>"
  proof -
    obtain m b m' b' where "s1 = s\<lparr>mem := m, binmap := b\<rparr>" "s2 = s1\<lparr>mem := m', binmap := b'\<rparr>"
      using assms unfolding drained_def by blast
    then have "s2 = s\<lparr>mem := m', binmap := b'\<rparr>" by simp
    then show ?thesis by blast
  qed
  ultimately show ?thesis using assms unfolding drained_def by auto
qed

lemma finished_drained:
  assumes H: "heap_ok s av base (ls @ (p, True) # rs) L"
    and f: "finished s av base (free_block_at ls p rs) (ls @ rs) n s'"
  shows "drained s av base (ls @ (p, True) # rs) [p] {} s' (free_block_at ls p rs)"
proof -
  have "distinct (map fst (ls @ (p, True) # rs))"
    using seg_distinct [OF layD(3) [OF heap_okD(1) [OF H]]] .
  then have "(x, True) \<in> set (ls @ rs) \<longleftrightarrow> (x, True) \<in> set (ls @ (p, True) # rs) \<and> x \<noteq> p" for x
    by (auto simp: image_iff)
  note p = this
  have "used_kept (mem s) (mem s') (free_block_at ls p rs)"
    by (rule used_kept_same [where bs = "ls @ rs"]) (use f in \<open>auto simp: finished_def free_block_at_used\<close>)
  then show ?thesis using f unfolding finished_def drained_def arena_kept_def free_block_at_used p by auto
qed

text \<open>A word of the arena that neither top nor the bins use.\<close>

lemma arena_word:
  assumes l: "lay m av base bs" and b: "bins_hold m av L" and sub: "binned L \<subseteq> frees bs"
    and a: "unat a < unat av + 112" "a \<noteq> av + 96"
  shows "lay (m(a := v)) av base bs" "bins_hold (m(a := v)) av L" "get_top (m(a := v)) av = get_top m av"
    "next_chunk (m(a := v)) (get_top m av) = next_chunk m (get_top m av)" "used_kept m (m(a := v)) bs"
    "(x, u) \<in> set bs \<Longrightarrow> chunksize (m(a := v)) x = chunksize m x"
proof -
  let ?m' = "m(a := v)"
  note D = layD [OF l]
  have ne: "b \<noteq> a" if "unat base \<le> unat b" for b using that a D(2) by auto
  have keep: "?m' (x + 8) = m (x + 8) \<and> (u \<or> ?m' (next_chunk m x) = m (next_chunk m x))"
    if x: "(x, u) \<in> set bs" for x u
  proof -
    obtain pu where "block m pu x u" using seg_block(3) [OF D(3) x] by blast
    note X = blockD [OF this]
    have "unat (x + 8) = unat x + 8" using X(4) by (intro unat_offset [of _ 8, simplified]) simp
    then show ?thesis using ne [of "x + 8"] ne [of "next_chunk m x"] seg_block(1) [OF D(3) x] X(9) by simp
  qed
  show "(x, u) \<in> set bs \<Longrightarrow> chunksize ?m' x = chunksize m x"
    using keep by (simp add: chunksize_def chunksize_nomask_def)
  have t8: "unat (get_top m av + 8) = unat (get_top m av) + 8"
    using blockD(4) [OF D(4)] by (intro unat_offset [of _ 8, simplified]) simp
  show top: "get_top ?m' av = get_top m av" using a(2) by (simp add: get_top_def)
  have th: "?m' (get_top m av + 8) = m (get_top m av + 8)"
    using ne [of "get_top m av + 8"] t8 D(5) by auto
  then show "next_chunk ?m' (get_top m av) = next_chunk m (get_top m av)"
    by (simp add: next_chunk_def chunksize_def chunksize_nomask_def)
  have "seg ?m' base True bs (get_top m av) True = seg m base True bs (get_top m av) True"
    by (rule seg_cong) (use keep in auto)
  moreover have "block ?m' True (get_top m av) True = block m True (get_top m av) True"
    by (rule block_cong(1)) (use th in simp_all)
  ultimately show "lay ?m' av base bs" using D unfolding lay_def top by simp
  show "bins_hold ?m' av L"
  proof (rule bins_hold_unused [OF l b sub])
    fix b and j :: nat assume b: "?m' b \<noteq> m b" and j: "1 \<le> j" "j < 128"
    then have "b = a" by (auto split: if_splits)
    then show "\<not> uses m av j (set (L j)) b"
      using uses_outside [OF l sub j, of a] a free_block(3) [OF l] sub D(2) by fastforce
  qed
  show "used_kept m ?m' bs"
    unfolding used_kept_def
  proof (intro allI impI conjI)
    fix x assume x: "(x, True) \<in> set bs"
    show "chunksize_nomask ?m' x AND NOT PREV_INUSE = chunksize_nomask m x AND NOT PREV_INUSE"
      using keep [OF x] by (simp add: chunksize_nomask_def)
    show "?m' b = m b" if "unat x + 16 \<le> unat b \<and> unat b \<le> unat x + unat (chunksize m x)" for b
      using ne [of b] seg_block(1) [OF D(3) x] that by simp
  qed
qed

lemma drained_arena_word:
  assumes H: "heap_ok s av base bs L" and a: "unat a < unat av + 112" "a \<noteq> av + 96"
  shows "drained s av base bs [] {a} (s\<lparr>mem := (mem s)(a := v)\<rparr>) bs"
proof -
  let ?m' = "(mem s)(a := v)"
  note h = heap_okD [OF H]
  note W = arena_word [OF h(1,2) equalityD1 [OF h(3)] a, where v = v]
  have nx: "next_chunk ?m' (get_top ?m' av) = next_chunk (mem s) (get_top (mem s) av)"
    unfolding W(3) by (rule W(4))
  then have "heap_ok (s\<lparr>mem := ?m'\<rparr>) av base bs L"
    using W(1,2) h(3,4,5) unfolding heap_ok_def by simp
  moreover have "\<exists>m b. s\<lparr>mem := ?m'\<rparr> = s\<lparr>mem := m, binmap := b\<rparr>"
    by (intro exI [of _ ?m'] exI [of _ "binmap s"]) simp
  ultimately show ?thesis using nx W(5) unfolding drained_def by auto
qed

lemma drained_used:
  assumes "drained s av base bs xs A s' bs'" "heap_ok s av base bs L" "(x, True) \<in> set bs" "x \<notin> set xs"
  shows "chunksize (mem s') x = chunksize (mem s) x" "mem s' (x + 16) = mem s (x + 16)"
proof -
  have u: "used_kept (mem s) (mem s') bs'" "(x, True) \<in> set bs'" using assms(1,3,4) unfolding drained_def by blast+
  obtain pu where "block (mem s) pu x True" using seg_block(3) [OF layD(3) [OF heap_okD(1) [OF assms(2)]] assms(3)] by blast
  note X = blockD [OF this]
  show "chunksize (mem s') x = chunksize (mem s) x" by (rule used_kept_chunksize [OF u])
  have "unat (x + 16) = unat x + 16" using X(4) by (intro unat_offset [of _ 16, simplified]) simp
  then show "mem s' (x + 16) = mem s (x + 16)" using u X(2) unfolding used_kept_def by auto
qed

end
