(* ===== verification/HeapFree.thy ===== *)
theory HeapFree
  imports FreeHalves
begin

text \<open>
  Freeing in a well-formed heap: \<open>_int_free_merge_chunk\<close> and \<open>_int_free_create_chunk\<close> together are the
  operation \<open>free_block_at\<close> on the list of blocks, whatever bins the neighbours are in
  (\<open>free_coalesces\<close>), so that freeing all blocks gives back the empty heap.
\<close>

section \<open>The second half of a free\<close>

lemma block_below_top: "seg m r pu ((r, u) # rs) e eu \<Longrightarrow> r \<noteq> e"
proof
  assume "seg m r pu ((r, u) # rs) e eu" "r = e"
  then have "unat (next_chunk m r) \<le> unat r" "block m pu r u" using seg_le by auto
  then show False using blockD(2,9) by fastforce
qed

lemma create_finishes_in_bin:
  assumes l: "lay (mem s) av base (ls @ mid @ (r, u) # rs)" and sg: "seg (mem s) base True ls q True"
    and mid: "seg (mem s) q True mid r True" "mid \<noteq> []"
    and rs: "seg (mem s) r True ((r, u) # rs) (get_top (mem s) av) True"
    and b: "bins_hold (mem s) av L" and S: "binned L = frees (ls @ (r, u) # rs)"
    and bm: "\<And>i. 2 \<le> i \<Longrightarrow> L i \<noteq> [] \<Longrightarrow> get_binmap s av (of_nat i) \<noteq> 0"
    and sys: "unat (next_chunk (mem s) (get_top (mem s) av)) \<le> unat base + unat (system_mem s av)"
  shows "\<exists>n s'. int_free_create_chunk av q (r - q) r (chunksize (mem s) r) s = Inr (n, s') \<and>
    finished s av base (ls @ (q, False) # absorb_right ((r, u) # rs)) (ls @ (r, u) # rs) n s'"
proof -
  let ?m = "mem s"
  obtain t ts m2 L2 where R: "absorb_right ((r, u) # rs) = (t, True) # ts"
    "staged m2 av base ls q t ts L2" "get_top m2 av = get_top ?m av" "\<And>i. set (L2 i) \<subseteq> set (L i)"
    "\<forall>a. m2 a \<noteq> ?m a \<longrightarrow> link_word ?m av (ls @ mid @ (r, u) # rs) a"
    "u \<Longrightarrow> t = r \<and> m2 = ?m \<and> inuse_bit_at_offset ?m r (chunksize ?m r)"
    "\<not> u \<Longrightarrow> \<not> inuse_bit_at_offset ?m r (chunksize ?m r) \<and> unlink_chunk ?m r = Inr m2 \<and>
       (r - q) + chunksize ?m r = t - q \<and> \<not> prev_inuse m2 t"
    by (rule right_stage [OF l sg mid rs b S]) (rule that)
  let ?i = "free_index (t - q)"
  define m' where "m' = bin_free_chunk m2 q (t - q) (header av ?i) (get_fd m2 (header av ?i))"
  let ?s' = "bin_marked av (t - q) s\<lparr>mem := m'\<rparr>"
  have lt: "unat q < unat t" using R(2) by (simp add: staged_def)
  note W = staged_words [OF R(2) goes_to_free_index]
  note fb = free_index_bin(3) [OF W(8), of av]
  have create: "int_free_create_chunk av q (r - q) r (chunksize ?m r) s = Inr (t - q, ?s')"
    unfolding m'_def fb [symmetric]
    by (rule create_staged [OF R(2) block_below_top [OF rs] lt R(6,7)])
  have bm': "get_binmap ?s' av (of_nat j) \<noteq> 0" if "2 \<le> j" "L j \<noteq> [] \<or> j = ?i" for j
    unfolding get_binmap_mem
    by (rule bin_marked_binmap [where L = L]) (use bm W(8) that in auto)
  have "finished s av base (ls @ (q, False) # absorb_right ((r, u) # rs)) (ls @ (r, u) # rs) (t - q) ?s'"
    by (rule finishes_in_bin [OF l sg bm' sys R(1-5) goes_to_free_index])
      (use m'_def in \<open>cases s; auto simp: bin_marked_def mark_bin_def\<close>)+
  then show ?thesis using create by blast
qed

lemma create_finishes_in_top:
  assumes l: "lay (mem s) av base (ls @ mid)" and sg: "seg (mem s) base True ls q True"
    and mid: "seg (mem s) q True mid (get_top (mem s) av) True" "mid \<noteq> []"
    and b: "bins_hold (mem s) av L" and S: "binned L = frees ls"
    and bm: "\<And>i. 2 \<le> i \<Longrightarrow> L i \<noteq> [] \<Longrightarrow> get_binmap s av (of_nat i) \<noteq> 0"
    and sys: "unat (next_chunk (mem s) (get_top (mem s) av)) \<le> unat base + unat (system_mem s av)"
  shows "\<exists>n s'. int_free_create_chunk av q (get_top (mem s) av - q) (get_top (mem s) av)
    (chunksize (mem s) (get_top (mem s) av)) s = Inr (n, s') \<and> finished s av base ls ls n s'"
  unfolding create_top [OF refl] using finishes_in_top [OF assms] by blast

interpretation create: free_finisher int_free_create_chunk
  by unfold_locales (rule create_finishes_in_bin create_finishes_in_top; assumption)+

lemma merge_chunk:
  assumes H: "heap_ok s av base (ls @ (p, True) # rs) L" and pert: "perturb_byte s = 0"
  shows "\<exists>n s'. int_free_merge_chunk sy av p (chunksize (mem s) p) s = int_free_maybe_consolidate sy av n s' \<and>
    finished s av base (free_block_at ls p rs) (ls @ rs) n s'"
proof -
  let ?m = "mem s" let ?t = "next_chunk ?m p" let ?tp = "get_top ?m av"
  note K = block_in_heap [OF H]
  obtain q m1 n s' where Q: "int_free_create_chunk av q (?t - q) ?t (chunksize ?m ?t) (s\<lparr>mem := m1\<rparr>) = Inr (n, s')"
    "finished s av base (free_block_at ls p rs) (ls @ rs) n s'"
    "prev_inuse ?m p \<Longrightarrow> q = p \<and> m1 = ?m \<and> chunksize ?m p = ?t - q"
    "\<not> prev_inuse ?m p \<Longrightarrow> p - prev_size ?m p = q \<and> chunksize ?m q = prev_size ?m p \<and>
       unlink_chunk ?m q = Inr m1 \<and> chunksize ?m p + prev_size ?m p = ?t - q"
    by (rule create.finish_free [OF H]) (rule that)
  have ch: "chunk_at_offset p (chunksize ?m p) = ?t" by (simp add: chunk_at_offset_def next_chunk_def)
  have top: "?tp + chunksize ?m ?tp = next_chunk ?m ?tp" by (simp add: next_chunk_def)
  have ck: "\<not> next_chunk ?m ?tp \<le> ?t" "\<not> chunksize_nomask ?m ?t \<le> CHUNK_HDR_SZ" "\<not> system_mem s av \<le> chunksize ?m ?t"
    using K(2,4,5) by simp_all
  have "int_free_merge_chunk sy av p (chunksize ?m p) s = int_free_maybe_consolidate sy av n s'"
  proof (cases "prev_inuse ?m p")
    case True
    have s1: "s\<lparr>mem := m1\<rparr> = s" using Q(3) [OF True] by simp
    show ?thesis
      using Q(3) [OF True] Q(1) K(1,3) ck True unfolding int_free_merge_chunk_def Let_def ch top s1
      by (simp add: pert)
  next
    case False
    have off: "chunk_at_offset p (- prev_size ?m p) = q" using Q(4) [OF False] by (simp add: chunk_at_offset_def)
    show ?thesis
      using Q(4) [OF False] Q(1) K(1,3) ck False unfolding int_free_merge_chunk_def Let_def ch top off
      by (simp add: pert off)
  qed
  then show ?thesis using Q(2) by blast
qed

section \<open>Freeing\<close>

text \<open>
  Nothing is consolidated or trimmed: there are no fast chunks, and the whole heap of the main arena
  is smaller than the trim threshold.
\<close>

definition quiet :: "'k sys \<Rightarrow> ptr \<Rightarrow> ptr \<Rightarrow> 'k st \<Rightarrow> bool" where
  "quiet sy av base s \<longleftrightarrow>
     av = main_arena sy \<and> \<not> have_fastchunks s av \<and> perturb_byte s = 0 \<and>
     ucast (global_max_fast s) \<le> MAX_FAST_SIZE \<and>
     unat (next_chunk (mem s) (get_top (mem s) av)) < unat base + unat (trim_threshold (mp s))"

lemma quiet_maybe_consolidate:
  assumes H: "heap_ok s av base bs L" and q: "quiet sy av base s"
  shows "int_free_maybe_consolidate sy av n s = Inr s"
proof -
  note D = layD [OF heap_okD(1) [OF H]]
  have "unat (next_chunk (mem s) (get_top (mem s) av)) < unat base + unat (trim_threshold (mp s))"
    using q unfolding quiet_def by blast
  then have "unat (chunksize (mem s) (get_top (mem s) av)) < unat (trim_threshold (mp s))"
    using D(5) blockD(9) [OF D(4)] by simp
  moreover have "av = main_arena sy" "\<not> have_fastchunks s av" using q unfolding quiet_def by blast+
  ultimately show ?thesis by (simp add: int_free_maybe_consolidate_def word_le_nat_alt)
qed

lemma drained_quiet:
  assumes "drained s av base bs xs A s' bs'" "quiet sy av base s"
  shows "quiet sy av base s'" "set_errno (errno s) s' = s'"
  using assms unfolding drained_def quiet_def by (auto simp: set_errno_def)

text \<open>A block that \<open>_int_free_chunk\<close> neither keeps as a fast chunk nor unmaps.\<close>

definition plain_chunk :: "'k st \<Rightarrow> ptr \<Rightarrow> bool" where
  "plain_chunk s p \<longleftrightarrow> ucast (global_max_fast s) < chunksize (mem s) p \<and> \<not> chunk_is_mmapped (mem s) p"

lemma drained_plain:
  assumes "drained s av base bs xs A s' bs'" "(x, True) \<in> set bs'" "plain_chunk s x"
  shows "plain_chunk s' x"
proof -
  have u: "used_kept (mem s) (mem s') bs'" "global_max_fast s' = global_max_fast s"
    using assms(1) unfolding drained_def by auto
  have bit_1: "(w AND NOT 1) AND 2 = w AND 2" for w :: u64 by (simp add: and.assoc)
  have "chunksize_nomask (mem s') x AND NOT 1 = chunksize_nomask (mem s) x AND NOT 1"
    using u(1) assms(2) unfolding used_kept_def by blast
  then have "chunksize_nomask (mem s') x AND 2 = chunksize_nomask (mem s) x AND 2" using bit_1 by metis
  then show ?thesis
    using u(2) assms(3) used_kept_chunksize [OF u(1) assms(2)] by (simp add: plain_chunk_def chunk_is_mmapped_def)
qed

lemma free_chunk_coalesces:
  assumes H: "heap_ok s av base (ls @ (p, True) # rs) L" and q: "quiet sy av base s" and p: "plain_chunk s p"
  shows "\<exists>n s'. int_free_chunk sy av p (chunksize (mem s) p) lk s = Inr s' \<and>
    finished s av base (free_block_at ls p rs) (ls @ rs) n s'"
proof -
  have M: "perturb_byte s = 0" "get_max_fast s = Inr (ucast (global_max_fast s))"
    using q by (simp_all add: quiet_def get_max_fast_def not_less [symmetric])
  obtain n s' where m: "int_free_merge_chunk sy av p (chunksize (mem s) p) s = int_free_maybe_consolidate sy av n s'"
    and f: "finished s av base (free_block_at ls p rs) (ls @ rs) n s'"
    using merge_chunk [OF H M(1)] by blast
  note Q = drained_quiet [OF finished_drained [OF H f] q]
  obtain L' where L': "heap_ok s' av base (free_block_at ls p rs) L'" using f unfolding finished_def by blast
  have "int_free_chunk sy av p (chunksize (mem s) p) lk s = Inr s'"
    using p M(2) m quiet_maybe_consolidate [OF L' Q(1)] Q(2)
    by (simp add: int_free_chunk_def plain_chunk_def Let_def not_le [symmetric])
  then show ?thesis using f by blast
qed

section \<open>A heap with no block in use\<close>

lemma no_used_block:
  assumes "heap_ok s av base bs L" "\<And>x. (x, True) \<notin> set bs"
  shows "get_top (mem s) av = base" "1 \<le> i \<Longrightarrow> i < 128 \<Longrightarrow> bin_list (mem s) (header av i) []"
proof -
  note h = heap_okD [OF assms(1)]
  have "bs = []"
  proof (cases bs rule: rev_cases)
    case (snoc cs c)
    obtain x u where c: "c = (x, u)" by (cases c)
    have "u" using layD(3) [OF h(1)] unfolding snoc c by (auto simp: seg_append)
    then show ?thesis using assms(2) [of x] snoc c by simp
  qed simp
  then show "get_top (mem s) av = base" using layD(3) [OF h(1)] by simp
  have "L i = []" using h(3) \<open>bs = []\<close> by (auto simp: binned_def)
  then show "1 \<le> i \<Longrightarrow> i < 128 \<Longrightarrow> bin_list (mem s) (header av i) []"
    using bin_okD(1) [OF bins_holdD(2) [OF h(2)]] by metis
qed

text \<open>
  C7: freeing a block whose size is above the limit of the fast bins (\<open>plain_chunk\<close>: also not mapped, and of
  the main arena) in a well-formed heap without fast chunks, below the trim threshold and without
  perturbation (\<open>quiet\<close>). The call refines the operation
  \<open>free_block_at\<close> on the list of blocks: free neighbours on both sides are taken out of whichever bins
  they are in and merged with it, and the merged block goes to its bin, or to top when it is the last one. No
  check of the code fails, the layout, all bins with their skip lists and the bin map are well-formed
  afterwards, the free blocks are again exactly the binned ones, no two of them are adjacent, and
  the other blocks in use keep their contents, sizes and flags.
\<close>
theorem free_coalesces:
  assumes "heap_ok s av base (ls @ (p, True) # rs) L" "quiet sy av base s" "plain_chunk s p"
  shows "\<exists>s' L'. int_free_chunk sy av p (chunksize (mem s) p) lk s = Inr s' \<and>
    heap_ok s' av base (free_block_at ls p rs) L' \<and> used_kept (mem s) (mem s') (ls @ rs) \<and>
    heap_end s' av = heap_end s av"
  using free_chunk_coalesces [OF assms] unfolding finished_def by blast

section \<open>An example\<close>

text \<open>Three blocks in use before top, the bins of the arena empty.\<close>

definition example_blocks :: "unit st" where
  "example_blocks = (static_state ())\<lparr>mem :=
     (\<lambda>a. if 65648 \<le> a \<and> a < 67680 then (if a AND 15 = 0 then a - 16 else a - 24) else 0)
       (65632 := 70800, 69640 := 65, 69704 := 65, 69768 := 1041, 70808 := 4097),
     system_mem := (\<lambda>_. 0)(65536 := 131072), global_max_fast := 16\<rparr>"

lemma example_blocks_words:
  "mem example_blocks 65632 = 70800" "mem example_blocks 69640 = 65" "mem example_blocks 69704 = 65"
  "mem example_blocks 69768 = 1041" "mem example_blocks 70808 = 4097"
  by (simp_all add: example_blocks_def)

text \<open>Empty bins: every header points to itself.\<close>

lemma empty_bins_hold:
  assumes m: "\<And>a. 65648 \<le> unat a \<Longrightarrow> unat a < 67680 \<Longrightarrow> m a = (if a AND 15 = 0 then a - 16 else a - 24)"
  shows "bins_hold m 65536 (\<lambda>_. [])"
proof -
  have "bin_list m (header 65536 i) []" if i: "1 \<le> i" "i < 128" for i
  proof -
    let ?h = "header 65536 i"
    have u: "unat ?h = 65616 + 16 * i" "unat (?h + 16) = 65632 + 16 * i" "unat (?h + 24) = 65640 + 16 * i"
      using unat_header [OF i, of 65536 69632] by simp_all
    have "aligned ?h" "aligned (?h + 16)" "\<not> aligned (?h + 24)" unfolding aligned_iff u using i by presburger+
    then have "get_fd m ?h = ?h" "get_bk m ?h = ?h" "aligned ?h"
      using m [of "?h + 16"] m [of "?h + 24"] u i by (simp_all add: get_fd_def get_bk_def aligned_def)
    then show ?thesis by (simp add: bin_list_def)
  qed
  then show ?thesis by (auto simp: bins_hold_def bin_ok_def skip_list_def heads_def)
qed

lemma example_blocks_bins: "bins_hold (mem example_blocks) 65536 (\<lambda>_. [])"
proof (rule empty_bins_hold)
  fix a :: u64 assume a: "65648 \<le> unat a" "unat a < 67680"
  then have "a \<noteq> 65632" "a \<noteq> 69640" "a \<noteq> 69704" "a \<noteq> 69768" "a \<noteq> 70808" by auto
  then show "mem example_blocks a = (if a AND 15 = 0 then a - 16 else a - 24)"
    using a by (simp add: example_blocks_def word_le_nat_alt word_less_nat_alt)
qed

lemma example_blocks_sizes:
  "chunksize (mem example_blocks) 69632 = 64" "chunksize (mem example_blocks) 69696 = 64"
  "chunksize (mem example_blocks) 69760 = 1040" "chunksize (mem example_blocks) 70800 = 4096"
  "get_top (mem example_blocks) 65536 = 70800"
  by (simp_all add: chunksize_def chunksize_nomask_def get_top_def example_blocks_words)

lemma example_blocks_heap:
  "heap_ok example_blocks 65536 69632 [(69632, True), (69696, True), (69760, True)] (\<lambda>_. [])"
proof -
  have "lay (mem example_blocks) 65536 69632 [(69632, True), (69696, True), (69760, True)]"
    by (simp add: lay_def block_def aligned_def next_chunk_def prev_inuse_def example_blocks_sizes
        chunksize_nomask_def example_blocks_words)
  moreover have "unat (heap_end example_blocks 65536) \<le> unat (69632 :: ptr) + unat (system_mem example_blocks 65536)"
    by (simp add: next_chunk_def example_blocks_sizes) (simp add: example_blocks_def)
  ultimately show ?thesis using example_blocks_bins by (simp add: heap_ok_def binned_def)
qed

lemma example_blocks_quiet: "quiet bare_sys 65536 69632 example_blocks"
  by (simp add: quiet_def next_chunk_def example_blocks_sizes)
    (simp add: example_blocks_def bare_sys_def static_state_def mp_init_def)

lemma example_blocks_plain:
  "plain_chunk example_blocks 69632" "plain_chunk example_blocks 69696" "plain_chunk example_blocks 69760"
  by (simp_all add: plain_chunk_def example_blocks_sizes chunk_is_mmapped_def chunksize_nomask_def
      example_blocks_words) (simp_all add: example_blocks_def)

theorem free_coalesces_witness:
  "\<exists>s' L'. int_free_chunk bare_sys 65536 69760 1040 False example_blocks = Inr s' \<and>
    heap_ok s' 65536 69632 [(69632, True), (69696, True)] L' \<and>
    used_kept (mem example_blocks) (mem s') [(69632, True), (69696, True)] \<and>
    heap_end s' 65536 = heap_end example_blocks 65536"
  using free_coalesces [where ls = "[(69632, True), (69696, True)]" and rs = "[]" and lk = False,
      OF _ example_blocks_quiet example_blocks_plain(3)]
    example_blocks_heap
  by (simp add: free_block_at_def absorb_left_def example_blocks_sizes)

end
