(* ===== verification/Consolidate.thy ===== *)
theory Consolidate
  imports HeapFree FastProps
begin

text \<open>
  \<open>malloc_consolidate\<close> (lines 4781 to 4900 of \<^verbatim>\<open>scalloc/src/scalloc.c\<close>) in a well-formed heap: its loop
  body is a free with another second half, an instance of \<open>free_finisher\<close>, and its loops free all fast
  chunks.
\<close>

section \<open>Consolidation of the fast chunks\<close>

text \<open>The second half of the loop body of \<open>malloc_consolidate\<close> (lines 4850 to 4885), as for a free.\<close>

definition unsorted_stores :: "memory \<Rightarrow> ptr \<Rightarrow> ptr \<Rightarrow> u64 \<Rightarrow> memory" where
  "unsorted_stores m av p sz =
     (let unsorted_bin = unsorted_chunks av;
          first_unsorted = get_fd m unsorted_bin;
          m = set_fd m unsorted_bin p;
          m = set_bk m first_unsorted p;
          m = (if \<not> in_smallbin_range sz then clear_nextsize m p else m);
          m = set_head m p (sz OR PREV_INUSE);
          m = set_bk m p unsorted_bin;
          m = set_fd m p first_unsorted
      in set_foot m p sz)"

definition consolidate_tail :: "ptr \<Rightarrow> ptr \<Rightarrow> u64 \<Rightarrow> ptr \<Rightarrow> u64 \<Rightarrow> 'k st \<Rightarrow> abort + u64 \<times> 'k st" where
  "consolidate_tail av p sz nextchunk nextsize s =
     (if nextchunk \<noteq> get_top (mem s) av
      then
        bindE
          (if \<not> inuse_bit_at_offset (mem s) nextchunk nextsize
           then bindE (unlink_chunk (mem s) nextchunk) (\<lambda>m. Inr (sz + nextsize, m))
           else Inr (sz, clear_inuse_bit_at_offset (mem s) nextchunk 0))
        (\<lambda>(sz, m). Inr (sz, s\<lparr>mem := unsorted_stores m av p sz\<rparr>))
      else Inr (sz + nextsize, s\<lparr>mem := set_top (set_head (mem s) p ((sz + nextsize) OR PREV_INUSE)) av p\<rparr>))"

lemma unsorted_stores_eq:
  assumes "\<not> prev_inuse m (p + sz)" "32 \<le> unat sz" "unat p + unat sz + 16 < 2 ^ 64"
    and "\<And>x. x = header av 1 \<or> x = get_fd m (header av 1) \<Longrightarrow> apart x p sz"
  shows "unsorted_stores m av p sz = bin_free_chunk m p sz (header av 1) (get_fd m (header av 1))"
proof -
  let ?b = "header av 1" let ?f = "get_fd m ?b"
  have us: "unsorted_chunks av = ?b" by (simp add: unsorted_chunks_def)
  have ne: "x + 16 \<noteq> p + 8" "x + 16 \<noteq> p + 16" "x + 16 \<noteq> p + 24" "x + 24 \<noteq> p + 8" "x + 24 \<noteq> p + 16" "x + 24 \<noteq> p + 24"
    if "x = ?b \<or> x = ?f" for x
    using apart_fields [OF assms(4) [OF that] assms(2,3), of 16] apart_fields [OF assms(4) [OF that] assms(2,3), of 24]
    by simp_all
  have ne2: "x + 16 \<noteq> p + 32" "x + 16 \<noteq> p + 40" "x + 24 \<noteq> p + 32" "x + 24 \<noteq> p + 40"
    if "x = ?b \<or> x = ?f" "\<not> in_smallbin_range sz" for x
    using apart_fields(6,7) [OF assms(4) [OF that(1)] assms(2,3), of 16] large_size [OF that(2)]
      apart_fields(6,7) [OF assms(4) [OF that(1)] assms(2,3), of 24] by simp_all
  note N = ne(1-3) [of ?b] ne(4-6) [of ?f] ne2(1,2) [of ?b] ne2(3,4) [of ?f]
  let ?m = "set_head (link_between (if in_smallbin_range sz then m else clear_nextsize m p) p ?b ?f) p (sz OR PREV_INUSE)"
  have "bin_free_chunk m p sz ?b ?f = set_foot ?m p sz"
    using assms(1) by (simp add: bin_free_chunk_def clear_unused Let_def)
  moreover have "unsorted_stores m av p sz = set_foot ?m p sz"
    unfolding unsorted_stores_def us Let_def
    by (rule arg_cong [where f = "\<lambda>m. set_foot m p sz"], rule ext)
      (use N in \<open>simp add: link_between_def clear_nextsize_def set_head_def set_fd_def set_bk_def
        set_fd_nextsize_def set_bk_nextsize_def\<close>)
  ultimately show ?thesis by simp
qed

lemma staged_apart:
  assumes st: "staged m av base ls q t ts L" and g: "goes_to i (t - q)"
    and x: "x = header av i \<or> x = get_fd m (header av i)"
  shows "apart x q (t - q)"
proof -
  let ?mg = "merged m q t"
  have r: "ready ?mg av base ls q t ts L" and cq: "chunksize ?mg q = t - q" using st by (simp_all add: staged_def)
  note W = staged_words [OF st g] and R = readyD [OF r]
  note i = goes_toD [OF g W(8)]
  have "bin_list ?mg (header av i) (L i)" using bin_okD(1) [OF bins_holdD(2) [OF R(3) i(1,4)]] .
  then have "get_fd m (header av i) \<in> set (header av i # L i)"
    unfolding W(3) [symmetric] by (cases "L i") (auto simp: bin_list_def)
  then show ?thesis using ready_apart [OF r i(1,3)] x unfolding cq by auto
qed

lemma consolidate_tail_cases:
  "r \<noteq> get_top (mem s) av \<Longrightarrow> inuse_bit_at_offset (mem s) r k \<Longrightarrow> consolidate_tail av q n r k s =
    Inr (n, s\<lparr>mem := unsorted_stores (clear_inuse_bit_at_offset (mem s) r 0) av q n\<rparr>)"
  "r \<noteq> get_top (mem s) av \<Longrightarrow> \<not> inuse_bit_at_offset (mem s) r k \<Longrightarrow> unlink_chunk (mem s) r = Inr m \<Longrightarrow>
    consolidate_tail av q n r k s = Inr (n + k, s\<lparr>mem := unsorted_stores m av q (n + k)\<rparr>)"
  "consolidate_tail av q n (get_top (mem s) av) k s =
    Inr (n + k, s\<lparr>mem := set_top (set_head (mem s) q ((n + k) OR PREV_INUSE)) av q\<rparr>)"
  by (simp_all add: consolidate_tail_def)

lemma consolidate_finishes_in_bin:
  assumes l: "lay (mem s) av base (ls @ mid @ (r, u) # rs)" and sg: "seg (mem s) base True ls q True"
    and mid: "seg (mem s) q True mid r True" "mid \<noteq> []"
    and rs: "seg (mem s) r True ((r, u) # rs) (get_top (mem s) av) True"
    and b: "bins_hold (mem s) av L" and S: "binned L = frees (ls @ (r, u) # rs)"
    and bm: "\<And>i. 2 \<le> i \<Longrightarrow> L i \<noteq> [] \<Longrightarrow> get_binmap s av (of_nat i) \<noteq> 0"
    and sys: "unat (next_chunk (mem s) (get_top (mem s) av)) \<le> unat base + unat (system_mem s av)"
  shows "\<exists>n s'. consolidate_tail av q (r - q) r (chunksize (mem s) r) s = Inr (n, s') \<and>
    finished s av base (ls @ (q, False) # absorb_right ((r, u) # rs)) (ls @ (r, u) # rs) n s'"
proof -
  let ?m = "mem s"
  obtain t ts m2 L2 where R: "absorb_right ((r, u) # rs) = (t, True) # ts"
    "staged m2 av base ls q t ts L2" "get_top m2 av = get_top ?m av" "\<And>i. set (L2 i) \<subseteq> set (L i)"
    "\<forall>a. m2 a \<noteq> ?m a \<longrightarrow> link_word ?m av (ls @ mid @ (r, u) # rs) a"
    "u \<Longrightarrow> t = r \<and> m2 = ?m \<and> inuse_bit_at_offset ?m r (chunksize ?m r)"
    "\<not> u \<Longrightarrow> \<not> inuse_bit_at_offset ?m r (chunksize ?m r) \<and> unlink_chunk ?m r = Inr m2 \<and>
       (r - q) + chunksize ?m r = t - q \<and> \<not> prev_inuse m2 t"
    by (rule right_stage [OF l sg mid rs b S]) (rule that)
  let ?h = "header av 1" let ?n = "t - q"
  let ?m' = "bin_free_chunk m2 q ?n ?h (get_fd m2 ?h)"
  note W = staged_words [OF R(2) goes_to_unsorted] and ap = staged_apart [OF R(2) goes_to_unsorted]
  have t: "q + ?n = t" by simp
  have n32: "32 \<le> unat ?n" using W(8) by (simp add: word_le_nat_alt)
  have r: "ready (merged m2 q t) av base ls q t ts L2" "chunksize (merged m2 q t) q = t - q"
    using R(2) by (simp_all add: staged_def)
  have end16: "unat q + unat ?n + 16 < 2 ^ 64" using blockD(4) [OF readyD(6) [OF r(1)]] r(2) by simp
  have stores: "unsorted_stores m2 av q ?n = ?m'" if "\<not> u"
    by (rule unsorted_stores_eq [OF _ n32 end16 ap]) (use R(7) [OF that] t in auto)
  have cleared: "unsorted_stores (clear_inuse_bit_at_offset m2 t 0) av q ?n = ?m'"
  proof -
    let ?c = "clear_inuse_bit_at_offset m2 t 0"
    have c8: "?c a = m2 a" if "a \<noteq> t + 8" for a
      using that by (simp add: clear_inuse_bit_at_offset_def set_head_def)
    have fc: "get_fd ?c ?h = get_fd m2 ?h" using c8 [OF W(1)] by (simp add: get_fd_def)
    have "\<not> prev_inuse ?c (q + ?n)" unfolding t
      by (simp add: prev_inuse_def chunksize_nomask_def clear_inuse_bit_at_offset_def set_head_def and.assoc)
    then have "unsorted_stores ?c av q ?n = bin_free_chunk ?c q ?n ?h (get_fd ?c ?h)"
      by (rule unsorted_stores_eq [OF _ n32 end16]) (use ap fc in auto)
    then show ?thesis using bin_free_chunk_cleared [of m2 q ?n] unfolding t fc by simp
  qed
  have "consolidate_tail av q (r - q) r (chunksize ?m r) s = Inr (?n, s\<lparr>mem := ?m'\<rparr>)"
  proof (cases u)
    case True
    then show ?thesis using consolidate_tail_cases(1) [OF block_below_top [OF rs], where q = q and n = "r - q"] R(6) cleared by simp
  next
    case False
    note U = R(7) [OF False]
    have e: "r - q + chunksize ?m r = ?n" using U by blast
    show ?thesis
      using consolidate_tail_cases(2) [OF block_below_top [OF rs], where n = "r - q" and k = "chunksize ?m r" and q = q and m = m2]
        U stores [OF False] unfolding e by simp
  qed
  moreover have "finished s av base (ls @ (q, False) # absorb_right ((r, u) # rs)) (ls @ (r, u) # rs) ?n (s\<lparr>mem := ?m'\<rparr>)"
  proof (rule finishes_in_bin [OF l sg _ sys R(1-5) goes_to_unsorted])
    show "get_binmap (s\<lparr>mem := ?m'\<rparr>) av (of_nat j) \<noteq> 0" if "2 \<le> j" "L j \<noteq> [] \<or> j = 1" for j
      using bm [OF that(1)] that by (simp only: get_binmap_mem) auto
    show "\<exists>m b. s\<lparr>mem := ?m'\<rparr> = s\<lparr>mem := m, binmap := b\<rparr>"
      by (intro exI [of _ ?m'] exI [of _ "binmap s"]) simp
  qed simp
  ultimately show ?thesis by blast
qed

lemma consolidate_finishes_in_top:
  assumes l: "lay (mem s) av base (ls @ mid)" and sg: "seg (mem s) base True ls q True"
    and mid: "seg (mem s) q True mid (get_top (mem s) av) True" "mid \<noteq> []"
    and b: "bins_hold (mem s) av L" and S: "binned L = frees ls"
    and bm: "\<And>i. 2 \<le> i \<Longrightarrow> L i \<noteq> [] \<Longrightarrow> get_binmap s av (of_nat i) \<noteq> 0"
    and sys: "unat (next_chunk (mem s) (get_top (mem s) av)) \<le> unat base + unat (system_mem s av)"
  shows "\<exists>n s'. consolidate_tail av q (get_top (mem s) av - q) (get_top (mem s) av)
    (chunksize (mem s) (get_top (mem s) av)) s = Inr (n, s') \<and> finished s av base ls ls n s'"
  unfolding consolidate_tail_cases(3) using finishes_in_top [OF assms] by blast

interpretation consolidate: free_finisher consolidate_tail
  by unfold_locales (rule consolidate_finishes_in_bin consolidate_finishes_in_top; assumption)+

text \<open>The loop body, with its second half.\<close>

lemma consolidate_chunk_tail:
  assumes "\<not> misaligned_chunk p" "fastbin_addr av (fastbin_index (chunksize (mem s) p)) = fb"
  shows "consolidate_chunk av fb p s =
    (let nextchunk = chunk_at_offset p (chunksize (mem s) p); nextsize = chunksize (mem s) nextchunk in
     bindE
       (if \<not> prev_inuse (mem s) p
        then
          (let prevsize = prev_size (mem s) p; sz = chunksize (mem s) p + prevsize;
               q = chunk_at_offset p (- prevsize) in
           if chunksize (mem s) q \<noteq> prevsize then Inl (Printerr ''corrupted size vs. prev_size in fastbins'')
           else bindE (unlink_chunk (mem s) q) (\<lambda>m. Inr (q, sz, m)))
        else Inr (p, chunksize (mem s) p, mem s))
     (\<lambda>(q, sz, m). bindE (consolidate_tail av q sz nextchunk nextsize (s\<lparr>mem := m\<rparr>))
        (\<lambda>(_, s'). Inr (REVEAL_PTR (p + 16) (get_fd (mem s) p), s'))))"
proof -
  have tail: "(if r \<noteq> get_top m av
     then
       bindE
         (if \<not> inuse_bit_at_offset m r k
          then bindE (unlink_chunk m r) (\<lambda>m. Inr (sz + k, m))
          else Inr (sz, clear_inuse_bit_at_offset m r 0))
       (\<lambda>(sz, m). Inr (x, s\<lparr>mem := unsorted_stores m av q sz\<rparr>))
     else Inr (x, s\<lparr>mem := set_top (set_head m q (sz + k OR PREV_INUSE)) av q\<rparr>)) =
    bindE (consolidate_tail av q sz r k (s\<lparr>mem := m\<rparr>)) (\<lambda>(_, s). Inr (x, s))" for r m k sz q x
    by (cases "unlink_chunk m r") (simp_all add: consolidate_tail_def)
  show ?thesis
    using assms unfolding consolidate_chunk_def Let_def
    by (simp add: tail [unfolded unsorted_stores_def Let_def])
qed

text \<open>One fast chunk.\<close>

lemma consolidate_chunk_finishes:
  assumes H: "heap_ok s av base (ls @ (p, True) # rs) L"
    and fb: "fastbin_addr av (fastbin_index (chunksize (mem s) p)) = fb"
  shows "\<exists>n s'. consolidate_chunk av fb p s = Inr (REVEAL_PTR (p + 16) (get_fd (mem s) p), s') \<and>
    finished s av base (free_block_at ls p rs) (ls @ rs) n s'"
proof -
  let ?m = "mem s" let ?t = "next_chunk ?m p"
  obtain q m1 n s' where Q: "consolidate_tail av q (?t - q) ?t (chunksize ?m ?t) (s\<lparr>mem := m1\<rparr>) = Inr (n, s')"
    "finished s av base (free_block_at ls p rs) (ls @ rs) n s'"
    "prev_inuse ?m p \<Longrightarrow> q = p \<and> m1 = ?m \<and> chunksize ?m p = ?t - q"
    "\<not> prev_inuse ?m p \<Longrightarrow> p - prev_size ?m p = q \<and> chunksize ?m q = prev_size ?m p \<and>
       unlink_chunk ?m q = Inr m1 \<and> chunksize ?m p + prev_size ?m p = ?t - q"
    "get_top m1 av = get_top ?m av"
    by (rule consolidate.finish_free [OF H]) (rule that)
  have ch: "chunk_at_offset p (chunksize ?m p) = ?t" by (simp add: chunk_at_offset_def next_chunk_def)
  obtain a where "block ?m a p True"
    using seg_block(3) [OF layD(3) [OF heap_okD(1) [OF H]], of p True] by auto
  then have al: "\<not> misaligned_chunk p" using blockD(1) by (simp add: misaligned_chunk_iff)
  note T = consolidate_chunk_tail [OF al fb]
  have "consolidate_chunk av fb p s = Inr (REVEAL_PTR (p + 16) (get_fd ?m p), s')"
  proof (cases "prev_inuse ?m p")
    case True
    have s1: "s\<lparr>mem := m1\<rparr> = s" using Q(3) [OF True] by simp
    show ?thesis using Q(3) [OF True] Q(1) True unfolding T Let_def ch s1 by simp
  next
    case False
    have off: "chunk_at_offset p (- prev_size ?m p) = q" using Q(4) [OF False] by (simp add: chunk_at_offset_def)
    show ?thesis using Q(4) [OF False] Q(1) False unfolding T Let_def ch off by (simp add: off)
  qed
  then show ?thesis using Q(2) by blast
qed

section \<open>The fast bins are drained\<close>

text \<open>Fast chunks keep their links and sizes when other blocks leave the heap.\<close>

lemma fast_chain_same:
  "(\<And>x. x \<in> set xs \<Longrightarrow> chunksize m' x = chunksize m x \<and> m' (x + 16) = m (x + 16)) \<Longrightarrow>
     fast_chain m' idx q xs = fast_chain m idx q xs"
  by (induction xs arbitrary: q) (auto simp: get_fd_def)

lemma drained_fast_chain:
  assumes "drained s av base bs ys A s' bs'" "heap_ok s av base bs L"
    and "\<And>x. x \<in> set xs \<Longrightarrow> (x, True) \<in> set bs \<and> x \<notin> set ys"
  shows "fast_chain (mem s') idx q xs = fast_chain (mem s) idx q xs"
  by (rule fast_chain_same) (use drained_used [OF assms(1,2)] assms(3) in blast)

lemma consolidate_chain_drains:
  assumes "heap_ok s av base bs L" "fast_chain (mem s) idx p xs" "xs \<noteq> []" "distinct xs" "length xs \<le> n"
    and "\<And>x. x \<in> set xs \<Longrightarrow> (x, True) \<in> set bs"
  shows "\<exists>s' bs'. consolidate_chain n av (fastbin_addr av idx) p s = Inr s' \<and> drained s av base bs xs {} s' bs'"
  using assms
proof (induction xs arbitrary: s bs L p n)
  case (Cons x xs)
  obtain k where n: "n = Suc k" using Cons.prems(5) by (cases n) auto
  have p: "p = x" "fastbin_index (chunksize (mem s) x) = idx"
    and rest: "fast_chain (mem s) idx (REVEAL_PTR (x + 16) (get_fd (mem s) x)) xs"
    using Cons.prems(2) by auto
  obtain ls rs where bs: "bs = ls @ (x, True) # rs" using Cons.prems(6) [of x] by (meson list.set_intros(1) split_list)
  obtain i s1 where c: "consolidate_chunk av (fastbin_addr av idx) x s = Inr (REVEAL_PTR (x + 16) (get_fd (mem s) x), s1)"
    and f: "finished s av base (free_block_at ls x rs) (ls @ rs) i s1"
    using consolidate_chunk_finishes [OF Cons.prems(1) [unfolded bs] arg_cong [OF p(2), of "fastbin_addr av"]] by blast
  note d = finished_drained [OF Cons.prems(1) [unfolded bs] f, folded bs]
  show ?case
  proof (cases xs)
    case Nil
    then have "REVEAL_PTR (x + 16) (get_fd (mem s) x) = NULL" using rest by simp
    then show ?thesis using c d Nil by (auto simp: n p(1))
  next
    case (Cons y ys)
    have nx: "REVEAL_PTR (x + 16) (get_fd (mem s) x) \<noteq> NULL" using rest Cons by auto
    obtain L1 where h1: "heap_ok s1 av base (free_block_at ls x rs) L1" using d unfolding drained_def by blast
    have used: "(z, True) \<in> set bs \<and> z \<notin> set [x]" if "z \<in> set xs" for z
      using Cons.prems(4,6) that by auto
    have "fast_chain (mem s1) idx (REVEAL_PTR (x + 16) (get_fd (mem s) x)) xs"
      using rest drained_fast_chain [OF d Cons.prems(1) used] by blast
    moreover have "(z, True) \<in> set (free_block_at ls x rs)" if "z \<in> set xs" for z
      using used [OF that] d unfolding drained_def by blast
    ultimately obtain s' bs' where "consolidate_chain k av (fastbin_addr av idx)
          (REVEAL_PTR (x + 16) (get_fd (mem s) x)) s1 = Inr s'"
      "drained s1 av base (free_block_at ls x rs) xs {} s' bs'"
      using Cons.IH [OF h1, of "REVEAL_PTR (x + 16) (get_fd (mem s) x)" k] Cons Cons.prems(4,5) n by auto
    then show ?thesis using c nx drained_trans [OF d, of xs "{}" s' bs'] by (auto simp: n p(1))
  qed
qed simp

text \<open>The fast bins of the list \<open>js\<close> hold the blocks \<open>F\<close>, all in use.\<close>

definition fast_bins :: "'k sys \<Rightarrow> 'k st \<Rightarrow> ptr \<Rightarrow> (ptr \<times> bool) list \<Rightarrow> (u32 \<Rightarrow> ptr list) \<Rightarrow> u32 list \<Rightarrow> bool" where
  "fast_bins sy s av bs F js \<longleftrightarrow>
     (\<forall>i \<in> set js. fast_chain (mem s) i (mem s (fastbin_addr av i)) (F i) \<and> length (F i) \<le> loop_fuel sy) \<and>
     distinct (concat (map F js)) \<and> (\<forall>x \<in> set (concat (map F js)). (x, True) \<in> set bs)"

lemma fastbin_addr_inj:
  assumes "unat av + 96 < 2 ^ 64" "i < 10" "j < 10" "fastbin_addr av i = fastbin_addr av j"
  shows "i = j" "unat (fastbin_addr av i) < unat av + 96"
proof -
  have u: "unat (fastbin_addr av k) = unat av + 16 + 8 * unat k" if "k < 10" for k
  proof -
    have "unat k < 10" using that by (simp add: word_less_nat_alt)
    moreover have "unat (16 + 8 * ucast k :: u64) = 16 + 8 * unat k"
      using calculation by (simp add: unat_word_ariths unat_ucast_up)
    ultimately show ?thesis
      using unat_offset [of av "16 + 8 * ucast k"] assms(1) by (simp add: fastbin_addr_def add.assoc)
  qed
  show "i = j" using u [OF assms(2)] u [OF assms(3)] assms(4) by (simp add: word_unat_eq_iff)
  show "unat (fastbin_addr av i) < unat av + 96"
    using u [OF assms(2)] assms(2) by (simp add: word_less_nat_alt)
qed

lemma arena_word_not_top: "unat av + 96 < 2 ^ 64 \<Longrightarrow> unat a < unat av + 96 \<Longrightarrow> a \<noteq> av + 96" for av a :: u64
  using unat_offset [of av 96] by auto

lemma drained_arena:
  assumes "drained s av base bs xs A s' bs'" "unat av + 96 < 2 ^ 64" "unat a < unat av + 96" "a \<notin> A"
  shows "mem s' a = mem s a"
proof -
  have "unat a < unat av + 112" "a \<noteq> av + 96" using assms(3) arena_word_not_top [OF assms(2,3)] by simp_all
  then show ?thesis using assms(1,4) unfolding drained_def by blast
qed

lemma consolidate_bins_drains:
  assumes "heap_ok s av base bs L" "fast_bins sy s av bs F js" "distinct js" "\<And>i. i \<in> set js \<Longrightarrow> i < 10"
  shows "\<exists>s' bs'. consolidate_bins sy av js s = Inr s' \<and>
    drained s av base bs (concat (map F js)) (fastbin_addr av ` set js) s' bs' \<and>
    (\<forall>i \<in> set js. mem s' (fastbin_addr av i) = NULL)"
  using assms
proof (induction js arbitrary: s bs L)
  case Nil
  then show ?case using drained_refl [OF Nil(1)] by auto
next
  case (Cons i js)
  let ?fb = "fastbin_addr av"
  note l = heap_okD(1) [OF Cons.prems(1)]
  have av: "unat av + 96 < 2 ^ 64" using layD(2) [OF l] unat_lt_64 [of base] by simp
  have i10: "i < 10" and is10: "\<And>j. j \<in> set js \<Longrightarrow> j < 10" using Cons.prems(4) by auto
  note ai = fastbin_addr_inj(2) [OF av i10 i10 refl]
  let ?s0 = "s\<lparr>mem := (mem s)(?fb i := NULL)\<rparr>"
  have d0: "drained s av base bs [] {?fb i} ?s0 bs" by (rule drained_arena_word [OF Cons.prems(1)]) (use ai arena_word_not_top [OF av ai] in simp_all)
  then obtain L0 where h0: "heap_ok ?s0 av base bs L0" unfolding drained_def by blast
  have F: "fast_chain (mem s) j (mem s (?fb j)) (F j)" "length (F j) \<le> loop_fuel sy" if "j \<in> set (i # js)" for j
    using Cons.prems(2) that unfolding fast_bins_def by blast+
  have used: "(x, True) \<in> set bs" if "x \<in> set (F j)" "j \<in> set (i # js)" for x j
    using Cons.prems(2) that unfolding fast_bins_def by auto
  have dis: "distinct (F i)" "distinct (concat (map F js))" "set (F i) \<inter> set (concat (map F js)) = {}"
    using Cons.prems(2) unfolding fast_bins_def by auto
  have ne: "?fb j \<noteq> ?fb i" if "j \<in> set js" for j
    using fastbin_addr_inj(1) [OF av is10 [OF that] i10] Cons.prems(3) that by auto
  have F0: "fast_chain (mem ?s0) j q (F j) = fast_chain (mem s) j q (F j)" if "j \<in> set (i # js)" for j q
    by (rule drained_fast_chain [OF d0 Cons.prems(1)]) (use used that in auto)
  obtain s1 bs1 where step: "(if mem s (?fb i) \<noteq> NULL
      then consolidate_chain (loop_fuel sy) av (?fb i) (mem s (?fb i)) ?s0 else Inr ?s0) = Inr s1"
    and d1: "drained ?s0 av base bs (F i) {} s1 bs1"
  proof (cases "F i")
    case Nil
    then have "mem s (?fb i) = NULL" using F(1) [of i] by simp
    moreover have "drained ?s0 av base bs (F i) {} ?s0 bs" using drained_refl [OF h0] Nil by simp
    ultimately show thesis using that by auto
  next
    case (Cons x xs)
    have "mem s (?fb i) \<noteq> NULL" using F(1) [of i] Cons by auto
    moreover have "\<exists>s' bs'. consolidate_chain (loop_fuel sy) av (?fb i) (mem s (?fb i)) ?s0 = Inr s' \<and>
        drained ?s0 av base bs (F i) {} s' bs'"
    proof (rule consolidate_chain_drains [OF h0 _ _ dis(1)])
      show "fast_chain (mem ?s0) i (mem s (?fb i)) (F i)" using F0 [of i] F(1) [of i] by simp
      show "(x, True) \<in> set bs" if "x \<in> set (F i)" for x using used [OF that] by simp
    qed (use F(2) [of i] Cons in simp_all)
    ultimately show thesis using that by auto
  qed
  have d01: "drained s av base bs (F i) {?fb i} s1 bs1" using drained_trans [OF d0 d1] by simp
  obtain L1 where h1: "heap_ok s1 av base bs1 L1" using d1 unfolding drained_def by blast
  have keep: "mem s1 (?fb j) = mem s (?fb j)" if "j \<in> set js" for j
    using drained_arena [OF d01 av fastbin_addr_inj(2) [OF av is10 [OF that] is10 [OF that] refl]] ne [OF that]
    by simp
  have "fast_bins sy s1 av bs1 F js"
    unfolding fast_bins_def
  proof (intro conjI ballI)
    have u1: "(x, True) \<in> set bs \<and> x \<notin> set (F i)" if "x \<in> set (F j)" "j \<in> set js" for x j
      using used [of x j] that dis(3) by auto
    show "fast_chain (mem s1) j (mem s1 (?fb j)) (F j)" if "j \<in> set js" for j
      using drained_fast_chain [OF d01 Cons.prems(1) u1 [OF _ that]] keep [OF that] F(1) [of j] that by auto
    show "length (F j) \<le> loop_fuel sy" if "j \<in> set js" for j using F(2) [of j] that by simp
    show "(x, True) \<in> set bs1" if "x \<in> set (concat (map F js))" for x
      using that u1 d01 unfolding drained_def by auto
  qed (rule dis(2))
  then obtain s2 bs2 where r: "consolidate_bins sy av js s1 = Inr s2"
    "drained s1 av base bs1 (concat (map F js)) (?fb ` set js) s2 bs2" "\<forall>j \<in> set js. mem s2 (?fb j) = NULL"
    using Cons.IH [OF h1 _ _ is10] Cons.prems(3) by auto
  have "mem s2 (?fb i) = NULL"
  proof -
    have "?fb i \<notin> ?fb ` set js" using ne by (metis imageE)
    then show ?thesis using drained_arena [OF d1 av ai] drained_arena [OF r(2) av ai] by simp
  qed
  moreover have "consolidate_bins sy av (i # js) s = Inr s2"
    using step r(1) by (simp add: upd_mem_def Let_def)
  ultimately show ?case using drained_trans [OF d01 r(2)] r(3) by auto
qed

lemma consolidate_drains_fast_bins:
  assumes "heap_ok s av base bs L" "fast_bins sy s av bs F fastbin_indices"
  shows "\<exists>s' bs' L'. malloc_consolidate sy av s = Inr s' \<and> heap_ok s' av base bs' L' \<and>
    (\<forall>x. (x, True) \<in> set bs' \<longleftrightarrow> (x, True) \<in> set bs \<and> x \<notin> set (concat (map F fastbin_indices))) \<and>
    used_kept (mem s) (mem s') bs' \<and> heap_end s' av = heap_end s av \<and>
    (\<forall>i \<in> set fastbin_indices. mem s' (fastbin_addr av i) = NULL) \<and> \<not> have_fastchunks s' av"
proof -
  let ?s0 = "set_have_fastchunks av False s"
  have m0: "mem ?s0 = mem s" "binmap ?s0 = binmap s" "system_mem ?s0 = system_mem s"
    by (simp_all add: set_have_fastchunks_def)
  have h0: "heap_ok ?s0 av base bs L" using assms(1) unfolding heap_ok_def get_binmap_def m0 .
  have f0: "fast_bins sy ?s0 av bs F fastbin_indices" using assms(2) unfolding fast_bins_def m0 .
  have "distinct fastbin_indices" and lt: "\<And>i. i \<in> set fastbin_indices \<Longrightarrow> i < 10" by (auto simp: fastbin_indices_def)
  then obtain s' bs' where c: "consolidate_bins sy av fastbin_indices ?s0 = Inr s'"
    and d: "drained ?s0 av base bs (concat (map F fastbin_indices)) (fastbin_addr av ` set fastbin_indices) s' bs'"
    and z: "\<forall>i \<in> set fastbin_indices. mem s' (fastbin_addr av i) = NULL"
    using consolidate_bins_drains [OF h0 f0] by blast
  have "\<not> have_fastchunks s' av" using d unfolding drained_def by (auto simp: set_have_fastchunks_def)
  moreover have "malloc_consolidate sy av s = Inr s'" using c by (simp add: malloc_consolidate_def)
  ultimately show ?thesis using d z unfolding drained_def m0 by blast
qed


text \<open>The example heap with its first two blocks in the fast bin of their size.\<close>

definition example_fast_blocks :: "unit st" where
  "example_fast_blocks = example_blocks\<lparr>mem := (mem example_blocks)(65568 := 69632, 69648 := 69713, 69712 := 17)\<rparr>"

lemma example_fast_blocks_heap:
  "heap_ok example_fast_blocks 65536 69632 [(69632, True), (69696, True), (69760, True)] (\<lambda>_. [])"
proof -
  let ?m = "mem example_fast_blocks"
  have w: "?m 65632 = 70800" "?m 69640 = 65" "?m 69704 = 65" "?m 69768 = 1041" "?m 70808 = 4097"
    by (simp_all add: example_fast_blocks_def example_blocks_def)
  note sizes = chunksize_def chunksize_nomask_def get_top_def w
  have "lay ?m 65536 69632 [(69632, True), (69696, True), (69760, True)]"
    by (simp add: lay_def block_def aligned_def next_chunk_def prev_inuse_def sizes)
  moreover have "bins_hold ?m 65536 (\<lambda>_. [])"
  proof (rule empty_bins_hold)
    fix a :: u64 assume a: "65648 \<le> unat a" "unat a < 67680"
    then have "a \<noteq> 65632" "a \<noteq> 69640" "a \<noteq> 69704" "a \<noteq> 69768" "a \<noteq> 70808" "a \<noteq> 65568" "a \<noteq> 69648"
      "a \<noteq> 69712" by auto
    then show "?m a = (if a AND 15 = 0 then a - 16 else a - 24)"
      using a by (simp add: example_fast_blocks_def example_blocks_def word_le_nat_alt word_less_nat_alt)
  qed
  moreover have "unat (heap_end example_fast_blocks 65536) \<le> unat (69632 :: ptr) + unat (system_mem example_fast_blocks 65536)"
    by (simp add: next_chunk_def sizes) (simp add: example_fast_blocks_def example_blocks_def)
  ultimately show ?thesis by (simp add: heap_ok_def binned_def)
qed

lemma example_fast_blocks_bins:
  "fast_bins bare_sys example_fast_blocks 65536 [(69632, True), (69696, True), (69760, True)]
     ((\<lambda>_. [])(2 := [69632, 69696])) fastbin_indices"
  by (simp add: fast_bins_def fastbin_indices_def fastbin_addr_def fastbin_index_def aligned_def
      chunksize_def chunksize_nomask_def get_fd_def REVEAL_PTR_def PROTECT_PTR_def bare_sys_def
      example_fast_blocks_def example_blocks_def)


end
