(* ===== verification/HeapUse.thy ===== *)
theory HeapUse
  imports Consolidate
begin

text \<open>
  Free blocks come into use: a block that has left its bin is used as a whole (\<open>use_whole\<close>) or split
  (\<open>use_part\<close>), with the rest first in the unsorted list. \<open>allocated\<close> relates the heap before and after;
  \<open>split_or_exhaust\<close> and the small bins allocate in this sense.
\<close>

section \<open>A free block that has left its bin\<close>

text \<open>Words before or behind a part of the heap do not matter for it.\<close>

lemma seg_words:
  assumes "seg m p pu bs e eu" "\<And>a. unat p + 8 \<le> unat a \<Longrightarrow> unat a \<le> unat e \<Longrightarrow> m' a = m a"
  shows "seg m' p pu bs e eu"
proof -
  have "m' (x + 8) = m (x + 8) \<and> (u \<or> m' (next_chunk m x) = m (next_chunk m x))" if x: "(x, u) \<in> set bs" for x u
  proof -
    obtain a where "block m a x u" using seg_block(3) [OF assms(1) x] by blast
    note X = blockD [OF this]
    have "unat (x + 8) = unat x + 8" using X(4) by (intro unat_offset [of _ 8, simplified]) simp
    then show ?thesis using assms(2) seg_block(1,2) [OF assms(1) x] X(2,9) by simp
  qed
  then show ?thesis using assms(1) seg_cong by metis
qed

lemma seg_words_used:
  assumes "seg m p pu bs e eu" "\<And>a. unat p + 8 \<le> unat a \<Longrightarrow> unat a \<le> unat e \<Longrightarrow> m' a = m a"
  shows "used_kept m m' bs"
  unfolding used_kept_def
proof (intro allI impI conjI)
  fix x assume x: "(x, True) \<in> set bs"
  obtain a where "block m a x True" using seg_block(3) [OF assms(1) x] by blast
  note X = blockD [OF this]
  have r: "unat p \<le> unat x" "unat x + unat (chunksize m x) \<le> unat e" using seg_block(1,2) [OF assms(1) x] .
  have "unat (x + 8) = unat x + 8" using X(4) by (intro unat_offset [of _ 8, simplified]) simp
  then have "m' (x + 8) = m (x + 8)" using assms(2) r X(2) by simp
  then show "chunksize_nomask m' x AND NOT PREV_INUSE = chunksize_nomask m x AND NOT PREV_INUSE"
    by (simp add: chunksize_nomask_def)
  show "m' a = m a" if "unat x + 16 \<le> unat a \<and> unat a \<le> unat x + unat (chunksize m x)" for a
    using assms(2) that r by simp
qed

text \<open>\<open>x\<close>, of the free blocks, is in no bin.\<close>

definition unbinned :: "memory \<Rightarrow> ptr \<Rightarrow> ptr \<Rightarrow> (ptr \<times> bool) list \<Rightarrow> ptr \<Rightarrow> ptr \<Rightarrow> (ptr \<times> bool) list \<Rightarrow>
    (nat \<Rightarrow> ptr list) \<Rightarrow> bool" where
  "unbinned m av base ls x t ts L \<longleftrightarrow>
     lay m av base (ls @ (x, False) # (t, True) # ts) \<and> bins_hold m av L \<and> binned L = frees (ls @ (t, True) # ts)"

lemma free_block_parts:
  assumes l: "lay m av base (ls @ (x, False) # rs)"
  obtains t ts where "rs = (t, True) # ts" "t = next_chunk m x"
    "seg m base True ls x True" "block m True x False" "seg m t False ((t, True) # ts) (get_top m av) True"
proof -
  note D = layD [OF l]
  obtain a where a: "seg m base True ls x a" "block m a x False" "seg m (next_chunk m x) False rs (get_top m av) True"
    using seg_split [OF D(3)] by blast
  have at: "a = True" using blockD(6) [OF a(2)] by simp
  show thesis
  proof (cases rs)
    case Nil
    then show thesis using a(3) by simp
  next
    case (Cons c ts)
    obtain t u where c: "c = (t, u)" by (cases c)
    have "block m False t u" "next_chunk m x = t" using a(3) Cons c by auto
    then have u: "u" using blockD(6) by blast
    show thesis
    proof (rule that [of t ts])
      show rs: "rs = (t, True) # ts" using Cons c u by simp
      show n: "t = next_chunk m x" using \<open>next_chunk m x = t\<close> by simp
      show "seg m base True ls x True" "block m True x False" using a(1,2) unfolding at .
      show "seg m t False ((t, True) # ts) (get_top m av) True" using a(3) unfolding rs n [symmetric] .
    qed
  qed
qed

lemma frees_without:
  assumes "distinct (map fst (ls @ (x, False) # rs))"
  shows "frees (ls @ (x, False) # rs) - {x} = frees (ls @ rs)"
proof -
  have "x \<notin> fst ` set ls" "x \<notin> fst ` set rs" using assms by auto
  then have "x \<notin> frees ls" "x \<notin> frees rs" using frees_subset by blast+
  then show ?thesis by auto
qed

lemma unlink_unbinned:
  assumes H: "heap_ok s av base (ls @ (x, False) # rs) L"
  obtains m1 L1 t ts where "unlink_chunk (mem s) x = Inr m1" "rs = (t, True) # ts"
    "unbinned m1 av base ls x t ts L1" "\<And>i. set (L1 i) \<subseteq> set (L i)"
    "\<forall>a. m1 a \<noteq> mem s a \<longrightarrow> link_word (mem s) av (ls @ (x, False) # rs) a" "t = next_chunk (mem s) x"
proof -
  note h = heap_okD [OF H]
  have xb: "x \<in> binned L" using h(3) by simp
  obtain m1 L1 where u: "unlink_chunk (mem s) x = Inr m1" "bins_hold m1 av L1" "binned L1 = binned L - {x}"
    "\<And>i. set (L1 i) \<subseteq> set (L i)" "\<forall>a. m1 a \<noteq> mem s a \<longrightarrow> link_word (mem s) av (ls @ (x, False) # rs) a"
    using unlink_step [OF h(1,2) _ xb] h(3) by blast
  obtain t ts where t: "rs = (t, True) # ts" "t = next_chunk (mem s) x"
    by (rule free_block_parts [OF h(1)])
  have "binned L1 = frees (ls @ (t, True) # ts)"
    using u(3) h(3) frees_without [OF seg_distinct [OF layD(3) [OF h(1)]]] unfolding t(1) by simp
  then have "unbinned m1 av base ls x t ts L1"
    using lay_cong(1) [OF h(1) u(5)] u(2) unfolding unbinned_def t(1) by simp
  then show thesis using that u(1,4,5) t by blast
qed

lemma unbinnedD:
  assumes "unbinned m av base ls x t ts L"
  shows "lay m av base (ls @ (x, False) # (t, True) # ts)" "bins_hold m av L"
    "binned L = frees (ls @ (t, True) # ts)" "seg m base True ls x True" "block m True x False"
    "seg m x True [(x, False)] t False" "seg m t False ((t, True) # ts) (get_top m av) True"
    "t = next_chunk m x" "t = x + chunksize m x" "unat t = unat x + unat (chunksize m x)"
proof -
  show l: "lay m av base (ls @ (x, False) # (t, True) # ts)" and "bins_hold m av L"
    "binned L = frees (ls @ (t, True) # ts)" using assms unfolding unbinned_def by blast+
  show "seg m base True ls x True" and b: "block m True x False" and t: "t = next_chunk m x"
    and "seg m t False ((t, True) # ts) (get_top m av) True"
    by (rule free_block_parts [OF l]; simp)+
  then show "seg m x True [(x, False)] t False" by simp
  show "t = x + chunksize m x" using t by (simp add: next_chunk_def)
  show "unat t = unat x + unat (chunksize m x)" using blockD(9) [OF b] t by simp
qed

section \<open>The block is used\<close>

text \<open>As a whole: only the in-use bit in the header of the next block changes.\<close>

lemma use_whole:
  assumes u: "unbinned m av base ls x t ts L"
  defines "m' \<equiv> set_inuse_bit_at_offset m x (chunksize m x)"
  shows "m' = merged m x t" "lay m' av base (ls @ (x, True) # (t, True) # ts)" "bins_hold m' av L"
    "get_top m' av = get_top m av" "used_kept m m' (ls @ (t, True) # ts)" "chunksize m' x = chunksize m x"
    "prev_inuse m' x" "m' a \<noteq> m a \<Longrightarrow> a = t + 8" "chunksize m' t = chunksize m t"
    "chunksize m' (get_top m av) = chunksize m (get_top m av)" "next_chunk m' x = t"
proof -
  note U = unbinnedD [OF u]
  note X = blockD [OF U(5)]
  have l: "lay m av base (ls @ [(x, False)] @ (t, True) # ts)" using U(1) by simp
  have mid: "[(x, False)] \<noteq> []" by simp
  have tx: "t - x = chunksize m x" unfolding U(9) by simp
  have lt: "unat x < unat t" using U(10) X(2) by simp
  have tb: "block m False t True" using U(7) by simp
  have xt: "x + 8 \<noteq> t + 8" using lt by auto
  have hx: "m (x + 8) = chunksize m x OR PREV_INUSE" using X(7) by (simp add: plain_head_def chunksize_nomask_def)
  show mg: "m' = merged m x t"
    unfolding merged_words tx m'_def set_inuse_bit_at_offset_def U(9) [symmetric]
    using hx xt by (auto simp: set_head_def chunksize_nomask_def fun_eq_iff)
  note M = merged_lay [OF l U(4,6) mid U(7), folded mg]
  show "lay m' av base (ls @ (x, True) # (t, True) # ts)" by (rule M(1))
  show top: "get_top m' av = get_top m av" by (rule M(4))
  show "prev_inuse m' x" "chunksize m' t = chunksize m t" "next_chunk m' x = t" using M(3,5,7) .
  show "chunksize m' x = chunksize m x" using M(2) tx by simp
  show w: "m' a \<noteq> m a \<Longrightarrow> a = t + 8" for a
    unfolding m'_def set_inuse_bit_at_offset_def U(9) [symmetric] by (auto simp: set_head_def split: if_splits)
  show "bins_hold m' av L"
    by (rule bins_hold_unused [OF l U(2)])
      (use U(3) merged_unused [OF l U(4,6) mid U(7), of L] in \<open>auto simp: mg\<close>)
  show "used_kept m m' (ls @ (t, True) # ts)"
    unfolding mg
  proof (rule merged_used [OF lt])
    show "unat t + 16 < 2 ^ 64" using blockD(4) [OF tb] by simp
    fix y assume "(y, True) \<in> set (ls @ (t, True) # ts)"
    then have "(y, True) \<in> set ls \<or> (y, True) \<in> set ((t, True) # ts)" by auto
    then show "unat y + unat (chunksize m y) \<le> unat x \<or> unat t \<le> unat y" "\<exists>a. block m a y True"
      using seg_block [OF U(4), of y True] seg_block [OF U(7), of y True] by blast+
  qed
  have "unat t + 32 \<le> unat (get_top m av)"
    using seg_block(2) [OF U(7), of t True] blockD(2) [OF tb] by simp
  then have "get_top m av + 8 \<noteq> t + 8" by auto
  then have "m' (get_top m av + 8) = m (get_top m av + 8)" using w by blast
  then show "chunksize m' (get_top m av) = chunksize m (get_top m av)" by (simp add: chunksize_def chunksize_nomask_def)
qed

text \<open>A block in use becomes two.\<close>

definition cut :: "memory \<Rightarrow> ptr \<Rightarrow> ptr \<Rightarrow> ptr \<Rightarrow> memory" where
  "cut m x r t = m(x + 8 := (r - x) OR PREV_INUSE, r + 8 := (t - r) OR PREV_INUSE)"

lemma cut_lay:
  assumes l: "lay m av base (ls @ (x, True) # (t, True) # ts)" and p: "prev_inuse m x" and t: "t = next_chunk m x"
    and r: "unat x + 32 \<le> unat r" "unat r + 32 \<le> unat t" "(r - x) AND MALLOC_ALIGN_MASK = 0"
  shows "lay (cut m x r t) av base (ls @ (x, True) # (r, True) # (t, True) # ts)"
    "get_top (cut m x r t) av = get_top m av" "chunksize (cut m x r t) x = r - x" "chunksize (cut m x r t) r = t - r"
    "prev_inuse (cut m x r t) r" "used_kept m (cut m x r t) (ls @ (t, True) # ts)"
    "next_chunk (cut m x r t) x = r" "next_chunk (cut m x r t) r = t"
proof -
  let ?m' = "cut m x r t"
  note D = layD [OF l]
  obtain a where a: "seg m base True ls x a" "block m a x True" "seg m t True ((t, True) # ts) (get_top m av) True"
    using seg_split [OF D(3)] unfolding t by blast
  have at: "a = True" using blockD(5) [OF a(2)] p by simp
  note X = blockD [OF a(2)]
  have tb: "block m True t True" using a(3) by simp
  note T = blockD [OF tb]
  have ut: "unat t = unat x + unat (chunksize m x)" using X(9) t by simp
  have u: "unat (x + 8) = unat x + 8" "unat (r + 8) = unat r + 8"
    using r T(4) by (auto intro!: unat_offset [of _ 8, simplified])
  have base: "unat base \<le> unat x" using seg_le [OF a(1)] .
  have av96: "unat (av + 96) = unat av + 96"
    using D(2) unat_lt_64 [of base] by (intro unat_offset [of _ 96, simplified]) simp
  have w: "?m' b = m b" if "unat b \<noteq> unat x + 8" "unat b \<noteq> unat r + 8" for b
    using that u by (auto simp: cut_def)
  show top: "get_top ?m' av = get_top m av" using w [of "av + 96"] av96 base r D(2) by (simp add: get_top_def)
  have al: "(t - r) AND MALLOC_ALIGN_MASK = 0" "aligned r" and sz: "unat (r - x) = unat r - unat x" "unat (t - r) = unat t - unat r"
  proof -
    have r': "r = x + (r - x)" by simp
    show ar: "aligned r" using aligned_add [OF X(1) r(3)] by simp
    show "(t - r) AND MALLOC_ALIGN_MASK = 0" using aligned_sub ar T(1) by (simp add: aligned_def)
    show "unat (r - x) = unat r - unat x" "unat (t - r) = unat t - unat r"
      using r by (auto intro!: unat_sub simp: word_le_nat_alt)
  qed
  have xr: "x + 8 \<noteq> r + 8" using r by auto
  have hd: "?m' (x + 8) = (r - x) OR PREV_INUSE" "?m' (r + 8) = (t - r) OR PREV_INUSE" using xr by (simp_all add: cut_def)
  show cx: "chunksize ?m' x = r - x" by (rule head_same [where bits = PREV_INUSE]) (use r(3) hd in simp_all)
  show cr: "chunksize ?m' r = t - r" by (rule head_same [where bits = PREV_INUSE]) (use al hd in simp_all)
  have px: "prev_inuse ?m' x" using prev_inuse_bit [of ?m' x "r - x" 0] hd by simp
  show pr: "prev_inuse ?m' r" using prev_inuse_bit [of ?m' r "t - r" 0] hd by simp
  show nx: "next_chunk ?m' x = r" "next_chunk ?m' r = t" by (simp_all add: next_chunk_def cx cr)
  have bx: "block ?m' True x True" "block ?m' True r True"
    unfolding block_def using X(1,4) T(4) r al sz cx cr px pr by (simp_all add: word_le_nat_alt)
  have s1: "seg ?m' base True ls x True" "used_kept m ?m' ls"
    using seg_words [OF a(1) [unfolded at], of ?m'] seg_words_used [OF a(1), of ?m'] w r by auto
  have s2: "seg ?m' t True ((t, True) # ts) (get_top m av) True" "used_kept m ?m' ((t, True) # ts)"
    using seg_words [OF a(3), of ?m'] seg_words_used [OF a(3), of ?m'] w r by auto
  have tt: "unat t + 32 \<le> unat (get_top m av)" using seg_block(2) [OF a(3), of t True] T(2) by simp
  have "unat (get_top m av + 8) = unat (get_top m av) + 8"
    using blockD(4) [OF D(4)] by (intro unat_offset [of _ 8, simplified]) simp
  then have "?m' (get_top m av + 8) = m (get_top m av + 8)" using w tt r by simp
  then have "block ?m' True (get_top m av) True"
    using block_cong(1) [of ?m' "get_top m av" m True True] D(4) by simp
  then show "lay ?m' av base (ls @ (x, True) # (r, True) # (t, True) # ts)"
    unfolding lay_def top seg_append using D(1,2) s1(1) s2(1) bx nx by auto
  show "used_kept m ?m' (ls @ (t, True) # ts)" using s1(2) s2(2) unfolding used_kept_def by auto
qed

text \<open>As the first part of a split: the rest is the staged block of a free.\<close>

lemma use_part:
  assumes u: "unbinned m av base ls x t ts L" and nb: "nb AND MALLOC_ALIGN_MASK = 0" "32 \<le> unat nb"
    "unat nb + 32 \<le> unat (chunksize m x)"
  defines "r \<equiv> x + nb" and "m3 \<equiv> set_head m x (nb OR PREV_INUSE)"
  shows "staged m3 av base (ls @ [(x, True)]) r t ts L" "t - r = chunksize m x - nb"
    "used_kept m m3 (ls @ (t, True) # ts)" "get_top m3 av = get_top m av"
    "chunksize m3 (get_top m av) = chunksize m (get_top m av)" "\<not> prev_inuse m3 t" "\<not> prev_inuse m t"
    "unat r = unat x + unat nb" "arena_kept av m m3"
    "arena_kept av m m3" "chunksize m3 x = nb"
proof -
  note U = unbinnedD [OF u] and W = use_whole [OF u]
  note X = blockD [OF U(5)] and D = layD [OF U(1)]
  let ?m2 = "set_inuse_bit_at_offset m x (chunksize m x)"
  show ur: "unat r = unat x + unat nb" unfolding r_def using nb X(4) by (intro unat_offset) simp
  have tb: "block m False t True" using U(7) by simp
  have rx: "r - x = nb" by (simp add: r_def)
  have lt: "unat x < unat r" "unat r < unat t" using ur nb U(10) by auto
  have base: "unat base \<le> unat x" using seg_le [OF U(4)] .
  have tt: "unat t + 32 \<le> unat (get_top m av)" using seg_block(2) [OF U(7), of t True] blockD(2) [OF tb] by simp
  have u8: "unat (x + 8) = unat x + 8" "unat (get_top m av + 8) = unat (get_top m av) + 8" "unat (av + 96) = unat av + 96"
    using X(4) blockD(4) [OF D(4)] D(2) unat_lt_64 [of base]
    by (auto intro!: unat_offset [of _ 8, simplified] unat_offset [of _ 96, simplified])
  have w: "m3 a = m a" if "unat a \<noteq> unat x + 8" for a using that u8 by (auto simp: m3_def set_head_def)
  show tr: "t - r = chunksize m x - nb" unfolding U(9) r_def by simp
  show p3: "\<not> prev_inuse m t" using blockD(5) [OF tb] by simp
  have "unat (t + 8) = unat t + 8" using blockD(4) [OF tb] by (intro unat_offset [of _ 8, simplified]) simp
  then have "m3 (t + 8) = m (t + 8)" using w lt by simp
  then show "\<not> prev_inuse m3 t" using p3 by (simp add: prev_inuse_def chunksize_nomask_def)
  show top: "get_top m3 av = get_top m av" using w [of "av + 96"] u8 base D(2) by (simp add: get_top_def)
  have "m3 (get_top m av + 8) = m (get_top m av + 8)" using w u8 tt lt by simp
  then show "chunksize m3 (get_top m av) = chunksize m (get_top m av)" by (simp add: chunksize_def chunksize_nomask_def)
  show "chunksize m3 x = nb" by (rule head_same [where bits = PREV_INUSE]) (use nb in \<open>simp_all add: m3_def set_head_def\<close>)
  show ak: "arena_kept av m m3" "arena_kept av m m3"
    unfolding arena_kept_def using w base D(2) by auto
  have e: "merged m3 r t = cut ?m2 x r t"
  proof -
    have ne: "t + 8 \<noteq> x + 8" "r + 8 \<noteq> x + 8" "r + 8 \<noteq> t + 8" using lt by auto
    show ?thesis
      unfolding W(1) merged_words cut_def m3_def set_head_def rx using ne by (auto simp: fun_eq_iff)
  qed
  have "unat x + 32 \<le> unat r" "unat r + 32 \<le> unat t" "(r - x) AND MALLOC_ALIGN_MASK = 0"
    using ur nb U(10) rx by simp_all
  note C = cut_lay [OF W(2,7) W(11) [symmetric] this, folded e]
  have "bins_hold (merged m3 r t) av L"
  proof (rule bins_hold_unused [OF W(2,3)])
    show sub: "binned L \<subseteq> frees (ls @ (x, True) # (t, True) # ts)" using U(3) by simp
    fix a and j :: nat assume a: "merged m3 r t a \<noteq> ?m2 a" and j: "1 \<le> j" "j < 128"
    have ur8: "unat (r + 8) = unat r + 8" using lt blockD(4) [OF tb] by (intro unat_offset [of _ 8, simplified]) simp
    have "a = x + 8 \<or> a = r + 8" using a unfolding e cut_def by (auto split: if_splits)
    then have aa: "unat a = unat x + 8 \<or> unat a = unat r + 8" using u8 ur8 by auto
    show "\<not> uses ?m2 av j (set (L j)) a"
    proof (rule uses_outside [OF W(2) sub j])
      show "unat a < unat av + 112 \<or> unat av + 2144 \<le> unat a" using aa base ur D(2) by auto
      fix y assume "y \<in> binned L"
      then have "(y, False) \<in> set ls \<or> (y, False) \<in> set ts" using U(3) by (auto simp: frees_def)
      then have "unat y + unat (chunksize ?m2 y) \<le> unat x \<or> unat t \<le> unat y"
        using seg_apart(1) [OF layD(3) [OF W(2)], of y False] seg_apart(2) [OF layD(3) [OF W(2)], of y False]
          W(6) U(10) by auto
      then show "unat a < unat y + 8 \<or> unat y + unat (chunksize ?m2 y) \<le> unat a" using aa lt by auto
    qed
  qed
  then show "staged m3 av base (ls @ [(x, True)]) r t ts L"
    unfolding staged_def ready_def using C(1,4,5) U(3) lt by simp
  show "used_kept m m3 (ls @ (t, True) # ts)"
  proof -
    have "used_kept m m3 ls" by (rule seg_words_used [OF U(4)]) (use w in auto)
    moreover have "used_kept m m3 ((t, True) # ts)" by (rule seg_words_used [OF U(7)]) (use w lt in auto)
    ultimately show ?thesis unfolding used_kept_def by auto
  qed
qed

text \<open>The stores of a split, in the order of \<open>_int_malloc\<close>, with those of \<open>av->last_remainder\<close>.\<close>

definition split_stores :: "memory \<Rightarrow> ptr \<Rightarrow> ptr \<Rightarrow> u64 \<Rightarrow> u64 \<Rightarrow> bool \<Rightarrow> memory" where
  "split_stores m av x nb remainder_size lr =
     (let remainder = x + nb; bck = header av 1; fwd = get_fd m bck;
          m = link_between m remainder bck fwd;
          m = (if lr then set_last_remainder m av remainder else m);
          m = (if \<not> in_smallbin_range remainder_size then clear_nextsize m remainder else m);
          m = set_head m x (nb OR PREV_INUSE);
          m = set_head m remainder (remainder_size OR PREV_INUSE)
      in set_foot m remainder remainder_size)"

lemma use_part_stores:
  fixes lr :: bool
  assumes u: "unbinned m av base ls x t ts L" and nb: "nb AND MALLOC_ALIGN_MASK = 0" "32 \<le> unat nb"
    "unat nb + 32 \<le> unat (chunksize m x)"
  defines "r \<equiv> x + nb" and "m3 \<equiv> set_head (if lr then set_last_remainder m av (x + nb) else m) x (nb OR PREV_INUSE)"
  shows "split_stores m av x nb (chunksize m x - nb) lr =
    bin_free_chunk m3 r (t - r) (header av 1) (get_fd m3 (header av 1))"
proof -
  let ?h = "header av 1" let ?f = "get_fd m ?h" let ?n = "t - r" let ?s = "set_head m x (nb OR PREV_INUSE)"
  note P = use_part [OF u nb, folded r_def] and U = unbinnedD [OF u]
  note W = staged_words [OF P(1) goes_to_unsorted] and ap = staged_apart [OF P(1) goes_to_unsorted]
  note D = layD [OF U(1)] and X = blockD [OF U(5)]
  have base: "unat base \<le> unat x" using seg_le [OF U(4)] .
  have tb: "block m False t True" using U(7) by simp
  have t: "r + ?n = t" by simp
  have n32: "32 \<le> unat ?n" using W(8) by (simp add: word_le_nat_alt)
  have un: "unat ?n = unat t - unat r" using P(8) nb(3) U(10) by (intro unat_sub) (simp add: word_le_nat_alt)
  have end16: "unat r + unat ?n + 16 < 2 ^ 64" using un P(8) nb U(10) blockD(4) [OF tb] by simp
  have u8: "unat (x + 8) = unat x + 8" "unat (av + 104) = unat av + 104"
    using X(4) D(2) unat_lt_64 [of base]
    by (auto intro!: unat_offset [of _ 8, simplified] unat_offset [of _ 104, simplified])
  note hd = unat_header(2,3) [of 1, OF _ _ D(2), simplified]
  have f: "?f = ?h \<or> ?f \<in> binned L"
  proof -
    have "bin_list m ?h (L 1)" using bin_okD(1) [OF bins_holdD(2) [OF U(2), of 1]] by simp
    then have "?f \<in> set (?h # L 1)" by (cases "L 1") (auto simp: bin_list_def)
    then show ?thesis unfolding binned_def by auto
  qed
  have lw: "link_word m av (ls @ (x, False) # (t, True) # ts) (?h + 16)"
    "link_word m av (ls @ (x, False) # (t, True) # ts) (?f + 24)"
  proof -
    show "link_word m av (ls @ (x, False) # (t, True) # ts) (?h + 16)" using hd by (simp add: link_word_def)
    show "link_word m av (ls @ (x, False) # (t, True) # ts) (?f + 24)"
    proof (cases "?f = ?h")
      case True
      then show ?thesis using hd by (simp add: link_word_def)
    next
      case False
      then have "?f \<in> frees (ls @ (x, False) # (t, True) # ts)" using f U(3) by auto
      then show ?thesis using inner_fields(2) [OF U(1)] unfolding link_word_def by blast
    qed
  qed
  have "\<not> link_word m av (ls @ (x, False) # (t, True) # ts) (x + 8)" by (rule not_link_word(1) [OF U(1)]) auto
  then have nx: "?h + 16 \<noteq> x + 8" "?f + 24 \<noteq> x + 8" using lw by metis+
  have na: "?h + 16 \<noteq> av + 104" "?f + 24 \<noteq> av + 104"
    using link_word_arena [OF U(1) lw(1)] link_word_arena [OF U(1) lw(2)] u8(2) by (intro unat_neq; linarith)+
  have nr: "x + 8 \<noteq> r + k" "av + 104 \<noteq> r + k" if "unat k \<le> 40" for k
  proof -
    have "unat (r + k) = unat r + unat k" using that end16 n32 by (intro unat_offset) simp
    then show "x + 8 \<noteq> r + k" "av + 104 \<noteq> r + k" using u8 P(8) nb(2) base D(2) by (intro unat_neq; simp)+
  qed
  have xa: "x + 8 \<noteq> av + 104" using u8 base D(2) by (intro unat_neq) simp
  have fs: "get_fd ?s ?h = ?f" "get_fd m3 ?h = ?f"
    using nx na by (auto simp: m3_def set_head_def get_fd_def set_last_remainder_def)
  have nn: "?h + 16 \<noteq> r + 32" "?h + 16 \<noteq> r + 40" "?f + 24 \<noteq> r + 32" "?f + 24 \<noteq> r + 40"
    if "\<not> in_smallbin_range ?n"
    using apart_fields(6,7) [OF ap n32 end16, of ?h 16] apart_fields(6,7) [OF ap n32 end16, of ?f 24]
      large_size [OF that] fs(1) by simp_all
  have p3: "\<not> prev_inuse m3 (r + ?n)"
  proof -
    have "unat (t + 8) = unat t + 8" using blockD(4) [OF tb] by (intro unat_offset [of _ 8, simplified]) simp
    then have "t + 8 \<noteq> x + 8" "t + 8 \<noteq> av + 104" using u8 U(10) X(2) base D(2) by (intro unat_neq; simp)+
    then have "m3 (t + 8) = m (t + 8)" by (simp add: m3_def set_head_def set_last_remainder_def)
    then show ?thesis using P(7) unfolding t by (simp add: prev_inuse_def chunksize_nomask_def)
  qed
  let ?c = "\<lambda>m. if in_smallbin_range ?n then m else clear_nextsize m r"
  have eq: "set_head (?c (if lr then set_last_remainder (link_between m r ?h ?f) av r else link_between m r ?h ?f)) x (nb OR PREV_INUSE) =
      link_between (?c m3) r ?h ?f"
    unfolding m3_def r_def [symmetric]
    using nx na nr [of 16] nr [of 24] nr [of 32] nr [of 40] xa nn
    by (cases lr; cases "in_smallbin_range ?n")
      (simp_all add: fun_eq_iff set_head_def link_between_def clear_nextsize_def set_fd_def set_bk_def
        set_fd_nextsize_def set_bk_nextsize_def set_last_remainder_def)
  show ?thesis
    unfolding split_stores_def bin_free_chunk_def Let_def r_def [symmetric] P(2) [symmetric] clear_unused [OF p3] fs(2)
    using eq by (cases "in_smallbin_range ?n") (simp_all only: simp_thms if_True if_False)
qed

section \<open>Allocation of a block\<close>

text \<open>
  From \<open>s\<close> to \<open>s'\<close> the block \<open>x\<close> has come into use, with room for \<open>nb\<close> bytes and less than \<open>MINSIZE\<close>
  bytes to spare; the blocks that were in use, the end of the heap and the words of the arena below
  top are as they were.
\<close>

definition allocated :: "'k st \<Rightarrow> ptr \<Rightarrow> ptr \<Rightarrow> (ptr \<times> bool) list \<Rightarrow> u64 \<Rightarrow> ptr \<Rightarrow> 'k st \<Rightarrow>
    (ptr \<times> bool) list \<Rightarrow> bool" where
  "allocated s av base bs nb x s' bs' \<longleftrightarrow>
     (\<exists>m b. s' = s\<lparr>mem := m, binmap := b\<rparr>) \<and> (\<exists>L'. heap_ok s' av base bs' L') \<and>
     heap_end s' av = heap_end s av \<and> used_kept (mem s) (mem s') bs \<and>
     (\<forall>a. unat a < unat av + 96 \<longrightarrow> mem s' a = mem s a) \<and>
     (x, True) \<notin> set bs \<and> (\<forall>y. (y, True) \<in> set bs' \<longleftrightarrow> (y, True) \<in> set bs \<or> y = x) \<and>
     nb \<le> chunksize (mem s') x \<and> chunksize (mem s') x - nb < MINSIZE \<and> plain_head (mem s') x"

lemma drained_allocated:
  assumes d: "drained s av base bs [] {} s1 bs" and a: "allocated s1 av base bs nb x s' bs'"
    and H: "heap_ok s av base bs L"
  shows "allocated s av base bs nb x s' bs'"
proof -
  have av: "unat av + 96 < 2 ^ 64" using layD(2) [OF heap_okD(1) [OF H]] unat_lt_64 [of base] by simp
  have "used_kept (mem s) (mem s') bs"
    using used_kept_trans d a unfolding drained_def allocated_def by blast
  moreover have "\<exists>m b. s' = s\<lparr>mem := m, binmap := b\<rparr>"
  proof -
    obtain m b m' b' where "s1 = s\<lparr>mem := m, binmap := b\<rparr>" "s' = s1\<lparr>mem := m', binmap := b'\<rparr>"
      using d a unfolding drained_def allocated_def by blast
    then have "s' = s\<lparr>mem := m', binmap := b'\<rparr>" by simp
    then show ?thesis by blast
  qed
  moreover have "mem s' b = mem s b" if "unat b < unat av + 96" for b
    using drained_arena [OF d av that] a that unfolding allocated_def by simp
  moreover have "heap_end s' av = heap_end s av" using d a unfolding drained_def allocated_def by simp
  ultimately show ?thesis using a unfolding allocated_def by blast
qed

text \<open>What follows once \<open>x\<close> has left its bin, as a whole and split.\<close>

lemma kept_words:
  assumes l: "lay m av base bs" and w: "\<forall>a. m1 a \<noteq> m a \<longrightarrow> link_word m av bs a"
  shows "used_kept m m1 bs" "get_top m1 av = get_top m av" "next_chunk m1 (get_top m av) = next_chunk m (get_top m av)"
    "unat a < unat av + 112 \<Longrightarrow> m1 a = m a" "(x, u) \<in> set bs \<Longrightarrow> chunksize m1 x = chunksize m x"
proof -
  note C = lay_cong [OF l w]
  show "used_kept m m1 bs" by (rule used_kept_link_words [OF l w]) simp
  show "get_top m1 av = get_top m av" by (rule C(2))
  show "next_chunk m1 (get_top m av) = next_chunk m (get_top m av)"
    using C(4) by (simp add: next_chunk_def chunksize_def chunksize_nomask_def)
  show "unat a < unat av + 112 \<Longrightarrow> m1 a = m a" using w link_word_arena [OF l, of a] by fastforce
  show "(x, u) \<in> set bs \<Longrightarrow> chunksize m1 x = chunksize m x" by (rule C(5))
qed

lemma allocated_whole:
  assumes H: "heap_ok s av base bs L" and bs: "bs = ls @ (x, False) # (t, True) # ts"
    and u: "unbinned m1 av base ls x t ts L1" and sub: "\<And>i. set (L1 i) \<subseteq> set (L i)"
    and w: "\<forall>a. m1 a \<noteq> mem s a \<longrightarrow> link_word (mem s) av bs a"
    and nb: "nb \<le> chunksize (mem s) x" "chunksize (mem s) x - nb < MINSIZE"
  shows "allocated s av base bs nb x (s\<lparr>mem := set_inuse_bit_at_offset m1 x (chunksize m1 x)\<rparr>)
    (ls @ (x, True) # (t, True) # ts)"
proof -
  let ?m' = "set_inuse_bit_at_offset m1 x (chunksize m1 x)"
  note h = heap_okD [OF H] and U = unbinnedD [OF u] and W = use_whole [OF u]
  note K = kept_words [OF h(1) w] and D = layD [OF U(1)]
  have cx: "chunksize m1 x = chunksize (mem s) x" by (rule K(5) [of x False]) (simp add: bs)
  have nx: "next_chunk ?m' (get_top ?m' av) = next_chunk (mem s) (get_top (mem s) av)"
    using W(4,10) K(2,3) by (simp add: next_chunk_def)
  have bm: "get_binmap (s\<lparr>mem := ?m'\<rparr>) av (of_nat i) \<noteq> 0" if "2 \<le> i" "L1 i \<noteq> []" for i
  proof -
    have "L i \<noteq> []" using sub [of i] that(2) by (cases "L i") auto
    then show ?thesis using h(4) [OF that(1)] by simp
  qed
  have "heap_ok (s\<lparr>mem := ?m'\<rparr>) av base (ls @ (x, True) # (t, True) # ts) L1"
    unfolding heap_ok_def using W(2,3) U(3) bm h(5) nx by simp
  moreover have "\<exists>m b. s\<lparr>mem := ?m'\<rparr> = s\<lparr>mem := m, binmap := b\<rparr>"
    by (intro exI [of _ ?m'] exI [of _ "binmap s"]) simp
  moreover have "used_kept (mem s) ?m' bs"
  proof (rule used_kept_trans [OF K(1)])
    show "used_kept m1 ?m' bs" by (rule used_kept_same [OF W(5)]) (auto simp: bs)
  qed
  moreover have "?m' a = mem s a" if a: "unat a < unat av + 96" for a
  proof -
    have "block m1 False t True" using U(7) by simp
    note T = blockD [OF this]
    have "unat (t + 8) = unat t + 8" using T(4) by (intro unat_offset [of _ 8, simplified]) simp
    then have "a \<noteq> t + 8" using a U(10) seg_le [OF U(4)] D(2) by auto
    then have "?m' a = m1 a" using W(8) by blast
    then show ?thesis using K(4) [of a] a by simp
  qed
  moreover have "(x, True) \<notin> set bs"
    using seg_distinct [OF layD(3) [OF h(1)]] unfolding bs by (force simp: image_iff)
  moreover have "plain_head ?m' x"
  proof -
    have "plain_head m1 x" "unat x < unat t" using blockD(2,7) [OF U(5)] U(10) by auto
    moreover have "x + 8 \<noteq> t + 8" using calculation(2) by auto
    then have "?m' (x + 8) = m1 (x + 8)" using W(8) by blast
    ultimately show ?thesis by (simp add: plain_head_def chunksize_def chunksize_nomask_def)
  qed
  ultimately show ?thesis unfolding allocated_def using nb cx W(6) nx bs by auto
qed

lemma seg_end: "seg m p pu bs e eu \<Longrightarrow> eu = (if bs = [] then pu else snd (last bs))"
  by (induction bs arbitrary: p pu) auto

text \<open>A plain header keeps its form when only its in-use bit may have changed and is set.\<close>

lemma plain_head_kept:
  assumes "used_kept m m' bs" "(x, True) \<in> set bs" "plain_head m x" "prev_inuse m' x"
  shows "plain_head m' x"
proof -
  have c: "chunksize m' x = chunksize m x" by (rule used_kept_chunksize [OF assms(1,2)])
  have e: "m' (x + 8) AND NOT 1 = m (x + 8) AND NOT 1"
    using assms(1,2) unfolding used_kept_def chunksize_nomask_def by blast
  have "m' (x + 8) AND 1 \<noteq> 0" using assms(4) by (simp add: prev_inuse_def chunksize_nomask_def)
  then have b: "bit (m' (x + 8)) 0" by (simp add: bit_0 and_one_eq mod_2_eq_odd split: if_splits)
  have b': "bit (m (x + 8)) 0" using assms(3) by (simp add: plain_head_def chunksize_nomask_def bit_simps)
  have "m' (x + 8) = m (x + 8)"
  proof (rule bit_word_eqI)
    fix n assume n: "n < LENGTH(64)"
    show "bit (m' (x + 8)) n = bit (m (x + 8)) n"
      using b b' n arg_cong [OF e, of "\<lambda>w. bit w n"] by (cases n) (auto simp: bit_simps)
  qed
  then show ?thesis using assms(3) c by (simp add: plain_head_def chunksize_nomask_def)
qed

lemma allocated_part:
  fixes lr :: bool
  assumes H: "heap_ok s av base bs L" and bs: "bs = ls @ (x, False) # (t, True) # ts"
    and u: "unbinned m1 av base ls x t ts L1" and sub: "\<And>i. set (L1 i) \<subseteq> set (L i)"
    and w: "\<forall>a. m1 a \<noteq> mem s a \<longrightarrow> link_word (mem s) av bs a"
    and nb: "nb AND MALLOC_ALIGN_MASK = 0" "32 \<le> unat nb" "unat nb + 32 \<le> unat (chunksize m1 x)"
  shows "allocated s av base bs nb x (s\<lparr>mem := split_stores m1 av x nb (chunksize m1 x - nb) lr\<rparr>)
    (ls @ (x, True) # (x + nb, False) # (t, True) # ts)"
proof -
  let ?r = "x + nb" let ?m1 = "if lr then set_last_remainder m1 av (x + nb) else m1"
  let ?m3 = "set_head ?m1 x (nb OR PREV_INUSE)"
  let ?m' = "split_stores m1 av x nb (chunksize m1 x - nb) lr"
  note h = heap_okD [OF H] and U = unbinnedD [OF u] and K = kept_words [OF h(1) w]
  note D = layD [OF U(1)]
  have av: "unat (av + 104) = unat av + 104" "unat (av + 96) = unat av + 96" "unat av + 112 < 2 ^ 64"
    using D(2) unat_lt_64 [of base]
    by (auto intro!: unat_offset [of _ 104, simplified] unat_offset [of _ 96, simplified])
  have fr: "binned L1 \<subseteq> frees (ls @ (x, False) # (t, True) # ts)" using U(3) by auto
  have a104: "unat (av + 104) < unat av + 112" "av + 104 \<noteq> av + 96" using av by auto
  note A = arena_word [OF U(1,2) fr a104, where v = "x + nb"]
  have lr: "set_last_remainder m1 av (x + nb) = m1(av + 104 := x + nb)" by (simp add: set_last_remainder_def)
  have u': "unbinned ?m1 av base ls x t ts L1" using A(1,2) U u unfolding unbinned_def lr by simp
  have m1: "get_top ?m1 av = get_top m1 av" "next_chunk ?m1 (get_top m1 av) = next_chunk m1 (get_top m1 av)"
    "used_kept m1 ?m1 bs" "chunksize ?m1 x = chunksize m1 x"
    "\<And>a. unat a < unat av + 96 \<Longrightarrow> ?m1 a = m1 a"
    using A(3,4,5) A(6) [where x = x and u = False] used_kept_same [of m1 m1 bs bs] av unfolding lr bs by (auto simp: used_kept_def)
  note P = use_part [OF u' nb(1,2) nb(3) [folded m1(4)]]
  note st = P(1) and g = goes_to_unsorted
  have e: "?m' = bin_free_chunk ?m3 ?r (t - ?r) (header av 1) (get_fd ?m3 (header av 1))"
    by (rule use_part_stores [OF u nb])
  note F = staged_result [OF st g, folded e] and SA = staged_arena [OF st g, folded e]
  let ?L = "L1(1 := ?r # L1 1)"
  have top: "get_top ?m' av = get_top (mem s) av" using F(4) P(4) m1(1) K(2) by simp
  have ct: "chunksize ?m' (get_top (mem s) av) = chunksize (mem s) (get_top (mem s) av)"
    using F(5) P(5) m1(1,2) K(2,3) unfolding F(4) P(4) by (simp add: next_chunk_def)
  have nx: "next_chunk ?m' (get_top ?m' av) = next_chunk (mem s) (get_top (mem s) av)"
    unfolding top by (simp add: next_chunk_def ct)
  have bm: "get_binmap (s\<lparr>mem := ?m'\<rparr>) av (of_nat i) \<noteq> 0" if "2 \<le> i" "?L i \<noteq> []" for i
  proof -
    have "L i \<noteq> []" using sub [of i] that by (cases "L i") auto
    then show ?thesis using h(4) [OF that(1)] by simp
  qed
  have lay': "lay ?m' av base (ls @ (x, True) # (?r, False) # (t, True) # ts)" using F(1) by simp
  have "heap_ok (s\<lparr>mem := ?m'\<rparr>) av base (ls @ (x, True) # (?r, False) # (t, True) # ts) ?L"
    unfolding heap_ok_def using F(1,2,3) bm h(5) nx by simp
  moreover have "\<exists>m b. s\<lparr>mem := ?m'\<rparr> = s\<lparr>mem := m, binmap := b\<rparr>"
    by (intro exI [of _ ?m'] exI [of _ "binmap s"]) simp
  moreover have "used_kept (mem s) ?m' bs"
  proof (rule used_kept_trans [OF K(1) used_kept_trans [OF m1(3) used_kept_trans]])
    show "used_kept ?m1 ?m3 bs" by (rule used_kept_same [OF P(3)]) (auto simp: bs)
    show "used_kept ?m3 ?m' bs" by (rule used_kept_same [OF F(6)]) (auto simp: bs)
  qed
  moreover have "?m' a = mem s a" if a: "unat a < unat av + 96" for a
  proof -
    have "a \<noteq> av + 96" using a av(2) by auto
    then have "?m' a = ?m3 a" "?m3 a = ?m1 a" using SA P(9) a unfolding arena_kept_def by auto
    then show ?thesis using m1(5) [OF a] K(4) [of a] a by simp
  qed
  moreover have "(x, True) \<notin> set bs"
    using seg_distinct [OF layD(3) [OF h(1)]] unfolding bs by (force simp: image_iff)
  moreover have cx: "chunksize ?m' x = nb \<and> plain_head ?m' x"
  proof -
    have x: "(x, True) \<in> set ((ls @ [(x, True)]) @ (t, True) # ts)" by simp
    have "chunksize ?m' x = nb" using used_kept_chunksize [OF F(6) x] P(11) by simp
    moreover obtain a where a: "block ?m' a x True" "seg ?m' base True ls x a"
      using seg_split [OF layD(3) [OF lay']] by blast
    have "a = True" using seg_end [OF a(2)] seg_end [OF U(4)] by simp
    then have "prev_inuse ?m' x" using blockD(5) [OF a(1)] by simp
    moreover have "plain_head ?m3 x" using P(11) nb(1) by (simp add: plain_head_def chunksize_nomask_def set_head_def)
    ultimately show ?thesis using plain_head_kept [OF F(6) x] by blast
  qed
  ultimately show ?thesis unfolding allocated_def using nx bs by auto
qed

section \<open>The allocations from a bin\<close>

lemma chunk_multiple:
  assumes "n AND MALLOC_ALIGN_MASK = 0" "k AND MALLOC_ALIGN_MASK = 0" "k \<le> n" "\<not> n - k < MINSIZE"
  shows "unat k + 32 \<le> unat n"
proof -
  have "unat (n - k) = unat n - unat k" using assms(3) by (intro unat_sub) (simp add: word_le_nat_alt)
  then show ?thesis using assms(3,4) by (simp add: word_less_nat_alt word_le_nat_alt)
qed

lemma free_in_list:
  assumes "heap_ok s av base bs L" "x \<in> frees bs"
  obtains ls t ts m1 L1 where "bs = ls @ (x, False) # (t, True) # ts" "unlink_chunk (mem s) x = Inr m1"
    "unbinned m1 av base ls x t ts L1" "\<And>i. set (L1 i) \<subseteq> set (L i)"
    "\<forall>a. m1 a \<noteq> mem s a \<longrightarrow> link_word (mem s) av bs a" "chunksize m1 x = chunksize (mem s) x"
    "get_bk m1 (get_fd m1 (header av 1)) = header av 1"
proof -
  have "(x, False) \<in> set bs" using assms(2) by (simp add: frees_def)
  then obtain ls rs where bs: "bs = ls @ (x, False) # rs" by (meson split_list)
  obtain m1 L1 t ts where u: "unlink_chunk (mem s) x = Inr m1" "rs = (t, True) # ts"
    "unbinned m1 av base ls x t ts L1" "\<And>i. set (L1 i) \<subseteq> set (L i)"
    "\<forall>a. m1 a \<noteq> mem s a \<longrightarrow> link_word (mem s) av (ls @ (x, False) # rs) a"
    by (rule unlink_unbinned [OF assms(1) [unfolded bs]]) (rule that)
  have "chunksize m1 x = chunksize (mem s) x"
    by (rule kept_words(5) [OF heap_okD(1) [OF assms(1)] u(5) [folded bs], of x False]) (simp add: bs)
  moreover have "get_bk m1 (get_fd m1 (header av 1)) = header av 1"
  proof -
    have "bin_list m1 (header av 1) (L1 1)" using bin_okD(1) [OF bins_holdD(2) [OF unbinnedD(2) [OF u(3)], of 1]] by simp
    then show ?thesis by (cases "L1 1") (auto simp: bin_list_def)
  qed
  ultimately show thesis using that [of ls t ts m1 L1] u bs by simp
qed

lemma split_or_exhaust_allocates:
  assumes H: "heap_ok s av base bs L" and x: "x \<in> frees bs" and main: "av = main_arena sy" "perturb_byte s = 0"
    and nb: "nb AND MALLOC_ALIGN_MASK = 0" "MINSIZE \<le> nb" "nb \<le> chunksize (mem s) x"
  shows "\<exists>s' bs'. split_or_exhaust sy msg av nb bytes x (chunksize (mem s) x) s = Inr (chunk2mem x, s') \<and>
    allocated s av base bs nb x s' bs'"
proof -
  obtain ls t ts m1 L1 where P: "bs = ls @ (x, False) # (t, True) # ts" "unlink_chunk (mem s) x = Inr m1"
    "unbinned m1 av base ls x t ts L1" "\<And>i. set (L1 i) \<subseteq> set (L i)"
    "\<forall>a. m1 a \<noteq> mem s a \<longrightarrow> link_word (mem s) av bs a" "chunksize m1 x = chunksize (mem s) x"
    "get_bk m1 (get_fd m1 (header av 1)) = header av 1"
    by (rule free_in_list [OF H x]) (rule that)
  let ?sz = "chunksize (mem s) x"
  note mb = main_bit_def mark_non_main_def main(1)
  show ?thesis
  proof (cases "?sz - nb < MINSIZE")
    case True
    have "allocated s av base bs nb x (s\<lparr>mem := set_inuse_bit_at_offset m1 x (chunksize m1 x)\<rparr>)
        (ls @ (x, True) # (t, True) # ts)"
      by (rule allocated_whole [OF H P(1,3,4,5) nb(3) True])
    moreover have "split_or_exhaust sy msg av nb bytes x ?sz s =
        Inr (chunk2mem x, s\<lparr>mem := set_inuse_bit_at_offset m1 x (chunksize m1 x)\<rparr>)"
      using True P(2,6) main(2) by (simp add: split_or_exhaust_def Let_def mb upd_mem_def alloc_perturb_def)
    ultimately show ?thesis by blast
  next
    case False
    have "?sz AND MALLOC_ALIGN_MASK = 0"
      using blockD(3) [OF unbinnedD(5) [OF P(3)]] P(6) by simp
    then have nb': "unat nb + 32 \<le> unat (chunksize m1 x)" "32 \<le> unat nb"
      using chunk_multiple [OF _ nb(1,3) False] P(6) nb(2) by (simp_all add: word_le_nat_alt)
    let ?m' = "split_stores m1 av x nb (?sz - nb) (in_smallbin_range nb)"
    have "allocated s av base bs nb x (s\<lparr>mem := ?m'\<rparr>) (ls @ (x, True) # (x + nb, False) # (t, True) # ts)"
      using allocated_part [OF H P(1,3,4,5) nb(1) nb'(2,1)] unfolding P(6) .
    moreover have "split_or_exhaust sy msg av nb bytes x ?sz s = Inr (chunk2mem x, s\<lparr>mem := ?m'\<rparr>)"
      using False P(2,7) main(2)
      by (simp add: split_or_exhaust_def split_stores_def Let_def mb upd_mem_def alloc_perturb_def
          chunk_at_offset_def unsorted_chunks_def)
    ultimately show ?thesis by blast
  qed
qed

text \<open>The last chunk of a small bin; its stores are those of \<open>unlink_chunk\<close>.\<close>

lemma unlink_in_low_bin:
  assumes H: "heap_ok s av base bs L" and i: "1 \<le> i" "i < 64" and L: "L i = us @ x # vs"
  shows "unlink_chunk (mem s) x = Inr (unlinked (mem s) x)" "x \<in> frees bs"
proof -
  note h = heap_okD [OF H]
  have S: "set (L i) \<subseteq> frees bs" using h(3) unfolding binned_def by blast
  then show "x \<in> frees bs" unfolding L by simp
  have "bin_ok (mem s) av i (us @ x # vs)" using bins_holdD(2) [OF h(2) i(1)] i(2) L by simp
  then show "unlink_chunk (mem s) x = Inr (unlinked (mem s) x)"
    by (rule unlink_small_bin(1) [OF h(1) i]) (use S L in simp)
qed

lemma link_word_fields:
  assumes "lay m av base bs" "y = header av i \<or> y \<in> frees bs" "1 \<le> i" "i < 128"
  shows "link_word m av bs (y + 16)" "link_word m av bs (y + 24)"
  using assms(2) inner_fields(1,2) [OF assms(1), of y] unat_header(2,3) [OF assms(3,4) layD(2) [OF assms(1)]] assms(3,4)
  by (auto simp: link_word_def)

lemma smallbin_allocates:
  assumes H: "heap_ok s av base bs L" and main: "av = main_arena sy" "perturb_byte s = 0" "tcache s = NULL"
    and nb: "in_smallbin_range nb" "nb AND MALLOC_ALIGN_MASK = 0" "MINSIZE \<le> nb"
  shows "int_malloc_smallbin sy av nb bytes s = Inr (None, s) \<or>
    (\<exists>x s' bs'. int_malloc_smallbin sy av nb bytes s = Inr (Some (chunk2mem x), s') \<and>
      allocated s av base bs nb x s' bs')"
proof -
  let ?i = "unat nb div 16" let ?b = "header av ?i"
  note h = heap_okD [OF H]
  have g: "goes_to ?i nb" using nb(1) by (simp add: goes_to_def)
  note i = goes_toD [OF g nb(3)]
  have b: "bin_at av (smallbin_index nb) = ?b"
    using free_index_bin(3) [OF nb(3), of av] nb(1) by (simp add: free_bin_def free_index_def)
  have bl: "bin_list (mem s) ?b (L ?i)" using bin_okD(1) [OF bins_holdD(2) [OF h(2) i(1,4)]] .
  show ?thesis
  proof (cases "L ?i" rule: rev_cases)
    case Nil
    then have "get_bk (mem s) ?b = ?b" using bl by (simp add: bin_list_def)
    then show ?thesis by (simp add: int_malloc_smallbin_def b Let_def)
  next
    case (snoc us x)
    have L: "L ?i = us @ x # []" using snoc by simp
    note U = unlink_in_low_bin [OF H i(1,2) L]
    obtain ls t ts m1 L1 where P: "bs = ls @ (x, False) # (t, True) # ts" "unlink_chunk (mem s) x = Inr m1"
      "unbinned m1 av base ls x t ts L1" "\<And>i. set (L1 i) \<subseteq> set (L i)"
      "\<forall>a. m1 a \<noteq> mem s a \<longrightarrow> link_word (mem s) av bs a" "chunksize m1 x = chunksize (mem s) x"
      "get_bk m1 (get_fd m1 (header av 1)) = header av 1"
      by (rule free_in_list [OF H U(2)]) (rule that)
    have m1: "m1 = unlinked (mem s) x" using P(2) U(1) by simp
    have X: "block (mem s) True x False" by (rule free_block(1) [OF h(1) U(2)])
    have n16: "unat nb mod 16 = 0" using nb(2) by (simp add: multiple_iff)
    have i2: "2 \<le> ?i" using nb(3) by (simp add: word_le_nat_alt)
    have "bin_index (chunksize (mem s) x) = bin_index nb"
      using bin_okD(3) [OF bins_holdD(2) [OF h(2) i(1,4)] i2, of x] snoc i(5) [OF i2] by (simp add: word_unat_eq_iff)
    then have cx: "chunksize (mem s) x = nb"
      using small_bin_exact [OF nb(1) n16] blockD(3) [OF X] by (simp add: multiple_iff)
    note N = bin_list_neighbours [OF bl [unfolded L]]
    have ends: "get_bk (mem s) ?b = x" "get_fd (mem s) x = ?b" "get_fd (mem s) (get_bk (mem s) x) = x"
      using bin_list_last [OF bl [unfolded snoc]] N(2,4) by simp_all
    have "allocated s av base bs nb x (s\<lparr>mem := set_inuse_bit_at_offset m1 x (chunksize m1 x)\<rparr>)
        (ls @ (x, True) # (t, True) # ts)"
      by (rule allocated_whole [OF H P(1,3,4,5)]) (simp_all add: cx)
    moreover have "set_fd (set_bk (set_inuse_bit_at_offset (mem s) x nb) ?b (get_bk (mem s) x)) (get_bk (mem s) x) ?b =
        set_inuse_bit_at_offset m1 x nb"
    proof -
      have t: "t = x + nb" using unbinnedD(9) [OF P(3)] P(6) cx by simp
      have bk: "get_bk (mem s) x = ?b \<or> get_bk (mem s) x \<in> frees bs"
      proof -
        have "get_bk (mem s) x \<in> set (?b # us)" unfolding N(2) by (rule last_in_set) simp
        moreover have "set us \<subseteq> set (L ?i)" unfolding L by auto
        moreover have "set (L ?i) \<subseteq> frees bs" using h(3) unfolding binned_def by blast
        ultimately show ?thesis by auto
      qed
      have "link_word (mem s) av bs (?b + 24)" "link_word (mem s) av bs (get_bk (mem s) x + 16)"
        using bk link_word_fields [OF h(1), of _ ?i] i(1,4) by auto
      moreover have "\<not> link_word (mem s) av bs (t + 8)" by (rule not_link_word(1) [OF h(1), of t True]) (simp add: P(1))
      ultimately have "?b + 24 \<noteq> t + 8" "get_bk (mem s) x + 16 \<noteq> t + 8" by metis+
      then show ?thesis
        unfolding m1 unlinked_def set_inuse_bit_at_offset_def t ends(2)
        by (auto simp: set_head_def set_bk_def set_fd_def chunksize_nomask_def fun_eq_iff add.assoc)
    qed
    moreover have "x \<noteq> ?b" using bl unfolding L by (auto simp: bin_list_def)
    ultimately show ?thesis
      using main(2,3) ends cx P(6)
      by (simp add: int_malloc_smallbin_def b Let_def upd_mem_def mark_non_main_def main(1) [symmetric]) blast
  qed
qed

end
