(* ===== verification/HeapMalloc.thy ===== *)
theory HeapMalloc
  imports HeapUse Binmap
begin

text \<open>
  The parts of \<open>_int_malloc\<close> on a well-formed heap: the pass over the unsorted list, which uses a chunk
  or puts it into the bin of its size (\<open>unsorted_loop_allocates\<close>), the scan of a large bin, the search
  of the bin map and top. Each either allocates a block or keeps all blocks as they are (\<open>served\<close>).
\<close>


section \<open>Sorting a chunk into its bin\<close>

text \<open>The chunk \<open>x\<close>, in no bin, goes to the bin of its size.\<close>

lemma place_small:
  assumes u: "unbinned m av base ls x t ts L" and small: "in_smallbin_range (chunksize m x)"
  defines "i \<equiv> unat (bin_index (chunksize m x))"
  defines "m' \<equiv> link_between m x (header av i) (get_fd m (header av i))"
  shows "bin_ok m' av i (x # L i)" "m' a \<noteq> m a \<Longrightarrow> in_bin m av i (insert x (set (L i))) a"
    "place_in_bin sy av x (chunksize m x) (s\<lparr>mem := m\<rparr>) = Inr (mark_bin av (of_nat i) s\<lparr>mem := m'\<rparr>)"
    "1 \<le> i" "i < 127"
proof -
  let ?sz = "chunksize m x" let ?b = "header av i"
  note U = unbinnedD [OF u]
  note X = blockD [OF U(5)]
  have i': "i = unat ?sz div 16" using small by (simp add: i_def unat_bin_index in_smallbin_range_iff small_index_def)
  have g: "goes_to i ?sz" using small by (simp add: goes_to_def i')
  note i = goes_toD [OF g X(10)]
  show "1 \<le> i" "i < 127" using i(1,3) .
  note ok = bins_holdD(2) [OF U(2) i(1,4)] and B = bin_okD [OF bins_holdD(2) [OF U(2) i(1,4)]]
  have xL: "x \<notin> set (L j)" for j
  proof
    assume "x \<in> set (L j)"
    then have "x \<in> frees (ls @ (t, True) # ts)" using U(3) by (auto simp: binned_def)
    moreover have "distinct (map fst (ls @ (x, False) # (t, True) # ts))" using seg_distinct [OF layD(3) [OF U(1)]] .
    ultimately show False using frees_without [of ls x "(t, True) # ts"] by blast
  qed
  have xb: "x \<in> frees (ls @ (x, False) # (t, True) # ts)" by simp
  have ne: "x \<noteq> ?b" using unat_header(1) [OF i(1,4) layD(2) [OF U(1)]] free_block(3) [OF U(1) xb] layD(2) [OF U(1)] i(2) by auto
  have f: "get_fd m ?b = hd (L i @ [?b])" "get_fd m ?b \<in> set (?b # L i)"
    using B(1) by (cases "L i"; auto simp: bin_list_def)+
  have bl: "bin_list m' ?b (x # L i)"
    using bin_list_insert [of m ?b "[]" "L i" x ?b "get_fd m ?b"] B(1) xL [of i] ne X(1) f(1)
    unfolding m'_def by simp
  show w: "m' a \<noteq> m a \<Longrightarrow> in_bin m av i (insert x (set (L i))) a" for a
  proof -
    have in_fr: "y \<in> frees (ls @ (x, False) # (t, True) # ts)" if "y \<in> insert x (set (L i))" for y
      using that U(3) xb by (auto simp: binned_def)
    assume "m' a \<noteq> m a"
    then have "a \<in> {x + 16, x + 24, ?b + 16, get_fd m ?b + 24}"
      unfolding m'_def link_between_def by (auto simp: set_fd_def set_bk_def split: if_splits)
    then show ?thesis
      using f(2) inner_fields(1,2) [OF U(1) in_fr] unfolding in_bin_def by auto
  qed
  have cs: "chunksize m' y = chunksize m y" if "y \<in> set (x # L i)" for y
  proof -
    have y: "(y, False) \<in> set (ls @ (x, False) # (t, True) # ts)"
      using that U(3) by (auto simp: binned_def frees_def)
    have S: "insert x (set (L i)) \<subseteq> frees (ls @ (x, False) # (t, True) # ts)" using U(3) xb by (auto simp: binned_def)
    have "m' (y + 8) = m (y + 8)"
      using w in_bin_link_word [OF U(1) i(1,4) S] not_link_word(1) [OF U(1) y] by blast
    then show ?thesis by (simp add: chunksize_def chunksize_nomask_def)
  qed
  have i2: "2 \<le> i" using X(2) by (simp add: i')
  show "bin_ok m' av i (x # L i)"
    using bl B(3) [OF i2] cs i(2) i2 unfolding bin_ok_def by (auto simp: i_def)
  have "unat (smallbin_index ?sz) = i"
    using small unfolding i' by (intro unat_smallbin_index) (simp add: in_smallbin_range_iff)
  then have "smallbin_index ?sz = of_nat i" by (metis of_nat_unat ucast_id)
  moreover have "set_fd (set_bk (set_fd (set_bk m x ?b) x (get_fd m ?b)) (get_fd m ?b) x) ?b x = m'"
  proof -
    have "aligned ?b" "aligned (get_fd m ?b)" using bin_list_aligned [OF B(1)] f(2) by auto
    then show ?thesis unfolding m'_def link_between_def
      by (auto simp: set_fd_def set_bk_def fun_eq_iff)
  qed
  ultimately show "place_in_bin sy av x ?sz (s\<lparr>mem := m\<rparr>) = Inr (mark_bin av (of_nat i) s\<lparr>mem := m'\<rparr>)"
    using small by (simp add: place_in_bin_def Let_def upd_mem_def mark_bin_def)
qed
lemma place_big:
  assumes u: "unbinned m av base ls x t ts L" and large: "\<not> in_smallbin_range (chunksize m x)"
    and fuel: "length (L (unat (bin_index (chunksize m x)))) < loop_fuel sy" and fn: "get_fd_nextsize m x = NULL"
  defines "i \<equiv> unat (bin_index (chunksize m x))"
  defines "ys \<equiv> place_sorted (chunksize m) x (L i)"
  obtains m' where "bin_ok m' av i ys" "\<And>a. m' a \<noteq> m a \<Longrightarrow> in_bin m av i (insert x (set (L i))) a"
    "place_in_bin sy av x (chunksize m x) (s\<lparr>mem := m\<rparr>) = Inr (mark_bin av (of_nat i) s\<lparr>mem := m'\<rparr>)"
    "1 \<le> i" "i < 127"
proof -
  let ?sz = "chunksize m x" let ?b = "header av i" let ?s = "s\<lparr>mem := m\<rparr>"
  note U = unbinnedD [OF u]
  note X = blockD [OF U(5)]
  have big: "MIN_LARGE_SIZE \<le> ?sz" using large by (simp add: in_smallbin_range_def)
  have i: "64 \<le> i" "i < 127"
    using large_bin_number [OF big] bin_index_range [of ?sz] X(2) by (auto simp: i_def word_le_nat_alt)
  then have i1: "1 \<le> i" "i < 128" by auto
  note B = bin_okD [OF bins_holdD(2) [OF U(2) i1]]
  note sl = B(2) [OF i(1)]
  have xb: "x \<in> frees (ls @ (x, False) # (t, True) # ts)" by simp
  have S: "insert x (set (L i)) \<subseteq> frees (ls @ (x, False) # (t, True) # ts)" using U(3) xb by (auto simp: binned_def)
  have xL: "x \<notin> set (L i)"
  proof
    assume "x \<in> set (L i)"
    then have "x \<in> frees (ls @ (t, True) # ts)" using U(3) by (auto simp: binned_def)
    moreover have "distinct (map fst (ls @ (x, False) # (t, True) # ts))" using seg_distinct [OF layD(3) [OF U(1)]] .
    ultimately show False using frees_without [of ls x "(t, True) # ts"] by blast
  qed
  have ne: "x \<noteq> ?b" using unat_header(1) [OF i1 layD(2) [OF U(1)]] free_block(3) [OF U(1) xb] layD(2) [OF U(1)] i(2) by auto
  have bin: "largebin_index ?sz = of_nat i"
  proof -
    have "bin_index ?sz = largebin_index ?sz" using large by (simp add: bin_index_def)
    then show ?thesis by (simp add: i_def)
  qed
  have sz: "MIN_LARGE_SIZE \<le> chunksize m y" if "y \<in> set (x # L i)" for y
    using that big skip_listD(5) [OF sl] by auto
  have "spaced (set (?b # x # L i))"
    by (rule spaced_bin [OF U(1) i1(1) i(2) _ sz]) (use S in auto)
  moreover have "plain_head m y" if "y \<in> set (L i)" for y
    using blockD(7) [OF free_block(1) [OF U(1), of y]] S that by auto
  ultimately have "placeable m ?b x (L i)"
    unfolding placeable_def using sl xL ne X(1,3) big fn by auto
  then have p: "placeable (mem ?s) ?b x (L i)" by simp
  obtain m' where m': "place_in_bin sy av x ?sz ?s = Inr (mark_bin av (of_nat i) ?s\<lparr>mem := m'\<rparr>)"
    "skip_list m' ?b ys" "\<forall>a. m' a \<noteq> m a \<longrightarrow> a \<in> node_words (set (?b # x # L i)) (set (x # L i))"
    using place_in_bin_large [OF p fuel [folded i_def], of av] bin unfolding ys_def by auto
  have w: "in_bin m av i (insert x (set (L i))) a" if a: "m' a \<noteq> m a" for a
  proof -
    have "a \<in> node_words (set (?b # x # L i)) (set (x # L i))" using m'(3) a by blast
    then consider "a = ?b + 16" | "a = ?b + 24"
      | z where "z \<in> set (x # L i)" "a = z + 16 \<or> a = z + 24 \<or> a = z + 32 \<or> a = z + 40"
      by (auto simp: node_words_def)
    then show ?thesis
    proof cases
      case 3
      then have "inner m z a" using inner_fields [OF U(1), of z] S sz [OF 3(1)] by auto
      then show ?thesis using 3(1) by (auto simp: in_bin_def)
    qed (simp_all add: in_bin_def)
  qed
  have cs: "chunksize m' y = chunksize m y" if y: "y \<in> set (x # L i)" for y
  proof -
    have "(y, False) \<in> set (ls @ (x, False) # (t, True) # ts)" using S y by (auto simp: frees_def)
    then have "m' (y + 8) = m (y + 8)"
      using w in_bin_link_word [OF U(1) i1 S] not_link_word(1) [OF U(1)] by blast
    then show ?thesis by (simp add: chunksize_def chunksize_nomask_def)
  qed
  have i2: "2 \<le> i" using i by simp
  have "set ys = set (x # L i)" by (simp add: ys_def set_place_sorted)
  then have "bin_ok m' av i ys"
    unfolding bin_ok_def using skip_listD(1) [OF m'(2)] m'(2) B(3) [OF i2] cs i by (auto simp: i_def)
  moreover have "mark_bin av (of_nat i) ?s\<lparr>mem := m'\<rparr> = mark_bin av (of_nat i) s\<lparr>mem := m'\<rparr>"
    by (simp add: mark_bin_def)
  ultimately show thesis using that w m'(1) i1(1) i(2) by simp
qed

text \<open>In either case the heap is as it was, with all its free blocks binned.\<close>

lemma placed_heap:
  assumes H: "heap_ok s av base bs L" and bs: "bs = ls @ (x, False) # (t, True) # ts"
    and u: "unbinned m1 av base ls x t ts L1" and sub: "\<And>i. set (L1 i) \<subseteq> set (L i)"
    and w: "\<forall>a. m1 a \<noteq> mem s a \<longrightarrow> link_word (mem s) av bs a"
    and fuel: "length bs < loop_fuel sy" and fn: "\<not> in_smallbin_range (chunksize m1 x) \<Longrightarrow> get_fd_nextsize m1 x = NULL"
  obtains s' i ys where "place_in_bin sy av x (chunksize m1 x) (s\<lparr>mem := m1\<rparr>) = Inr s'"
    "drained s av base bs [] {} s' bs" "heap_ok s' av base bs (L1(i := ys))" "2 \<le> i"
proof -
  let ?i = "unat (bin_index (chunksize m1 x))"
  note h = heap_okD [OF H] and U = unbinnedD [OF u] and K = kept_words [OF h(1) w]
  note D = layD [OF U(1)]
  have Sx: "x \<in> frees bs" by (simp add: bs)
  have sub1: "binned L1 \<subseteq> frees (ls @ (x, False) # (t, True) # ts)" using U(3) by auto
  have dist: "distinct (map fst bs)" using seg_distinct [OF layD(3) [OF h(1)]] .
  have nx: "x \<notin> binned L1" using U(3) frees_without [of ls x "(t, True) # ts"] dist unfolding bs by blast
  have len: "length (L1 ?i) < loop_fuel sy"
  proof -
    note D1 = bins_holdD [OF U(2)]
    have "distinct (L1 ?i)"
    proof (cases "L1 ?i = []")
      case False
      then have "1 \<le> ?i \<and> ?i < 127" using D1(1) [of "last (L1 ?i)" ?i] by simp
      then show ?thesis using bin_okD(1) [OF D1(2) [of ?i]] by (simp add: bin_list_def)
    qed simp
    moreover have "set (L1 ?i) \<subseteq> fst ` set bs"
      using sub1 frees_subset [of bs] unfolding bs binned_def by blast
    ultimately have "length (L1 ?i) \<le> card (fst ` set bs)"
      by (metis card_mono distinct_card finite_imageI finite_set)
    also have "\<dots> \<le> length bs" by (metis card_image_le card_length finite_set le_trans)
    finally show ?thesis using fuel by simp
  qed
  have X2: "32 \<le> unat (chunksize m1 x)" using blockD(2) [OF U(5)] .
  obtain m' ys where P: "bin_ok m' av ?i ys" "\<And>a. m' a \<noteq> m1 a \<Longrightarrow> in_bin m1 av ?i (insert x (set (L1 ?i))) a"
    "place_in_bin sy av x (chunksize m1 x) (s\<lparr>mem := m1\<rparr>) = Inr (mark_bin av (of_nat ?i) s\<lparr>mem := m'\<rparr>)"
    "1 \<le> ?i" "?i < 127" "set ys = insert x (set (L1 ?i))"
  proof (cases "in_smallbin_range (chunksize m1 x)")
    case True
    note small = place_small [OF u True]
    show thesis by (rule that [OF small(1) small(2) small(3) small(4,5)]) simp_all
  next
    case False
    obtain m' where big: "bin_ok m' av ?i (place_sorted (chunksize m1) x (L1 ?i))"
      "\<And>a. m' a \<noteq> m1 a \<Longrightarrow> in_bin m1 av ?i (insert x (set (L1 ?i))) a"
      "place_in_bin sy av x (chunksize m1 x) (s\<lparr>mem := m1\<rparr>) = Inr (mark_bin av (of_nat ?i) s\<lparr>mem := m'\<rparr>)"
      "1 \<le> ?i" "?i < 127"
      by (rule place_big [OF u False len fn [OF False], where s = s]) (rule that)
    show thesis by (rule that [OF big(1) big(2) big(3) big(4,5) set_place_sorted])
  qed
  have i2: "2 \<le> ?i" using bin_index_range [of "chunksize m1 x"] X2 by (simp add: word_le_nat_alt)
  let ?L = "L1(?i := ys)" let ?s' = "mark_bin av (of_nat ?i) s\<lparr>mem := m'\<rparr>"
  have S: "insert x (set (L1 ?i)) \<subseteq> frees bs" using sub1 Sx unfolding bs binned_def by blast
  have lw: "\<forall>a. m' a \<noteq> m1 a \<longrightarrow> link_word m1 av bs a"
    using P(2) in_bin_link_word [OF U(1) P(4) _ S [unfolded bs]] P(5) unfolding bs by auto
  note K2 = kept_words [OF U(1) lw [unfolded bs], folded bs]
  have bh: "bins_hold m' av ?L"
  proof (rule bins_hold_update [OF U(1,2) sub1 P(4,5)])
    show "in_bin m1 av ?i (insert x (set (L1 ?i))) a \<or> (\<forall>j. 1 \<le> j \<and> j < 128 \<longrightarrow> \<not> uses m1 av j (set (L1 j)) a)"
      if "m' a \<noteq> m1 a" for a using P(2) [OF that] by blast
    show "insert x (set (L1 ?i)) \<subseteq> frees (ls @ (x, False) # (t, True) # ts)" using S unfolding bs .
    show "set (L1 j) \<inter> insert x (set (L1 ?i)) = {}" "set (L1 j) \<inter> set ys = {}" if "j \<noteq> ?i" for j
      using bins_holdD(3) [OF U(2) that] nx unfolding P(6) binned_def by auto
  qed (rule P(1))
  have bn: "binned ?L = frees bs"
  proof -
    have "binned ?L = insert x (binned L1)"
      unfolding binned_update P(6) binned_split [of L1 ?i] by auto
    also have "\<dots> = frees bs" using U(3) unfolding bs by auto
    finally show ?thesis .
  qed
  have bm: "get_binmap ?s' av (of_nat j) \<noteq> 0" if "2 \<le> j" "?L j \<noteq> []" for j
  proof (cases "j = ?i")
    case True
    show ?thesis unfolding True get_binmap_mem by (rule mark_bin_get)
  next
    case False
    then have "L j \<noteq> []" using that(2) sub [of j] by (cases "L j") auto
    then show ?thesis unfolding get_binmap_mem using mark_bin_keeps [OF h(4) [OF that(1)]] by simp
  qed
  have top: "get_top m' av = get_top (mem s) av" using K2(2) K(2) by simp
  have nx': "next_chunk m' (get_top m' av) = next_chunk (mem s) (get_top (mem s) av)"
    unfolding top using K2(3) K(2,3) by simp
  have lay': "lay m' av base bs" using lay_cong(1) [OF U(1) lw [unfolded bs]] unfolding bs .
  have ok: "heap_ok ?s' av base bs ?L"
    unfolding heap_ok_def using lay' bh bn bm h(5) nx' by (simp add: mark_bin_def)
  have "used_kept (mem s) m' bs" using used_kept_trans [OF K(1) K2(1)] .
  moreover have "m' a = mem s a" if "unat a < unat av + 112" for a using K2(4) [OF that] K(4) [OF that] by simp
  moreover have "\<exists>m b. ?s' = s\<lparr>mem := m, binmap := b\<rparr>" by (cases s) (auto simp: mark_bin_def)
  ultimately have "drained s av base bs [] {} ?s' bs"
    unfolding drained_def using ok nx' by auto
  then show thesis using that P(3) ok i2 by blast
qed

section \<open>The unsorted list\<close>

lemma chunksize_nomask_le: "unat (chunksize_nomask m x) \<le> unat (chunksize m x) + 7"
proof -
  have e: "unat (chunksize m x) = unat (chunksize_nomask m x) - unat (chunksize_nomask m x) mod 8"
    by (simp add: chunksize_def size_arith)
  have "unat (chunksize_nomask m x) mod 8 < 8" by simp
  with e show ?thesis by linarith
qed

text \<open>Its last chunk passes the checks, and the code takes it out as \<open>unlink_chunk\<close> does.\<close>

lemma unsorted_last:
  assumes H: "heap_ok s av base bs L" and L: "L 1 = us @ [v]"
  shows "get_bk (mem s) (unsorted_chunks av) = v" "v \<noteq> unsorted_chunks av" "unsorted_checks av v s = Inr ()"
    "(let bck = get_bk (mem s) v in set_fd (set_bk (mem s) (unsorted_chunks av) bck) bck (unsorted_chunks av)) =
       unlinked (mem s) v"
    "unlink_chunk (mem s) v = Inr (unlinked (mem s) v)" "v \<in> frees bs"
    "get_bk (mem s) v = unsorted_chunks av \<longleftrightarrow> us = []"
proof -
  let ?m = "mem s" let ?b = "header av 1" let ?t = "next_chunk ?m v"
  note h = heap_okD [OF H]
  have L': "L 1 = us @ v # []" using L by simp
  note U = unlink_in_low_bin [OF H _ _ L', simplified]
  show "unlink_chunk ?m v = Inr (unlinked ?m v)" "v \<in> frees bs" by (fact U)+
  have b: "unsorted_chunks av = ?b" by (simp add: unsorted_chunks_def)
  have bl: "bin_list ?m ?b (us @ [v])" using bin_okD(1) [OF bins_holdD(2) [OF h(2), of 1]] L by simp
  note N = bin_list_neighbours [OF bl]
  show bk: "get_bk ?m (unsorted_chunks av) = v" using bin_list_last [OF bl] by (simp add: b)
  show "v \<noteq> unsorted_chunks av" using bl by (auto simp: bin_list_def b)
  have fd: "get_fd ?m v = ?b" using N(1) by simp
  show "get_bk ?m v = unsorted_chunks av \<longleftrightarrow> us = []"
    using N(2) bl by (cases us rule: rev_cases) (auto simp: b bin_list_def)
  show "(let bck = get_bk ?m v in set_fd (set_bk ?m (unsorted_chunks av) bck) bck (unsorted_chunks av)) = unlinked ?m v"
    by (simp add: unlinked_def fd b Let_def)
  obtain ls t ts where P: "bs = ls @ (v, False) # (t, True) # ts" "t = ?t" "block ?m True v False"
    "seg ?m t False ((t, True) # ts) (get_top ?m av) True"
  proof -
    have "(v, False) \<in> set bs" using U(2) by (simp add: frees_def)
    then obtain ls rs where bs: "bs = ls @ (v, False) # rs" by (meson split_list)
    show thesis by (rule free_block_parts [OF h(1) [unfolded bs]]) (use that bs in blast)
  qed
  note V = blockD [OF P(3)] and D = layD [OF h(1)]
  have tb: "block ?m False t True" using P(4) by simp
  note T = blockD [OF tb]
  have "unat base \<le> unat v" using free_block(3) [OF h(1) U(2)] .
  moreover have "unat t + unat (chunksize ?m t) \<le> unat (get_top ?m av)"
    using seg_block(2) [OF P(4), of t True] by simp
  moreover have "unat (next_chunk ?m (get_top ?m av)) = unat (get_top ?m av) + unat (chunksize ?m (get_top ?m av))"
    "32 \<le> unat (chunksize ?m (get_top ?m av))"
    using blockD(2,9) [OF D(4)] by simp_all
  ultimately have sm: "unat (chunksize ?m v) + unat (chunksize ?m t) + 32 \<le> unat (system_mem s av)"
    using h(5) V(9) P(2) by simp
  have "\<not> (chunksize ?m v \<le> CHUNK_HDR_SZ \<or> chunksize ?m v > system_mem s av)"
    using sm V(2) by (simp add: word_le_nat_alt word_less_nat_alt)
  moreover have "\<not> (chunksize_nomask ?m t < CHUNK_HDR_SZ \<or> chunksize_nomask ?m t > system_mem s av)"
    using sm T(2) chunksize_nomask_le [of ?m t] chunksize_le_nomask [of ?m t] by (simp add: word_le_nat_alt word_less_nat_alt)
  moreover have "prev_size ?m t AND NOT SIZE_BITS = chunksize ?m v"
  proof -
    have "prev_size ?m t = chunksize ?m v" using V(8) P(2) by simp
    moreover have "chunksize ?m v AND NOT SIZE_BITS = chunksize ?m v" by (simp add: chunksize_def)
    ultimately show ?thesis by simp
  qed
  moreover have "get_fd ?m (get_bk ?m v) = v" using N(2,4) by simp
  moreover have "\<not> prev_inuse ?m t" using T(5) by simp
  ultimately show "unsorted_checks av v s = Inr ()"
    unfolding unsorted_checks_def Let_def using fd P(2) by (simp add: b next_chunk_def chunk_at_offset_def)
qed

text \<open>The stores of the code for the last remainder are those of a removal and a split.\<close>

lemma split_last_stores:
  assumes av: "av = main_arena sy" and fd: "get_fd m (header av 1) = v" "get_bk m (header av 1) = v"
    "get_fd m v = header av 1" "get_bk m v = header av 1" "v \<noteq> header av 1"
    and r: "unat av + 2144 \<le> unat (v + nb)" "unat (v + nb) + 32 < 2 ^ 64" and sm: "mem s = m"
  shows "split_last_remainder sy av nb v sz s = s\<lparr>mem := split_stores (unlinked m v) av v nb (sz - nb) True\<rparr>"
proof -
  let ?b = "header av 1" and ?r = "v + nb"
  have u: "unat (av + k) = unat av + unat k" if "unat k \<le> 120" for k
    using that r unat_lt_64 [of av] by (intro unat_offset) simp
  have v: "unat (?r + k) = unat ?r + unat k" if "unat k \<le> 24" for k using that r by (intro unat_offset) simp
  have b: "?b = av + 96" by (simp add: bin_at_def)
  have ne: "av + 112 \<noteq> ?r + 16" "av + 112 \<noteq> ?r + 24" "av + 120 \<noteq> ?r + 16" "av + 120 \<noteq> ?r + 24"
    "av + 104 \<noteq> ?r + 16" "av + 104 \<noteq> ?r + 24"
    using u [of 104] u [of 112] u [of 120] v [of 16] v [of 24] r(1) by (intro unat_neq; simp)+
  have f: "get_fd (unlinked m v) ?b = ?b"
    by (simp add: unlinked_def fd(3,4)) (simp add: get_fd_def set_fd_def)
  have e: "set_bk (set_fd (set_last_remainder (set_bk (set_fd m ?b ?r) ?b ?r) av ?r) ?r ?b) ?r ?b =
      set_last_remainder (link_between (unlinked m v) ?r ?b ?b) av ?r"
    unfolding link_between_def unlinked_def fd(3,4)
    using ne by (auto simp: b [simplified] fun_eq_iff set_bk_def set_fd_def set_last_remainder_def add.assoc)
  show ?thesis
    unfolding split_last_remainder_def split_stores_def Let_def f sm [symmetric]
    by (simp add: upd_mem_def chunk_at_offset_def unsorted_chunks_def main_bit_def av [symmetric] sm e [unfolded of_nat_1] f [unfolded of_nat_1])
qed

text \<open>One chunk of the unsorted list is used, or goes to the bin of its size.\<close>

lemma unsorted_step_cases:
  assumes H: "heap_ok s av base bs L" and L: "L 1 = us @ [v]" and main: "av = main_arena sy" "perturb_byte s = 0"
    and nb: "nb AND MALLOC_ALIGN_MASK = 0" "MINSIZE \<le> nb" "unat nb + 32 < 2 ^ 64" and fuel: "length bs < loop_fuel sy"
  shows "(\<exists>s' bs'. unsorted_step sy av nb bytes tc 0 count False s = Inr (Ret (chunk2mem v), count, False, s') \<and>
      allocated s av base bs nb v s' bs') \<or>
    (\<exists>s' L'. unsorted_step sy av nb bytes tc 0 count False s = Inr (Placed, count + 1, False, s') \<and>
      drained s av base bs [] {} s' bs \<and> heap_ok s' av base bs L' \<and> set (L' 1) \<subseteq> set (L 1) - {v})"
proof -
  let ?m = "mem s" let ?m1 = "unlinked ?m v" let ?sz = "chunksize ?m v"
  note h = heap_okD [OF H] and N = unsorted_last [OF H L]
  obtain ls t ts m1 L1 where P: "bs = ls @ (v, False) # (t, True) # ts" "unlink_chunk ?m v = Inr m1"
    "unbinned m1 av base ls v t ts L1" "\<And>i. set (L1 i) \<subseteq> set (L i)"
    "\<forall>a. m1 a \<noteq> ?m a \<longrightarrow> link_word ?m av bs a" "chunksize m1 v = ?sz"
    by (rule free_in_list [OF H N(6)]) (rule that)
  have m1: "m1 = ?m1" using P(2) N(5) by simp
  note P = P [unfolded m1]
  note V = blockD [OF free_block(1) [OF h(1) N(6)]] and D = layD [OF h(1)]
  show ?thesis
  proof (cases "in_smallbin_range nb \<and> get_bk ?m v = unsorted_chunks av \<and> v = last_remainder ?m av \<and> ?sz > nb + MINSIZE")
    case True
    have "unat (nb + MINSIZE) = unat nb + 32" using nb(3) by (intro unat_offset [of _ 32, simplified]) simp
    then have big: "unat nb + 32 \<le> unat (chunksize ?m1 v)" "32 \<le> unat nb"
      using conjunct2 [OF conjunct2 [OF conjunct2 [OF True]]] nb(2)
      unfolding P(6) by (simp_all add: word_less_nat_alt word_le_nat_alt)
    have "us = []" using True N(7) by blast
    then have bl: "bin_list ?m (header av 1) [v]" using bin_okD(1) [OF bins_holdD(2) [OF h(2), of 1]] L by simp
    have ur: "unat (v + nb) = unat v + unat nb" using big V(4) P(6) by (intro unat_offset) simp
    have "split_last_remainder sy av nb v ?sz s = s\<lparr>mem := split_stores ?m1 av v nb (?sz - nb) True\<rparr>"
      by (rule split_last_stores [OF main(1)])
        (use bl ur V(4) big P(6) D(2) free_block(3) [OF h(1) N(6)] in \<open>auto simp: bin_list_def\<close>)
    moreover have "allocated s av base bs nb v (s\<lparr>mem := split_stores ?m1 av v nb (chunksize ?m1 v - nb) True\<rparr>)
        (ls @ (v, True) # (v + nb, False) # (t, True) # ts)"
      by (rule allocated_part [OF H P(1,3,4,5) nb(1) big(2,1)])
    moreover have "unsorted_step sy av nb bytes tc 0 count False s =
        Inr (Ret (chunk2mem v), count, False, split_last_remainder sy av nb v ?sz s)"
      unfolding unsorted_step_def Let_def N(1,3) bindE_simps if_P [OF True] alloc_perturb_def
      using main(2) calculation(1) by simp
    ultimately show ?thesis unfolding P(6) by auto
  next
    case False
    have rm: "upd_mem (\<lambda>m. set_fd (set_bk m (unsorted_chunks av) (get_bk ?m v)) (get_bk ?m v) (unsorted_chunks av)) s = s\<lparr>mem := ?m1\<rparr>"
      using N(4) by (simp add: upd_mem_def Let_def)
    note step = unsorted_step_def Let_def N(1,3) rm
    show ?thesis
    proof (cases "?sz = nb")
      case True
      have "allocated s av base bs nb v (s\<lparr>mem := set_inuse_bit_at_offset ?m1 v (chunksize ?m1 v)\<rparr>)
          (ls @ (v, True) # (t, True) # ts)"
        by (rule allocated_whole [OF H P(1,3,4,5)]) (simp_all add: True)
      moreover have "unsorted_step sy av nb bytes tc 0 count False s = Inr (Ret (chunk2mem v), count, False,
          s\<lparr>mem := set_inuse_bit_at_offset ?m1 v (chunksize ?m1 v)\<rparr>)"
        unfolding step bindE_simps if_not_P [OF False] if_P [OF True] using True P(6) main(2)
        by (simp add: alloc_perturb_def upd_mem_def mark_non_main_def main(1) [symmetric])
      ultimately show ?thesis by blast
    next
      case ne: False
      have "get_fd_nextsize ?m1 v = NULL" if "\<not> in_smallbin_range (chunksize ?m1 v)"
      proof -
        have big: "MIN_LARGE_SIZE \<le> ?sz" using that P(6) by (simp add: in_smallbin_range_def)
        have "get_fd_nextsize ?m v = NULL"
          using bin_okD(4) [OF bins_holdD(2) [OF h(2), of 1] _ _ big] L by simp
        moreover have "?m1 (v + 32) = ?m (v + 32)"
        proof -
          have bl: "bin_list ?m (header av 1) (us @ v # [])"
            using bin_okD(1) [OF bins_holdD(2) [OF h(2), of 1]] L by simp
          note B = bin_list_neighbours [OF bl]
          have "get_bk ?m v \<in> set (header av 1 # us)" unfolding B(2) by (rule last_in_set) simp
          moreover have "set us \<subseteq> set (L 1)" unfolding L by auto
          moreover have "set (L 1) \<subseteq> frees bs" using h(3) unfolding binned_def by blast
          moreover have "v \<notin> set us" using bl by (auto simp: bin_list_def)
          ultimately have bk: "get_bk ?m v = header av 1 \<or> get_bk ?m v \<in> frees bs \<and> get_bk ?m v \<noteq> v" by auto
          have i: "inner ?m v (v + 32)" by (rule inner_fields(3) [OF h(1) N(6) big])
          then have "v + 32 \<noteq> header av 1 + 24" "v + 32 \<noteq> header av 1 + 16"
            using header_not_inner [OF h(1) N(6), of 1, simplified] by (metis of_nat_1)+
          moreover have "v + 32 \<noteq> get_bk ?m v + 16" if "get_bk ?m v \<in> frees bs" "get_bk ?m v \<noteq> v"
            using inner_unique [OF h(1) N(6) that(1) i] inner_fields(1) [OF h(1) that(1)] that(2) by metis
          ultimately show ?thesis
            using bk B(1) by (auto simp: unlinked_def set_fd_def set_bk_def)
        qed
        ultimately show ?thesis by (simp add: get_fd_nextsize_def)
      qed
      then obtain s' i ys where p: "place_in_bin sy av v (chunksize ?m1 v) (s\<lparr>mem := ?m1\<rparr>) = Inr s'"
        "drained s av base bs [] {} s' bs" "heap_ok s' av base bs (L1(i := ys))" "2 \<le> i"
        using placed_heap [OF H P(1,3,4,5) fuel] by blast
      have "unsorted_step sy av nb bytes tc 0 count False s = Inr (Placed, count + 1, False, s')"
        unfolding step bindE_simps if_not_P [OF False] if_not_P [OF ne] using p(1) P(6) by simp
      moreover have "set ((L1(i := ys)) 1) \<subseteq> set (L 1) - {v}"
      proof -
        have "v \<notin> binned L1"
          using unbinnedD(3) [OF P(3)] frees_without [of ls v "(t, True) # ts"] seg_distinct [OF D(3)] P(1) by blast
        then have "v \<notin> set (L1 1)" unfolding binned_def by blast
        then show ?thesis using P(4) [of 1] p(4) by auto
      qed
      ultimately show ?thesis using p(2,3) by blast
    qed
  qed
qed

text \<open>All of them: the loop ends with a block or with its limit of chunks reached.\<close>

lemma unsorted_loop_allocates:
  assumes "heap_ok s av base bs L" and "card (set (L 1)) < n" and main: "av = main_arena sy" "perturb_byte s = 0"
    and nb: "nb AND MALLOC_ALIGN_MASK = 0" "MINSIZE \<le> nb" "unat nb + 32 < 2 ^ 64" and fuel: "length bs < loop_fuel sy"
  shows "(\<exists>x s' bs' c. unsorted_loop n sy av nb bytes tc 0 iters count False s = Inr (Some (chunk2mem x), c, False, s') \<and>
      allocated s av base bs nb x s' bs') \<or>
    (\<exists>s' c. unsorted_loop n sy av nb bytes tc 0 iters count False s = Inr (None, c, False, s') \<and>
      drained s av base bs [] {} s' bs)"
  using assms(1,2,4)
proof (induction n arbitrary: s L iters count)
  case (Suc n)
  note H = Suc.prems(1)
  show ?case
  proof (cases "L 1" rule: rev_cases)
    case Nil
    then have "get_bk (mem s) (unsorted_chunks av) = unsorted_chunks av"
      using bin_okD(1) [OF bins_holdD(2) [OF heap_okD(2) [OF H], of 1]] by (simp add: bin_list_def unsorted_chunks_def)
    then show ?thesis using drained_refl [OF H] by simp
  next
    case (snoc us v)
    note N = unsorted_last [OF H snoc]
    note step = unsorted_step_cases [OF H snoc main(1) Suc.prems(3) nb fuel, of bytes tc count]
    then consider s' bs' where "unsorted_step sy av nb bytes tc 0 count False s = Inr (Ret (chunk2mem v), count, False, s')"
        "allocated s av base bs nb v s' bs'"
      | s' L' where "unsorted_step sy av nb bytes tc 0 count False s = Inr (Placed, count + 1, False, s')"
        "drained s av base bs [] {} s' bs" "heap_ok s' av base bs L'" "set (L' 1) \<subseteq> set (L 1) - {v}"
      by blast
    then show ?thesis
    proof cases
      case 1
      then show ?thesis using N(1,2) by auto
    next
      case (2 s' L')
      have "card (set (L' 1)) < n"
      proof -
        have "card (set (L' 1)) < card (set (L 1))"
          using 2(4) snoc by (intro psubset_card_mono) auto
        then show ?thesis using Suc.prems(2) by simp
      qed
      moreover have "perturb_byte s' = 0" using 2(2) Suc.prems(3) unfolding drained_def by auto
      ultimately have IH: "(\<exists>x s2 bs' c. unsorted_loop n sy av nb bytes tc 0 (Suc iters) (count + 1) False s' =
            Inr (Some (chunk2mem x), c, False, s2) \<and> allocated s' av base bs nb x s2 bs') \<or>
          (\<exists>s2 c. unsorted_loop n sy av nb bytes tc 0 (Suc iters) (count + 1) False s' = Inr (None, c, False, s2) \<and>
            drained s' av base bs [] {} s2 bs)"
        by (rule Suc.IH [OF 2(3)])
      have e: "unsorted_loop (Suc n) sy av nb bytes tc 0 iters count False s =
          (if MAX_ITERS \<le> Suc iters then Inr (None, count + 1, False, s')
           else unsorted_loop n sy av nb bytes tc 0 (Suc iters) (count + 1) False s')"
        using N(1,2) 2(1) by simp
      show ?thesis
      proof (cases "MAX_ITERS \<le> Suc iters")
        case True
        then show ?thesis unfolding e using 2(2) by auto
      next
        case False
        have tr: "drained s av base bs [] {} s2 bs" if "drained s' av base bs [] {} s2 bs" for s2
          using drained_trans [OF 2(2) that] by simp
        have al: "allocated s av base bs nb x s2 bs2" if "allocated s' av base bs nb x s2 bs2" for x s2 bs2
          by (rule drained_allocated [OF 2(2) that H])
        have "(if MAX_ITERS \<le> Suc iters then X else Y) = Y" for X Y :: "abort + ptr option \<times> u64 \<times> bool \<times> 'a st"
          using False by simp
        then show ?thesis unfolding e using IH al tr by metis
      qed
    qed
  qed
qed simp

section \<open>The bins of larger sizes\<close>

text \<open>What each part of \<open>_int_malloc\<close> does: it allocates a block, or leaves the blocks as they are.\<close>

definition served :: "'k st \<Rightarrow> ptr \<Rightarrow> ptr \<Rightarrow> (ptr \<times> bool) list \<Rightarrow> u64 \<Rightarrow> abort + ptr option \<times> 'k st \<Rightarrow> bool" where
  "served s av base bs nb r \<longleftrightarrow>
     (\<exists>x s' bs'. r = Inr (Some (chunk2mem x), s') \<and> allocated s av base bs nb x s' bs') \<or>
     (\<exists>s'. r = Inr (None, s') \<and> drained s av base bs [] {} s' bs)"

lemma served_none: "heap_ok s av base bs L \<Longrightarrow> served s av base bs nb (Inr (None, s))"
  unfolding served_def using drained_refl by blast

lemma served_drained:
  assumes "drained s av base bs [] {} s1 bs" "served s1 av base bs nb r" "heap_ok s av base bs L"
  shows "served s av base bs nb r"
  using assms(2) drained_allocated [OF assms(1) _ assms(3)] drained_trans [OF assms(1), of "[]" "{}" _ bs]
  unfolding served_def by fastforce

lemma largest_in_bin:
  assumes H: "heap_ok s av base bs L" and i: "64 \<le> i" "i < 127" "L i \<noteq> []" and nb: "nb AND MALLOC_ALIGN_MASK = 0"
    and fuel: "length (L i) < n" and fits: "nb \<le> chunksize (mem s) (hd (L i))"
  defines "m \<equiv> mem s" and "b \<equiv> header av i"
  shows "\<exists>h. largebin_fit n m nb (get_bk_nextsize m (get_fd m b)) = Inr h \<and>
    (\<forall>v. v = (if h \<noteq> get_bk m b \<and> chunksize_nomask m h = chunksize_nomask m (get_fd m h) then get_fd m h else h) \<longrightarrow>
      v \<in> frees bs \<and> chunksize m v = chunksize m h \<and> nb \<le> chunksize m v)"
proof -
  note h = heap_okD [OF H]
  have S: "set (L i) \<subseteq> frees bs" using h(3) unfolding binned_def by blast
  have sl: "skip_list m b (L i)"
    using bin_okD(2) [OF bins_holdD(2) [OF h(2), of i] i(1)] i unfolding m_def b_def by simp
  have ph: "\<forall>x \<in> set (L i). plain_head m x"
    using blockD(7) [OF free_block(1) [OF h(1)]] S unfolding m_def by blast
  have hd: "get_fd m b = hd (L i)" using skip_list_ends(1) [OF sl i(3)] .
  obtain h where f: "largebin_fit n m nb (get_bk_nextsize m (hd (L i))) = Inr h" "h \<in> set (heads m (L i))"
    "nb \<le> chunksize m h"
    using skip_list_fit [OF sl i(3) fits [folded m_def] fuel] by blast
  have "h \<in> set (L i)" using f(2) heads_subset unfolding heads_def by blast
  then have "v \<in> set (L i) \<and> chunksize m v = chunksize m h"
    if "v = (if h \<noteq> get_bk m b \<and> chunksize_nomask m h = chunksize_nomask m (get_fd m h) then get_fd m h else h)" for v
    using largebin_victim(3) [OF sl i(3) ph nb _ that] by blast
  then show ?thesis using f(1,3) S unfolding hd by (intro exI [of _ h]) auto
qed

lemma bin_length:
  assumes "heap_ok s av base bs L" "length bs < n"
  shows "length (L i) < n"
proof (cases "L i = []")
  case False
  note h = heap_okD [OF assms(1)]
  have "1 \<le> i \<and> i < 127" using bins_holdD(1) [OF h(2), of "last (L i)" i] False by simp
  then have "distinct (L i)" using bin_okD(1) [OF bins_holdD(2) [OF h(2), of i]] by (simp add: bin_list_def)
  then have "length (L i) = card (set (L i))" by (simp add: distinct_card)
  also have "\<dots> \<le> card (fst ` set bs)"
    using h(3) frees_subset [of bs] unfolding binned_def by (intro card_mono) auto
  also have "\<dots> \<le> length bs" by (metis card_image_le card_length finite_set le_trans)
  finally show ?thesis using assms(2) by simp
qed (use assms(2) in simp)

lemma largebin_served:
  assumes H: "heap_ok s av base bs L" and main: "av = main_arena sy" "perturb_byte s = 0"
    and nb: "nb AND MALLOC_ALIGN_MASK = 0" "MINSIZE \<le> nb" "\<not> in_smallbin_range nb" and fuel: "length bs < loop_fuel sy"
  shows "served s av base bs nb (int_malloc_largebin sy av nb bytes (bin_index nb) s)"
proof -
  let ?i = "unat (bin_index nb)" let ?b = "header av ?i" let ?m = "mem s"
  note h = heap_okD [OF H]
  have "MIN_LARGE_SIZE \<le> nb" using nb(3) by (simp add: in_smallbin_range_def)
  then have i: "64 \<le> ?i" "?i < 127"
    using large_bin_number [of nb] bin_index_range [OF nb(2)] by (simp_all add: word_le_nat_alt)
  have b: "bin_at av (bin_index nb) = ?b" by simp
  have sl: "skip_list ?m ?b (L ?i)"
    using bin_okD(2) [OF bins_holdD(2) [OF h(2), of ?i] i(1)] i by simp
  have S: "set (L ?i) \<subseteq> frees bs" using h(3) unfolding binned_def by blast
  have ph: "\<forall>x \<in> set (L ?i). plain_head ?m x" using blockD(7) [OF free_block(1) [OF h(1)]] S by blast
  show ?thesis
  proof (cases "L ?i \<noteq> [] \<and> nb \<le> chunksize ?m (hd (L ?i))")
    case False
    have "\<not> (get_fd ?m ?b \<noteq> ?b \<and> chunksize_nomask ?m (get_fd ?m ?b) \<ge> nb)"
    proof (cases "L ?i = []")
      case True
      then show ?thesis using skip_listD(1) [OF sl] by (simp add: bin_list_def)
    next
      case ne: False
      then show ?thesis using largebin_victim(2) [OF sl ne ph nb(1)] False by blast
    qed
    then have "int_malloc_largebin sy av nb bytes (bin_index nb) s = Inr (None, s)"
      unfolding int_malloc_largebin_def b Let_def by (rule if_not_P)
    then show ?thesis using served_none [OF H] by simp
  next
    case True
    note V = largebin_victim [OF sl _ ph nb(1)]
    obtain hd where f: "largebin_fit (loop_fuel sy) ?m nb (get_bk_nextsize ?m (get_fd ?m ?b)) = Inr hd"
      "\<forall>v. v = (if hd \<noteq> get_bk ?m ?b \<and> chunksize_nomask ?m hd = chunksize_nomask ?m (get_fd ?m hd) then get_fd ?m hd else hd) \<longrightarrow>
         v \<in> frees bs \<and> chunksize ?m v = chunksize ?m hd \<and> nb \<le> chunksize ?m v"
      using largest_in_bin [OF H i _ nb(1) bin_length [OF H fuel]] True by blast
    define v where "v = (if hd \<noteq> get_bk ?m ?b \<and> chunksize_nomask ?m hd = chunksize_nomask ?m (get_fd ?m hd)
      then get_fd ?m hd else hd)"
    have v: "v \<in> frees bs" "chunksize ?m v = chunksize ?m hd" "nb \<le> chunksize ?m v" using f(2) v_def by blast+
    obtain s' bs' where "split_or_exhaust sy ''malloc(): corrupted unsorted chunks'' av nb bytes v (chunksize ?m v) s =
        Inr (chunk2mem v, s')" "allocated s av base bs nb v s' bs'"
      using split_or_exhaust_allocates [OF H v(1) main nb(1,2) v(3)] by blast
    moreover have fits: "get_fd ?m ?b \<noteq> ?b \<and> chunksize_nomask ?m (get_fd ?m ?b) \<ge> nb" using V(1,2) True by blast
    ultimately have "int_malloc_largebin sy av nb bytes (bin_index nb) s = Inr (Some (chunk2mem v), s')"
      unfolding int_malloc_largebin_def b Let_def if_P [OF fits] f(1) bindE_simps v_def [symmetric] v(2) [symmetric]
      by simp
    then show ?thesis unfolding served_def using \<open>allocated s av base bs nb v s' bs'\<close> by blast
  qed
qed

text \<open>The search of the bin map, as the walk over the bins that it equals.\<close>

lemma unmark_other:
  assumes "j < 128" "r < 128" "j \<noteq> r" "get_binmap s av (of_nat j) \<noteq> 0"
  shows "get_binmap (unmark_bin av (of_nat r) s) av (of_nat j) \<noteq> 0"
proof -
  have eq: "(of_nat (j div 32) :: u32) = of_nat (r div 32) \<longleftrightarrow> j div 32 = r div 32"
    using assms(1,2) by (simp add: word_unat_eq_iff unat_of_nat)
  have "j mod 32 \<noteq> r mod 32" if "j div 32 = r div 32"
    using that assms(3) by (metis div_mult_mod_eq)
  moreover have "marked (binmap s av) j" using assms(1,4) by (simp add: get_binmap_marked)
  ultimately have "marked (binmap (unmark_bin av (of_nat r) s) av) j"
    using eq assms(2) by (auto simp: unmark_bin_def marked_def idx_parts bit_simps)
  then show ?thesis using assms(1) by (simp add: get_binmap_marked)
qed

lemma unmark_empty_bin:
  assumes H: "heap_ok s av base bs L" and i: "2 \<le> i" "i < 128" "L i = []"
  shows "drained s av base bs [] {} (unmark_bin av (of_nat i) s) bs" "heap_ok (unmark_bin av (of_nat i) s) av base bs L"
proof -
  let ?s = "unmark_bin av (of_nat i) s"
  note h = heap_okD [OF H]
  have m: "mem ?s = mem s" "system_mem ?s = system_mem s" by (simp_all add: unmark_bin_def)
  have "get_binmap ?s av (of_nat j) \<noteq> 0" if j: "2 \<le> j" "L j \<noteq> []" for j
  proof -
    have "j < 127" using bins_holdD(1) [OF h(2), of "last (L j)" j] j(2) by simp
    then show ?thesis using unmark_other [of j i] i j h(4) by (cases "j = i") auto
  qed
  then show ok: "heap_ok ?s av base bs L" unfolding heap_ok_def m using h by blast
  have "\<exists>m b. ?s = s\<lparr>mem := m, binmap := b\<rparr>" by (cases s) (auto simp: unmark_bin_def)
  then show "drained s av base bs [] {} ?s bs" unfolding drained_def m used_kept_def using ok by auto
qed

lemma binmap_scan_served:
  assumes "heap_ok s av base bs L" and main: "av = main_arena sy" "perturb_byte s = 0"
    and nb: "nb AND MALLOC_ALIGN_MASK = 0" "MINSIZE \<le> nb" and q: "unat (bin_index nb) < q" "q \<le> 128"
  shows "served s av base bs nb (binmap_scan sy av nb bytes (map of_nat [q..<128]) s)"
  using assms(1,3,6,7)
proof (induction "128 - q" arbitrary: q s)
  case 0
  then have "q = 128" by simp
  then show ?case using served_none [OF 0(2)] by simp
next
  case (Suc n)
  note H = Suc.prems(1) and h = heap_okD [OF Suc.prems(1)]
  let ?b = "header av q" and ?m = "mem s"
  have q: "2 \<le> q" "q < 128" "[q..<128] = q # [Suc q..<128]"
    using Suc.hyps(2) Suc.prems(3) bin_index_range [OF nb(2)] by (auto simp: word_le_nat_alt upt_conv_Cons)
  have IH: "served s' av base bs nb (binmap_scan sy av nb bytes (map of_nat [Suc q..<128]) s')"
    if "heap_ok s' av base bs L" "perturb_byte s' = 0" for s'
    by (rule Suc.hyps(1)) (use that Suc.hyps(2) Suc.prems(3) q in auto)
  have bl: "bin_list ?m ?b (L q)" using bin_okD(1) [OF bins_holdD(2) [OF h(2), of q]] q by simp
  show ?case
  proof (cases "L q" rule: rev_cases)
    case Nil
    note U = unmark_empty_bin [OF H q(1,2) Nil]
    have "get_bk ?m ?b = ?b" using bl Nil by (simp add: bin_list_def)
    then have "binmap_scan sy av nb bytes (map of_nat [q..<128]) s =
        binmap_scan sy av nb bytes (map of_nat [Suc q..<128])
          (if get_binmap s av (of_nat q) = 0 then s else unmark_bin av (of_nat q) s)"
      unfolding q(3) by simp
    then show ?thesis
      using IH [OF H Suc.prems(2)] served_drained [OF U(1) IH [OF U(2)] H] Suc.prems(2)
      by (simp add: unmark_bin_def)
  next
    case (snoc us v)
    have bk: "get_bk ?m ?b = v" using bin_list_last [OF bl [unfolded snoc]] by simp
    have vb: "v \<noteq> ?b" using bl unfolding snoc by (auto simp: bin_list_def)
    have v: "v \<in> set (L q)" by (simp add: snoc)
    then have fr: "v \<in> frees bs" using h(3) unfolding binned_def by blast
    have "unat (bin_index (chunksize ?m v)) = q" using bin_okD(3) [OF bins_holdD(2) [OF h(2), of q] q(1) v] q by simp
    then have "nb < chunksize ?m v"
      using bins.larger_class [of nb "chunksize ?m v"] Suc.prems(3) by (simp add: word_less_nat_alt)
    then have le: "nb \<le> chunksize ?m v" by simp
    obtain s' bs' where s': "split_or_exhaust sy ''malloc(): corrupted unsorted chunks 2'' av nb bytes v (chunksize ?m v) s =
        Inr (chunk2mem v, s')" "allocated s av base bs nb v s' bs'"
      using split_or_exhaust_allocates [OF H fr main(1) Suc.prems(2) nb le] by blast
    have "get_binmap s av (of_nat q) \<noteq> 0" using h(4) [OF q(1)] snoc by simp
    then have "binmap_scan sy av nb bytes (map of_nat [q..<128]) s = Inr (Some (chunk2mem v), s')"
      unfolding q(3) using bk vb s'(1) le by (simp add: Let_def assertE_def)
    then show ?thesis unfolding served_def using s'(2) by blast
  qed
qed

lemma binmap_served:
  assumes "heap_ok s av base bs L" "av = main_arena sy" "perturb_byte s = 0" "nb AND MALLOC_ALIGN_MASK = 0" "MINSIZE \<le> nb"
  shows "served s av base bs nb (int_malloc_binmap sy av nb bytes (bin_index nb) s)"
proof -
  have i: "unat (bin_index nb) < 127" using bin_index_range [OF assms(5)] by (simp add: word_le_nat_alt)
  show ?thesis
    unfolding binmap_search_eq_scan [OF i] by (rule binmap_scan_served [OF assms]) (use i in auto)
qed

section \<open>Top\<close>

lemma top_word:
  assumes "lay m av base bs" "unat k < unat (chunksize m (get_top m av)) + 16"
  shows "unat (get_top m av + k) = unat (get_top m av) + unat k"
  using blockD(4) [OF layD(4) [OF assms(1)]] assms(2) by (intro unat_offset) simp

text \<open>The old top, of at least \<open>nb + MINSIZE\<close> bytes, becomes the last block.\<close>

lemma allocated_top:
  assumes H: "heap_ok s av base bs L" and nb: "nb AND MALLOC_ALIGN_MASK = 0" "MINSIZE \<le> nb"
    "unat nb + 32 \<le> unat (chunksize (mem s) (get_top (mem s) av))"
  defines "x \<equiv> get_top (mem s) av"
  shows "allocated s av base bs nb x (s\<lparr>mem := carve_top (mem s) av nb 0\<rparr>) (bs @ [(x, True)])"
proof -
  let ?m = "mem s" let ?sz = "chunksize ?m x" let ?r = "x + nb" let ?m' = "carve_top ?m av nb 0"
  note h = heap_okD [OF H]
  note D = layD [OF h(1), folded x_def]
  note T = blockD [OF D(4)]
  have av: "unat (av + 96) = unat av + 96"
    using D(2) unat_lt_64 [of base] by (intro unat_offset [of _ 96, simplified]) simp
  have n32: "32 \<le> unat nb" using nb(2) by (simp add: word_le_nat_alt)
  note big = nb(3) [folded x_def]
  have u: "unat (x + 8) = unat x + 8" "unat ?r = unat x + unat nb" "unat (?r + 8) = unat x + unat nb + 8"
  proof -
    show "unat (x + 8) = unat x + 8" using T(4) by (intro unat_offset [of _ 8, simplified]) simp
    show r: "unat ?r = unat x + unat nb" using T(4) big by (intro unat_offset) simp
    have "unat (?r + 8) = unat ?r + 8" using T(4) big r by (intro unat_offset [of _ 8, simplified]) simp
    then show "unat (?r + 8) = unat x + unat nb + 8" using r by simp
  qed
  have m': "?m' = ?m(av + 96 := ?r, x + 8 := nb OR PREV_INUSE, ?r + 8 := (?sz - nb) OR PREV_INUSE)"
    by (simp add: carve_top_def x_def [symmetric] set_top_def set_head_def Let_def chunk_at_offset_def)
  have w: "?m' a = ?m a" if "unat a \<noteq> unat av + 96" "unat a \<noteq> unat x + 8" "unat a \<noteq> unat x + unat nb + 8" for a
    using that av u unfolding m' by auto
  have ne: "x + 8 \<noteq> ?r + 8" using n32 u by auto
  have "av + 96 \<noteq> x + 8" "av + 96 \<noteq> ?r + 8" using av u D(2,5) by (intro unat_neq; linarith)+
  then have top: "get_top ?m' av = ?r" by (simp add: m' get_top_def)
  have hd: "?m' (x + 8) = nb OR PREV_INUSE" "?m' (?r + 8) = (?sz - nb) OR PREV_INUSE" using ne by (simp_all add: m')
  have us: "unat (?sz - nb) = unat ?sz - unat nb" using big by (intro unat_sub) (simp add: word_le_nat_alt)
  have al: "(?sz - nb) AND MALLOC_ALIGN_MASK = 0" "aligned ?r"
    using aligned_sub [of ?sz nb] T(3) nb(1) aligned_add [OF T(1) nb(1)] by (simp_all add: aligned_def)
  have cx: "chunksize ?m' x = nb" "chunksize ?m' ?r = ?sz - nb"
    by (rule head_same [where bits = PREV_INUSE]; use nb(1) al(1) hd in simp)+
  have px: "prev_inuse ?m' x" "prev_inuse ?m' ?r"
    using prev_inuse_bit [of ?m' x nb 0] prev_inuse_bit [of ?m' ?r "?sz - nb" 0] hd by simp_all
  have nx: "next_chunk ?m' x = ?r" "next_chunk ?m' ?r = next_chunk ?m x" by (simp_all add: next_chunk_def cx)
  have bx: "block ?m' True x True" "block ?m' True ?r True"
    unfolding block_def using T(1,4) al cx px nb(1,2) big us u(2) by (simp_all add: word_le_nat_alt)
  have sg: "seg ?m' base True bs x True" "used_kept ?m ?m' bs"
    using seg_words [OF D(3), of ?m'] seg_words_used [OF D(3), of ?m'] w D(2) by auto
  have lay': "lay ?m' av base (bs @ [(x, True)])"
    unfolding lay_def top seg_append using D(1,2) sg(1) bx nx(1) by auto
  have bh: "bins_hold ?m' av L"
  proof (rule bins_hold_unused [OF h(1,2)])
    show sub: "binned L \<subseteq> frees bs" using h(3) by simp
    fix a and j :: nat assume a: "?m' a \<noteq> ?m a" and j: "1 \<le> j" "j < 128"
    have a': "unat a = unat av + 96 \<or> unat a = unat x + 8 \<or> unat a = unat x + unat nb + 8" using w a by blast
    show "\<not> uses ?m av j (set (L j)) a"
    proof (rule uses_outside [OF h(1) sub j])
      show "unat a < unat av + 112 \<or> unat av + 2144 \<le> unat a" using a' D(2,5) by auto
      fix y assume "y \<in> binned L"
      then have "y \<in> frees bs" using sub by blast
      note y = free_block(3,4) [OF h(1) this, folded x_def]
      then show "unat a < unat y + 8 \<or> unat y + unat (chunksize ?m y) \<le> unat a" using a' D(2) by auto
    qed
  qed
  have fr: "binned L = frees (bs @ [(x, True)])" using h(3) by (simp add: frees_def)
  have hend: "next_chunk ?m' (get_top ?m' av) = next_chunk ?m (get_top ?m av)" using top nx(2) x_def by simp
  have "heap_ok (s\<lparr>mem := ?m'\<rparr>) av base (bs @ [(x, True)]) L"
    unfolding heap_ok_def using lay' bh fr h(4,5) hend by simp
  moreover have "\<exists>m b. s\<lparr>mem := ?m'\<rparr> = s\<lparr>mem := m, binmap := b\<rparr>"
    by (intro exI [of _ ?m'] exI [of _ "binmap s"]) simp
  moreover have "(x, True) \<notin> set bs"
    using seg_block(2) [OF D(3), of x True] seg_block(3) [OF D(3), of x True] blockD(2) by fastforce
  moreover have "?m' a = ?m a" if "unat a < unat av + 96" for a using w [of a] that D(2,5) by simp
  moreover have "plain_head ?m' x" using hd(1) cx(1) nb(1) by (simp add: plain_head_def chunksize_nomask_def)
  ultimately show ?thesis unfolding allocated_def using hend sg(2) cx(1) by auto
qed

lemma top_served:
  assumes H: "heap_ok s av base bs L" and main: "av = main_arena sy" "perturb_byte s = 0"
    and nb: "nb AND MALLOC_ALIGN_MASK = 0" "MINSIZE \<le> nb" "unat nb + 32 < 2 ^ 64"
  shows "served s av base bs nb (int_malloc_top sy av nb bytes s)"
    "int_malloc_top sy av nb bytes s = Inr (None, s') \<Longrightarrow> s' = s \<and> chunksize (mem s) (get_top (mem s) av) < nb + MINSIZE"
proof -
  let ?x = "get_top (mem s) av" let ?sz = "chunksize (mem s) ?x"
  note h = heap_okD [OF H] and D = layD [OF heap_okD(1) [OF H]]
  have sys: "\<not> system_mem s av < ?sz"
    using h(5) blockD(9) [OF D(4)] D(5) by (simp add: word_less_nat_alt)
  have nb32: "unat (nb + MINSIZE) = unat nb + 32" using nb(3) by (intro unat_offset [of _ 32, simplified]) simp
  have e: "int_malloc_top sy av nb bytes s = (if nb + MINSIZE \<le> ?sz
      then Inr (Some (chunk2mem ?x), s\<lparr>mem := carve_top (mem s) av nb 0\<rparr>) else Inr (None, s))"
    using int_malloc_top_carves [OF main(2) _ , of av nb sy bytes] sys main(1)
    by (auto simp: main_bit_def int_malloc_top_def Let_def)
  show "served s av base bs nb (int_malloc_top sy av nb bytes s)"
  proof (cases "nb + MINSIZE \<le> ?sz")
    case True
    then have "unat nb + 32 \<le> unat ?sz" using nb32 by (simp add: word_le_nat_alt)
    note A = allocated_top [OF H nb(1,2) this]
    show ?thesis unfolding e if_P [OF True] served_def using A by blast
  next
    case False
    show ?thesis unfolding e if_not_P [OF False] using H by (rule served_none)
  qed
  show "int_malloc_top sy av nb bytes s = Inr (None, s') \<Longrightarrow> s' = s \<and> ?sz < nb + MINSIZE"
    unfolding e by (auto split: if_splits)
qed

end
