(* ===== verification/Refit.thy ===== *)
theory Refit
  imports HeapUse
begin

text \<open>
  Blocks in use that change among themselves (\<open>refits\<close>): stores into a block, two neighbours that become
  one, one that becomes two. The rest of the heap and the bins are not concerned.
\<close>

text \<open>
  The blocks \<open>mid\<close> from \<open>p\<close> to \<open>q\<close>, all in use, are replaced by the blocks \<open>mid'\<close>, all in use: the stores
  are between the header of \<open>p\<close> and the header of \<open>q\<close>.
\<close>

definition refits :: "memory \<Rightarrow> memory \<Rightarrow> (ptr \<times> bool) list \<Rightarrow> (ptr \<times> bool) list \<Rightarrow> bool \<Rightarrow> ptr \<Rightarrow> ptr \<Rightarrow> bool" where
  "refits m m' mid mid' pu p q \<longleftrightarrow>
     mid \<noteq> [] \<and> seg m p pu mid q True \<and> seg m' p pu mid' q True \<and> frees mid = {} \<and> frees mid' = {} \<and>
     (\<forall>a. m' a \<noteq> m a \<longrightarrow> unat p + 8 \<le> unat a \<and> unat a \<le> unat q)"

lemma seg_again:
  assumes "seg m p pu bs e eu" "seg m p' pu' bs e' eu'" "bs \<noteq> []"
  shows "p' = p" "pu' = pu" "e' = e" "eu' = eu"
proof -
  obtain x u cs where bs: "bs = (x, u) # cs" using assms(3) by (metis list.exhaust surj_pair)
  have b: "block m pu x u" "block m pu' x u" and pp: "p' = p" using assms(1,2) unfolding bs by auto
  show "p' = p" by (rule pp)
  show "pu' = pu" using blockD(5) [OF b(1)] blockD(5) [OF b(2)] by blast
  have "e' = e \<and> eu' = eu" if "seg m a w cs e eu" "seg m a w cs e' eu'" for a w
    using that
  proof (induction cs arbitrary: a w)
    case (Cons c cs)
    obtain x u where "c = (x, u)" by (cases c)
    then show ?case using Cons.IH [of "next_chunk m x" u] Cons.prems by simp
  qed simp
  then show "e' = e" "eu' = eu" using assms(1,2) unfolding bs by auto
qed

lemma refit_heap:
  assumes H: "heap_ok s av base (ls @ mid @ rs) L" and R: "refits (mem s) m' mid mid' pu p q"
  defines "s' \<equiv> s\<lparr>mem := m'\<rparr>"
  shows "heap_ok s' av base (ls @ mid' @ rs) L" "heap_end s' av = heap_end s av"
    "used_kept (mem s) m' (ls @ rs)" "unat b < unat av + 112 \<Longrightarrow> m' b = mem s b"
    "(y, True) \<in> set (ls @ rs) \<Longrightarrow> chunksize_nomask m' y = chunksize_nomask (mem s) y" "unat base \<le> unat p"
    "unat q \<le> unat (get_top (mem s) av)"
proof -
  let ?m = "mem s"
  note h = heap_okD [OF H] and D = layD [OF heap_okD(1) [OF H]]
  have mid: "mid \<noteq> []" and sm: "seg ?m p pu mid q True" "seg m' p pu mid' q True"
    and fr: "frees mid = {}" "frees mid' = {}" and w: "\<And>a. m' a \<noteq> ?m a \<Longrightarrow> unat p + 8 \<le> unat a \<and> unat a \<le> unat q"
    using R unfolding refits_def by blast+
  obtain p' pu' q' qu' where s0: "seg ?m base True ls p' pu'" "seg ?m p' pu' mid q' qu'"
    "seg ?m q' qu' rs (get_top ?m av) True" using D(3) unfolding seg_append by blast
  note sa = seg_again [OF sm(1) s0(2) mid]
  have sl: "seg ?m base True ls p pu" and sr: "seg ?m q True rs (get_top ?m av) True" using s0(1,3) unfolding sa .
  have le: "unat base \<le> unat p" "unat p \<le> unat q" "unat q \<le> unat (get_top ?m av)"
    using seg_le [OF sl] seg_le [OF sm(1)] seg_le [OF sr] .
  then show "unat base \<le> unat p" "unat q \<le> unat (get_top ?m av)" by simp_all
  have same: "m' a = ?m a" if "unat a < unat p + 8 \<or> unat q < unat a" for a using w [of a] that by (meson not_le)
  show low: "unat b < unat av + 112 \<Longrightarrow> m' b = ?m b" for b using same [of b] le(1) D(2) by simp
  have t8: "unat (get_top ?m av + 8) = unat (get_top ?m av) + 8"
    using blockD(4) [OF D(4)] by (intro unat_offset [of _ 8, simplified]) simp
  have av: "unat (av + 96) = unat av + 96"
    using D(2) unat_lt_64 [of base] by (intro unat_offset [of _ 96, simplified]) simp
  have top: "get_top m' av = get_top ?m av" using low [of "av + 96"] av by (simp add: get_top_def)
  have th: "m' (get_top ?m av + 8) = ?m (get_top ?m av + 8)" using same t8 le(3) by simp
  then have nx: "next_chunk m' (get_top ?m av) = next_chunk ?m (get_top ?m av)"
    by (simp add: next_chunk_def chunksize_def chunksize_nomask_def)
  have ms: "mem s' = m'" by (simp add: s'_def)
  show "heap_end s' av = heap_end s av" unfolding ms top by (rule nx)
  have l1: "seg m' base True ls p pu" "used_kept ?m m' ls"
    using seg_words [OF sl, of m'] seg_words_used [OF sl, of m'] same by auto
  have l2: "seg m' q True rs (get_top ?m av) True" "used_kept ?m m' rs"
    using seg_words [OF sr, of m'] seg_words_used [OF sr, of m'] same by auto
  show "used_kept ?m m' (ls @ rs)" using l1(2) l2(2) unfolding used_kept_def by auto
  show "chunksize_nomask m' y = chunksize_nomask ?m y" if y: "(y, True) \<in> set (ls @ rs)"
  proof -
    consider "(y, True) \<in> set ls" | "(y, True) \<in> set rs" using y by auto
    then have "unat y + 8 \<noteq> 0 \<and> unat (y + 8) = unat y + 8 \<and> (unat y + 8 < unat p + 8 \<or> unat q < unat y + 8)"
    proof cases
      case 1
      obtain a where "block ?m a y True" using seg_block(3) [OF sl 1] by blast
      note Y = blockD [OF this]
      have "unat (y + 8) = unat y + 8" using Y(4) by (intro unat_offset [of _ 8, simplified]) simp
      then show ?thesis using seg_block(2) [OF sl 1] Y(2) by simp
    next
      case 2
      obtain a where "block ?m a y True" using seg_block(3) [OF sr 2] by blast
      note Y = blockD [OF this]
      have "unat (y + 8) = unat y + 8" using Y(4) by (intro unat_offset [of _ 8, simplified]) simp
      then show ?thesis using seg_block(1) [OF sr 2] by simp
    qed
    then show ?thesis using same [of "y + 8"] by (simp add: chunksize_nomask_def)
  qed
  have "block m' True (get_top ?m av) True = block ?m True (get_top ?m av) True"
    by (rule block_cong(1)) (use th in simp_all)
  then have "lay m' av base (ls @ mid' @ rs)"
    unfolding lay_def top seg_append using D(1,2,4) l1(1) l2(1) sm(2) by blast
  moreover have "bins_hold m' av L"
  proof (rule bins_hold_unused [OF h(1,2)])
    show sub: "binned L \<subseteq> frees (ls @ mid @ rs)" using h(3) by simp
    fix b and j :: nat assume b: "m' b \<noteq> ?m b" and j: "1 \<le> j" "j < 128"
    note wb = w [OF b]
    show "\<not> uses ?m av j (set (L j)) b"
    proof (rule uses_outside [OF h(1) sub j])
      show "unat b < unat av + 112 \<or> unat av + 2144 \<le> unat b" using wb le(1) D(2) by simp
      fix y assume "y \<in> binned L"
      then have "(y, False) \<in> set ls \<or> (y, False) \<in> set rs" using h(3) fr(1) by (auto simp: frees_def)
      then show "unat b < unat y + 8 \<or> unat y + unat (chunksize ?m y) \<le> unat b"
        using seg_block(2) [OF sl, of y False] seg_block(1) [OF sr, of y False] wb by auto
    qed
  qed
  ultimately show "heap_ok s' av base (ls @ mid' @ rs) L"
    unfolding heap_ok_def ms using h(3,4,5) top nx fr by (simp add: s'_def)
qed

text \<open>Stores into the body of one block.\<close>

lemma block_refits:
  assumes "block m pu x True" "\<And>a. m' a \<noteq> m a \<Longrightarrow> unat x + 16 \<le> unat a \<and> unat a \<le> unat x + unat (chunksize m x)"
  shows "refits m m' [(x, True)] [(x, True)] pu x (next_chunk m x)" "chunksize m' x = chunksize m x"
proof -
  note X = blockD [OF assms(1)]
  have "unat (x + 8) = unat x + 8" using X(4) by (intro unat_offset [of _ 8, simplified]) simp
  then have "m' (x + 8) = m (x + 8)" using assms(2) [of "x + 8"] by auto
  note C = block_cong [where u = True and m = m and m' = m' and x = x, OF this, simplified]
  have "unat x + 8 \<le> unat a \<and> unat a \<le> unat (next_chunk m x)" if "m' a \<noteq> m a" for a
    using assms(2) [OF that] X(9) by simp
  then show "refits m m' [(x, True)] [(x, True)] pu x (next_chunk m x)"
    unfolding refits_def using C assms(1) by simp
  show "chunksize m' x = chunksize m x" by (rule C(3))
qed

end
