(* ===== verification/Arena.thy ===== *)
theory Arena
  imports HeapMalloc Refit FastProps Alloc
begin

text \<open>
  An arena with its fast bins: \<open>arena_ok\<close> is the invariant of all of it, \<open>live\<close> the blocks that the program
  holds. It is kept by what happens to a heap in \<open>drained\<close> and \<open>allocated\<close>, by a store of the program
  into a block, by the fast bins, by consolidation and by \<open>free\<close> (\<open>takes\<close>).
\<close>

section \<open>An arena and the blocks that the program holds\<close>

text \<open>
  The configuration: the main arena, no cache of the thread, no perturbation, a heap below the trim
  threshold and small enough for the bound on loops. What the code relies on in \<^verbatim>\<open>arena.c\<close>, which is not in the repository, is that a chunk without the
  \<open>NON_MAIN_ARENA\<close> flag belongs to the main arena.
\<close>

definition settled :: "'k sys \<Rightarrow> ptr \<Rightarrow> ptr \<Rightarrow> 'k st \<Rightarrow> bool" where
  "settled sy av base s \<longleftrightarrow>
     av = main_arena sy \<and> av \<noteq> NULL \<and> perturb_byte s = 0 \<and> tcache s = NULL \<and>
     (tcache_shutting_down s \<or> tcache_max_bytes (mp s) = 0) \<and> ucast (global_max_fast s) \<le> MAX_FAST_SIZE \<and>
     (\<forall>s p. chunk_main_arena (mem s) p \<longrightarrow> arena_for_chunk sy s p = av) \<and>
     heap_end s av AND (dl_pagesize sy - 1) = 0 \<and>
     unat (heap_end s av) < unat base + unat (trim_threshold (mp s)) \<and>
     unat (heap_end s av) < unat base + 32 * loop_fuel sy"

lemma settled_same:
  assumes "settled sy av base s" "heap_end s' av = heap_end s av" "perturb_byte s' = perturb_byte s" "tcache s' = tcache s"
    "tcache_shutting_down s' = tcache_shutting_down s" "mp s' = mp s" "global_max_fast s' = global_max_fast s"
  shows "settled sy av base s'"
  using assms(1) unfolding settled_def assms(2-7) .

definition fast_chunks :: "(u32 \<Rightarrow> ptr list) \<Rightarrow> ptr set" where
  "fast_chunks F = set (concat (map F fastbin_indices))"

text \<open>The blocks that the program holds: in use and in no fast bin.\<close>

definition live :: "(ptr \<times> bool) list \<Rightarrow> (u32 \<Rightarrow> ptr list) \<Rightarrow> ptr set" where
  "live bs F = {x. (x, True) \<in> set bs} - fast_chunks F"

definition arena_ok :: "'k sys \<Rightarrow> ptr \<Rightarrow> ptr \<Rightarrow> 'k st \<Rightarrow> (ptr \<times> bool) list \<Rightarrow> (u32 \<Rightarrow> ptr list) \<Rightarrow> bool" where
  "arena_ok sy av base s bs F \<longleftrightarrow>
     (\<exists>L. heap_ok s av base bs L) \<and> fast_bins sy s av bs F fastbin_indices \<and>
     (\<forall>x. (x, True) \<in> set bs \<longrightarrow> chunksize_nomask (mem s) x AND (IS_MMAPPED OR NON_MAIN_ARENA) = 0) \<and>
     (\<forall>x \<in> fast_chunks F. chunksize (mem s) x \<le> MAX_FAST_SIZE) \<and> settled sy av base s"

text \<open>The blocks \<open>X\<close> keep their sizes and contents.\<close>

definition untouched :: "memory \<Rightarrow> memory \<Rightarrow> ptr set \<Rightarrow> bool" where
  "untouched m m' X \<longleftrightarrow> (\<forall>x \<in> X. chunksize m' x = chunksize m x \<and>
     (\<forall>a. unat x + 16 \<le> unat a \<and> unat a \<le> unat x + unat (chunksize m x) \<longrightarrow> m' a = m a))"

lemma untouched_refl [simp]: "untouched m m X"
  by (simp add: untouched_def)

lemma untouched_trans: "untouched m m1 X \<Longrightarrow> untouched m1 m2 X \<Longrightarrow> untouched m m2 X"
  by (simp add: untouched_def)

lemma untouched_sub: "untouched m m' X \<Longrightarrow> Y \<subseteq> X \<Longrightarrow> untouched m m' Y"
  unfolding untouched_def by blast

lemma used_kept_untouched: "used_kept m m' bs \<Longrightarrow> untouched m m' {x. (x, True) \<in> set bs}"
  using used_kept_chunksize unfolding untouched_def used_kept_def by blast

lemma untouchedD:
  assumes "untouched m m' X" "x \<in> X" "block m pu x u"
  shows "chunksize m' x = chunksize m x" "m' (x + 16) = m (x + 16)"
proof -
  note B = blockD [OF assms(3)]
  show "chunksize m' x = chunksize m x" using assms(1,2) unfolding untouched_def by blast
  have "unat (x + 16) = unat x + 16" using B(4) by (intro unat_offset [of _ 16, simplified]) simp
  then show "m' (x + 16) = m (x + 16)" using assms(1,2) B(2) unfolding untouched_def by auto
qed

lemma used_block:
  assumes "heap_ok s av base bs L" "(x, True) \<in> set bs"
  obtains pu where "block (mem s) pu x True" "unat base \<le> unat x"
    "unat x + unat (chunksize (mem s) x) \<le> unat (get_top (mem s) av)"
  using seg_block [OF layD(3) [OF heap_okD(1) [OF assms(1)]] assms(2)] by blast

text \<open>The number of blocks is bounded by the room for them.\<close>

lemma seg_room: "seg m p pu bs e eu \<Longrightarrow> 32 * length bs + unat p \<le> unat e"
proof (induction bs arbitrary: p pu)
  case (Cons b bs)
  obtain x u where b: "b = (x, u)" by (cases b)
  have B: "block m pu x u" "p = x" "seg m (next_chunk m x) u bs e eu" using Cons.prems by (simp_all add: b)
  show ?case using Cons.IH [OF B(3)] blockD(2,9) [OF B(1)] B(2) by simp
qed simp

lemma few_blocks:
  assumes "heap_ok s av base bs L" "settled sy av base s"
  shows "length bs + 1 < loop_fuel sy"
proof -
  note D = layD [OF heap_okD(1) [OF assms(1)]]
  have "32 * length bs + unat base + 32 \<le> unat (heap_end s av)"
    using seg_room [OF D(3)] blockD(2,9) [OF D(4)] by simp
  then show ?thesis using assms(2) unfolding settled_def by linarith
qed

lemma flags_kept:
  assumes "used_kept m m' bs" "(x, True) \<in> set bs" "chunksize_nomask m x AND (IS_MMAPPED OR NON_MAIN_ARENA) = 0"
  shows "chunksize_nomask m' x AND (IS_MMAPPED OR NON_MAIN_ARENA) = 0"
proof -
  have b: "(w AND NOT 1) AND 6 = w AND 6" for w :: u64 by (simp add: and.assoc)
  have "chunksize_nomask m' x AND NOT 1 = chunksize_nomask m x AND NOT 1"
    using assms(1,2) unfolding used_kept_def by blast
  then have "chunksize_nomask m' x AND 6 = chunksize_nomask m x AND 6" using b by metis
  then show ?thesis using assms(3) by simp
qed

lemma plain_flags:
  assumes "plain_head m x"
  shows "chunksize_nomask m x AND (IS_MMAPPED OR NON_MAIN_ARENA) = 0"
proof -
  have "chunksize_nomask m x = (chunksize_nomask m x AND NOT 7) OR 1"
    using assms by (simp add: plain_head_def chunksize_def)
  then have "chunksize_nomask m x AND 6 = ((chunksize_nomask m x AND NOT 7) OR 1) AND 6" by metis
  also have "\<dots> = 0" by (simp add: bit.conj_disj_distrib2 and.assoc)
  finally show ?thesis by simp
qed

section \<open>Steps that keep the arena\<close>

text \<open>Fast bins whose chunks and heads are unchanged.\<close>

lemma fast_bins_same:
  assumes "fast_bins sy s av bs F js" "heap_ok s av base bs L" "untouched (mem s) (mem s') X"
    and "\<And>x. x \<in> set (concat (map F js)) \<Longrightarrow> x \<in> X \<and> (x, True) \<in> set bs'"
    and "\<And>i. i \<in> set js \<Longrightarrow> mem s' (fastbin_addr av i) = mem s (fastbin_addr av i)"
  shows "fast_bins sy s' av bs' F js"
  unfolding fast_bins_def
proof (intro conjI ballI)
  have F: "fast_chain (mem s) i (mem s (fastbin_addr av i)) (F i)" "length (F i) \<le> loop_fuel sy" if "i \<in> set js" for i
    using assms(1) that unfolding fast_bins_def by blast+
  fix i assume i: "i \<in> set js"
  have "chunksize (mem s') x = chunksize (mem s) x \<and> mem s' (x + 16) = mem s (x + 16)" if "x \<in> set (F i)" for x
  proof -
    have x: "x \<in> set (concat (map F js))" using that i by auto
    then have "(x, True) \<in> set bs" using assms(1) unfolding fast_bins_def by blast
    then obtain pu where "block (mem s) pu x True" using used_block [OF assms(2)] by metis
    then show ?thesis using untouchedD [OF assms(3)] assms(4) [OF x] by blast
  qed
  then show "fast_chain (mem s') i (mem s' (fastbin_addr av i)) (F i)"
    using fast_chain_same [of "F i" "mem s'" "mem s" i] F(1) [OF i] assms(5) [OF i] by simp
  show "length (F i) \<le> loop_fuel sy" using F(2) [OF i] .
qed (use assms(1,4) in \<open>auto simp: fast_bins_def\<close>)

lemma fast_addr:
  assumes "heap_ok s av base bs L" "i \<in> set fastbin_indices"
  shows "unat (fastbin_addr av i) < unat av + 96" "i < 10" "unat av + 96 < 2 ^ 64"
proof -
  show av: "unat av + 96 < 2 ^ 64" using layD(2) [OF heap_okD(1) [OF assms(1)]] unat_lt_64 [of base] by simp
  show i: "i < 10" using assms(2) by (auto simp: fastbin_indices_def)
  show "unat (fastbin_addr av i) < unat av + 96" by (rule fastbin_addr_inj(2) [OF av i i refl])
qed

lemma arena_okD:
  assumes "arena_ok sy av base s bs F"
  shows "fast_bins sy s av bs F fastbin_indices" "settled sy av base s"
    "(x, True) \<in> set bs \<Longrightarrow> chunksize_nomask (mem s) x AND (IS_MMAPPED OR NON_MAIN_ARENA) = 0"
    "fast_chunks F \<subseteq> {x. (x, True) \<in> set bs}" "av = main_arena sy" "perturb_byte s = 0" "tcache s = NULL"
    "y \<in> fast_chunks F \<Longrightarrow> chunksize (mem s) y \<le> MAX_FAST_SIZE"
proof -
  show f: "fast_bins sy s av bs F fastbin_indices" and st: "settled sy av base s"
    and "(x, True) \<in> set bs \<Longrightarrow> chunksize_nomask (mem s) x AND (IS_MMAPPED OR NON_MAIN_ARENA) = 0"
    and "y \<in> fast_chunks F \<Longrightarrow> chunksize (mem s) y \<le> MAX_FAST_SIZE"
    using assms unfolding arena_ok_def by blast+
  show "fast_chunks F \<subseteq> {x. (x, True) \<in> set bs}" using f unfolding fast_chunks_def fast_bins_def by blast
  show "av = main_arena sy" "perturb_byte s = 0" "tcache s = NULL" using st unfolding settled_def by blast+
qed

text \<open>Blocks \<open>xs\<close> leave, others stay.\<close>

lemma drained_arena_ok:
  assumes A: "arena_ok sy av base s bs F" and d: "drained s av base bs xs {} s' bs'"
    and x: "set xs \<inter> fast_chunks F = {}"
  shows "arena_ok sy av base s' bs' F" "live bs' F = live bs F - set xs" "untouched (mem s) (mem s') (live bs F - set xs)"
proof -
  obtain L where H: "heap_ok s av base bs L" using A unfolding arena_ok_def by blast
  note a = arena_okD [OF A]
  have u: "used_kept (mem s) (mem s') bs'" and h': "\<exists>L. heap_ok s' av base bs' L"
    and ub: "\<And>x. (x, True) \<in> set bs' \<longleftrightarrow> (x, True) \<in> set bs \<and> x \<notin> set xs"
    and e: "heap_end s' av = heap_end s av" "\<exists>m b. s' = s\<lparr>mem := m, binmap := b\<rparr>"
    using d unfolding drained_def by blast+
  note ut = used_kept_untouched [OF u]
  have F: "fast_bins sy s' av bs' F fastbin_indices"
  proof (rule fast_bins_same [OF a(1) H ut])
    show "x \<in> {x. (x, True) \<in> set bs'} \<and> (x, True) \<in> set bs'" if "x \<in> set (concat (map F fastbin_indices))" for x
      using that a(4) x ub unfolding fast_chunks_def by blast
    show "mem s' (fastbin_addr av i) = mem s (fastbin_addr av i)" if "i \<in> set fastbin_indices" for i
      by (rule drained_arena [OF d]) (use fast_addr [OF H that] in auto)
  qed
  have "settled sy av base s'" using a(2) e unfolding settled_def by auto
  moreover have "chunksize_nomask (mem s') x AND (IS_MMAPPED OR NON_MAIN_ARENA) = 0" if "(x, True) \<in> set bs'" for x
    using flags_kept [OF u that a(3)] that ub by blast
  moreover have "chunksize (mem s') y \<le> MAX_FAST_SIZE" if "y \<in> fast_chunks F" for y
  proof -
    have "(y, True) \<in> set bs'" using that a(4) x ub by blast
    then show ?thesis using used_kept_chunksize [OF u] a(8) [OF that] by simp
  qed
  ultimately show "arena_ok sy av base s' bs' F" unfolding arena_ok_def using h' F by blast
  show lv: "live bs' F = live bs F - set xs" using ub unfolding live_def by auto
  show "untouched (mem s) (mem s') (live bs F - set xs)"
    unfolding lv [symmetric] by (rule untouched_sub [OF ut]) (auto simp: live_def)
qed

text \<open>A block comes into use.\<close>

lemma allocated_arena_ok:
  assumes A: "arena_ok sy av base s bs F" and al: "allocated s av base bs nb x s' bs'"
  shows "arena_ok sy av base s' bs' F" "live bs' F = insert x (live bs F)" "x \<notin> live bs F"
    "untouched (mem s) (mem s') (live bs F)" "nb \<le> chunksize (mem s') x" "chunksize (mem s') x - nb < MINSIZE"
proof -
  obtain L where H: "heap_ok s av base bs L" using A unfolding arena_ok_def by blast
  note a = arena_okD [OF A]
  have u: "used_kept (mem s) (mem s') bs" and h': "\<exists>L. heap_ok s' av base bs' L"
    and ub: "\<And>y. (y, True) \<in> set bs' \<longleftrightarrow> (y, True) \<in> set bs \<or> y = x" and nx: "(x, True) \<notin> set bs"
    and e: "heap_end s' av = heap_end s av" "\<exists>m b. s' = s\<lparr>mem := m, binmap := b\<rparr>"
    and low: "\<And>b. unat b < unat av + 96 \<Longrightarrow> mem s' b = mem s b" and p: "plain_head (mem s') x"
    and sz: "nb \<le> chunksize (mem s') x" "chunksize (mem s') x - nb < MINSIZE"
    using al unfolding allocated_def by blast+
  note ut = used_kept_untouched [OF u]
  have F: "fast_bins sy s' av bs' F fastbin_indices"
  proof (rule fast_bins_same [OF a(1) H ut])
    show "x \<in> {x. (x, True) \<in> set bs} \<and> (x, True) \<in> set bs'" if "x \<in> set (concat (map F fastbin_indices))" for x
      using that a(4) ub unfolding fast_chunks_def by blast
    show "mem s' (fastbin_addr av i) = mem s (fastbin_addr av i)" if "i \<in> set fastbin_indices" for i
      using low fast_addr [OF H that] by blast
  qed
  have "settled sy av base s'" using a(2) e unfolding settled_def by auto
  moreover have "chunksize_nomask (mem s') y AND (IS_MMAPPED OR NON_MAIN_ARENA) = 0" if "(y, True) \<in> set bs'" for y
    using flags_kept [OF u _ a(3)] plain_flags [OF p] that ub by blast
  moreover have "chunksize (mem s') y \<le> MAX_FAST_SIZE" if "y \<in> fast_chunks F" for y
    using used_kept_chunksize [OF u, of y] a(4) a(8) [OF that] that by auto
  ultimately show "arena_ok sy av base s' bs' F" unfolding arena_ok_def using h' F by blast
  have "x \<notin> fast_chunks F" using a(4) nx by blast
  then show "live bs' F = insert x (live bs F)" "x \<notin> live bs F" using ub nx unfolding live_def by auto
  show "untouched (mem s) (mem s') (live bs F)"
    by (rule untouched_sub [OF ut]) (auto simp: live_def)
  show "nb \<le> chunksize (mem s') x" "chunksize (mem s') x - nb < MINSIZE" using sz .
qed

section \<open>Blocks in use\<close>

lemma live_used: "x \<in> live bs F \<Longrightarrow> (x, True) \<in> set bs"
  by (simp add: live_def)

lemma all_used: "frees bs = {} \<Longrightarrow> y \<in> fst ` set bs \<Longrightarrow> (y, True) \<in> set bs"
proof -
  assume f: "frees bs = {}" and "y \<in> fst ` set bs"
  then obtain u where u: "(y, u) \<in> set bs" by auto
  then have "u" using f by (cases u) (auto simp: frees_def)
  then show "(y, True) \<in> set bs" using u by simp
qed

text \<open>Blocks of the program are replaced by others in the same place.\<close>

lemma replaced_arena:
  assumes A: "arena_ok sy av base s (ls @ mid @ rs) F" and h': "heap_ok s' av base (ls @ mid' @ rs) L'"
    and s': "s' = s\<lparr>mem := m'\<rparr>" and e: "heap_end s' av = heap_end s av" and u: "used_kept (mem s) m' (ls @ rs)"
    and low: "\<And>b. unat b < unat av + 96 \<Longrightarrow> m' b = mem s b" and fr: "frees mid = {}" "frees mid' = {}"
    and mid: "fst ` set mid \<inter> fast_chunks F = {}"
    and fl: "\<And>y. (y, True) \<in> set mid' \<Longrightarrow> chunksize_nomask m' y AND (IS_MMAPPED OR NON_MAIN_ARENA) = 0"
  shows "arena_ok sy av base s' (ls @ mid' @ rs) F"
    "live (ls @ mid' @ rs) F = live (ls @ mid @ rs) F - fst ` set mid \<union> fst ` set mid'"
    "untouched (mem s) m' (live (ls @ mid @ rs) F - fst ` set mid)" "fst ` set mid' \<inter> (live (ls @ mid @ rs) F - fst ` set mid) = {}"
proof -
  obtain L where H: "heap_ok s av base (ls @ mid @ rs) L" using A unfolding arena_ok_def by blast
  note o = arena_okD [OF A]
  have ms: "mem s' = m'" by (simp add: s')
  note used = all_used [OF fr(1)] and used' = all_used [OF fr(2)]
  have d: "distinct (map fst (ls @ mid @ rs))" "distinct (map fst (ls @ mid' @ rs))"
    using seg_distinct [OF layD(3) [OF heap_okD(1) [OF H]]] seg_distinct [OF layD(3) [OF heap_okD(1) [OF h']]] .
  have rest: "y \<in> fst ` set ls \<union> fst ` set rs \<Longrightarrow> y \<notin> fst ` set mid \<and> y \<notin> fst ` set mid'" for y
    using d by auto
  have fast: "(y, True) \<in> set (ls @ rs)" if y: "y \<in> fast_chunks F" for y
  proof -
    have "(y, True) \<in> set (ls @ mid @ rs)" "y \<notin> fst ` set mid" using o(4) mid y by auto
    then show ?thesis by (force simp: image_iff)
  qed
  let ?X = "{y. (y, True) \<in> set (ls @ rs)}"
  have ut: "untouched (mem s) (mem s') ?X" unfolding ms by (rule used_kept_untouched [OF u])
  have "fast_bins sy s' av (ls @ mid' @ rs) F fastbin_indices"
  proof (rule fast_bins_same [OF o(1) H ut])
    show "y \<in> ?X \<and> (y, True) \<in> set (ls @ mid' @ rs)" if "y \<in> set (concat (map F fastbin_indices))" for y
      using fast [of y] that unfolding fast_chunks_def by auto
    show "mem s' (fastbin_addr av i) = mem s (fastbin_addr av i)" if "i \<in> set fastbin_indices" for i
      using low fast_addr(1) [OF H that] by (simp add: ms)
  qed
  moreover have "settled sy av base s'" by (rule settled_same [OF o(2) e]) (simp_all add: s')
  moreover have "chunksize_nomask (mem s') y AND (IS_MMAPPED OR NON_MAIN_ARENA) = 0" if y: "(y, True) \<in> set (ls @ mid' @ rs)" for y
  proof (cases "(y, True) \<in> set mid'")
    case True
    then show ?thesis unfolding ms by (rule fl)
  next
    case False
    then have y': "(y, True) \<in> set (ls @ rs)" using y by auto
    then have "(y, True) \<in> set (ls @ mid @ rs)" by auto
    then show ?thesis unfolding ms using flags_kept [OF u y'] o(3) [of y] by blast
  qed
  moreover have "chunksize (mem s') y \<le> MAX_FAST_SIZE" if "y \<in> fast_chunks F" for y
    using used_kept_chunksize [OF u fast [OF that]] o(8) [OF that] by (simp add: ms)
  ultimately show "arena_ok sy av base s' (ls @ mid' @ rs) F" unfolding arena_ok_def using h' by blast
  have mid': "y \<notin> fast_chunks F" if "y \<in> fst ` set mid'" for y
    using fast [of y] rest [of y] that by force
  have mem_iff: "(y, True) \<in> set (ls @ ms @ rs) \<longleftrightarrow> (y, True) \<in> set (ls @ rs) \<or> (y, True) \<in> set ms" for y ms by auto
  have nr: "y \<notin> fst ` set mid \<and> y \<notin> fst ` set mid'" if "(y, True) \<in> set (ls @ rs)" for y
    using rest [of y] that by force
  have lv: "live (ls @ mid @ rs) F - fst ` set mid = ?X - fast_chunks F"
    unfolding live_def mem_iff using nr by force
  show "live (ls @ mid' @ rs) F = live (ls @ mid @ rs) F - fst ` set mid \<union> fst ` set mid'"
  proof -
    have "(y, True) \<in> set mid' \<longleftrightarrow> y \<in> fst ` set mid'" for y using used' [of y] by force
    then show ?thesis unfolding lv unfolding live_def mem_iff using mid' by blast
  qed
  show "untouched (mem s) m' (live (ls @ mid @ rs) F - fst ` set mid)"
    using untouched_sub [OF ut, of "live (ls @ mid @ rs) F - fst ` set mid"] unfolding ms lv by blast
  show "fst ` set mid' \<inter> (live (ls @ mid @ rs) F - fst ` set mid) = {}" unfolding lv using nr by blast
qed

lemma refit_arena:
  assumes A: "arena_ok sy av base s (ls @ mid @ rs) F" and R: "refits (mem s) m' mid mid' pu p q"
    and mid: "fst ` set mid \<inter> fast_chunks F = {}"
    and fl: "\<And>y. (y, True) \<in> set mid' \<Longrightarrow> chunksize_nomask m' y AND (IS_MMAPPED OR NON_MAIN_ARENA) = 0"
  defines "s' \<equiv> s\<lparr>mem := m'\<rparr>"
  shows "arena_ok sy av base s' (ls @ mid' @ rs) F"
    "live (ls @ mid' @ rs) F = live (ls @ mid @ rs) F - fst ` set mid \<union> fst ` set mid'"
    "untouched (mem s) m' (live (ls @ mid @ rs) F - fst ` set mid)" "fst ` set mid' \<inter> (live (ls @ mid @ rs) F - fst ` set mid) = {}"
proof -
  obtain L where H: "heap_ok s av base (ls @ mid @ rs) L" using A unfolding arena_ok_def by blast
  note W = refit_heap [OF H R, folded s'_def]
  have fr: "frees mid = {}" "frees mid' = {}" using R unfolding refits_def by blast+
  have low: "m' b = mem s b" if "unat b < unat av + 96" for b using W(4) that by simp
  have "s' = s\<lparr>mem := m'\<rparr>" by (simp add: s'_def)
  note P = replaced_arena [OF A W(1) this W(2,3) low fr mid fl]
  show "arena_ok sy av base s' (ls @ mid' @ rs) F"
    "live (ls @ mid' @ rs) F = live (ls @ mid @ rs) F - fst ` set mid \<union> fst ` set mid'"
    "untouched (mem s) m' (live (ls @ mid @ rs) F - fst ` set mid)" "fst ` set mid' \<inter> (live (ls @ mid @ rs) F - fst ` set mid) = {}"
    by (rule P(1), assumption, assumption, rule P(2), assumption, assumption, rule P(3), assumption, assumption,
      rule P(4), assumption, assumption)
qed

text \<open>Stores into the body of a block, up to the size word of the next one.\<close>

lemma used_words:
  assumes H: "heap_ok s av base bs L" and x: "(x, True) \<in> set bs"
    and a: "\<forall>a. m' a \<noteq> mem s a \<longrightarrow> unat x + 16 \<le> unat a \<and> unat a \<le> unat x + unat (chunksize (mem s) x)"
  defines "s' \<equiv> s\<lparr>mem := m'\<rparr>"
  shows "heap_ok s' av base bs L" "heap_end s' av = heap_end s av"
    "untouched (mem s) (mem s') ({y. (y, True) \<in> set bs} - {x})"
    "(y, True) \<in> set bs \<Longrightarrow> chunksize_nomask (mem s') y = chunksize_nomask (mem s) y"
    "unat b < unat av + 112 \<Longrightarrow> mem s' b = mem s b"
proof -
  obtain ls rs where bs: "bs = ls @ [(x, True)] @ rs" using x by (metis append_Cons append_Nil split_list)
  obtain pu where X: "block (mem s) pu x True" by (rule used_block [OF H x])
  have R: "refits (mem s) m' [(x, True)] [(x, True)] pu x (next_chunk (mem s) x)" "chunksize m' x = chunksize (mem s) x"
    using block_refits [OF X] a by blast+
  note W = refit_heap [OF H [unfolded bs] R(1), folded s'_def]
  show "heap_ok s' av base bs L" "heap_end s' av = heap_end s av" "unat b < unat av + 112 \<Longrightarrow> mem s' b = mem s b"
    using W(1,2,4) unfolding bs by (simp_all add: s'_def)
  have x8: "unat (x + 8) = unat x + 8" using blockD(4) [OF X] by (intro unat_offset [of _ 8, simplified]) simp
  have "m' (x + 8) = mem s (x + 8)" using spec [OF a, of "x + 8"] x8 by auto
  then show "(y, True) \<in> set bs \<Longrightarrow> chunksize_nomask (mem s') y = chunksize_nomask (mem s) y"
    using W(5) [of y] unfolding bs by (auto simp: s'_def chunksize_nomask_def)
  show "untouched (mem s) (mem s') ({y. (y, True) \<in> set bs} - {x})"
    using untouched_sub [OF used_kept_untouched [OF W(3)], of "{y. (y, True) \<in> set bs} - {x}"] unfolding bs
    by (auto simp: s'_def)
qed

text \<open>The program writes into one of its blocks.\<close>

lemma words_arena_ok:
  assumes A: "arena_ok sy av base s bs F" and x: "x \<in> live bs F"
    and a: "\<forall>a. m' a \<noteq> mem s a \<longrightarrow> unat x + 16 \<le> unat a \<and> unat a \<le> unat x + unat (chunksize (mem s) x)"
  defines "s' \<equiv> s\<lparr>mem := m'\<rparr>"
  shows "arena_ok sy av base s' bs F" "untouched (mem s) (mem s') (live bs F - {x})"
    "chunksize (mem s') x = chunksize (mem s) x"
proof -
  obtain L where H: "heap_ok s av base bs L" using A unfolding arena_ok_def by blast
  have xu: "(x, True) \<in> set bs" by (rule live_used [OF x])
  then obtain ls rs where bs: "bs = ls @ [(x, True)] @ rs" by (metis append_Cons append_Nil split_list)
  obtain pu where X: "block (mem s) pu x True" by (rule used_block [OF H xu])
  have R: "refits (mem s) m' [(x, True)] [(x, True)] pu x (next_chunk (mem s) x)" "chunksize m' x = chunksize (mem s) x"
    using block_refits [OF X] a by blast+
  have "fst ` set [(x, True)] \<inter> fast_chunks F = {}" using x by (auto simp: live_def)
  note W = refit_arena [OF A [unfolded bs] R(1) this, folded s'_def]
  have fl: "chunksize_nomask m' y AND (IS_MMAPPED OR NON_MAIN_ARENA) = 0" if "(y, True) \<in> set [(x, True)]" for y
    using used_words(4) [OF H xu a xu] arena_okD(3) [OF A xu] that by simp
  show "arena_ok sy av base s' bs F" "untouched (mem s) (mem s') (live bs F - {x})"
    using W(1,3) [OF fl] unfolding bs by (simp_all add: s'_def)
  show "chunksize (mem s') x = chunksize (mem s) x" using R(2) by (simp add: s'_def)
qed

section \<open>The fast bins\<close>

lemma distinct_concat_map:
  assumes "distinct js"
  shows "distinct (concat (map F js)) \<longleftrightarrow>
    (\<forall>j \<in> set js. distinct (F j)) \<and> (\<forall>j \<in> set js. \<forall>k \<in> set js. j \<noteq> k \<longrightarrow> set (F j) \<inter> set (F k) = {})"
  using assms
proof (induction js)
  case (Cons i js)
  have "i \<notin> set js" "distinct js" using Cons.prems by auto
  then show ?case unfolding list.map concat.simps distinct_append Cons.IH [OF \<open>distinct js\<close>] by auto blast+
qed simp

lemma fast_bins_update:
  assumes f: "fast_bins sy s av bs F js" and H: "heap_ok s av base bs L" and j: "distinct js" "i \<in> set js"
    and u: "untouched (mem s) (mem s') X"
    and other: "\<And>j x. j \<in> set js \<Longrightarrow> j \<noteq> i \<Longrightarrow> x \<in> set (F j) \<Longrightarrow> x \<in> X \<and> (x, True) \<in> set bs' \<and> x \<notin> set ys"
    and heads: "\<And>j. j \<in> set js \<Longrightarrow> j \<noteq> i \<Longrightarrow> mem s' (fastbin_addr av j) = mem s (fastbin_addr av j)"
    and ys: "fast_chain (mem s') i (mem s' (fastbin_addr av i)) ys" "length ys \<le> loop_fuel sy" "distinct ys"
      "\<And>x. x \<in> set ys \<Longrightarrow> (x, True) \<in> set bs'"
  shows "fast_bins sy s' av bs' (F(i := ys)) js"
  unfolding fast_bins_def
proof (intro conjI ballI)
  let ?F = "F(i := ys)"
  have F: "fast_chain (mem s) k (mem s (fastbin_addr av k)) (F k)" "length (F k) \<le> loop_fuel sy"
    "x \<in> set (F k) \<Longrightarrow> (x, True) \<in> set bs" if "k \<in> set js" for k x
    using f that unfolding fast_bins_def by auto
  have d: "(\<forall>j \<in> set js. distinct (F j)) \<and> (\<forall>j \<in> set js. \<forall>k \<in> set js. j \<noteq> k \<longrightarrow> set (F j) \<inter> set (F k) = {})"
    using f distinct_concat_map [OF j(1), of F] unfolding fast_bins_def by blast
  fix k assume k: "k \<in> set js"
  show "length (?F k) \<le> loop_fuel sy" using F(2) [OF k] ys(2) by simp
  show "fast_chain (mem s') k (mem s' (fastbin_addr av k)) (?F k)"
  proof (cases "k = i")
    case True
    then show ?thesis using ys(1) by simp
  next
    case False
    have "chunksize (mem s') x = chunksize (mem s) x \<and> mem s' (x + 16) = mem s (x + 16)" if x: "x \<in> set (F k)" for x
    proof -
      obtain pu where "block (mem s) pu x True" using used_block [OF H F(3) [OF k x]] by metis
      then show ?thesis using untouchedD [OF u] other [OF k False x] by blast
    qed
    then show ?thesis using fast_chain_same [of "F k" "mem s'" "mem s" k] F(1) [OF k] heads [OF k False] False by simp
  qed
next
  have d: "(\<forall>j \<in> set js. distinct (F j)) \<and> (\<forall>j \<in> set js. \<forall>k \<in> set js. j \<noteq> k \<longrightarrow> set (F j) \<inter> set (F k) = {})"
    using f distinct_concat_map [OF j(1), of F] unfolding fast_bins_def by blast
  show "distinct (concat (map (F(i := ys)) js))"
    unfolding distinct_concat_map [OF j(1)] using d ys(3) other by (auto simp: disjoint_iff)
  fix x assume "x \<in> set (concat (map (F(i := ys)) js))"
  then obtain k where "k \<in> set js" "x \<in> set ((F(i := ys)) k)" unfolding set_concat set_map by blast
  then show "(x, True) \<in> set bs'" using other ys(4) by (cases "k = i") auto
qed

lemma fast_chunks_update:
  assumes "i \<in> set fastbin_indices" "fast_bins sy s av bs F fastbin_indices"
  shows "fast_chunks (F(i := ys)) = fast_chunks F - set (F i) \<union> set ys" "set (F i) \<subseteq> fast_chunks F"
proof -
  have dj: "distinct fastbin_indices" by (simp add: fastbin_indices_def)
  have "set (F j) \<inter> set (F i) = {}" if "j \<in> set fastbin_indices" "j \<noteq> i" for j
    using assms that distinct_concat_map [OF dj, of F] unfolding fast_bins_def by blast
  then show "fast_chunks (F(i := ys)) = fast_chunks F - set (F i) \<union> set ys" "set (F i) \<subseteq> fast_chunks F"
    using assms(1) unfolding fast_chunks_def by (auto simp: disjoint_iff split: if_splits)
qed

lemma fast_index:
  assumes "32 \<le> unat sz" "sz \<le> MAX_FAST_SIZE"
  shows "fastbin_index sz \<in> set fastbin_indices" "unat (fastbin_index sz) = unat sz div 16 - 2"
proof -
  have l: "unat sz \<le> 160" using assms(2) by (simp add: word_le_nat_alt)
  show u: "unat (fastbin_index sz) = unat sz div 16 - 2" using unat_fastbin_index [OF assms(1)] l by simp
  then have "unat (fastbin_index sz) < 10" using l by simp
  then have "unat (fastbin_index sz) \<in> {0, 1, 2, 3, 4, 5, 6, 7, 8, 9}" by auto
  then show "fastbin_index sz \<in> set fastbin_indices" by (auto simp: fastbin_indices_def word_unat_eq_iff)
qed

lemma multiple_index: "a div 16 - 2 = b div 16 - 2 \<Longrightarrow> 32 \<le> a \<Longrightarrow> 32 \<le> b \<Longrightarrow> a mod 16 = 0 \<Longrightarrow> b mod 16 = 0 \<Longrightarrow> a = b"
  for a b :: nat
proof -
  assume a: "a div 16 - 2 = b div 16 - 2" "32 \<le> a" "32 \<le> b" "a mod 16 = 0" "b mod 16 = 0"
  have "2 \<le> a div 16" "2 \<le> b div 16" using a(2,3) div_le_mono [of 32 _ 16] by auto
  then have q: "a div 16 = b div 16" using a(1) by linarith
  have "a = a div 16 * 16 + a mod 16" by (rule div_mult_mod_eq [symmetric])
  also have "\<dots> = b div 16 * 16 + b mod 16" unfolding q a(4,5) ..
  also have "\<dots> = b" by (rule div_mult_mod_eq)
  finally show "a = b" .
qed

lemma fast_size:
  assumes "fastbin_index a = fastbin_index b" "32 \<le> unat a" "32 \<le> unat b" "a \<le> MAX_FAST_SIZE" "b \<le> MAX_FAST_SIZE"
    "a AND MALLOC_ALIGN_MASK = 0" "b AND MALLOC_ALIGN_MASK = 0"
  shows "a = b"
proof -
  have "unat a div 16 - 2 = unat b div 16 - 2"
    using fast_index(2) [OF assms(2,4)] fast_index(2) [OF assms(3,5)] assms(1) by simp
  moreover have "unat a mod 16 = 0" "unat b mod 16 = 0" using assms(6,7) by (simp_all add: multiple_iff)
  ultimately have "unat a = unat b" by (rule multiple_index [OF _ assms(2,3)])
  then show ?thesis by (simp add: word_unat_eq_iff)
qed

text \<open>A block has been handed out.\<close>

definition gives :: "'k sys \<Rightarrow> ptr \<Rightarrow> ptr \<Rightarrow> 'k st \<Rightarrow> (ptr \<times> bool) list \<Rightarrow> (u32 \<Rightarrow> ptr list) \<Rightarrow> u64 \<Rightarrow> ptr \<Rightarrow>
    'k st \<Rightarrow> (ptr \<times> bool) list \<Rightarrow> (u32 \<Rightarrow> ptr list) \<Rightarrow> bool" where
  "gives sy av base s bs F nb x s' bs' F' \<longleftrightarrow>
     arena_ok sy av base s' bs' F' \<and> live bs' F' = insert x (live bs F) \<and> x \<notin> live bs F \<and>
     untouched (mem s) (mem s') (live bs F) \<and> nb \<le> chunksize (mem s') x \<and> chunksize (mem s') x - nb < MINSIZE \<and>
     heap_end s' av = heap_end s av"

lemma max_fast: "settled sy av base s \<Longrightarrow> get_max_fast s = Inr (ucast (global_max_fast s))"
  by (auto simp: settled_def get_max_fast_def)

text \<open>The first chunk of a fast bin.\<close>

lemma fastbin_gives:
  assumes A: "arena_ok sy av base s bs F" and nb: "nb AND MALLOC_ALIGN_MASK = 0" "MINSIZE \<le> nb"
  shows "int_malloc_fastbin av nb bytes s = Inr (None, s) \<or>
    (\<exists>x s' F'. int_malloc_fastbin av nb bytes s = Inr (Some (chunk2mem x), s') \<and> gives sy av base s bs F nb x s' bs F')"
proof (cases "nb \<le> ucast (global_max_fast s) \<and> F (fastbin_index nb) \<noteq> []")
  case False
  let ?i = "fastbin_index nb"
  have n32: "32 \<le> unat nb" using nb(2) by (simp add: word_le_nat_alt)
  note o = arena_okD [OF A]
  have "mem s (fastbin_addr av ?i) = NULL" if le: "nb \<le> ucast (global_max_fast s)"
  proof -
    have "ucast (global_max_fast s) \<le> MAX_FAST_SIZE" using o(2) unfolding settled_def by blast
    then have "?i \<in> set fastbin_indices" using fast_index(1) [OF n32] le by fastforce
    then have "fast_chain (mem s) ?i (mem s (fastbin_addr av ?i)) (F ?i)" using o(1) unfolding fast_bins_def by blast
    then show ?thesis using False le by simp
  qed
  then show ?thesis by (simp add: int_malloc_fastbin_def max_fast [OF o(2)] Let_def)
next
  case True
  let ?i = "fastbin_index nb" let ?fb = "fastbin_addr av ?i"
  obtain L where H: "heap_ok s av base bs L" using A unfolding arena_ok_def by blast
  note o = arena_okD [OF A]
  have n32: "32 \<le> unat nb" using nb(2) by (simp add: word_le_nat_alt)
  have mf: "ucast (global_max_fast s) \<le> MAX_FAST_SIZE" using o(2) unfolding settled_def by blast
  have nbm: "nb \<le> MAX_FAST_SIZE" using True mf by (meson order_trans)
  note i = fast_index(1) [OF n32 nbm]
  obtain x xs where F: "F ?i = x # xs" using True by (cases "F ?i") auto
  have fc: "fast_chain (mem s) ?i (mem s ?fb) (x # xs)" "length (x # xs) \<le> loop_fuel sy"
    using o(1) i unfolding fast_bins_def F [symmetric] by blast+
  have dj: "distinct fastbin_indices" by (simp add: fastbin_indices_def)
  have dd: "(\<forall>j \<in> set fastbin_indices. distinct (F j)) \<and> (\<forall>j \<in> set fastbin_indices. \<forall>k \<in> set fastbin_indices.
      j \<noteq> k \<longrightarrow> set (F j) \<inter> set (F k) = {})"
    using o(1) unfolding fast_bins_def distinct_concat_map [OF dj] by blast
  then have dF: "distinct (x # xs)" using i unfolding F [symmetric] by blast
  have sep: "set (F j) \<inter> set (x # xs) = {}" if "j \<in> set fastbin_indices" "j \<noteq> ?i" for j
    using dd i that unfolding F [symmetric] by blast
  let ?nx = "REVEAL_PTR (x + 16) (get_fd (mem s) x)" let ?s' = "s\<lparr>mem := (mem s)(?fb := REVEAL_PTR (x + 16) (get_fd (mem s) x))\<rparr>"
  note ad = fast_addr [OF H i]
  have d: "drained s av base bs [] {?fb} ?s' bs"
    by (rule drained_arena_word [OF H]) (use ad(1) arena_word_not_top [OF ad(3) ad(1)] in simp_all)
  have u: "used_kept (mem s) (mem ?s') bs" and h': "\<exists>L. heap_ok ?s' av base bs L" and e: "heap_end ?s' av = heap_end s av"
    using d unfolding drained_def by blast+
  note ut = used_kept_untouched [OF u]
  have used: "(y, True) \<in> set bs" if "j \<in> set fastbin_indices" "y \<in> set (F j)" for y j
    using o(1) that unfolding fast_bins_def by auto
  have xu: "(x, True) \<in> set bs" using used [OF i, of x] F by simp
  have cx: "chunksize (mem ?s') x = chunksize (mem s) x" using used_kept_chunksize [OF u xu] .
  have "fast_bins sy ?s' av bs (F(?i := xs)) fastbin_indices"
  proof (rule fast_bins_update [OF o(1) H _ i ut])
    show "y \<in> {x. (x, True) \<in> set bs} \<and> (y, True) \<in> set bs \<and> y \<notin> set xs"
      if "j \<in> set fastbin_indices" "j \<noteq> ?i" "y \<in> set (F j)" for j y
      using used [OF that(1,3)] sep [OF that(1,2)] that(3) by auto
    show "mem ?s' (fastbin_addr av j) = mem s (fastbin_addr av j)" if "j \<in> set fastbin_indices" "j \<noteq> ?i" for j
      using fastbin_addr_inj(1) [OF ad(3) fast_addr(2) [OF H that(1)] ad(2)] that(2) by auto
    show "fast_chain (mem ?s') ?i (mem ?s' ?fb) xs"
    proof -
      have "chunksize (mem ?s') y = chunksize (mem s) y \<and> mem ?s' (y + 16) = mem s (y + 16)" if "y \<in> set xs" for y
      proof -
        have yu: "(y, True) \<in> set bs" using used [OF i, of y] F that by simp
        obtain pu where "block (mem s) pu y True" by (rule used_block [OF H yu])
        then show ?thesis using untouchedD [OF ut _ \<open>block (mem s) pu y True\<close>] yu by simp
      qed
      then show ?thesis using fast_chain_same [of xs "mem ?s'" "mem s" ?i ?nx] fc(1) by simp
    qed
    show "(y, True) \<in> set bs" if "y \<in> set xs" for y using used [OF i, of y] F that by simp
  qed (use fc(2) dF in \<open>auto simp: fastbin_indices_def\<close>)
  moreover have fF: "fast_chunks (F(?i := xs)) = fast_chunks F - {x}" "x \<in> fast_chunks F"
    using fast_chunks_update(1) [OF i o(1), of xs] fast_chunks_update(2) [OF i o(1)] F dF by auto
  moreover have "settled sy av base ?s'" by (rule settled_same [OF o(2) e]) simp_all
  moreover have "chunksize_nomask (mem ?s') y AND (IS_MMAPPED OR NON_MAIN_ARENA) = 0" if "(y, True) \<in> set bs" for y
    by (rule flags_kept [OF u that o(3) [OF that]])
  moreover have "chunksize (mem ?s') y \<le> MAX_FAST_SIZE" if "y \<in> fast_chunks F" for y
    using used_kept_chunksize [OF u, of y] o(4) o(8) [OF that] that by auto
  ultimately have A': "arena_ok sy av base ?s' bs (F(?i := xs))" unfolding arena_ok_def using h' by auto
  obtain pu where X: "block (mem s) pu x True" by (rule used_block [OF H xu])
  note X = blockD [OF X]
  have "chunksize (mem s) x = nb"
    by (rule fast_size) (use fc(1) X(2,3) n32 nbm nb(1) o(8) [OF fF(2)] in auto)
  then have g: "gives sy av base s bs F nb x ?s' bs (F(?i := xs))"
    unfolding gives_def using A' fF xu cx e untouched_sub [OF ut, of "live bs F"] by (auto simp: live_def)
  have "int_malloc_fastbin av nb bytes s = Inr (Some (chunk2mem x), ?s')"
    using fc(1) True cx X(1) o(6,7)
    by (simp add: int_malloc_fastbin_def max_fast [OF o(2)] Let_def upd_mem_def misaligned_chunk_iff)
  then show ?thesis using g by blast
qed

section \<open>Free\<close>

lemma heap_ok_same:
  assumes "heap_ok s av base bs L" "mem s' = mem s" "binmap s' = binmap s" "system_mem s' = system_mem s"
  shows "heap_ok s' av base bs L"
  using assms(1) unfolding heap_ok_def get_binmap_def assms(2-4) .

lemma arena_ok_same:
  assumes "arena_ok sy av base s bs F" "mem s' = mem s" "binmap s' = binmap s" "system_mem s' = system_mem s"
    "perturb_byte s' = perturb_byte s" "tcache s' = tcache s" "tcache_shutting_down s' = tcache_shutting_down s"
    "mp s' = mp s" "global_max_fast s' = global_max_fast s"
  shows "arena_ok sy av base s' bs F"
  using assms(1) heap_ok_same [OF _ assms(2-4)] settled_same [of sy av base s s']
  unfolding arena_ok_def fast_bins_def assms(2-9) by blast

text \<open>A block has been taken back.\<close>

definition takes :: "'k sys \<Rightarrow> ptr \<Rightarrow> ptr \<Rightarrow> 'k st \<Rightarrow> (ptr \<times> bool) list \<Rightarrow> (u32 \<Rightarrow> ptr list) \<Rightarrow> ptr set \<Rightarrow>
    'k st \<Rightarrow> (ptr \<times> bool) list \<Rightarrow> (u32 \<Rightarrow> ptr list) \<Rightarrow> bool" where
  "takes sy av base s bs F X s' bs' F' \<longleftrightarrow>
     arena_ok sy av base s' bs' F' \<and> live bs' F' = live bs F - X \<and> untouched (mem s) (mem s') (live bs F - X) \<and>
     heap_end s' av = heap_end s av"

lemma takes_trans:
  assumes "takes sy av base s bs F X s1 bs1 F1" "takes sy av base s1 bs1 F1 {} s' bs' F'"
  shows "takes sy av base s bs F X s' bs' F'"
  using assms untouched_trans unfolding takes_def by fastforce

lemma used_number: "heap_ok s av base bs L \<Longrightarrow> distinct xs \<Longrightarrow> (\<And>x. x \<in> set xs \<Longrightarrow> (x, True) \<in> set bs) \<Longrightarrow> length xs \<le> length bs"
proof -
  assume d: "distinct xs" and u: "\<And>x. x \<in> set xs \<Longrightarrow> (x, True) \<in> set bs"
  have "length xs = card (set xs)" using d by (simp add: distinct_card)
  also have "\<dots> \<le> card (fst ` set bs)" using u by (intro card_mono) force+
  also have "\<dots> \<le> length bs" by (metis card_image_le card_length finite_set le_trans)
  finally show ?thesis .
qed

lemma fastbin_takes:
  assumes A: "arena_ok sy av base s bs F" and p: "p \<in> live bs F" and sz: "chunksize (mem s) p \<le> ucast (global_max_fast s)"
  shows "\<exists>s' F'. int_free_fastbin av p (chunksize (mem s) p) lk s = Inr s' \<and> takes sy av base s bs F {p} s' bs F'"
proof -
  let ?m = "mem s" let ?sz = "chunksize ?m p" let ?i = "fastbin_index ?sz" let ?fb = "fastbin_addr av ?i"
  obtain L where H: "heap_ok s av base bs L" using A unfolding arena_ok_def by blast
  note o = arena_okD [OF A]
  have pu: "(p, True) \<in> set bs" by (rule live_used [OF p])
  obtain pi where P: "block ?m pi p True" "unat base \<le> unat p" by (rule used_block [OF H pu])
  note P = P(2) blockD [OF P(1)]
  have "ucast (global_max_fast s) \<le> MAX_FAST_SIZE" using o(2) unfolding settled_def by blast
  then have small: "?sz \<le> MAX_FAST_SIZE" using sz by (rule order_trans [rotated])
  note i = fast_index(1) [OF P(3) small] and ad = fast_addr [OF H fast_index(1) [OF P(3) small]]
  have dj: "distinct fastbin_indices" by (simp add: fastbin_indices_def)
  have dd: "\<forall>j \<in> set fastbin_indices. distinct (F j)"
    using o(1) unfolding fast_bins_def distinct_concat_map [OF dj] by blast
  have nfast: "p \<notin> set (F j)" if "j \<in> set fastbin_indices" for j
    using p that unfolding live_def fast_chunks_def by auto
  have used: "(y, True) \<in> set bs" if "j \<in> set fastbin_indices" "y \<in> set (F j)" for y j
    using o(1) that unfolding fast_bins_def by auto
  have fc: "fast_chain ?m ?i (?m ?fb) (F ?i)" using o(1) i unfolding fast_bins_def by blast
  have av0: "p \<noteq> NULL" using P(1) layD(2) [OF heap_okD(1) [OF H]] by auto
  have p16: "unat (p + 16) = unat p + 16" using P(5) by (intro unat_offset [of _ 16, simplified]) simp
  let ?v = "PROTECT_PTR (p + 16) (?m ?fb)"
  let ?s1 = "s\<lparr>mem := ?m(p + 16 := PROTECT_PTR (p + 16) (?m ?fb))\<rparr>"
  have "unat p + 16 \<le> unat (p + 16)" "unat (p + 16) \<le> unat p + unat ?sz" using p16 P(3) by auto
  then have "\<forall>a. (?m(p + 16 := ?v)) a \<noteq> ?m a \<longrightarrow> unat p + 16 \<le> unat a \<and> unat a \<le> unat p + unat ?sz" by simp
  note W = used_words [where m' = "?m(p + 16 := ?v)", OF H pu this]
  let ?m' = "fast_push ?m ?fb p"
  let ?s2 = "?s1\<lparr>mem := (mem ?s1)(?fb := p)\<rparr>"
  have s2: "mem ?s2 = ?m'" by (simp add: fast_push_def)
  have d: "drained ?s1 av base bs [] {?fb} ?s2 bs"
    by (rule drained_arena_word [OF W(1)]) (use ad(1) arena_word_not_top [OF ad(3) ad(1)] in simp_all)
  have u: "used_kept (mem ?s1) (mem ?s2) bs" and h': "\<exists>L. heap_ok ?s2 av base bs L" and e: "heap_end ?s2 av = heap_end ?s1 av"
    using d unfolding drained_def by blast+
  let ?X = "{y. (y, True) \<in> set bs} - {p}"
  have ut: "untouched ?m (mem ?s2) ?X"
    by (rule untouched_trans [OF W(3) untouched_sub [OF used_kept_untouched [OF u]]]) auto
  have cs: "chunksize (mem ?s2) y = chunksize ?m y" if "(y, True) \<in> set bs" for y
    using used_kept_chunksize [OF u that] W(4) [OF that] by (simp add: chunksize_def)
  have fl: "chunksize_nomask (mem ?s2) y AND (IS_MMAPPED OR NON_MAIN_ARENA) = 0" if "(y, True) \<in> set bs" for y
    using flags_kept [OF u that] W(4) [OF that] o(3) [OF that] by simp
  have old: "?m ?fb \<noteq> p \<and> (?m ?fb = NULL \<or> fastbin_index (chunksize ?m' (?m ?fb)) = ?i)"
  proof (cases "F ?i")
    case Nil
    then show ?thesis using fc av0 by simp
  next
    case (Cons x xs)
    then have x: "?m ?fb = x" "fastbin_index (chunksize ?m x) = ?i" "x \<in> set (F ?i)" using fc by auto
    then show ?thesis using nfast [OF i] cs [OF used [OF i x(3)]] unfolding s2 by auto
  qed
  have fb: "fast_bins sy ?s2 av bs (F(?i := p # F ?i)) fastbin_indices"
  proof (rule fast_bins_update [OF o(1) H dj i ut])
    show "y \<in> ?X \<and> (y, True) \<in> set bs \<and> y \<notin> set (p # F ?i)" if "j \<in> set fastbin_indices" "j \<noteq> ?i" "y \<in> set (F j)" for j y
    proof -
      have "set (F j) \<inter> set (F ?i) = {}"
        using o(1) i that(1,2) unfolding fast_bins_def distinct_concat_map [OF dj] by blast
      then show ?thesis using used [OF that(1,3)] nfast [OF that(1)] that(3) by auto
    qed
    show "mem ?s2 (fastbin_addr av j) = ?m (fastbin_addr av j)" if j: "j \<in> set fastbin_indices" "j \<noteq> ?i" for j
    proof -
      note aj = fast_addr [OF H j(1)]
      have "fastbin_addr av j \<noteq> ?fb" using fastbin_addr_inj(1) [OF ad(3) aj(2) ad(2)] j(2) by blast
      moreover have "mem ?s1 (fastbin_addr av j) = ?m (fastbin_addr av j)" by (rule W(5)) (use aj(1) in simp)
      ultimately show ?thesis by simp
    qed
    show "fast_chain (mem ?s2) ?i (mem ?s2 ?fb) (p # F ?i)"
    proof -
      have "chunksize (mem ?s2) y = chunksize ?m y \<and> mem ?s2 (y + 16) = ?m (y + 16)" if y: "y \<in> set (F ?i)" for y
      proof -
        have yX: "y \<in> ?X" using used [OF i y] nfast [OF i] y by auto
        obtain w where "block ?m w y True" by (rule used_block [OF H used [OF i y]])
        then show ?thesis using untouchedD [OF ut yX] by blast
      qed
      then have "fast_chain (mem ?s2) ?i (?m ?fb) (F ?i)" using fast_chain_same [of "F ?i" "mem ?s2" ?m ?i] fc by blast
      moreover have "p + 16 \<noteq> ?fb" using p16 P(1) ad(1) layD(2) [OF heap_okD(1) [OF H]] by auto
      then have "get_fd (mem ?s2) p = ?v" by (simp add: get_fd_def)
      ultimately show ?thesis using av0 P(2) cs [OF pu] by simp
    qed
    have "distinct (p # F ?i)" using dd i nfast [OF i] by simp
    then have "length (p # F ?i) \<le> length bs"
      by (rule used_number [OF H]) (use used [OF i] pu in auto)
    then show "length (p # F ?i) \<le> loop_fuel sy" using few_blocks [OF H o(2)] by simp
    show "distinct (p # F ?i)" by fact
    show "(y, True) \<in> set bs" if "y \<in> set (p # F ?i)" for y using that used [OF i] pu by auto
  qed
  have fF: "fast_chunks (F(?i := p # F ?i)) = insert p (fast_chunks F)"
    using fast_chunks_update(1) [OF i o(1), of "p # F ?i"] fast_chunks_update(2) [OF i o(1)] by auto
  have "settled sy av base ?s2" by (rule settled_same [OF o(2)]) (use e W(2) in simp_all)
  moreover have "chunksize (mem ?s2) y \<le> MAX_FAST_SIZE" if "y \<in> insert p (fast_chunks F)" for y
    using cs [of y] pu o(4) o(8) [of y] small that by auto
  ultimately have A2: "arena_ok sy av base ?s2 bs (F(?i := p # F ?i))"
    unfolding arena_ok_def fF using h' fb fl by blast
  let ?s' = "set_have_fastchunks av True s\<lparr>mem := ?m'\<rparr>"
  have A': "arena_ok sy av base ?s' bs (F(?i := p # F ?i))"
    by (rule arena_ok_same [OF A2]) (simp_all add: set_have_fastchunks_def fast_push_def)
  have "live bs (F(?i := p # F ?i)) = live bs F - {p}" unfolding live_def fF by auto
  moreover have "untouched ?m (mem ?s') (live bs F - {p})"
    using untouched_sub [OF ut, of "live bs F - {p}"] s2 by (auto simp: live_def)
  moreover have "heap_end ?s' av = heap_end s av" using e W(2) s2 by (simp add: set_have_fastchunks_def)
  ultimately have t: "takes sy av base s bs F {p} ?s' bs (F(?i := p # F ?i))" unfolding takes_def using A' by blast
  have "\<not> fast_next_bad s av p ?sz"
  proof -
    obtain ls rs where bs: "bs = ls @ (p, True) # rs" using pu by (meson split_list)
    note K = block_in_heap(4,5) [OF H [unfolded bs]]
    show ?thesis using K by (simp add: fast_next_bad_def chunk_at_offset_def next_chunk_def not_le)
  qed
  then have "int_free_fastbin av p ?sz lk s = Inr ?s'"
    using old o(6)
    by (auto simp: int_free_fastbin_def Let_def upd_mem_def set_have_fastchunks_def fast_push_def set_fd_def)
  then show ?thesis using t by blast
qed

text \<open>Consolidation changes nothing for the program.\<close>

lemma consolidate_takes:
  assumes A: "arena_ok sy av base s bs F"
  shows "\<exists>s' bs' F'. malloc_consolidate sy av s = Inr s' \<and> takes sy av base s bs F {} s' bs' F' \<and> \<not> have_fastchunks s' av"
proof -
  let ?s0 = "set_have_fastchunks av False s" let ?xs = "concat (map F fastbin_indices)"
  have A0: "arena_ok sy av base ?s0 bs F" by (rule arena_ok_same [OF A]) (simp_all add: set_have_fastchunks_def)
  obtain L where H: "heap_ok ?s0 av base bs L" using A0 unfolding arena_ok_def by blast
  note o = arena_okD [OF A0]
  have "distinct fastbin_indices" and lt: "\<And>i. i \<in> set fastbin_indices \<Longrightarrow> i < 10" by (auto simp: fastbin_indices_def)
  then obtain s' bs' where c: "consolidate_bins sy av fastbin_indices ?s0 = Inr s'"
    and d: "drained ?s0 av base bs ?xs (fastbin_addr av ` set fastbin_indices) s' bs'"
    and z: "\<forall>i \<in> set fastbin_indices. mem s' (fastbin_addr av i) = NULL"
    using consolidate_bins_drains [OF H o(1)] by blast
  have u: "used_kept (mem ?s0) (mem s') bs'" and h': "\<exists>L. heap_ok s' av base bs' L"
    and ub: "\<And>x. (x, True) \<in> set bs' \<longleftrightarrow> (x, True) \<in> set bs \<and> x \<notin> set ?xs"
    and e: "heap_end s' av = heap_end ?s0 av" "\<exists>m b. s' = ?s0\<lparr>mem := m, binmap := b\<rparr>"
    using d unfolding drained_def by blast+
  have fb: "fast_bins sy s' av bs' (\<lambda>_. []) fastbin_indices" and fc: "fast_chunks (\<lambda>_. []) = {}"
    using z by (simp_all add: fast_bins_def fast_chunks_def fastbin_indices_def)
  have "settled sy av base s'" by (rule settled_same [OF o(2) e(1)]) (use e(2) in auto)
  moreover have "chunksize_nomask (mem s') x AND (IS_MMAPPED OR NON_MAIN_ARENA) = 0" if "(x, True) \<in> set bs'" for x
    using flags_kept [OF u that o(3)] that ub by blast
  ultimately have "arena_ok sy av base s' bs' (\<lambda>_. [])" unfolding arena_ok_def fc using h' fb by blast
  moreover have lv: "live bs' (\<lambda>_. []) = live bs F" using ub unfolding live_def fc fast_chunks_def by auto
  moreover have "untouched (mem s) (mem s') (live bs F)"
    using untouched_sub [OF used_kept_untouched [OF u], of "live bs F"] ub
    by (auto simp: live_def fast_chunks_def set_have_fastchunks_def)
  moreover have "heap_end s' av = heap_end s av" using e(1) by (simp add: set_have_fastchunks_def)
  ultimately have "takes sy av base s bs F {} s' bs' (\<lambda>_. [])" unfolding takes_def by simp
  moreover have "\<not> have_fastchunks s' av" using e(2) by (auto simp: set_have_fastchunks_def)
  moreover have "malloc_consolidate sy av s = Inr s'" using c by (simp add: malloc_consolidate_def)
  ultimately show ?thesis by blast
qed

lemma maybe_consolidate_takes:
  assumes A: "arena_ok sy av base s bs F"
  shows "\<exists>s' bs' F'. int_free_maybe_consolidate sy av n s = Inr s' \<and> takes sy av base s bs F {} s' bs' F'"
proof -
  have small: "\<not> trim_threshold (mp s') \<le> chunksize (mem s') (get_top (mem s') av)"
    if A': "arena_ok sy av base s' bs' F'" for s' bs' F'
  proof -
    obtain L where H: "heap_ok s' av base bs' L" using A' unfolding arena_ok_def by blast
    note D = layD [OF heap_okD(1) [OF H]]
    have "unat (heap_end s' av) < unat base + unat (trim_threshold (mp s'))"
      using arena_okD(2) [OF A'] unfolding settled_def by blast
    then show ?thesis using D(5) blockD(9) [OF D(4)] by (simp add: word_le_nat_alt)
  qed
  have id: "takes sy av base s bs F {} s bs F" unfolding takes_def using A by simp
  show ?thesis
  proof (cases "FASTBIN_CONSOLIDATION_THRESHOLD \<le> n \<and> have_fastchunks s av")
    case True
    obtain s' bs' F' where c: "malloc_consolidate sy av s = Inr s'" "takes sy av base s bs F {} s' bs' F'"
      using consolidate_takes [OF A] by blast
    have "arena_ok sy av base s' bs' F'" using c(2) unfolding takes_def by blast
    then have "int_free_maybe_consolidate sy av n s = Inr s'"
      using True c(1) small arena_okD(5) [OF A] by (simp add: int_free_maybe_consolidate_def)
    then show ?thesis using c(2) by blast
  next
    case False
    then have "int_free_maybe_consolidate sy av n s = Inr s"
      using small [OF A] arena_okD(5) [OF A] by (auto simp: int_free_maybe_consolidate_def)
    then show ?thesis using id by blast
  qed
qed

lemma block_flags:
  assumes "chunksize_nomask m x AND (IS_MMAPPED OR NON_MAIN_ARENA) = 0"
  shows "\<not> chunk_is_mmapped m x" "chunk_main_arena m x"
proof -
  have z: "(chunksize_nomask m x AND (2 OR 4)) AND k = 0" for k unfolding assms by simp
  show "\<not> chunk_is_mmapped m x" "chunk_main_arena m x"
    using z [of 2] z [of 4] unfolding and.assoc by (simp_all add: chunk_is_mmapped_def chunk_main_arena_def)
qed

lemma free_chunk_takes:
  assumes A: "arena_ok sy av base s bs F" and p: "p \<in> live bs F"
  shows "\<exists>s' bs' F'. int_free_chunk sy av p (chunksize (mem s) p) lk s = Inr s' \<and> takes sy av base s bs F {p} s' bs' F'"
proof (cases "chunksize (mem s) p \<le> ucast (global_max_fast s)")
  case True
  then show ?thesis
    using fastbin_takes [OF A p, of lk] max_fast [OF arena_okD(2) [OF A]] by (auto simp: int_free_chunk_def)
next
  case False
  note o = arena_okD [OF A]
  obtain L where H: "heap_ok s av base bs L" using A unfolding arena_ok_def by blast
  have pu: "(p, True) \<in> set bs" by (rule live_used [OF p])
  then obtain ls rs where bs: "bs = ls @ (p, True) # rs" by (meson split_list)
  obtain n s1 where m: "int_free_merge_chunk sy av p (chunksize (mem s) p) s = int_free_maybe_consolidate sy av n s1"
    and f: "finished s av base (free_block_at ls p rs) (ls @ rs) n s1"
    using merge_chunk [OF H [unfolded bs] o(6)] by blast
  note d = finished_drained [OF H [unfolded bs] f, folded bs]
  have "set [p] \<inter> fast_chunks F = {}" using p by (auto simp: live_def)
  note T = drained_arena_ok [OF A d this]
  then have t1: "takes sy av base s bs F {p} s1 (free_block_at ls p rs) F" unfolding takes_def using d by (simp add: drained_def)
  obtain s2 bs2 F2 where c: "int_free_maybe_consolidate sy av n s1 = Inr s2"
    "takes sy av base s1 (free_block_at ls p rs) F {} s2 bs2 F2"
    using maybe_consolidate_takes [OF T(1)] by blast
  note t = takes_trans [OF t1 c(2)]
  let ?s' = "set_errno (errno s) s2"
  have "arena_ok sy av base ?s' bs2 F2"
    by (rule arena_ok_same [of sy av base s2]) (use t in \<open>simp_all add: takes_def set_errno_def\<close>)
  then have t': "takes sy av base s bs F {p} ?s' bs2 F2" using t unfolding takes_def by (simp add: set_errno_def)
  have "\<not> chunk_is_mmapped (mem s) p" by (rule block_flags(1) [OF o(3) [OF pu]])
  then have "int_free_chunk sy av p (chunksize (mem s) p) lk s = Inr ?s'"
    using False max_fast [OF o(2)] m c(1) by (simp add: int_free_chunk_def Let_def)
  then show ?thesis using t' by blast
qed

text \<open>\<open>free\<close> of the library.\<close>

lemma libc_free_takes:
  assumes A: "arena_ok sy av base s bs F" and p: "p \<in> live bs F"
  shows "\<exists>s' bs' F'. libc_free sy (chunk2mem p) s = Inr s' \<and> takes sy av base s bs F {p} s' bs' F'"
proof -
  note o = arena_okD [OF A]
  obtain L where H: "heap_ok s av base bs L" using A unfolding arena_ok_def by blast
  have pu: "(p, True) \<in> set bs" by (rule live_used [OF p])
  obtain pi where P: "block (mem s) pi p True" "unat base \<le> unat p" by (rule used_block [OF H pu])
  note B = blockD [OF P(1)]
  have nn: "chunk2mem p \<noteq> NULL"
  proof -
    have "unat (p + 16) = unat p + 16" using B(4) by (intro unat_offset [of _ 16, simplified]) simp
    then show ?thesis by (auto simp: chunk2mem_def)
  qed
  have al: "\<not> misaligned_chunk p" using B(1) by (simp add: misaligned_chunk_iff)
  have ov: "\<not> add_overflows p (chunksize (mem s) p - MINSIZE)"
  proof -
    have "unat (chunksize (mem s) p - MINSIZE) = unat (chunksize (mem s) p) - 32"
      using B(10) by (simp add: unat_sub)
    then have "unat (p + (chunksize (mem s) p - MINSIZE)) = unat p + (unat (chunksize (mem s) p) - 32)"
      using B(4) unat_offset [of p "chunksize (mem s) p - MINSIZE"] by simp
    then show ?thesis by (simp add: add_overflows_def word_less_nat_alt)
  qed
  have arena: "arena_for_chunk sy s p = av"
    using o(2) block_flags(2) [OF o(3) [OF pu]] unfolding settled_def by blast
  obtain k where "loop_fuel sy = Suc k" using few_blocks [OF H o(2)] by (cases "loop_fuel sy") auto
  then have "libc_free sy (chunk2mem p) s = int_free_chunk sy av p (chunksize (mem s) p) False s"
    using nn al ov o(7) by (simp add: libc_free_def Let_def free_to_arena_def arena)
  then show ?thesis using free_chunk_takes [OF A p, of False] by simp
qed

end
