(* ===== verification/ArenaMalloc.thy ===== *)
theory ArenaMalloc
  imports Arena
begin

text \<open>
  \<open>_int_malloc\<close> and \<open>malloc\<close> in an arena: the request is served from a fast bin, a small bin, the unsorted
  list, a larger bin or top, after a consolidation if there are fast chunks, or the kernel is asked
  (\<open>answers\<close>). With a kernel that gives no more memory \<open>malloc\<close> returns a block or NULL (\<open>returns\<close>).
\<close>

section \<open>Malloc\<close>

text \<open>One round of the main loop: a block, or all bins and top have been tried.\<close>

lemma malloc_round:
  assumes H: "heap_ok s av base bs L" and main: "av = main_arena sy" "perturb_byte s = 0"
    and nb: "nb AND MALLOC_ALIGN_MASK = 0" "MINSIZE \<le> nb" "unat nb + 32 < 2 ^ 64" and fuel: "length bs < loop_fuel sy"
  obtains x s' bs' where "int_malloc_loop (Suc n) sy av nb bytes tc 0 count False s = Inr (chunk2mem x, s')"
      "allocated s av base bs nb x s' bs'"
    | s1 count' where "drained s av base bs [] {} s1 bs" "chunksize (mem s1) (get_top (mem s1) av) < nb + MINSIZE"
      "int_malloc_loop (Suc n) sy av nb bytes tc 0 count False s =
        (if have_fastchunks s1 av
         then bindE (malloc_consolidate sy av s1) (int_malloc_loop n sy av nb bytes tc 0 count' False)
         else int_malloc_sys sy nb av bytes s1)"
proof -
  let ?R = "int_malloc_loop (Suc n) sy av nb bytes tc 0 count False s"
  have "card (set (L 1)) < loop_fuel sy" using bin_length [OF H fuel, of 1] card_length [of "L 1"] by simp
  then consider (found) x s' bs' c where "unsorted_loop (loop_fuel sy) sy av nb bytes tc 0 0 count False s =
        Inr (Some (chunk2mem x), c, False, s')" "allocated s av base bs nb x s' bs'"
    | (passed) s1 c where "unsorted_loop (loop_fuel sy) sy av nb bytes tc 0 0 count False s = Inr (None, c, False, s1)"
        "drained s av base bs [] {} s1 bs"
    using unsorted_loop_allocates [OF H _ main nb fuel, of "loop_fuel sy" bytes tc 0 count] by blast
  then show thesis
  proof cases
    case found
    then have "?R = Inr (chunk2mem x, s')" by simp
    then show thesis using found(2) by (rule that(1))
  next
    case (passed s1 c)
    obtain L1 where H1: "heap_ok s1 av base bs L1" using passed(2) unfolding drained_def by blast
    have p1: "perturb_byte s1 = 0" using passed(2) main(2) unfolding drained_def by auto
    define r2 where "r2 = (if \<not> in_smallbin_range nb then int_malloc_largebin sy av nb bytes (bin_index nb) s1
      else Inr (None, s1))"
    have r2: "served s1 av base bs nb r2"
      unfolding r2_def using largebin_served [OF H1 main(1) p1 nb(1,2) _ fuel] served_none [OF H1] by simp
    have R: "?R = bindE r2 (\<lambda>(r, s). case r of Some p \<Rightarrow> Inr (p, s) | None \<Rightarrow>
            bindE (int_malloc_binmap sy av nb bytes (bin_index nb) s) (\<lambda>(r, s).
            case r of Some p \<Rightarrow> Inr (p, s) | None \<Rightarrow>
            bindE (int_malloc_top sy av nb bytes s) (\<lambda>(r, s).
            case r of Some p \<Rightarrow> Inr (p, s) | None \<Rightarrow>
            if have_fastchunks s av
            then bindE (malloc_consolidate sy av s) (int_malloc_loop n sy av nb bytes tc 0 c False)
            else int_malloc_sys sy nb av bytes s)))"
      using passed(1) by (simp add: r2_def Let_def)
    have al: "allocated s av base bs nb x s' bs'" if "drained s av base bs [] {} sa bs" "allocated sa av base bs nb x s' bs'"
      for sa x s' bs' by (rule drained_allocated [OF that H])
    have tr: "drained s av base bs [] {} sb bs" if "drained s av base bs [] {} sa bs" "drained sa av base bs [] {} sb bs" for sa sb
      using drained_trans [OF that] by simp
    show thesis
    proof (cases "\<exists>x s' bs'. r2 = Inr (Some (chunk2mem x), s') \<and> allocated s1 av base bs nb x s' bs'")
      case True
      then obtain x s' bs' where "r2 = Inr (Some (chunk2mem x), s')" "allocated s1 av base bs nb x s' bs'" by blast
      then show thesis using that(1) [OF _ al [OF passed(2)]] R by simp
    next
      case False
      then obtain s2 where s2: "r2 = Inr (None, s2)" "drained s1 av base bs [] {} s2 bs" using r2 unfolding served_def by blast
      note d2 = tr [OF passed(2) s2(2)]
      obtain L2 where H2: "heap_ok s2 av base bs L2" using d2 unfolding drained_def by blast
      have p2: "perturb_byte s2 = 0" using d2 main(2) unfolding drained_def by auto
      have r3: "served s2 av base bs nb (int_malloc_binmap sy av nb bytes (bin_index nb) s2)"
        by (rule binmap_served [OF H2 main(1) p2 nb(1,2)])
      show thesis
      proof (cases "\<exists>x s' bs'. int_malloc_binmap sy av nb bytes (bin_index nb) s2 = Inr (Some (chunk2mem x), s') \<and>
          allocated s2 av base bs nb x s' bs'")
        case True
        then obtain x s' bs' where "int_malloc_binmap sy av nb bytes (bin_index nb) s2 = Inr (Some (chunk2mem x), s')"
          "allocated s2 av base bs nb x s' bs'" by blast
        then show thesis using that(1) [OF _ al [OF d2]] R s2(1) by simp
      next
        case False
        then obtain s3 where s3: "int_malloc_binmap sy av nb bytes (bin_index nb) s2 = Inr (None, s3)"
          "drained s2 av base bs [] {} s3 bs" using r3 unfolding served_def by blast
        note d3 = tr [OF d2 s3(2)]
        obtain L3 where H3: "heap_ok s3 av base bs L3" using d3 unfolding drained_def by blast
        have p3: "perturb_byte s3 = 0" using d3 main(2) unfolding drained_def by auto
        note T = top_served [OF H3 main(1) p3 nb, of bytes]
        show thesis
        proof (cases "\<exists>x s' bs'. int_malloc_top sy av nb bytes s3 = Inr (Some (chunk2mem x), s') \<and>
            allocated s3 av base bs nb x s' bs'")
          case True
          then obtain x s' bs' where "int_malloc_top sy av nb bytes s3 = Inr (Some (chunk2mem x), s')"
            "allocated s3 av base bs nb x s' bs'" by blast
          then show thesis using that(1) [OF _ al [OF d3]] R s2(1) s3(1) by simp
        next
          case False
          then obtain s4 where s4: "int_malloc_top sy av nb bytes s3 = Inr (None, s4)" using T(1) unfolding served_def by blast
          then have "s4 = s3" "chunksize (mem s3) (get_top (mem s3) av) < nb + MINSIZE" using T(2) by blast+
          then show thesis using that(2) [OF d3] R s2(1) s3(1) s4 by simp
        qed
      qed
    qed
  qed
qed

text \<open>A kernel that gives no more memory.\<close>

definition exhausted :: "'k sys \<Rightarrow> bool" where
  "exhausted sy \<longleftrightarrow>
     (\<forall>n m k. \<exists>k'. sys_morecore sy n (m, k) = (MORECORE_FAILURE, m, k')) \<and>
     (\<forall>n fl m k. \<exists>k'. sys_mmap sy n fl (m, k) = (MAP_FAILED, m, k'))"

lemma kernel_fails:
  assumes "exhausted sy"
  shows "\<exists>k. MMAP sy n fl s = (MAP_FAILED, s\<lparr>kern := k\<rparr>)" "\<exists>k. MORECORE sy n s = (MORECORE_FAILURE, s\<lparr>kern := k\<rparr>)"
proof -
  obtain k where "sys_mmap sy n fl (mem s, kern s) = (MAP_FAILED, mem s, k)" using assms unfolding exhausted_def by blast
  then show "\<exists>k. MMAP sy n fl s = (MAP_FAILED, s\<lparr>kern := k\<rparr>)" unfolding MMAP_def by (cases s) auto
  obtain k where "sys_morecore sy n (mem s, kern s) = (MORECORE_FAILURE, mem s, k)"
    using assms unfolding exhausted_def by blast
  then show "\<exists>k. MORECORE sy n s = (MORECORE_FAILURE, s\<lparr>kern := k\<rparr>)" unfolding MORECORE_def by (cases s) auto
qed

lemma sysmalloc_mmap_fails: "exhausted sy \<Longrightarrow> \<exists>k. sysmalloc_mmap sy nb pg fl s = (MAP_FAILED, s\<lparr>kern := k\<rparr>)"
  using kernel_fails(1) [of sy "ALIGN_UP (nb + (MALLOC_ALIGNMENT - CHUNK_HDR_SZ) + CHUNK_HDR_SZ) pg" fl s]
  by (auto simp: sysmalloc_mmap_def Let_def)

lemma kern_again: "s\<lparr>kern := k\<rparr>\<lparr>kern := k'\<rparr> = s\<lparr>kern := k'\<rparr>"
  by simp

lemma try_mmap_fails:
  assumes "exhausted sy"
  shows "\<exists>b k. sysmalloc_try_mmap sy nb av s = ((None, b), s\<lparr>kern := k\<rparr>)"
proof -
  note f = sysmalloc_mmap_fails [OF assms]
  have id: "\<exists>k. s = s\<lparr>kern := k\<rparr>" by (intro exI [of _ "kern s"]) simp
  obtain k1 where k1: "(if hp_pagesize (mp s) > 0 \<and> nb \<ge> hp_pagesize (mp s)
      then sysmalloc_mmap sy nb (hp_pagesize (mp s)) (hp_flags (mp s)) s else (MAP_FAILED, s)) = (MAP_FAILED, s\<lparr>kern := k1\<rparr>)"
    using f [of nb "hp_pagesize (mp s)" "hp_flags (mp s)" s] id by (cases "hp_pagesize (mp s) > 0 \<and> nb \<ge> hp_pagesize (mp s)") auto
  obtain k2 where k2: "sysmalloc_mmap sy nb (dl_pagesize sy) 0 (s\<lparr>kern := k1\<rparr>) = (MAP_FAILED, s\<lparr>kern := k2\<rparr>)"
    using f [of nb "dl_pagesize sy" 0 "s\<lparr>kern := k1\<rparr>"] by auto
  show ?thesis unfolding sysmalloc_try_mmap_def k1 using k2 id by auto
qed

lemma mmap_fallback_fails:
  assumes "exhausted sy"
  shows "\<exists>r z k. sysmalloc_mmap_fallback sy sz nb old mn pg fl av s = (r, z, s\<lparr>kern := k\<rparr>) \<and> (r = MAP_FAILED \<or> r = MORECORE_FAILURE)"
proof -
  let ?z = "if contiguous s av then ALIGN_UP (sz + old) pg else sz" let ?z = "if ?z < mn then mn else ?z"
  have id: "\<exists>k. s = s\<lparr>kern := k\<rparr>" by (intro exI [of _ "kern s"]) simp
  obtain k where "MMAP sy ?z fl s = (MAP_FAILED, s\<lparr>kern := k\<rparr>)" using kernel_fails(1) [OF assms] by blast
  then show ?thesis unfolding sysmalloc_mmap_fallback_def Let_def using id by auto
qed

lemma tried_fallback_fails:
  assumes "exhausted sy" "r0 = MAP_FAILED \<or> r0 = MORECORE_FAILURE"
  shows "\<exists>r z k. (if c then sysmalloc_mmap_fallback sy sz nb old mn pg fl av s else (r0, z0, s)) = (r, z, s\<lparr>kern := k\<rparr>) \<and>
    (r = MAP_FAILED \<or> r = MORECORE_FAILURE)"
proof (cases c)
  case False
  have "s = s\<lparr>kern := kern s\<rparr>" by simp
  then show ?thesis using False assms(2) by metis
qed (use mmap_fallback_fails [OF assms(1)] in simp)

lemma brk_fails:
  assumes "exhausted sy"
  shows "\<exists>b z k. sysmalloc_brk sy nb av old s = (MORECORE_FAILURE, b, z, s\<lparr>kern := k\<rparr>)"
proof -
  have id: "\<exists>k. s = s\<lparr>kern := k\<rparr>" by (intro exI [of _ "kern s"]) simp
  define sz where "sz = (if contiguous s av then nb + top_pad (mp s) + MINSIZE - old else nb + top_pad (mp s) + MINSIZE)"
  obtain sz1 k1 where s1: "(if thp_pagesize (mp s) \<noteq> 0
      then (case MORECORE sy 0 s of (lastbrk, s) \<Rightarrow> (ALIGN_UP (lastbrk + sz) (thp_pagesize (mp s)) - lastbrk, s))
      else (ALIGN_UP sz (dl_pagesize sy), s)) = (sz1, s\<lparr>kern := k1\<rparr>)"
    using kernel_fails(2) [OF assms, of 0 s] id by (cases "thp_pagesize (mp s) \<noteq> 0") auto
  let ?s1 = "s\<lparr>kern := k1\<rparr>"
  obtain k2 where s2: "(if 0 <s sz1
      then (case MORECORE sy sz1 ?s1 of (brk, s) \<Rightarrow> (brk, if brk \<noteq> MORECORE_FAILURE then madvise_thp sy brk sz1 s else s))
      else (MORECORE_FAILURE, ?s1)) = (MORECORE_FAILURE, s\<lparr>kern := k2\<rparr>)"
    using kernel_fails(2) [OF assms, of sz1 ?s1] by (cases "0 <s sz1") auto
  let ?s2 = "s\<lparr>kern := k2\<rparr>"
  obtain r3 z3 k3 where s3: "(if hp_pagesize (mp ?s2) > 0
      then sysmalloc_mmap_fallback sy sz1 nb old (hp_pagesize (mp ?s2)) (hp_pagesize (mp ?s2)) (hp_flags (mp ?s2)) av ?s2
      else (MAP_FAILED, sz1, ?s2)) = (r3, z3, s\<lparr>kern := k3\<rparr>)" "r3 = MAP_FAILED \<or> r3 = MORECORE_FAILURE"
    using tried_fallback_fails [OF assms, of MAP_FAILED "hp_pagesize (mp ?s2) > 0" sz1 nb old "hp_pagesize (mp ?s2)"
        "hp_pagesize (mp ?s2)" "hp_flags (mp ?s2)" av ?s2 sz1] by (metis kern_again)
  let ?s3 = "s\<lparr>kern := k3\<rparr>"
  obtain r4 z4 k4 where s4: "(if r3 = MAP_FAILED
      then sysmalloc_mmap_fallback sy z3 nb old MMAP_AS_MORECORE_SIZE (dl_pagesize sy) 0 av ?s3
      else (r3, z3, ?s3)) = (r4, z4, s\<lparr>kern := k4\<rparr>)" "r4 = MAP_FAILED \<or> r4 = MORECORE_FAILURE"
    using tried_fallback_fails [OF assms s3(2), of "r3 = MAP_FAILED" z3 nb old MMAP_AS_MORECORE_SIZE
        "dl_pagesize sy" 0 av ?s3 z3] by (metis kern_again)
  show ?thesis
    unfolding sysmalloc_brk_def Let_def sz_def [symmetric] s1 prod.case s2 s3(1) s4(1) using s4(2) by auto
qed

lemma sysmalloc_fails:
  assumes H: "heap_ok s av base bs L" and st: "settled sy av base s" and ex: "exhausted sy" and big: "chunksize (mem s) (get_top (mem s) av) < nb + MINSIZE"
  shows "\<exists>e x k. sysmalloc sy nb av s = Inr (NULL, s\<lparr>errno := e, max_system_mem := x, kern := k\<rparr>)"
proof -
  let ?tp = "get_top (mem s) av" let ?sz = "chunksize (mem s) ?tp"
  have av: "av = main_arena sy" "av \<noteq> NULL" and pg: "heap_end s av AND (dl_pagesize sy - 1) = 0"
    using st unfolding settled_def by blast+
  obtain b k1 where s1: "sysmalloc_try_mmap sy nb av s = ((None, b), s\<lparr>kern := k1\<rparr>)" using try_mmap_fails [OF ex] by blast
  let ?s1 = "s\<lparr>kern := k1\<rparr>"
  obtain sb z k2 where s2: "sysmalloc_brk sy nb av ?sz ?s1 = (MORECORE_FAILURE, sb, z, s\<lparr>kern := k2\<rparr>)"
    using brk_fails [OF ex, of nb av ?sz ?s1] by auto
  let ?s2 = "s\<lparr>kern := k2\<rparr>"
  note T = blockD [OF layD(4) [OF heap_okD(1) [OF H]]]
  have "MINSIZE \<le> ?sz" "prev_inuse (mem s) ?tp" using T(5,10) by auto
  moreover have "chunk_at_offset ?tp ?sz AND (dl_pagesize sy - 1) = 0"
    using pg by (simp add: chunk_at_offset_def next_chunk_def)
  ultimately have "sysmalloc sy nb av s = Inr (sysmalloc_finish sy nb av ?s2)"
    unfolding sysmalloc_def s1 using av s2 big
    by (simp add: Let_def assertE_def sysmalloc_extend_def)
  moreover have "\<exists>e x k. sysmalloc_finish sy nb av ?s2 = (NULL, s\<lparr>errno := e, max_system_mem := x, kern := k\<rparr>)"
    using big unfolding sysmalloc_finish_def Let_def by (cases s) (auto simp: set_errno_def)
  ultimately show ?thesis by simp
qed

section \<open>Malloc as a whole\<close>

lemma gives_after:
  assumes "takes sy av base s bs F {} s1 bs1 F1" "gives sy av base s1 bs1 F1 nb x s' bs' F'"
  shows "gives sy av base s bs F nb x s' bs' F'"
proof -
  have t: "untouched (mem s) (mem s1) (live bs F)" "live bs1 F1 = live bs F" "heap_end s1 av = heap_end s av"
    using assms(1) unfolding takes_def by auto
  show ?thesis using assms(2) untouched_trans [OF t(1), of "mem s'"] unfolding gives_def t(2,3) by blast
qed

lemma allocated_gives:
  assumes "arena_ok sy av base s bs F" "allocated s av base bs nb x s' bs'"
  shows "gives sy av base s bs F nb x s' bs' F"
proof -
  have "heap_end s' av = heap_end s av" using assms(2) unfolding allocated_def by blast
  then show ?thesis unfolding gives_def using allocated_arena_ok [OF assms] by blast
qed

lemma drained_takes:
  assumes "arena_ok sy av base s bs F" "drained s av base bs [] {} s' bs'"
  shows "takes sy av base s bs F {} s' bs' F"
proof -
  have "heap_end s' av = heap_end s av" using assms(2) unfolding drained_def by blast
  then show ?thesis unfolding takes_def using drained_arena_ok [OF assms] by simp
qed

text \<open>
  A block of at least \<open>nb\<close> bytes; or no bin has served the request, top is too small, all blocks are as
  they were and the kernel is asked.
\<close>

definition answers :: "'k sys \<Rightarrow> ptr \<Rightarrow> ptr \<Rightarrow> 'k st \<Rightarrow> (ptr \<times> bool) list \<Rightarrow> (u32 \<Rightarrow> ptr list) \<Rightarrow> u64 \<Rightarrow> u64 \<Rightarrow>
    abort + ptr \<times> 'k st \<Rightarrow> bool" where
  "answers sy av base s bs F nb bytes r \<longleftrightarrow>
     (\<exists>x s' bs' F'. r = Inr (chunk2mem x, s') \<and> gives sy av base s bs F nb x s' bs' F') \<or>
     (\<exists>s1 bs1 F1. r = int_malloc_sys sy nb av bytes s1 \<and> takes sy av base s bs F {} s1 bs1 F1 \<and>
        chunksize (mem s1) (get_top (mem s1) av) < nb + MINSIZE)"

lemma answers_after:
  assumes "takes sy av base s bs F {} s1 bs1 F1" "answers sy av base s1 bs1 F1 nb bytes r"
  shows "answers sy av base s bs F nb bytes r"
proof -
  consider x s' bs' F' where "r = Inr (chunk2mem x, s')" "gives sy av base s1 bs1 F1 nb x s' bs' F'"
    | s2 bs2 F2 where "r = int_malloc_sys sy nb av bytes s2" "takes sy av base s1 bs1 F1 {} s2 bs2 F2"
      "chunksize (mem s2) (get_top (mem s2) av) < nb + MINSIZE"
    using assms(2) unfolding answers_def by blast
  then show ?thesis
  proof cases
    case 1
    then show ?thesis using gives_after [OF assms(1)] unfolding answers_def by blast
  next
    case 2
    then show ?thesis using takes_trans [OF assms(1)] unfolding answers_def by blast
  qed
qed

lemma arena_heap:
  assumes "arena_ok sy av base s bs F"
  obtains L where "heap_ok s av base bs L" "length bs + 1 < loop_fuel sy"
  using assms few_blocks unfolding arena_ok_def by blast

lemma loop_answers:
  assumes A: "arena_ok sy av base s bs F" and nb: "nb AND MALLOC_ALIGN_MASK = 0" "MINSIZE \<le> nb" "unat nb + 32 < 2 ^ 64"
  shows "answers sy av base s bs F nb bytes (int_malloc_loop (Suc n) sy av nb bytes tc 0 count False s) \<or>
    (\<exists>s1 bs1 F1 c. takes sy av base s bs F {} s1 bs1 F1 \<and> \<not> have_fastchunks s1 av \<and> have_fastchunks s av \<and>
      int_malloc_loop (Suc n) sy av nb bytes tc 0 count False s = int_malloc_loop n sy av nb bytes tc 0 c False s1)"
proof -
  obtain L where H: "heap_ok s av base bs L" and fuel: "length bs + 1 < loop_fuel sy" by (rule arena_heap [OF A])
  have fuel: "length bs < loop_fuel sy" using fuel by simp
  note o = arena_okD [OF A]
  show ?thesis
  proof (rule malloc_round [OF H o(5,6) nb fuel, of n bytes tc count], goal_cases)
    case (1 x s' bs')
    then show ?case using allocated_gives [OF A] unfolding answers_def by metis
  next
    case (2 s1 c)
    note t = drained_takes [OF A 2(1)]
    have A1: "arena_ok sy av base s1 bs F" using t unfolding takes_def by blast
    have hf: "have_fastchunks s1 av = have_fastchunks s av" using 2(1) unfolding drained_def by auto
    show ?case
    proof (cases "have_fastchunks s1 av")
      case True
      obtain s2 bs2 F2 where c: "malloc_consolidate sy av s1 = Inr s2" "takes sy av base s1 bs F {} s2 bs2 F2"
        "\<not> have_fastchunks s2 av" using consolidate_takes [OF A1] by blast
      then show ?thesis using 2(3) True hf takes_trans [OF t c(2)] by auto
    next
      case False
      then show ?thesis using 2(2,3) t unfolding answers_def by auto
    qed
  qed
qed

lemma request_size:
  assumes "bytes \<le> PTRDIFF_MAX"
  defines "nb \<equiv> checked_request2size bytes"
  shows "nb AND MALLOC_ALIGN_MASK = 0" "MINSIZE \<le> nb" "unat nb + 32 < 2 ^ 64" "unat bytes + 8 \<le> unat nb"
proof -
  note R = request_size_facts [OF assms(1), folded nb_def]
  show "nb AND MALLOC_ALIGN_MASK = 0" using R(1) by (simp add: multiple_iff)
  show "MINSIZE \<le> nb" using R(2) by (simp add: word_le_nat_alt)
  have "unat bytes \<le> 2 ^ 63 - 1" using assms(1) by (simp add: word_le_nat_alt)
  then show "unat nb + 32 < 2 ^ 64" using R(4) by auto
  show "unat bytes + 8 \<le> unat nb" by (rule R(3))
qed

text \<open>With fast chunks there are two rounds, else one.\<close>

lemma rounds_answer:
  assumes A: "arena_ok sy av base s bs F" and nb: "nb AND MALLOC_ALIGN_MASK = 0" "MINSIZE \<le> nb" "unat nb + 32 < 2 ^ 64"
  shows "answers sy av base s bs F nb bytes (int_malloc_loop (Suc (Suc n)) sy av nb bytes tc 0 count False s)"
proof -
  consider "answers sy av base s bs F nb bytes (int_malloc_loop (Suc (Suc n)) sy av nb bytes tc 0 count False s)"
    | s1 bs1 F1 c where "takes sy av base s bs F {} s1 bs1 F1" "\<not> have_fastchunks s1 av"
      "int_malloc_loop (Suc (Suc n)) sy av nb bytes tc 0 count False s = int_malloc_loop (Suc n) sy av nb bytes tc 0 c False s1"
    using loop_answers [OF A nb, where n = "Suc n" and bytes = bytes and tc = tc and count = count] by blast
  then show ?thesis
  proof cases
    case (2 s1 bs1 F1 c)
    have A1: "arena_ok sy av base s1 bs1 F1" using 2(1) unfolding takes_def by blast
    have "answers sy av base s1 bs1 F1 nb bytes (int_malloc_loop (Suc n) sy av nb bytes tc 0 c False s1)"
      using loop_answers [OF A1 nb, where n = n and bytes = bytes and tc = tc and count = c] 2(2) by blast
    then show ?thesis unfolding 2(3) by (rule answers_after [OF 2(1)])
  qed
qed

lemma int_malloc_answers:
  assumes A: "arena_ok sy av base s bs F" and small: "bytes \<le> PTRDIFF_MAX"
  shows "answers sy av base s bs F (checked_request2size bytes) bytes (int_malloc sy av bytes s)"
proof -
  let ?nb = "checked_request2size bytes"
  note o = arena_okD [OF A] and nb = request_size [OF small]
  obtain L where H: "heap_ok s av base bs L" and fuel: "length bs + 1 < loop_fuel sy" by (rule arena_heap [OF A])
  obtain n where n: "loop_fuel sy = Suc (Suc n)"
  proof -
    have "loop_fuel sy = Suc (Suc (loop_fuel sy - 2))" using fuel by simp
    then show thesis by (rule that)
  qed
  have av: "av \<noteq> NULL" using o(2) unfolding settled_def by blast
  have start: "int_malloc sy av bytes s = bindE (int_malloc_fastbin av ?nb bytes s) (\<lambda>(r, s).
           case r of Some p \<Rightarrow> Inr (p, s) | None \<Rightarrow>
           bindE (if in_smallbin_range ?nb then int_malloc_smallbin sy av ?nb bytes s
                  else if have_fastchunks s av
                  then bindE (malloc_consolidate sy av s) (\<lambda>s. Inr (None, s))
                  else Inr (None, s)) (\<lambda>(r, s).
           case r of Some p \<Rightarrow> Inr (p, s) | None \<Rightarrow>
           let tc_idx = csize2tidx ?nb;
               tcache_nb = (if tcache s \<noteq> NULL \<and> tc_idx < tcache_small_bins (mp s) then ?nb else 0)
           in int_malloc_loop (loop_fuel sy) sy av ?nb bytes tc_idx tcache_nb 0 False s))"
    using leD [OF small] av by (simp add: int_malloc_def Let_def)
  have rest: "answers sy av base s1 bs1 F1 ?nb bytes (int_malloc_loop (loop_fuel sy) sy av ?nb bytes (csize2tidx ?nb)
      (if tcache s1 \<noteq> NULL \<and> csize2tidx ?nb < tcache_small_bins (mp s1) then ?nb else 0) 0 False s1)"
    if "arena_ok sy av base s1 bs1 F1" for s1 bs1 F1
    using rounds_answer [OF that nb(1-3), where n = n and bytes = bytes and tc = "csize2tidx ?nb" and count = 0] arena_okD(7) [OF that] unfolding n by simp
  consider (none) "int_malloc_fastbin av ?nb bytes s = Inr (None, s)"
    | (fast) x s' F' where "int_malloc_fastbin av ?nb bytes s = Inr (Some (chunk2mem x), s')" "gives sy av base s bs F ?nb x s' bs F'"
    using fastbin_gives [OF A nb(1,2), of bytes] by blast
  then show ?thesis
  proof cases
    case fast
    then have "int_malloc sy av bytes s = Inr (chunk2mem x, s')" unfolding start by simp
    then show ?thesis using fast(2) unfolding answers_def by blast
  next
    case none
    show ?thesis
    proof (cases "in_smallbin_range ?nb")
      case True
      consider "int_malloc_smallbin sy av ?nb bytes s = Inr (None, s)"
        | x s' bs' where "int_malloc_smallbin sy av ?nb bytes s = Inr (Some (chunk2mem x), s')" "allocated s av base bs ?nb x s' bs'"
        using smallbin_allocates [OF H o(5-7) True nb(1,2), of bytes] by blast
      then show ?thesis
      proof cases
        case 1
        then show ?thesis using rest [OF A] True unfolding start none by (simp add: Let_def)
      next
        case 2
        then have "int_malloc sy av bytes s = Inr (chunk2mem x, s')" unfolding start none using True by simp
        then show ?thesis using allocated_gives [OF A 2(2)] unfolding answers_def by blast
      qed
    next
      case False
      show ?thesis
      proof (cases "have_fastchunks s av")
        case True
        obtain s1 bs1 F1 where c: "malloc_consolidate sy av s = Inr s1" "takes sy av base s bs F {} s1 bs1 F1"
          using consolidate_takes [OF A] by blast
        have A1: "arena_ok sy av base s1 bs1 F1" using c(2) unfolding takes_def by blast
        show ?thesis
          using answers_after [OF c(2) rest [OF A1]] False True c(1) unfolding start none by (simp add: Let_def)
      next
        case nofast: False
        show ?thesis using rest [OF A] False nofast unfolding start none by (simp add: Let_def)
      qed
    qed
  qed
qed

text \<open>\<open>malloc\<close> of the library.\<close>

lemma arena_assert_holds:
  assumes A: "arena_ok sy av base s bs F" and x: "x \<in> live bs F"
  shows "arena_assert sy av (chunk2mem x) s = Inr ()"
proof -
  have "arena_for_chunk sy s x = av"
    using arena_okD(2) [OF A] block_flags(2) [OF arena_okD(3) [OF A live_used [OF x]]] unfolding settled_def by blast
  then show ?thesis by (simp add: arena_assert_def assertE_def)
qed

text \<open>A block, or NULL with all blocks as they were.\<close>

definition returns :: "'k sys \<Rightarrow> ptr \<Rightarrow> ptr \<Rightarrow> 'k st \<Rightarrow> (ptr \<times> bool) list \<Rightarrow> (u32 \<Rightarrow> ptr list) \<Rightarrow> u64 \<Rightarrow>
    abort + ptr \<times> 'k st \<Rightarrow> bool" where
  "returns sy av base s bs F nb r \<longleftrightarrow>
     (\<exists>x s' bs' F'. r = Inr (chunk2mem x, s') \<and> gives sy av base s bs F nb x s' bs' F') \<or>
     (\<exists>s' bs' F'. r = Inr (NULL, s') \<and> takes sy av base s bs F {} s' bs' F')"

lemma sys_returns:
  assumes A: "arena_ok sy av base s bs F" and ex: "exhausted sy" and big: "chunksize (mem s) (get_top (mem s) av) < nb + MINSIZE"
  shows "\<exists>s'. int_malloc_sys sy nb av bytes s = Inr (NULL, s') \<and> takes sy av base s bs F {} s' bs F"
proof -
  obtain L where H: "heap_ok s av base bs L" by (rule arena_heap [OF A])
  obtain e x k where "sysmalloc sy nb av s = Inr (NULL, s\<lparr>errno := e, max_system_mem := x, kern := k\<rparr>)"
    using sysmalloc_fails [OF H arena_okD(2) [OF A] ex big] by blast
  moreover have "takes sy av base s bs F {} (s\<lparr>errno := e, max_system_mem := x, kern := k\<rparr>) bs F"
    unfolding takes_def using arena_ok_same [OF A, of "s\<lparr>errno := e, max_system_mem := x, kern := k\<rparr>"] by simp
  ultimately show ?thesis unfolding int_malloc_sys_def by auto
qed

lemma libc_malloc_returns:
  assumes A: "arena_ok sy av base s bs F" and ex: "exhausted sy" and small: "bytes \<le> PTRDIFF_MAX"
  shows "returns sy av base s bs F (checked_request2size bytes) (libc_malloc sy bytes s)"
proof -
  let ?nb = "checked_request2size bytes"
  note o = arena_okD [OF A]
  have "libc_malloc sy bytes s = libc_malloc2 sy bytes s"
    using o(2) by (auto simp: libc_malloc_def Let_def tcache_malloc_init_def tcache_init_def settled_def)
  also have "returns sy av base s bs F ?nb \<dots>"
  proof -
    consider x s' bs' F' where "int_malloc sy av bytes s = Inr (chunk2mem x, s')" "gives sy av base s bs F ?nb x s' bs' F'"
      | s1 bs1 F1 where "int_malloc sy av bytes s = int_malloc_sys sy ?nb av bytes s1" "takes sy av base s bs F {} s1 bs1 F1"
        "chunksize (mem s1) (get_top (mem s1) av) < ?nb + MINSIZE"
      using int_malloc_answers [OF A small] unfolding answers_def by blast
    then show ?thesis
    proof cases
      case (1 x s' bs' F')
      then have "libc_malloc2 sy bytes s = Inr (chunk2mem x, s')"
        using arena_assert_holds [of sy av base s' bs' F' x] unfolding libc_malloc2_def o(5) [symmetric] gives_def by simp
      then show ?thesis using 1(2) unfolding returns_def by blast
    next
      case (2 s1 bs1 F1)
      have "arena_ok sy av base s1 bs1 F1" using 2(2) unfolding takes_def by blast
      then obtain s' where s': "int_malloc_sys sy ?nb av bytes s1 = Inr (NULL, s')" "takes sy av base s1 bs1 F1 {} s' bs1 F1"
        using sys_returns [OF _ ex 2(3)] by blast
      then have "libc_malloc2 sy bytes s = Inr (NULL, s')"
        unfolding libc_malloc2_def o(5) [symmetric] 2(1) by (simp add: arena_assert_def assertE_def)
      then show ?thesis using takes_trans [OF 2(2) s'(2)] unfolding returns_def by blast
    qed
  qed
  finally show ?thesis .
qed

end
