(* ===== verification/Calloc.thy ===== *)
theory Calloc
  imports ArenaMalloc
begin

text \<open>
  \<open>calloc\<close> in an arena: bulk stores of whole words, the body of a block, and the block of zero words
  (\<open>blank\<close>) that \<open>__libc_calloc2\<close> returns.
\<close>

section \<open>Bulk stores of whole words\<close>

lemma and_7_iff: "x AND 7 = 0 \<longleftrightarrow> unat x mod 8 = 0" for x :: u64
proof -
  have "x AND 7 = 0 \<longleftrightarrow> unat (x AND 7) = 0" by (simp add: unat_eq_zero)
  then show ?thesis unfolding unat_and_7 .
qed

lemma word_in_block: "aligned p \<Longrightarrow> unat p \<le> unat a \<Longrightarrow> (a - p) AND 7 = 0 \<longleftrightarrow> a AND 7 = 0"
proof -
  assume p: "aligned p" "unat p \<le> unat a"
  have "unat p mod 16 = 0" using p(1) by (simp add: aligned_def multiple_iff)
  then obtain k where "unat p = 16 * k" by (metis dvdE mod_0_imp_dvd)
  then have k: "unat p = 8 * (2 * k)" by simp
  have "unat (a - p) = unat a - unat p" using p(2) by (intro unat_sub) (simp add: word_le_nat_alt)
  then have "unat a = unat (a - p) + 8 * (2 * k)" using p(2) k by simp
  then show ?thesis unfolding and_7_iff by (metis mod_mult_self2)
qed

lemma bulk_word:
  fixes a p n :: u64
  assumes "unat p + unat n < 2 ^ 64" "n AND 7 = 0" "(a - p) AND 7 = 0"
  shows "a - p < n \<longleftrightarrow> unat p \<le> unat a \<and> unat a + 8 \<le> unat p + unat n" "a - p < n \<Longrightarrow> 8 \<le> n - (a - p)"
proof -
  have m: "unat n mod 8 = 0" "unat (a - p) mod 8 = 0"
    using assms(2,3) by (simp_all add: and_7_iff)
  have step: "unat (a - p) + 8 \<le> unat n" if "a - p < n"
  proof -
    obtain i j where "unat n = 8 * i" "unat (a - p) = 8 * j" using m by (metis dvdE mod_0_imp_dvd)
    then show ?thesis using that by (simp add: word_less_nat_alt)
  qed
  have up: "unat a = unat p + unat (a - p)" if "a - p < n"
  proof -
    have "unat (p + (a - p)) = unat p + unat (a - p)"
      using that assms(1) by (intro unat_offset) (simp add: word_less_nat_alt)
    then show ?thesis by simp
  qed
  show "a - p < n \<longleftrightarrow> unat p \<le> unat a \<and> unat a + 8 \<le> unat p + unat n"
  proof
    assume "a - p < n"
    then show "unat p \<le> unat a \<and> unat a + 8 \<le> unat p + unat n" using step up by simp
  next
    assume le: "unat p \<le> unat a \<and> unat a + 8 \<le> unat p + unat n"
    then have "unat (a - p) = unat a - unat p" by (intro unat_sub) (simp add: word_le_nat_alt)
    moreover have "unat a - unat p < unat n" using le by linarith
    ultimately show "a - p < n" by (simp add: word_less_nat_alt)
  qed
  show "8 \<le> n - (a - p)" if l: "a - p < n"
  proof -
    have "unat (n - (a - p)) = unat n - unat (a - p)" using l by (intro unat_sub) simp
    then show ?thesis using step [OF l] by (simp add: word_le_nat_alt)
  qed
qed

lemma memset_words:
  assumes "unat p + unat n < 2 ^ 64" "n AND 7 = 0"
  shows "memset_at m p 0 n a =
    (if unat p \<le> unat a \<and> unat a + 8 \<le> unat p + unat n \<and> (a - p) AND 7 = 0 then 0 else m a)"
proof (cases "(a - p) AND 7 = 0")
  case True
  show ?thesis using bulk_word [OF assms True] True by (auto simp: memset_at_def Let_def not_le)
qed (simp add: memset_at_def Let_def)

lemma memcpy_words:
  assumes "unat p + unat n < 2 ^ 64" "n AND 7 = 0"
  shows "memcpy_at m p q n a =
    (if unat p \<le> unat a \<and> unat a + 8 \<le> unat p + unat n \<and> (a - p) AND 7 = 0 then m (q + (a - p)) else m a)"
proof (cases "(a - p) AND 7 = 0")
  case True
  show ?thesis using bulk_word [OF assms True] True by (auto simp: memcpy_at_def Let_def not_le)
qed (simp add: memcpy_at_def Let_def)

section \<open>calloc\<close>

text \<open>The body of a block, from its first word to the first word of the next chunk.\<close>

lemma live_body:
  assumes A: "arena_ok sy av base s bs F" and x: "x \<in> live bs F"
  defines "n \<equiv> chunksize (mem s) x - SIZE_SZ"
  shows "unat (chunk2mem x) = unat x + 16" "unat n = unat (chunksize (mem s) x) - 8" "n AND 7 = 0"
    "unat (chunk2mem x) + unat n < 2 ^ 64" "unat base \<le> unat x" "aligned (chunk2mem x)" "32 \<le> unat (chunksize (mem s) x)"
    "unat x + unat (chunksize (mem s) x) \<le> unat (get_top (mem s) av)" "\<not> chunk_is_mmapped (mem s) x" "memsize (mem s) x = n"
proof -
  obtain L where H: "heap_ok s av base bs L" by (rule arena_heap [OF A])
  obtain w where B: "block (mem s) w x True" "unat base \<le> unat x"
    "unat x + unat (chunksize (mem s) x) \<le> unat (get_top (mem s) av)"
    by (rule used_block [OF H live_used [OF x]])
  note X = blockD [OF B(1)]
  show p: "unat (chunk2mem x) = unat x + 16"
    using X(4) unfolding chunk2mem_def by (intro unat_offset [of _ 16, simplified]) simp
  show n: "unat n = unat (chunksize (mem s) x) - 8"
    unfolding n_def using X(2) by (simp add: unat_sub word_le_nat_alt)
  have "unat (chunksize (mem s) x) mod 16 = 0" using X(3) by (simp add: multiple_iff)
  then obtain k where "unat (chunksize (mem s) x) = 16 * k" by (metis dvdE mod_0_imp_dvd)
  then have "unat n = 8 * (2 * k - 1)" using n by simp
  then show "n AND 7 = 0" by (simp add: and_7_iff)
  show "unat (chunk2mem x) + unat n < 2 ^ 64" using p n X(2,4) by simp
  show "unat base \<le> unat x" "unat x + unat (chunksize (mem s) x) \<le> unat (get_top (mem s) av)"
    "32 \<le> unat (chunksize (mem s) x)" using B(2,3) X(2) .
  show "aligned (chunk2mem x)" using aligned_add [OF X(1), of 16] by (simp add: chunk2mem_def)
  show "\<not> chunk_is_mmapped (mem s) x" by (rule block_flags(1) [OF arena_okD(3) [OF A live_used [OF x]]])
  show "memsize (mem s) x = n" by (simp add: memsize_def n_def)
qed

lemma gives_fill:
  assumes g: "gives sy av base s bs F nb x s1 bs1 F1"
    and w: "\<forall>a. m' a \<noteq> mem s1 a \<longrightarrow> unat x + 16 \<le> unat a \<and> unat a \<le> unat x + unat (chunksize (mem s1) x)"
  shows "gives sy av base s bs F nb x (s1\<lparr>mem := m'\<rparr>) bs1 F1"
proof -
  have A1: "arena_ok sy av base s1 bs1 F1" and lv: "live bs1 F1 = insert x (live bs F)" "x \<notin> live bs F"
    and u: "untouched (mem s) (mem s1) (live bs F)" and e: "heap_end s1 av = heap_end s av"
    and sz: "nb \<le> chunksize (mem s1) x" "chunksize (mem s1) x - nb < MINSIZE" using g unfolding gives_def by blast+
  have x: "x \<in> live bs1 F1" using lv by simp
  note W = words_arena_ok [where m' = m', OF A1 x w]
  have "live bs1 F1 - {x} = live bs F" using lv by auto
  then have "untouched (mem s) m' (live bs F)" using untouched_trans [OF u, of m'] W(2) by simp
  moreover obtain L where "heap_ok s1 av base bs1 L" by (rule arena_heap [OF A1])
  then have "heap_end (s1\<lparr>mem := m'\<rparr>) av = heap_end s1 av" by (rule used_words(2) [OF _ live_used [OF x] w])
  ultimately show ?thesis unfolding gives_def using W(1,3) lv sz e by simp
qed

lemma int_malloc_returns:
  assumes A: "arena_ok sy av base s bs F" and ex: "exhausted sy" and small: "bytes \<le> PTRDIFF_MAX"
  shows "returns sy av base s bs F (checked_request2size bytes) (int_malloc sy av bytes s)"
proof -
  consider x s' bs' F' where "int_malloc sy av bytes s = Inr (chunk2mem x, s')"
      "gives sy av base s bs F (checked_request2size bytes) x s' bs' F'"
    | s1 bs1 F1 where "int_malloc sy av bytes s = int_malloc_sys sy (checked_request2size bytes) av bytes s1"
      "takes sy av base s bs F {} s1 bs1 F1" "chunksize (mem s1) (get_top (mem s1) av) < checked_request2size bytes + MINSIZE"
    using int_malloc_answers [OF A small] unfolding answers_def by blast
  then show ?thesis
  proof cases
    case 1
    then show ?thesis unfolding returns_def by blast
  next
    case (2 s1 bs1 F1)
    have "arena_ok sy av base s1 bs1 F1" using 2(2) unfolding takes_def by blast
    then obtain s' where s': "int_malloc_sys sy (checked_request2size bytes) av bytes s1 = Inr (NULL, s')"
      "takes sy av base s1 bs1 F1 {} s' bs1 F1"
      using sys_returns [OF _ ex 2(3)] by blast
    then show ?thesis using takes_trans [OF 2(2) s'(2)] unfolding returns_def 2(1) by blast
  qed
qed

text \<open>The words of a block handed out by \<open>calloc\<close> are zero.\<close>

definition blank :: "memory \<Rightarrow> ptr \<Rightarrow> bool" where
  "blank m x \<longleftrightarrow> (\<forall>a. unat x + 16 \<le> unat a \<and> unat a \<le> unat x + unat (chunksize m x) \<and> a AND 7 = 0 \<longrightarrow> m a = 0)"

lemma calloc2_returns:
  assumes A: "arena_ok sy av base s bs F" and ex: "exhausted sy" and small: "bytes \<le> PTRDIFF_MAX"
  defines "nb \<equiv> checked_request2size bytes"
  shows "(\<exists>x s' bs' F'. libc_calloc2 sy bytes s = Inr (chunk2mem x, s') \<and> gives sy av base s bs F nb x s' bs' F' \<and>
      blank (mem s') x) \<or>
    (\<exists>s' bs' F'. libc_calloc2 sy bytes s = Inr (NULL, s') \<and> takes sy av base s bs F {} s' bs' F')"
proof -
  note o = arena_okD [OF A]
  obtain ot os where top: "calloc_oldtop sy av s = (ot, os)" "ot = get_top (mem s) av" "chunksize (mem s) ot \<le> os"
  proof -
    let ?c = "chunksize (mem s) (get_top (mem s) av)" let ?f = "sbrk_base (mp s) + max_system_mem s av - get_top (mem s) av"
    have "calloc_oldtop sy av s = (get_top (mem s) av, if ?c < ?f then ?f else ?c)"
      using o(5) by (simp add: calloc_oldtop_def Let_def)
    then show thesis by (rule that) (simp_all add: less_imp_le)
  qed
  consider x s1 bs1 F1 where "int_malloc sy av bytes s = Inr (chunk2mem x, s1)" "gives sy av base s bs F nb x s1 bs1 F1"
    | s1 bs1 F1 where "int_malloc sy av bytes s = Inr (NULL, s1)" "takes sy av base s bs F {} s1 bs1 F1"
    using int_malloc_returns [OF A ex small] unfolding returns_def nb_def by blast
  then show ?thesis
  proof cases
    case (1 x s1 bs1 F1)
    have A1: "arena_ok sy av base s1 bs1 F1" and lv: "live bs1 F1 = insert x (live bs F)"
      and e: "heap_end s1 av = heap_end s av" using 1(2) unfolding gives_def by blast+
    have x: "x \<in> live bs1 F1" using lv by simp
    note B = live_body [OF A1 x]
    let ?c = "chunksize (mem s1) x" let ?n = "chunksize (mem s1) x - SIZE_SZ"
    let ?m = "memset_at (mem s1) (chunk2mem x) 0 ?n"
    note ms = memset_words [OF B(4,3)]
    have w: "\<forall>a. ?m a \<noteq> mem s1 a \<longrightarrow> unat x + 16 \<le> unat a \<and> unat a \<le> unat x + unat ?c"
      using B(1,2,7) by (auto simp: ms)
    have nn: "chunk2mem x \<noteq> NULL" using B(1) by auto
    have cs: "\<not> (x = ot \<and> ?c > os)"
    proof
      assume *: "x = ot \<and> ?c > os"
      obtain L where H: "heap_ok s av base bs L" by (rule arena_heap [OF A])
      obtain L1 where H1: "heap_ok s1 av base bs1 L1" by (rule arena_heap [OF A1])
      note T = blockD [OF layD(4) [OF heap_okD(1) [OF H]]] and T1 = blockD [OF layD(4) [OF heap_okD(1) [OF H1]]]
      have "unat x + unat ?c \<le> unat (heap_end s1 av)" using B(8) T1(9) by simp
      also have "\<dots> = unat x + unat (chunksize (mem s) ot)" using e T(9) top(2) * by simp
      finally show False using * top(3) by (auto simp: word_less_nat_alt word_le_nat_alt)
    qed
    have "libc_calloc2 sy bytes s = Inr (chunk2mem x, s1\<lparr>mem := ?m\<rparr>)"
      using 1(1) top(1) nn B(9) cs arena_assert_holds [OF A1 x] arena_okD(5) [OF A1]
      unfolding libc_calloc2_def o(5) [symmetric] by (auto simp: Let_def upd_mem_def)
    moreover have "gives sy av base s bs F nb x (s1\<lparr>mem := ?m\<rparr>) bs1 F1" by (rule gives_fill [OF 1(2) w])
    moreover have "blank (mem (s1\<lparr>mem := ?m\<rparr>)) x"
      unfolding blank_def
    proof (intro allI impI)
      fix a :: ptr assume a: "unat x + 16 \<le> unat a \<and> unat a \<le> unat x + unat (chunksize (mem (s1\<lparr>mem := ?m\<rparr>)) x) \<and> a AND 7 = 0"
      have "chunksize ?m x = ?c" using words_arena_ok(3) [OF A1 x w] by simp
      moreover have "(a - chunk2mem x) AND 7 = 0" using a B(1) word_in_block [OF B(6), of a] by simp
      ultimately show "mem (s1\<lparr>mem := ?m\<rparr>) a = 0" using a B(1,2,7) by (simp add: ms)
    qed
    ultimately show ?thesis by blast
  next
    case (2 s1 bs1 F1)
    have "libc_calloc2 sy bytes s = Inr (NULL, s1)"
      using 2(1) top(1) unfolding libc_calloc2_def o(5) [symmetric] by (simp add: arena_assert_def assertE_def)
    then show ?thesis using 2(2) by blast
  qed
qed

end
