(* ===== verification/Resize.thy ===== *)
theory Resize
  imports Calloc
begin

text \<open>
  \<open>realloc\<close> in an arena: a block shrinks, grows into a free chunk behind it or into top, or moves
  (\<open>resizes\<close>); what does not fit any more is freed.
\<close>

section \<open>A block changes its size\<close>

text \<open>
  From \<open>s\<close> to \<open>s'\<close> the block \<open>x\<close> of the program has become \<open>y\<close>, with room for \<open>nb\<close> bytes; the words
  that fit in both have moved along, and the other blocks are as they were.
\<close>

definition carried :: "memory \<Rightarrow> memory \<Rightarrow> ptr \<Rightarrow> ptr \<Rightarrow> u64 \<Rightarrow> bool" where
  "carried m m' x y nb \<longleftrightarrow> (\<forall>k. k AND 7 = 0 \<and> unat k + 16 \<le> unat (chunksize m x) \<and> unat k + 16 \<le> unat nb \<longrightarrow>
     m' (chunk2mem y + k) = m (chunk2mem x + k))"

definition resizes :: "'k sys \<Rightarrow> ptr \<Rightarrow> ptr \<Rightarrow> 'k st \<Rightarrow> (ptr \<times> bool) list \<Rightarrow> (u32 \<Rightarrow> ptr list) \<Rightarrow> ptr \<Rightarrow> u64 \<Rightarrow> ptr \<Rightarrow>
    'k st \<Rightarrow> (ptr \<times> bool) list \<Rightarrow> (u32 \<Rightarrow> ptr list) \<Rightarrow> bool" where
  "resizes sy av base s bs F x nb y s' bs' F' \<longleftrightarrow>
     arena_ok sy av base s' bs' F' \<and> live bs' F' = insert y (live bs F - {x}) \<and> y \<notin> live bs F - {x} \<and>
     untouched (mem s) (mem s') (live bs F - {x}) \<and> nb \<le> chunksize (mem s') y \<and> carried (mem s) (mem s') x y nb"

text \<open>A header that gets a new size and keeps its flags.\<close>

lemma head_resized:
  assumes sz: "sz AND MALLOC_ALIGN_MASK = 0" and h: "m' (x + 8) = (chunksize_nomask m x AND SIZE_BITS) OR sz"
  shows "chunksize m' x = sz" "prev_inuse m' x \<longleftrightarrow> prev_inuse m x"
    "chunksize_nomask m x AND (IS_MMAPPED OR NON_MAIN_ARENA) = 0 \<Longrightarrow> chunksize_nomask m' x AND (IS_MMAPPED OR NON_MAIN_ARENA) = 0"
proof -
  let ?h = "chunksize_nomask m x"
  have a: "SIZE_BITS AND NOT SIZE_BITS = (0 :: u64)" by simp
  show "chunksize m' x = sz"
    by (rule head_same [where bits = "?h AND SIZE_BITS"]) (use sz h in \<open>simp_all add: or.commute and.assoc\<close>)
  have z: "sz AND k = 0" if "k AND NOT 15 = 0" for k :: u64
  proof (rule bit_word_eqI)
    fix i assume i: "i < LENGTH(64)"
    have "bit (15 :: u64) i" if "bit k i"
      using arg_cong [OF \<open>k AND NOT 15 = 0\<close>, of "\<lambda>w. bit w i"] that i by (simp add: bit_simps)
    moreover have "\<not> (bit sz i \<and> bit (15 :: u64) i)"
      using arg_cong [OF sz, of "\<lambda>w. bit w i"] i by (simp add: bit_simps)
    ultimately show "bit (sz AND k) i = bit (0 :: u64) i" by (auto simp: bit_simps)
  qed
  have b: "chunksize_nomask m' x AND k = ?h AND k" if "k AND NOT 7 = 0" for k :: u64
  proof -
    have k: "SIZE_BITS AND k = k"
    proof (rule bit_word_eqI)
      fix i assume i: "i < LENGTH(64)"
      show "bit (SIZE_BITS AND k) i = bit k i"
        using arg_cong [OF that, of "\<lambda>w. bit w i"] i by (auto simp: bit_simps)
    qed
    have "k AND NOT 15 = (k AND NOT 7) AND NOT 15" by (simp add: and.assoc)
    then have k15: "k AND NOT 15 = 0" unfolding that by simp
    have "chunksize_nomask m' x AND k = ((?h AND SIZE_BITS) OR sz) AND k" using h by (simp add: chunksize_nomask_def)
    also have "\<dots> = ?h AND k" by (simp add: bit.conj_disj_distrib2 and.assoc k z [OF k15])
    finally show ?thesis .
  qed
  show "prev_inuse m' x \<longleftrightarrow> prev_inuse m x" using b [of 1] by (simp add: prev_inuse_def)
  show "?h AND (IS_MMAPPED OR NON_MAIN_ARENA) = 0 \<Longrightarrow> chunksize_nomask m' x AND (IS_MMAPPED OR NON_MAIN_ARENA) = 0"
    using b [of 6] by simp
qed

text \<open>
  The memory \<open>m1\<close> that \<open>realloc_tail\<close> finds: up to the in-use bit behind \<open>q\<close> and the words between \<open>x\<close>
  and \<open>q\<close> it is that of a heap in which all blocks \<open>mid\<close> from \<open>x\<close> to \<open>q\<close> are in use.
\<close>

definition tail_ready :: "memory \<Rightarrow> memory \<Rightarrow> (ptr \<times> bool) list \<Rightarrow> bool \<Rightarrow> ptr \<Rightarrow> ptr \<Rightarrow> bool" where
  "tail_ready m0 m1 mid pu x q \<longleftrightarrow>
     mid \<noteq> [] \<and> seg m0 x pu mid q True \<and> frees mid = {} \<and> unat q + 16 < 2 ^ 64 \<and>
     (\<forall>a. m1 a \<noteq> m0 a \<longrightarrow> unat x + 8 \<le> unat a \<and> unat a \<le> unat q \<or> a = q + 8) \<and>
     chunksize_nomask m1 q OR PREV_INUSE = chunksize_nomask m0 q \<and> (prev_inuse m1 x \<longleftrightarrow> pu) \<and>
     chunksize_nomask m1 x AND (IS_MMAPPED OR NON_MAIN_ARENA) = 0"

lemma tail_readyD:
  assumes "tail_ready m0 m1 mid pu x q"
  shows "mid \<noteq> []" "seg m0 x pu mid q True" "frees mid = {}" "unat q + 16 < 2 ^ 64" "prev_inuse m1 x \<longleftrightarrow> pu"
    "m1 a \<noteq> m0 a \<Longrightarrow> unat x + 8 \<le> unat a \<and> unat a \<le> unat q \<or> a = q + 8"
    "m1 (q + 8) OR PREV_INUSE = m0 (q + 8)" "chunksize_nomask m1 x AND (IS_MMAPPED OR NON_MAIN_ARENA) = 0"
    "unat x + 32 \<le> unat q" "unat (q - x) = unat q - unat x" "(q - x) AND MALLOC_ALIGN_MASK = 0" "aligned x" "aligned q"
    "unat (x + 8) = unat x + 8" "unat (q + 8) = unat q + 8"
proof -
  show mid: "mid \<noteq> []" and s: "seg m0 x pu mid q True" and "frees mid = {}" and b: "unat q + 16 < 2 ^ 64"
    and "prev_inuse m1 x \<longleftrightarrow> pu" and "m1 a \<noteq> m0 a \<Longrightarrow> unat x + 8 \<le> unat a \<and> unat a \<le> unat q \<or> a = q + 8"
    and "m1 (q + 8) OR PREV_INUSE = m0 (q + 8)" and "chunksize_nomask m1 x AND (IS_MMAPPED OR NON_MAIN_ARENA) = 0"
    using assms unfolding tail_ready_def chunksize_nomask_def by blast+
  show "unat x + 32 \<le> unat q" "unat (q - x) = unat q - unat x" "(q - x) AND MALLOC_ALIGN_MASK = 0" "aligned x" "aligned q"
    using seg_size [OF s mid] .
  then show "unat (x + 8) = unat x + 8" "unat (q + 8) = unat q + 8" using b by (auto intro!: unat_offset [of _ 8, simplified])
qed

lemma tail_whole:
  assumes R: "tail_ready m0 m1 mid pu x q"
  defines "m' \<equiv> set_inuse_bit_at_offset (set_head_size m1 x (q - x)) x (q - x)"
  shows "refits m0 m' mid [(x, True)] pu x q" "chunksize m' x = q - x"
    "chunksize_nomask m' x AND (IS_MMAPPED OR NON_MAIN_ARENA) = 0" "a \<noteq> x + 8 \<Longrightarrow> a \<noteq> q + 8 \<Longrightarrow> m' a = m1 a"
proof -
  note T = tail_readyD [OF R]
  have ne: "x + 8 \<noteq> q + 8" using T(9) by auto
  have m': "m' = m1(x + 8 := (chunksize_nomask m1 x AND SIZE_BITS) OR (q - x), q + 8 := m1 (q + 8) OR PREV_INUSE)"
    using ne by (simp add: m'_def set_inuse_bit_at_offset_def set_head_size_def set_head_def chunksize_nomask_def fun_eq_iff)
  then show other: "a \<noteq> x + 8 \<Longrightarrow> a \<noteq> q + 8 \<Longrightarrow> m' a = m1 a" for a by simp
  have h: "m' (x + 8) = (chunksize_nomask m1 x AND SIZE_BITS) OR (q - x)" using ne by (simp add: m')
  note X = head_resized [where m' = m' and m = m1 and x = x, OF T(11) h]
  show "chunksize m' x = q - x" by (rule X(1))
  show "chunksize_nomask m' x AND (IS_MMAPPED OR NON_MAIN_ARENA) = 0" by (rule X(3) [OF T(8)])
  have "block m' pu x True"
    unfolding block_def X(1,2) using T(4,5,9,10,11,12) by (simp add: word_le_nat_alt)
  moreover have "next_chunk m' x = q" by (simp add: next_chunk_def X(1))
  moreover have "unat x + 8 \<le> unat a \<and> unat a \<le> unat q" if d: "m' a \<noteq> m0 a" for a
  proof (cases "a = x + 8 \<or> a = q + 8")
    case True
    moreover have "m' (q + 8) = m0 (q + 8)" using T(7) by (simp add: m')
    ultimately have "a = x + 8" using d by auto
    then show ?thesis using T(9,14) by simp
  next
    case False
    then show ?thesis using T(6) [of a] other [of a] d by simp
  qed
  ultimately show "refits m0 m' mid [(x, True)] pu x q" unfolding refits_def using T(1,2,3) by simp
qed

lemma tail_cut:
  assumes R: "tail_ready m0 m1 mid pu x q"
    and nb: "nb AND MALLOC_ALIGN_MASK = 0" "32 \<le> unat nb" "unat nb + 32 \<le> unat (q - x)"
  defines "r \<equiv> x + nb"
  defines "m' \<equiv> set_inuse_bit_at_offset (set_head (set_head_size m1 x nb) r ((q - x - nb) OR PREV_INUSE)) r (q - x - nb)"
  shows "refits m0 m' mid [(x, True), (r, True)] pu x q" "chunksize m' x = nb" "chunksize m' r = q - x - nb"
    "chunksize_nomask m' x AND (IS_MMAPPED OR NON_MAIN_ARENA) = 0" "chunksize_nomask m' r AND (IS_MMAPPED OR NON_MAIN_ARENA) = 0"
    "a \<noteq> x + 8 \<Longrightarrow> a \<noteq> r + 8 \<Longrightarrow> a \<noteq> q + 8 \<Longrightarrow> m' a = m1 a" "unat r = unat x + unat nb"
proof -
  note T = tail_readyD [OF R]
  show r: "unat r = unat x + unat nb" unfolding r_def using nb(3) T(4,9,10) by (intro unat_offset) simp
  have rq: "r + (q - x - nb) = q" "q - x - nb = q - r" by (simp_all add: r_def)
  have r8: "unat (r + 8) = unat r + 8" using r nb(3) T(4,10) by (intro unat_offset [of _ 8, simplified]) simp
  have lt: "unat r + 32 \<le> unat q" using r nb(3) T(9,10) by simp
  have ur: "unat (q - r) = unat q - unat r" using lt by (intro unat_sub) (simp add: word_le_nat_alt)
  have ar: "aligned r" unfolding r_def by (rule aligned_add [OF T(12) nb(1)])
  have al: "(q - r) AND MALLOC_ALIGN_MASK = 0" using aligned_sub ar T(13) by (simp add: aligned_def)
  have ne: "x + 8 \<noteq> q + 8" "r + 8 \<noteq> q + 8" "x + 8 \<noteq> r + 8" using T(9) lt r nb(2) by auto
  have m': "m' = m1(x + 8 := (chunksize_nomask m1 x AND SIZE_BITS) OR nb, r + 8 := (q - r) OR PREV_INUSE,
      q + 8 := m1 (q + 8) OR PREV_INUSE)"
    unfolding m'_def set_inuse_bit_at_offset_def rq
    using ne by (simp add: set_head_size_def set_head_def chunksize_nomask_def fun_eq_iff)
  then show other: "a \<noteq> x + 8 \<Longrightarrow> a \<noteq> r + 8 \<Longrightarrow> a \<noteq> q + 8 \<Longrightarrow> m' a = m1 a" for a by simp
  have h: "m' (x + 8) = (chunksize_nomask m1 x AND SIZE_BITS) OR nb" using ne by (simp add: m')
  note X = head_resized [where m' = m' and m = m1 and x = x, OF nb(1) h]
  have hr: "m' (r + 8) = (q - r) OR PREV_INUSE" using ne by (simp add: m')
  show "chunksize m' x = nb" by (rule X(1))
  have cr: "chunksize m' r = q - r" by (rule head_same [where bits = PREV_INUSE]) (use al hr in simp_all)
  then show "chunksize m' r = q - x - nb" by (simp add: r_def)
  show "chunksize_nomask m' x AND (IS_MMAPPED OR NON_MAIN_ARENA) = 0" by (rule X(3) [OF T(8)])
  have pr: "prev_inuse m' r" using prev_inuse_bit [of m' r "q - r" 0] hr by simp
  show "chunksize_nomask m' r AND (IS_MMAPPED OR NON_MAIN_ARENA) = 0"
    by (rule plain_flags) (use al in \<open>simp add: plain_head_def cr hr chunksize_nomask_def\<close>)
  have "block m' pu x True" "block m' True r True"
    unfolding block_def X(1,2) cr using T(4,5,9,12) nb r lt ur al ar pr by (simp_all add: word_le_nat_alt)
  moreover have "next_chunk m' x = r" by (simp add: next_chunk_def X(1) r_def)
  moreover have "next_chunk m' r = q" unfolding next_chunk_def cr by simp
  moreover have "unat x + 8 \<le> unat a \<and> unat a \<le> unat q" if d: "m' a \<noteq> m0 a" for a
  proof (cases "a = x + 8 \<or> a = r + 8 \<or> a = q + 8")
    case True
    moreover have "m' (q + 8) = m0 (q + 8)" using T(7) by (simp add: m')
    ultimately have "a = x + 8 \<or> a = r + 8" using d by auto
    then show ?thesis using T(9,14) r8 r lt by auto
  next
    case False
    then show ?thesis using T(6) [of a] other [of a] d by simp
  qed
  ultimately show "refits m0 m' mid [(x, True), (r, True)] pu x q" unfolding refits_def using T(1,2,3) by simp
qed

text \<open>\<open>realloc_tail\<close>: the blocks \<open>mid\<close> become one of at least \<open>nb\<close> bytes, and the rest of it is freed.\<close>

lemma realloc_tail_result:
  assumes A: "arena_ok sy av base s0 (ls @ mid @ rs) F" and R: "tail_ready (mem s0) m1 mid pu x q"
    and mid: "fst ` set mid \<inter> fast_chunks F = {}" and s: "s = s0\<lparr>mem := m1\<rparr>"
    and nb: "nb AND MALLOC_ALIGN_MASK = 0" "32 \<le> unat nb" "nb \<le> q - x"
  defines "X \<equiv> live (ls @ mid @ rs) F - fst ` set mid"
  shows "\<exists>s' bs' F'. realloc_tail sy av x (q - x) nb s = Inr (chunk2mem x, s') \<and> arena_ok sy av base s' bs' F' \<and>
    live bs' F' = insert x X \<and> x \<notin> X \<and> untouched (mem s0) (mem s') X \<and> nb \<le> chunksize (mem s') x \<and>
    (\<forall>a. unat x + 16 \<le> unat a \<and> unat a \<le> unat x + unat nb \<longrightarrow> mem s' a = m1 a)"
proof -
  note T = tail_readyD [OF R] and o = arena_okD [OF A]
  have mb: "main_bit sy av = 0" using o(5) by (simp add: main_bit_def)
  show ?thesis
  proof (cases "q - x - nb < MINSIZE")
    case True
    let ?m' = "set_inuse_bit_at_offset (set_head_size m1 x (q - x)) x (q - x)"
    note W = tail_whole [OF R]
    have "chunksize_nomask ?m' y AND (IS_MMAPPED OR NON_MAIN_ARENA) = 0" if "(y, True) \<in> set [(x, True)]" for y
      using that W(3) by simp
    note G = refit_arena [OF A W(1) mid this, folded X_def]
    have lv: "live (ls @ [(x, True)] @ rs) F = insert x X" "x \<notin> X" using G(2,4) by auto
    have "realloc_tail sy av x (q - x) nb s = Inr (chunk2mem x, s0\<lparr>mem := ?m'\<rparr>)"
      using True nb(3) by (simp add: realloc_tail_def assertE_def s mb upd_mem_def Let_def)
    moreover have "?m' a = m1 a" if "unat x + 16 \<le> unat a" "unat a \<le> unat x + unat nb" for a
    proof (rule W(4))
      show "a \<noteq> x + 8" using that T(14) by auto
      show "a \<noteq> q + 8" using that T(9,10,15) nb(3) by (auto simp: word_le_nat_alt)
    qed
    ultimately show ?thesis using G(1,3) lv nb(3) W(2)
      by (intro exI [of _ "s0\<lparr>mem := ?m'\<rparr>"] exI [of _ "ls @ [(x, True)] @ rs"] exI [of _ F]) simp
  next
    case False
    let ?r = "x + nb"
    let ?m' = "set_inuse_bit_at_offset (set_head (set_head_size m1 x nb) ?r ((q - x - nb) OR PREV_INUSE)) ?r (q - x - nb)"
    have cut: "unat nb + 32 \<le> unat (q - x)" by (rule chunk_multiple [OF T(11) nb(1) nb(3) False])
    note W = tail_cut [OF R nb(1,2) cut]
    have fl: "chunksize_nomask ?m' y AND (IS_MMAPPED OR NON_MAIN_ARENA) = 0" if "(y, True) \<in> set [(x, True), (?r, True)]" for y
      using that W(4,5) by auto
    note G = refit_arena [OF A W(1) mid fl, folded X_def]
    have lv: "live (ls @ [(x, True), (?r, True)] @ rs) F = insert x (insert ?r X)" "x \<notin> X" "?r \<notin> X"
      using G(2,4) by auto
    let ?s2 = "s0\<lparr>mem := ?m'\<rparr>"
    have r: "?r \<in> live (ls @ [(x, True), (?r, True)] @ rs) F" unfolding lv(1) by simp
    obtain s' bs' F' where f: "int_free_chunk sy av ?r (chunksize (mem ?s2) ?r) True ?s2 = Inr s'"
      "takes sy av base ?s2 (ls @ [(x, True), (?r, True)] @ rs) F {?r} s' bs' F'"
      using free_chunk_takes [OF G(1) r] by blast
    have xr: "x \<noteq> ?r" using W(7) nb(2) by auto
    have lv': "live (ls @ [(x, True), (?r, True)] @ rs) F - {?r} = insert x X" using lv xr by auto
    have t: "arena_ok sy av base s' bs' F'" "live bs' F' = insert x X" "untouched ?m' (mem s') (insert x X)"
      using f(2) unfolding takes_def lv' by auto
    have "untouched (mem s0) (mem s') X" using untouched_trans [OF G(3) untouched_sub [OF t(3)]] by blast
    moreover have "chunksize (mem s') x = nb" using t(3) W(2) unfolding untouched_def by simp
    moreover have "mem s' a = m1 a" if a: "unat x + 16 \<le> unat a" "unat a \<le> unat x + unat nb" for a
    proof -
      have "mem s' a = ?m' a" using t(3) a W(2) unfolding untouched_def by simp
      also have "\<dots> = m1 a"
      proof (rule W(6))
        have "unat (?r + 8) = unat ?r + 8" using W(7) cut T(4,10) by (intro unat_offset [of _ 8, simplified]) simp
        then show "a \<noteq> x + 8" "a \<noteq> ?r + 8" "a \<noteq> q + 8" using a T(9,10,14,15) W(7) cut by auto
      qed
      finally show ?thesis .
    qed
    moreover have "realloc_tail sy av x (q - x) nb s = Inr (chunk2mem x, s')"
      using False nb(3) f(1) by (simp add: realloc_tail_def assertE_def s mb upd_mem_def Let_def chunk_at_offset_def)
    ultimately show ?thesis using t(1,2) lv(2) by (intro exI [of _ s'] exI [of _ bs'] exI [of _ F']) simp
  qed
qed

section \<open>The block before top grows into it\<close>

lemma grow_into_top:
  fixes nb :: u64
  assumes H: "heap_ok s av base (ls @ [(x, True)]) L" and nb: "nb AND MALLOC_ALIGN_MASK = 0"
    "32 \<le> unat nb" "unat nb + 32 \<le> unat (chunksize (mem s) x) + unat (chunksize (mem s) (get_top (mem s) av))"
  defines "r \<equiv> x + nb" and "n \<equiv> chunksize (mem s) x + chunksize (mem s) (get_top (mem s) av) - nb"
  defines "m' \<equiv> set_head (set_top (set_head_size (mem s) x nb) av r) r (n OR PREV_INUSE)"
  shows "heap_ok (s\<lparr>mem := m'\<rparr>) av base (ls @ [(x, True)]) L" "next_chunk m' (get_top m' av) = heap_end s av"
    "used_kept (mem s) m' ls" "chunksize m' x = nb"
    "chunksize_nomask (mem s) x AND (IS_MMAPPED OR NON_MAIN_ARENA) = 0 \<Longrightarrow>
      chunksize_nomask m' x AND (IS_MMAPPED OR NON_MAIN_ARENA) = 0"
    "unat a < unat av + 96 \<Longrightarrow> m' a = mem s a"
    "unat x + 16 \<le> unat a \<Longrightarrow> unat a \<le> unat x + unat nb \<Longrightarrow> m' a = mem s a"
proof -
  let ?m = "mem s" let ?tp = "get_top ?m av"
  note h = heap_okD [OF H] and D = layD [OF heap_okD(1) [OF H]]
  obtain w where w: "seg ?m base True ls x w" "block ?m w x True" "next_chunk ?m x = ?tp"
    using seg_split [OF D(3)] by auto
  note X = blockD [OF w(2)] and T = blockD [OF D(4)]
  have tp: "?tp = x + chunksize ?m x" using w(3) by (simp add: next_chunk_def)
  have utp: "unat ?tp = unat x + unat (chunksize ?m x)" using X(9) w(3) by simp
  have end16: "unat x + unat (chunksize ?m x) + unat (chunksize ?m ?tp) + 16 < 2 ^ 64" using T(4) utp by simp
  have ur: "unat r = unat x + unat nb" unfolding r_def using nb(3) end16 by (intro unat_offset) simp
  have un: "unat n = unat (chunksize ?m x) + unat (chunksize ?m ?tp) - unat nb"
  proof -
    have "unat (chunksize ?m x + chunksize ?m ?tp) = unat (chunksize ?m x) + unat (chunksize ?m ?tp)"
      using end16 by (intro unat_offset) simp
    moreover have "nb \<le> chunksize ?m x + chunksize ?m ?tp" using nb(3) calculation by (simp add: word_le_nat_alt)
    ultimately show ?thesis unfolding n_def by (simp add: unat_sub)
  qed
  have an: "n AND MALLOC_ALIGN_MASK = 0"
    unfolding n_def using aligned_sub [OF _ nb(1)] aligned_add [of "chunksize ?m x"] X(3) T(3) by (simp add: aligned_def)
  have ar: "aligned r" unfolding r_def by (rule aligned_add [OF X(1) nb(1)])
  have base: "unat base \<le> unat x" using seg_le [OF w(1)] .
  have "unat x + 8 < 2 ^ 64" "unat r + 8 < 2 ^ 64" "unat av + 96 < 2 ^ 64"
    using ur un end16 nb D(2) unat_lt_64 [of base] by linarith+
  then have u: "unat (x + 8) = unat x + 8" "unat (r + 8) = unat r + 8" "unat (av + 96) = unat av + 96"
    by (intro unat_offset [of _ 8, simplified] unat_offset [of _ 96, simplified]; simp)+
  have ne: "x + 8 \<noteq> av + 96" "r + 8 \<noteq> av + 96" "x + 8 \<noteq> r + 8" using u ur base D(2) nb(2) by (intro unat_neq; linarith)+
  have m': "m' = ?m(x + 8 := (chunksize_nomask ?m x AND SIZE_BITS) OR nb, av + 96 := r, r + 8 := n OR PREV_INUSE)"
    using ne by (simp add: m'_def set_head_size_def set_head_def set_top_def)
  have other: "m' b = ?m b" if "unat b \<noteq> unat x + 8" "unat b \<noteq> unat av + 96" "unat b \<noteq> unat r + 8" for b
    using that u by (auto simp: m')
  have hx: "m' (x + 8) = (chunksize_nomask ?m x AND SIZE_BITS) OR nb" and hr: "m' (r + 8) = n OR PREV_INUSE"
    using ne by (simp_all add: m')
  note Y = head_resized [where m' = m' and m = ?m and x = x, OF nb(1) hx]
  show "chunksize m' x = nb" by (rule Y(1))
  show "chunksize_nomask ?m x AND (IS_MMAPPED OR NON_MAIN_ARENA) = 0 \<Longrightarrow>
      chunksize_nomask m' x AND (IS_MMAPPED OR NON_MAIN_ARENA) = 0" by (rule Y(3))
  show "unat a < unat av + 96 \<Longrightarrow> m' a = ?m a" by (rule other) (use base ur D(2) in auto)
  show "unat x + 16 \<le> unat a \<Longrightarrow> unat a \<le> unat x + unat nb \<Longrightarrow> m' a = ?m a"
    by (rule other) (use base ur D(2) in auto)
  have top: "get_top m' av = r" using ne by (simp add: m' get_top_def)
  have cr: "chunksize m' r = n" by (rule head_same [where bits = PREV_INUSE]) (use an hr in simp_all)
  have pr: "prev_inuse m' r" using prev_inuse_bit [of m' r n 0] hr by simp
  have nx: "next_chunk m' x = r" "next_chunk m' r = heap_end s av"
  proof -
    show "next_chunk m' x = r" by (simp add: next_chunk_def Y(1) r_def)
    have "r + n = x + chunksize ?m x + chunksize ?m ?tp" by (simp add: r_def n_def)
    then show "next_chunk m' r = heap_end s av" by (simp only: next_chunk_def cr tp [symmetric])
  qed
  show he: "next_chunk m' (get_top m' av) = heap_end s av" unfolding top by (rule nx(2))
  have b: "block m' w x True" "block m' True r True"
    unfolding block_def Y(1,2) cr using X(1,5) nb ur un end16 an ar pr by (simp_all add: word_le_nat_alt)
  have low: "m' a = ?m a" if "unat base + 8 \<le> unat a" "unat a \<le> unat x" for a
    by (rule other) (use that ur D(2) in auto)
  have l: "seg m' base True ls x w" using seg_words [OF w(1), of m'] low by blast
  show "used_kept ?m m' ls" using seg_words_used [OF w(1), of m'] low by blast
  have "lay m' av base (ls @ [(x, True)])"
    unfolding lay_def top seg_append using D(1,2) l b nx(1) by auto
  moreover have "bins_hold m' av L"
  proof (rule bins_hold_unused [OF h(1,2)])
    show sub: "binned L \<subseteq> frees (ls @ [(x, True)])" using h(3) by simp
    fix a and j :: nat assume a: "m' a \<noteq> ?m a" and j: "1 \<le> j" "j < 128"
    then have ca: "unat a = unat x + 8 \<or> unat a = unat av + 96 \<or> unat a = unat r + 8" using other by blast
    show "\<not> uses ?m av j (set (L j)) a"
    proof (rule uses_outside [OF h(1) sub j])
      show "unat a < unat av + 112 \<or> unat av + 2144 \<le> unat a" using ca ur base D(2) by auto
      fix y assume "y \<in> binned L"
      then have "(y, False) \<in> set ls" using h(3) by (auto simp: frees_def)
      then show "unat a < unat y + 8 \<or> unat y + unat (chunksize ?m y) \<le> unat a"
        using seg_block(1,2) [OF w(1)] ca ur D(2) by fastforce
    qed
  qed
  ultimately show "heap_ok (s\<lparr>mem := m'\<rparr>) av base (ls @ [(x, True)]) L"
    unfolding heap_ok_def using h(3,4,5) he by simp
qed

section \<open>The cases of realloc\<close>

lemma prev_inuse_or:
  assumes "prev_inuse m t"
  shows "chunksize_nomask m t OR PREV_INUSE = chunksize_nomask m t"
proof (rule bit_word_eqI)
  fix i assume i: "i < LENGTH(64)"
  have "bit (chunksize_nomask m t) 0"
    using assms by (auto simp: prev_inuse_def bit_0 and_one_eq mod_2_eq_odd split: if_splits)
  then show "bit (chunksize_nomask m t OR PREV_INUSE) i = bit (chunksize_nomask m t) i"
    by (cases i) (auto simp: bit_simps)
qed

lemma carried_in_place:
  assumes "unat (chunk2mem x) = unat x + 16" "unat x + unat (chunksize m x) < 2 ^ 64"
    and w: "\<And>a. unat x + 16 \<le> unat a \<Longrightarrow> unat a \<le> unat x + unat (chunksize m x) \<Longrightarrow> unat a \<le> unat x + unat nb \<Longrightarrow> m' a = m a"
  shows "carried m m' x x nb"
  unfolding carried_def
proof (intro allI impI)
  fix k :: u64 assume k: "k AND 7 = 0 \<and> unat k + 16 \<le> unat (chunksize m x) \<and> unat k + 16 \<le> unat nb"
  have "unat (chunk2mem x + k) = unat x + 16 + unat k" using assms(1,2) k unat_offset [of "chunk2mem x" k] by simp
  then show "m' (chunk2mem x + k) = m (chunk2mem x + k)" using k by (intro w) auto
qed

lemma tail_resizes:
  assumes A: "arena_ok sy av base s bs F" and x: "x \<in> live bs F" and A0: "arena_ok sy av base s0 (ls @ mid @ rs) F0"
    and R: "tail_ready (mem s0) m1 mid pu x q" and mid: "fst ` set mid \<inter> fast_chunks F0 = {}" and s1: "s1 = s0\<lparr>mem := m1\<rparr>"
    and nb: "nb AND MALLOC_ALIGN_MASK = 0" "32 \<le> unat nb" "nb \<le> q - x"
    and X: "live (ls @ mid @ rs) F0 - fst ` set mid = live bs F - {x}" and u: "untouched (mem s) (mem s0) (live bs F - {x})"
    and w: "\<And>a. unat x + 16 \<le> unat a \<Longrightarrow> unat a \<le> unat x + unat (chunksize (mem s) x) \<Longrightarrow> m1 a = mem s a"
  shows "\<exists>s' bs' F'. realloc_tail sy av x (q - x) nb s1 = Inr (chunk2mem x, s') \<and> resizes sy av base s bs F x nb x s' bs' F'"
proof -
  obtain s' bs' F' where t: "realloc_tail sy av x (q - x) nb s1 = Inr (chunk2mem x, s')" "arena_ok sy av base s' bs' F'"
    "live bs' F' = insert x (live bs F - {x})" "untouched (mem s0) (mem s') (live bs F - {x})" "nb \<le> chunksize (mem s') x"
    "\<And>a. unat x + 16 \<le> unat a \<Longrightarrow> unat a \<le> unat x + unat nb \<Longrightarrow> mem s' a = m1 a"
    using realloc_tail_result [OF A0 R mid s1 nb] unfolding X by blast
  note B = live_body [OF A x]
  have "carried (mem s) (mem s') x x nb"
    by (rule carried_in_place [OF B(1)]) (use B(1,2,4,7) t(6) w in auto)
  then have "resizes sy av base s bs F x nb x s' bs' F'"
    unfolding resizes_def using t(2,3,5) untouched_trans [OF u t(4)] by simp
  then show ?thesis using t(1) by blast
qed

text \<open>The chunk is large enough.\<close>

lemma shrink_resizes:
  assumes A: "arena_ok sy av base s bs F" and x: "x \<in> live bs F"
    and nb: "nb AND MALLOC_ALIGN_MASK = 0" "32 \<le> unat nb" "nb \<le> chunksize (mem s) x"
  shows "\<exists>s' bs' F'. realloc_tail sy av x (chunksize (mem s) x) nb s = Inr (chunk2mem x, s') \<and>
    resizes sy av base s bs F x nb x s' bs' F'"
proof -
  let ?q = "next_chunk (mem s) x"
  obtain L where H: "heap_ok s av base bs L" by (rule arena_heap [OF A])
  obtain ls rs where bs: "bs = ls @ [(x, True)] @ rs" using live_used [OF x] by (metis append_Cons append_Nil split_list)
  obtain pu where B: "block (mem s) pu x True" by (rule used_block [OF H live_used [OF x]])
  have pt: "prev_inuse (mem s) ?q" by (rule block_in_heap(3) [of s av base ls x rs L]) (use H bs in simp)
  have q: "?q - x = chunksize (mem s) x" by (simp add: next_chunk_def)
  have "tail_ready (mem s) (mem s) [(x, True)] pu x ?q"
    unfolding tail_ready_def using B blockD(4,5,9) [OF B] prev_inuse_or [OF pt] arena_okD(3) [OF A live_used [OF x]] by simp
  moreover have "fst ` set [(x, True)] \<inter> fast_chunks F = {}" using x by (auto simp: live_def)
  moreover have "live (ls @ [(x, True)] @ rs) F - fst ` set [(x, True)] = live bs F - {x}" by (simp add: bs)
  ultimately show ?thesis
    using tail_resizes [OF A x A [unfolded bs], of "mem s" pu ?q s nb] nb unfolding q by simp
qed

text \<open>The chunk behind is in use and belongs to the block, too.\<close>

lemma seg_pair:
  assumes l: "lay m av base (ls @ (x, True) # (y, u) # rs)"
  obtains pu q where "seg m x pu [(x, True), (y, u)] q u" "y = next_chunk m x" "q = next_chunk m y" "block m pu x True"
    "block m True y u" "prev_inuse m q \<longleftrightarrow> u" "unat q + 16 < 2 ^ 64"
proof -
  note D = layD [OF l]
  obtain pu where a: "block m pu x True" "seg m (next_chunk m x) True ((y, u) # rs) (get_top m av) True"
    using seg_split [OF D(3)] by blast
  then have b: "next_chunk m x = y" "block m True y u" "seg m (next_chunk m y) u rs (get_top m av) True" by auto
  have "prev_inuse m (next_chunk m y) \<longleftrightarrow> u"
  proof (cases rs)
    case Nil
    then show ?thesis using b(3) blockD(5) [OF D(4)] by simp
  next
    case (Cons c cs)
    then have "block m u (next_chunk m y) (snd c)" using b(3) by (cases c) auto
    then show ?thesis by (rule blockD(5))
  qed
  moreover have "seg m x pu [(x, True), (y, u)] (next_chunk m y) u" using a(1) b(1,2) by simp
  moreover have "unat (next_chunk m y) + 16 < 2 ^ 64" using blockD(4,9) [OF b(2)] by simp
  ultimately show thesis using that a(1) b(1,2) by metis
qed

lemma joined_resizes:
  assumes A: "arena_ok sy av base s bs F" and x: "x \<in> live bs F" and A0: "arena_ok sy av base s0 (ls @ (x, True) # (y, True) # rs) F0"
    and lv: "live (ls @ (x, True) # (y, True) # rs) F0 = insert y (live bs F)" "y \<notin> live bs F"
    and u: "untouched (mem s) (mem s0) (live bs F)" and s1: "s1 = s0\<lparr>mem := m1\<rparr>"
    and q: "q = next_chunk (mem s0) y"
    and w: "\<forall>a. m1 a \<noteq> mem s0 a \<longrightarrow> a = q + 8" "chunksize_nomask m1 q OR PREV_INUSE = chunksize_nomask (mem s0) q"
    and nb: "nb AND MALLOC_ALIGN_MASK = 0" "32 \<le> unat nb" "nb \<le> q - x"
  shows "\<exists>s' bs' F'. realloc_tail sy av x (q - x) nb s1 = Inr (chunk2mem x, s') \<and> resizes sy av base s bs F x nb x s' bs' F'"
proof -
  let ?m = "mem s0"
  obtain L where H: "heap_ok s0 av base (ls @ (x, True) # (y, True) # rs) L" by (rule arena_heap [OF A0])
  obtain pu where P: "seg ?m x pu [(x, True), (y, True)] q True" "y = next_chunk ?m x" "block ?m pu x True" "block ?m True y True"
    "unat q + 16 < 2 ^ 64"
    using seg_pair [OF heap_okD(1) [OF H]] unfolding q by metis
  note X = blockD [OF P(3)] and Y = blockD [OF P(4)]
  have q8: "unat (q + 8) = unat q + 8" using P(5) by (intro unat_offset [of _ 8, simplified]) simp
  have le: "unat x + unat (chunksize ?m x) + 32 \<le> unat q" using X(9) Y(2,9) P(2) q by simp
  have x8: "m1 (x + 8) = ?m (x + 8)"
  proof -
    have "unat (x + 8) = unat x + 8" using X(4) by (intro unat_offset [of _ 8, simplified]) simp
    then have "x + 8 \<noteq> q + 8" using le by auto
    then show ?thesis using w(1) by blast
  qed
  have "tail_ready ?m m1 [(x, True), (y, True)] pu x q"
    unfolding tail_ready_def
    using P(1,5) X(5) w x8 arena_okD(3) [OF A0, of x] by (auto simp: prev_inuse_def chunksize_nomask_def)
  moreover have "fst ` set [(x, True), (y, True)] \<inter> fast_chunks F0 = {}"
  proof -
    have "x \<in> live (ls @ (x, True) # (y, True) # rs) F0" "y \<in> live (ls @ (x, True) # (y, True) # rs) F0"
      using lv(1) x by auto
    then show ?thesis by (auto simp: live_def)
  qed
  moreover have "live (ls @ [(x, True), (y, True)] @ rs) F0 - fst ` set [(x, True), (y, True)] = live bs F - {x}"
    using lv by auto
  moreover have "m1 a = mem s a" if "unat x + 16 \<le> unat a" "unat a \<le> unat x + unat (chunksize (mem s) x)" for a
  proof -
    have "?m a = mem s a" "chunksize ?m x = chunksize (mem s) x" using u x that unfolding untouched_def by blast+
    moreover have "a \<noteq> q + 8" using that q8 le calculation(2) by auto
    ultimately show ?thesis using w(1) by metis
  qed
  ultimately show ?thesis
    using tail_resizes [OF A x _ _ _ s1 nb, of ls "[(x, True), (y, True)]" rs F0 pu] A0 untouched_sub [OF u] by simp
qed

text \<open>The chunk behind is free and large enough.\<close>

lemma free_neighbour_resizes:
  assumes A: "arena_ok sy av base s bs F" and x: "x \<in> live bs F" and bs: "bs = ls @ (x, True) # (y, False) # rs"
    and nb: "nb AND MALLOC_ALIGN_MASK = 0" "32 \<le> unat nb" "nb \<le> chunksize (mem s) x + chunksize (mem s) y"
  shows "\<exists>m1 s' bs' F'. unlink_chunk (mem s) y = Inr m1 \<and>
    realloc_tail sy av x (chunksize (mem s) x + chunksize (mem s) y) nb (s\<lparr>mem := m1\<rparr>) = Inr (chunk2mem x, s') \<and>
    resizes sy av base s bs F x nb x s' bs' F'"
proof -
  let ?m = "mem s" let ?c = "chunksize (mem s) y"
  obtain L where H: "heap_ok s av base bs L" by (rule arena_heap [OF A])
  have bs': "bs = (ls @ [(x, True)]) @ (y, False) # rs" by (simp add: bs)
  have yx: "y = next_chunk ?m x" using layD(3) [OF heap_okD(1) [OF H]] unfolding bs seg_append by auto
  obtain m1 L1 t ts where un: "unlink_chunk ?m y = Inr m1" "rs = (t, True) # ts"
    "unbinned m1 av base (ls @ [(x, True)]) y t ts L1" "\<And>i. set (L1 i) \<subseteq> set (L i)"
    "\<forall>a. m1 a \<noteq> ?m a \<longrightarrow> link_word ?m av ((ls @ [(x, True)]) @ (y, False) # rs) a" "t = next_chunk ?m y"
    by (rule unlink_unbinned [OF H [unfolded bs']]) (rule that)
  have cy: "chunksize m1 y = ?c"
    by (rule kept_words(5) [OF heap_okD(1) [OF H [unfolded bs']] un(5), of y False]) simp
  let ?m0 = "set_inuse_bit_at_offset m1 y (chunksize m1 y)" let ?s0 = "s\<lparr>mem := ?m0\<rparr>"
  note U = unbinnedD [OF un(3)] and W = use_whole [OF un(3)]
  have H': "heap_ok s av base ((ls @ [(x, True)]) @ (y, False) # (t, True) # ts) L" using H unfolding bs' un(2) .
  have al: "allocated s av base bs ?c y ?s0 ((ls @ [(x, True)]) @ (y, True) # (t, True) # ts)"
    by (rule allocated_whole [OF H _ un(3,4)]) (use bs' un(2,5) in simp_all)
  note G = allocated_arena_ok [OF A al]
  have q: "t = next_chunk (mem ?s0) y" using W(11) by simp
  have tx: "t - x = chunksize (mem s) x + chunksize (mem s) y"
  proof -
    have "t = y + chunksize (mem s) y" "y - x = chunksize (mem s) x" using un(6) unfolding yx by (simp_all add: next_chunk_def)
    moreover have "t - x = (y - x) + (t - y)" by simp
    ultimately show ?thesis by simp
  qed
  have w: "\<forall>a. m1 a \<noteq> mem ?s0 a \<longrightarrow> a = t + 8" using W(8) by force
  have hd: "chunksize_nomask m1 t OR PREV_INUSE = chunksize_nomask (mem ?s0) t"
    unfolding U(9) by (simp add: set_inuse_bit_at_offset_def set_head_def chunksize_nomask_def)
  have A0: "arena_ok sy av base ?s0 (ls @ (x, True) # (y, True) # (t, True) # ts) F" using G(1) by simp
  have lv: "live (ls @ (x, True) # (y, True) # (t, True) # ts) F = insert y (live bs F)" using G(2) by simp
  have m1: "s\<lparr>mem := m1\<rparr> = ?s0\<lparr>mem := m1\<rparr>" by simp
  have le: "nb \<le> t - x" unfolding tx by (rule nb(3))
  have "\<exists>s' bs' F'. realloc_tail sy av x (t - x) nb (s\<lparr>mem := m1\<rparr>) = Inr (chunk2mem x, s') \<and>
      resizes sy av base s bs F x nb x s' bs' F'"
    by (rule joined_resizes [OF A x A0 lv G(3,4) m1 q w hd nb(1,2) le])
  then show ?thesis using un(1) unfolding tx by blast
qed

text \<open>Top is behind the chunk.\<close>

lemma top_resizes:
  assumes A: "arena_ok sy av base s bs F" and x: "x \<in> live bs F" and bs: "bs = ls @ [(x, True)]"
    and nb: "nb AND MALLOC_ALIGN_MASK = 0" "32 \<le> unat nb"
    "unat nb + 32 \<le> unat (chunksize (mem s) x) + unat (chunksize (mem s) (get_top (mem s) av))"
  defines "m' \<equiv> set_head (set_top (set_head_size (mem s) x nb) av (x + nb)) (x + nb)
    ((chunksize (mem s) x + chunksize (mem s) (get_top (mem s) av) - nb) OR PREV_INUSE)"
  shows "resizes sy av base s bs F x nb x (s\<lparr>mem := m'\<rparr>) bs F"
proof -
  obtain L where H: "heap_ok s av base bs L" by (rule arena_heap [OF A])
  note G = grow_into_top [OF H [unfolded bs] nb, folded m'_def]
  have A': "arena_ok sy av base s (ls @ [(x, True)] @ []) F" and H': "heap_ok (s\<lparr>mem := m'\<rparr>) av base (ls @ [(x, True)] @ []) L"
    using A G(1) by (simp_all add: bs)
  have e: "heap_end (s\<lparr>mem := m'\<rparr>) av = heap_end s av" using G(2) by simp
  have u: "used_kept (mem s) m' (ls @ [])" using G(3) by simp
  have mid: "fst ` set [(x, True)] \<inter> fast_chunks F = {}" "frees [(x, True)] = {}" using x by (auto simp: live_def)
  have fl: "chunksize_nomask m' y AND (IS_MMAPPED OR NON_MAIN_ARENA) = 0" if "(y, True) \<in> set [(x, True)]" for y
    using G(5) arena_okD(3) [OF A live_used [OF x]] that by simp
  have low: "m' b = mem s b" if "unat b < unat av + 96" for b by (rule G(6) [OF that])
  note R = replaced_arena [OF A' H' refl e u low mid(2,2,1) fl]
  note B = live_body [OF A x]
  have "arena_ok sy av base (s\<lparr>mem := m'\<rparr>) bs F" using R(1) by (simp add: bs)
  moreover have "untouched (mem s) m' (live bs F - {x})" using R(3) by (simp add: bs)
  moreover have "carried (mem s) m' x x nb"
    by (rule carried_in_place [OF B(1)]) (use B(1,2,4,7) G(7) in auto)
  moreover have "live bs F = insert x (live bs F - {x})" using x by blast
  ultimately show ?thesis unfolding resizes_def using G(4) by simp
qed

text \<open>The request with which \<open>realloc\<close> calls \<open>_int_malloc\<close> has the size \<open>nb\<close> again.\<close>

lemma move_request:
  assumes "nb AND MALLOC_ALIGN_MASK = 0" "32 \<le> unat nb" "nb - MALLOC_ALIGN_MASK \<le> PTRDIFF_MAX"
  shows "checked_request2size (nb - MALLOC_ALIGN_MASK) = nb"
proof -
  have "unat nb mod 16 = 0" using assms(1) by (simp add: multiple_iff)
  then obtain k where k: "unat nb = 16 * k" by (metis dvdE mod_0_imp_dvd)
  have "unat (nb - MALLOC_ALIGN_MASK) = unat nb - 15"
    using assms(2) unat_sub [of "MALLOC_ALIGN_MASK" nb] by (simp add: word_le_nat_alt)
  then have "unat (nb - MALLOC_ALIGN_MASK) + 23 = 16 * k + 8" using k assms(2) by simp
  then have "(unat (nb - MALLOC_ALIGN_MASK) + 23) div 16 * 16 = unat nb" using k by simp
  then have "unat (request2size (nb - MALLOC_ALIGN_MASK)) = unat nb"
    using unat_request2size [OF assms(3)] assms(2) by simp
  then have "request2size (nb - MALLOC_ALIGN_MASK) = nb" by (simp only: word_unat_eq_iff)
  then show ?thesis using leD [OF assms(3)] by (simp add: checked_request2size_def)
qed

text \<open>The block moves, or the new block is just behind it.\<close>

lemma move_resizes:
  assumes A: "arena_ok sy av base s bs F" and x: "x \<in> live bs F" and ex: "exhausted sy"
    and nb: "nb AND MALLOC_ALIGN_MASK = 0" "32 \<le> unat nb" "chunksize (mem s) x < nb"
  defines "r \<equiv> realloc_move sy av x (chunksize (mem s) x) nb (next_chunk (mem s) x) s"
  shows "(\<exists>y s' bs' F'. r = Inr (chunk2mem y, s') \<and> resizes sy av base s bs F x nb y s' bs' F') \<or>
    (\<exists>s' bs' F'. r = Inr (NULL, s') \<and> takes sy av base s bs F {} s' bs' F')"
proof -
  let ?old = "chunksize (mem s) x" let ?nx = "next_chunk (mem s) x"
  consider y s1 bs1 F1 where "int_malloc sy av (nb - MALLOC_ALIGN_MASK) s = Inr (chunk2mem y, s1)"
      "gives sy av base s bs F nb y s1 bs1 F1"
    | s1 bs1 F1 where "int_malloc sy av (nb - MALLOC_ALIGN_MASK) s = Inr (NULL, s1)" "takes sy av base s bs F {} s1 bs1 F1"
  proof (cases "nb - MALLOC_ALIGN_MASK \<le> PTRDIFF_MAX")
    case True
    then show thesis
      using int_malloc_returns [OF A ex True] that unfolding returns_def move_request [OF nb(1,2) True] by blast
  next
    case False
    have "arena_ok sy av base (set_errno ENOMEM s) bs F"
      by (rule arena_ok_same [OF A]) (simp_all add: set_errno_def)
    then have "takes sy av base s bs F {} (set_errno ENOMEM s) bs F" unfolding takes_def by (simp add: set_errno_def)
    moreover have "int_malloc sy av (nb - MALLOC_ALIGN_MASK) s = Inr (NULL, set_errno ENOMEM s)"
      using False by (simp add: int_malloc_def not_le)
    ultimately show thesis using that(2) by blast
  qed
  then show ?thesis
  proof cases
    case 2
    then have "r = Inr (NULL, s1)" by (simp add: r_def realloc_move_def)
    then show ?thesis using 2(2) by blast
  next
    case (1 y s1 bs1 F1)
    have A1: "arena_ok sy av base s1 bs1 F1" and lv: "live bs1 F1 = insert y (live bs F)" "y \<notin> live bs F"
      and u: "untouched (mem s) (mem s1) (live bs F)" and sz: "nb \<le> chunksize (mem s1) y"
      using 1(2) unfolding gives_def by blast+
    have xl: "x \<in> live bs1 F1" and yl: "y \<in> live bs1 F1" and xy: "y \<noteq> x" using lv x by auto
    note B = live_body [OF A1 xl] and C = live_body [OF A1 yl]
    have cx: "chunksize (mem s1) x = ?old" using u x unfolding untouched_def by blast
    have nn: "chunk2mem y \<noteq> NULL" using C(1) by auto
    obtain L1 where H1: "heap_ok s1 av base bs1 L1" by (rule arena_heap [OF A1])
    show ?thesis
    proof (cases "y = ?nx")
      case True
      obtain ls rs where bs1: "bs1 = ls @ (x, True) # rs" using live_used [OF xl] by (meson split_list)
      note D = layD [OF heap_okD(1) [OF H1]]
      have nx1: "next_chunk (mem s1) x = y" using True cx by (simp add: next_chunk_def)
      have sr: "seg (mem s1) y True rs (get_top (mem s1) av) True"
        using seg_split [OF D(3) [unfolded bs1]] nx1 by auto
      have yt: "unat y + 32 \<le> unat (get_top (mem s1) av)" using C(7,8) by simp
      then obtain u' rs' where rs: "rs = (y, u') # rs'" using sr by (cases rs) auto
      have "u'"
      proof (rule ccontr)
        assume "\<not> u'"
        then have "(y, False) \<in> set bs1" "(y, False) \<noteq> (y, True)" unfolding bs1 rs by auto
        then show False using seg_disjoint(2) [OF D(3) _ live_used [OF yl]] by blast
      qed
      then have bs1: "bs1 = ls @ (x, True) # (y, True) # rs'" using bs1 rs by simp
      let ?q = "next_chunk (mem s1) y"
      have q: "?q - x = chunksize (mem s1) y + ?old" using True by (simp add: next_chunk_def)
      have H2: "heap_ok s1 av base ((ls @ [(x, True)]) @ (y, True) # rs') L1" using H1 by (simp add: bs1)
      have pq: "prev_inuse (mem s1) ?q" by (rule block_in_heap(3) [OF H2])
      have le: "nb \<le> ?q - x"
      proof -
        have "unat (chunksize (mem s1) y) + unat ?old < 2 ^ 64"
        proof -
          have "unat y = unat x + unat ?old"
            using nx1 B(2,4,1) unat_offset [of x ?old] by (simp add: next_chunk_def cx)
          then show ?thesis using C(2,4,1) by simp
        qed
        then have "unat (?q - x) = unat (chunksize (mem s1) y) + unat ?old" unfolding q by (intro unat_offset)
        then show ?thesis using sz by (simp add: word_le_nat_alt)
      qed
      have "\<exists>s' bs' F'. realloc_tail sy av x (?q - x) nb s1 = Inr (chunk2mem x, s') \<and> resizes sy av base s bs F x nb x s' bs' F'"
        by (rule joined_resizes [OF A x A1 [unfolded bs1] lv(1) [unfolded bs1] lv(2) u _ refl _ prev_inuse_or [OF pq] nb(1,2) le])
          simp_all
      then obtain s' bs' F' where t: "realloc_tail sy av x (?q - x) nb s1 = Inr (chunk2mem x, s')"
        "resizes sy av base s bs F x nb x s' bs' F'" by blast
      have "r = Inr (chunk2mem x, s')"
        using 1(1) nn t(1) unfolding q by (simp add: r_def realloc_move_def True Let_def)
      then show ?thesis using t(2) by blast
    next
      case False
      let ?n = "memsize (mem s1) x" let ?m2 = "memcpy_at (mem s1) (chunk2mem y) (chunk2mem x) ?n"
      have n: "?n = ?old - SIZE_SZ" "unat ?n = unat ?old - 8" "?n AND 7 = 0" using B(10,2,3) unfolding cx by simp_all
      have big: "unat ?old < unat (chunksize (mem s1) y)" using nb(3) sz by (simp add: word_less_nat_alt word_le_nat_alt)
      have fit: "unat (chunk2mem y) + unat ?n < 2 ^ 64" using C(2,4) n(2) big by simp
      note mc = memcpy_words [OF fit n(3)]
      have w: "\<forall>a. ?m2 a \<noteq> mem s1 a \<longrightarrow> unat y + 16 \<le> unat a \<and> unat a \<le> unat y + unat (chunksize (mem s1) y)"
        using C(1) n(2) big by (auto simp: mc)
      let ?s2 = "s1\<lparr>mem := ?m2\<rparr>"
      note g = gives_fill [OF 1(2) w, unfolded gives_def]
      have A2: "arena_ok sy av base ?s2 bs1 F1" and u2: "untouched (mem s) ?m2 (live bs F)"
        and sz2: "nb \<le> chunksize ?m2 y" using g by auto
      obtain s' bs' F' where f: "int_free_chunk sy av x (chunksize (mem ?s2) x) True ?s2 = Inr s'"
        "takes sy av base ?s2 bs1 F1 {x} s' bs' F'"
        using free_chunk_takes [OF A2 xl] by blast
      have lv': "live bs1 F1 - {x} = insert y (live bs F - {x})" using lv xy by auto
      have t: "arena_ok sy av base s' bs' F'" "live bs' F' = insert y (live bs F - {x})"
        "untouched ?m2 (mem s') (insert y (live bs F - {x}))" using f(2) unfolding takes_def lv' by auto
      have "carried (mem s) (mem s') x y nb"
        unfolding carried_def
      proof (intro allI impI)
        fix k :: u64 assume k: "k AND 7 = 0 \<and> unat k + 16 \<le> unat ?old \<and> unat k + 16 \<le> unat nb"
        let ?a = "chunk2mem y + k"
        have ua: "unat ?a = unat y + 16 + unat k" using C(1,2,4) k big unat_offset [of "chunk2mem y" k] by simp
        have "mem s' ?a = ?m2 ?a"
        proof -
          have "chunksize ?m2 y = chunksize (mem s1) y" using words_arena_ok(3) [OF A1 yl w] by simp
          then show ?thesis using t(3) ua k big unfolding untouched_def by simp
        qed
        also have "\<dots> = mem s1 (chunk2mem x + k)" using ua C(1) k n(2) by (simp add: mc)
        also have "\<dots> = mem s (chunk2mem x + k)"
        proof -
          have "unat (chunk2mem x + k) = unat x + 16 + unat k"
            using B(1,2,4) cx k unat_offset [of "chunk2mem x" k] by simp
          then show ?thesis using u x k unfolding untouched_def by simp
        qed
        finally show "mem s' ?a = mem s (chunk2mem x + k)" .
      qed
      moreover have "nb \<le> chunksize (mem s') y" using t(3) sz2 unfolding untouched_def by simp
      moreover have "untouched (mem s) (mem s') (live bs F - {x})"
        by (rule untouched_trans [OF untouched_sub [OF u2] untouched_sub [OF t(3)]]) auto
      ultimately have "resizes sy av base s bs F x nb y s' bs' F'"
        unfolding resizes_def using t(1,2) lv(2) by simp
      moreover have "r = Inr (chunk2mem y, s')"
        using 1(1) nn False f(1) by (simp add: r_def realloc_move_def Let_def upd_mem_def)
      ultimately show ?thesis by blast
    qed
  qed
qed

section \<open>realloc\<close>

text \<open>A block of the new size, or NULL with all blocks as they were.\<close>

definition reallocs :: "'k sys \<Rightarrow> ptr \<Rightarrow> ptr \<Rightarrow> 'k st \<Rightarrow> (ptr \<times> bool) list \<Rightarrow> (u32 \<Rightarrow> ptr list) \<Rightarrow> ptr \<Rightarrow> u64 \<Rightarrow>
    abort + ptr \<times> 'k st \<Rightarrow> bool" where
  "reallocs sy av base s bs F x nb r \<longleftrightarrow>
     (\<exists>y s' bs' F'. r = Inr (chunk2mem y, s') \<and> resizes sy av base s bs F x nb y s' bs' F') \<or>
     (\<exists>s' bs' F'. r = Inr (NULL, s') \<and> takes sy av base s bs F {} s' bs' F')"

lemma int_realloc_reallocs:
  assumes A: "arena_ok sy av base s bs F" and x: "x \<in> live bs F" and ex: "exhausted sy"
    and nb: "nb AND MALLOC_ALIGN_MASK = 0" "32 \<le> unat nb" "unat nb + 32 < 2 ^ 64"
  shows "reallocs sy av base s bs F x nb (int_realloc sy av x (chunksize (mem s) x) nb s)"
proof -
  let ?m = "mem s" let ?c = "chunksize ?m x" let ?t = "next_chunk ?m x" let ?r = "int_realloc sy av x ?c nb s"
  obtain L where H: "heap_ok s av base bs L" by (rule arena_heap [OF A])
  note D = layD [OF heap_okD(1) [OF H]]
  note o = arena_okD [OF A] and B = live_body [OF A x]
  obtain ls rs where bs: "bs = ls @ (x, True) # rs" using live_used [OF x] by (meson split_list)
  note K = block_in_heap [OF H [unfolded bs]]
  have mb: "main_bit sy av = 0" using o(5) by (simp add: main_bit_def)
  have old: "\<not> chunksize_nomask ?m x \<le> CHUNK_HDR_SZ" "\<not> system_mem s av \<le> ?c"
  proof -
    show "\<not> chunksize_nomask ?m x \<le> CHUNK_HDR_SZ"
      using chunksize_le_nomask [of ?m x] B(7) by (simp add: word_le_nat_alt)
    have "unat base + unat ?c < unat base + unat (system_mem s av)"
      using heap_okD(5) [OF H] B(5,8) blockD(2,9) [OF D(4)] by linarith
    then show "\<not> system_mem s av \<le> ?c" by (simp add: word_le_nat_alt)
  qed
  have sum: "unat (?c + chunksize ?m ?t) = unat ?c + unat (chunksize ?m ?t)"
  proof -
    have "unat x + unat ?c + unat (chunksize ?m ?t) < 2 ^ 64"
    proof (cases rs)
      case Nil
      then have "?t = get_top ?m av" using K(7) by blast
      then show ?thesis using blockD(4) [OF D(4)] B(1,2,4,7) unat_offset [of x ?c] by (simp add: next_chunk_def)
    next
      case (Cons c cs)
      obtain y u where "c = (y, u)" by (cases c)
      then have rs: "rs = (y, u) # cs" using Cons by simp
      obtain pu q where "y = ?t" "block ?m True y u" "block ?m pu x True"
        using seg_pair [OF heap_okD(1) [OF H [unfolded bs rs]]] by metis
      then show ?thesis using blockD(4) [of ?m True y u] blockD(9) [of ?m pu x True] by simp
    qed
    then show ?thesis by (intro unat_offset) simp
  qed
  have nb32: "unat (nb + MINSIZE) = unat nb + 32" using nb(3) by (intro unat_offset [of _ 32, simplified]) simp
  have e: "?r = (if ?c \<ge> nb then realloc_tail sy av x ?c nb s
        else if ?t = get_top ?m av \<and> ?c + chunksize ?m ?t \<ge> nb + MINSIZE
        then Inr (chunk2mem x, s\<lparr>mem := set_head (set_top (set_head_size ?m x nb) av (x + nb)) (x + nb)
          ((?c + chunksize ?m ?t - nb) OR PREV_INUSE)\<rparr>)
        else if ?t \<noteq> get_top ?m av \<and> \<not> inuse ?m ?t \<and> ?c + chunksize ?m ?t \<ge> nb
        then bindE (unlink_chunk ?m ?t) (\<lambda>m. realloc_tail sy av x (?c + chunksize ?m ?t) nb (s\<lparr>mem := m\<rparr>))
        else realloc_move sy av x ?c nb ?t s)"
  proof -
    have ca: "chunk_at_offset x ?c = ?t" "chunk_at_offset x nb = x + nb" by (simp_all add: chunk_at_offset_def next_chunk_def)
    have mm: "mem (s\<lparr>mem := m\<rparr>) = m" "s\<lparr>mem := m\<rparr>\<lparr>mem := m'\<rparr> = s\<lparr>mem := m'\<rparr>" for s :: "'a st" and m m' by simp_all
    have gt: "get_top (set_top m av p) av = p" for m p by (simp add: get_top_def set_top_def)
    have bad: "\<not> (chunksize_nomask ?m x \<le> CHUNK_HDR_SZ \<or> ?c \<ge> system_mem s av \<or> ?c \<noteq> ?c)"
      "\<not> (chunksize_nomask ?m ?t \<le> CHUNK_HDR_SZ \<or> chunksize ?m ?t \<ge> system_mem s av)"
      using old K(4,5) by (simp_all add: not_le)
    have as: "assertE msg (\<not> chunk_is_mmapped ?m x) = Inr ()" for msg using B(9) by (simp add: assertE_def)
    show ?thesis
      unfolding int_realloc_def Let_def ca if_not_P [OF bad(1)] as bindE_simps if_not_P [OF bad(2)] mb
      by (simp only: upd_mem_def mm gt or.right_neutral simp_thms)
  qed
  consider (shrink) "nb \<le> ?c"
    | (top) "\<not> nb \<le> ?c" "?t = get_top ?m av" "nb + MINSIZE \<le> ?c + chunksize ?m ?t"
    | (free) "\<not> nb \<le> ?c" "?t \<noteq> get_top ?m av" "\<not> inuse ?m ?t" "nb \<le> ?c + chunksize ?m ?t"
    | (move) "\<not> nb \<le> ?c" "?r = realloc_move sy av x ?c nb ?t s"
    using e by argo
  then show ?thesis
  proof cases
    case shrink
    then show ?thesis using shrink_resizes [OF A x nb(1,2) shrink] e unfolding reallocs_def by auto
  next
    case top
    have bs': "bs = ls @ [(x, True)]" using K(7) top(2) unfolding bs by simp
    have "unat nb + 32 \<le> unat ?c + unat (chunksize ?m (get_top ?m av))"
      using top(3) sum nb32 unfolding top(2) by (simp add: word_le_nat_alt)
    note R = top_resizes [OF A x bs' nb(1,2) this]
    have "?r = Inr (chunk2mem x, s\<lparr>mem := set_head (set_top (set_head_size ?m x nb) av (x + nb)) (x + nb)
        ((?c + chunksize ?m (get_top ?m av) - nb) OR PREV_INUSE)\<rparr>)"
      unfolding e if_not_P [OF top(1)] if_P [OF conjI [OF top(2,3)]] unfolding top(2) ..
    then show ?thesis using R unfolding reallocs_def by blast
  next
    case free
    obtain y u rs' where rs: "rs = (y, u) # rs'" using K(7) free(2) by (cases rs) auto
    obtain pu q where P: "y = ?t" "q = next_chunk ?m y" "prev_inuse ?m q \<longleftrightarrow> u"
      using seg_pair [OF heap_okD(1) [OF H [unfolded bs rs]]] by metis
    have "\<not> u" using free(3) P by (simp add: inuse_def inuse_bit_at_offset_def prev_inuse_def next_chunk_def)
    then have bs': "bs = ls @ (x, True) # (?t, False) # rs'" using bs rs P(1) by simp
    obtain m1 s' bs' F' where f: "unlink_chunk ?m ?t = Inr m1"
      "realloc_tail sy av x (?c + chunksize ?m ?t) nb (s\<lparr>mem := m1\<rparr>) = Inr (chunk2mem x, s')"
      "resizes sy av base s bs F x nb x s' bs' F'"
      using free_neighbour_resizes [OF A x bs' nb(1,2) free(4)] by blast
    have "?r = Inr (chunk2mem x, s')" using e free f(1,2) by simp
    then show ?thesis using f(3) unfolding reallocs_def by blast
  next
    case move
    then show ?thesis using move_resizes [OF A x ex nb(1,2)] unfolding reallocs_def by simp
  qed
qed

lemma carried_less:
  assumes "carried m m' x y nb" "nb' \<le> nb"
  shows "carried m m' x y nb'"
  using assms unfolding carried_def by (meson le_trans word_le_nat_alt)

lemma reallocs_less:
  assumes "reallocs sy av base s bs F x nb r" "nb' \<le> nb"
  shows "reallocs sy av base s bs F x nb' r"
proof -
  have "resizes sy av base s bs F x nb' y s' bs' F'" if "resizes sy av base s bs F x nb y s' bs' F'" for y s' bs' F'
    using that carried_less [OF _ assms(2)] order_trans [OF assms(2)] unfolding resizes_def by blast
  then show ?thesis using assms(1) unfolding reallocs_def by blast
qed

text \<open>\<open>realloc\<close> of the library: the room for the data is one word less than the chunk.\<close>

lemma libc_realloc_reallocs:
  assumes A: "arena_ok sy av base s bs F" and x: "x \<in> live bs F" and ex: "exhausted sy" and n0: "bytes \<noteq> 0"
  defines "r \<equiv> libc_realloc sy (chunk2mem x) bytes s"
  shows "reallocs sy av base s bs F x (bytes + SIZE_SZ) r \<and> unat bytes + 8 < 2 ^ 64 \<or> r = Inr (NULL, set_errno ENOMEM s)"
proof -
  let ?m = "mem s" let ?c = "chunksize ?m x"
  obtain L where H: "heap_ok s av base bs L" by (rule arena_heap [OF A])
  note o = arena_okD [OF A] and B = live_body [OF A x]
  obtain pu where P: "block ?m pu x True" by (rule used_block [OF H live_used [OF x]])
  note X = blockD [OF P]
  obtain ls rs where bs: "bs = ls @ (x, True) # rs" using live_used [OF x] by (meson split_list)
  have "inuse ?m x"
    using block_in_heap(3) [OF H [unfolded bs]]
    by (simp add: inuse_def inuse_bit_at_offset_def prev_inuse_def next_chunk_def)
  then have us: "musable s (chunk2mem x) = ?c - SIZE_SZ" using B(9,10) by (simp add: musable_def)
  have nn: "chunk2mem x \<noteq> NULL" using B(1) by auto
  have ok: "\<not> (x > - ?c \<or> misaligned_chunk x)"
  proof -
    have "2 ^ 64 \<le> unat (- ?c) + unat ?c"
    proof (rule ccontr)
      assume "\<not> 2 ^ 64 \<le> unat (- ?c) + unat ?c"
      then have "unat (- ?c + ?c) = unat (- ?c) + unat ?c" by (intro unat_offset) simp
      then show False using X(2) by simp
    qed
    then have "\<not> x > - ?c" using X(4) by (simp add: word_less_nat_alt)
    then show ?thesis using X(1) by (simp add: misaligned_chunk_iff)
  qed
  have ar: "arena_for_chunk sy s x = av"
    using o(2) block_flags(2) [OF o(3) [OF live_used [OF x]]] unfolding settled_def by blast
  let ?fits = "bytes \<le> ?c - SIZE_SZ \<and> ?c - SIZE_SZ - bytes < 2 * SIZE_SZ"
  have e: "r = (if ?fits then Inr (chunk2mem x, s) else if bytes > PTRDIFF_MAX then Inr (NULL, set_errno ENOMEM s)
      else bindE (int_realloc sy av x ?c (checked_request2size bytes) s) (\<lambda>(newp, s).
        bindE (arena_assert sy av newp s) (\<lambda>_. Inr (newp, s))))"
    using nn n0 ok B(9) by (simp add: r_def libc_realloc_def us ar Let_def)
  consider (fits) ?fits | (big) "\<not> ?fits" "bytes > PTRDIFF_MAX" | (go) "\<not> ?fits" "bytes \<le> PTRDIFF_MAX" by fastforce
  then show ?thesis
  proof cases
    case fits
    have ub: "unat bytes + 8 \<le> unat ?c" using fits B(2,7) unfolding word_le_nat_alt by linarith
    then have u8: "unat (bytes + SIZE_SZ) = unat bytes + 8" using X(4) by (intro unat_offset [of _ 8, simplified]) simp
    have "resizes sy av base s bs F x (bytes + SIZE_SZ) x s bs F"
      unfolding resizes_def carried_def using A x ub u8 by (auto simp: word_le_nat_alt)
    then show ?thesis using ub X(4) unfolding e if_P [OF fits] reallocs_def by auto
  next
    case big
    then show ?thesis unfolding e if_not_P [OF big(1)] if_P [OF big(2)] by blast
  next
    case go
    note nb = request_size [OF go(2)]
    have n32: "32 \<le> unat (checked_request2size bytes)" using nb(2) by (simp add: word_le_nat_alt)
    have b8: "unat bytes + 8 < 2 ^ 64" using nb(3,4) by linarith
    then have u8: "unat (bytes + SIZE_SZ) = unat bytes + 8" by (intro unat_offset [of _ 8, simplified]) simp
    have le: "bytes + SIZE_SZ \<le> checked_request2size bytes" using nb(4) u8 by (simp add: word_le_nat_alt)
    note R = int_realloc_reallocs [OF A x ex nb(1) n32 nb(3)]
    have nb1: "\<not> bytes > PTRDIFF_MAX" using go(2) by simp
    have "r = int_realloc sy av x ?c (checked_request2size bytes) s"
    proof -
      consider y s' bs' F' where "int_realloc sy av x ?c (checked_request2size bytes) s = Inr (chunk2mem y, s')"
          "resizes sy av base s bs F x (checked_request2size bytes) y s' bs' F'"
        | s' where "int_realloc sy av x ?c (checked_request2size bytes) s = Inr (NULL, s')"
        using R unfolding reallocs_def by blast
      then show ?thesis
      proof cases
        case (1 y s' bs' F')
        then have "arena_ok sy av base s' bs' F'" "y \<in> live bs' F'" unfolding resizes_def by auto
        then have "arena_assert sy av (chunk2mem y) s' = Inr ()" by (rule arena_assert_holds)
        then show ?thesis unfolding e if_not_P [OF go(1)] if_not_P [OF nb1] 1(1) by simp
      next
        case 2
        show ?thesis unfolding e if_not_P [OF go(1)] if_not_P [OF nb1] 2 by (simp add: arena_assert_def assertE_def)
      qed
    qed
    then show ?thesis using reallocs_less [OF R le] b8 by simp
  qed
qed

end
