(* ===== verification/HeapRun.thy ===== *)
theory HeapRun
  imports Resize
begin

text \<open>
  A program that calls \<open>malloc\<close>, \<open>calloc\<close>, \<open>realloc\<close> and \<open>free\<close> and writes into its blocks, as a step
  relation over the state of the allocator and the blocks held; \<open>heap_inv\<close> is its invariant. The
  properties say what each call does in a reachable state and that no reachable state breaks the heap.
\<close>

section \<open>A program that uses the heap\<close>

text \<open>
  The steps of a single-threaded program: it calls \<open>malloc\<close> or \<open>calloc\<close> with any size, resizes or frees
  a block it holds, or stores a word inside one. \<open>H\<close> maps the blocks it holds to the sizes it asked for.
\<close>

definition inside :: "ptr \<Rightarrow> u64 \<Rightarrow> u64 \<Rightarrow> bool" where
  "inside p n a \<longleftrightarrow> unat p \<le> unat a \<and> unat a + 8 \<le> unat p + unat n"

definition hold :: "(ptr \<rightharpoonup> u64) \<Rightarrow> ptr \<Rightarrow> u64 \<Rightarrow> (ptr \<rightharpoonup> u64)" where
  "hold H p n = (if p = NULL then H else H(p \<mapsto> n))"

definition rehold :: "(ptr \<rightharpoonup> u64) \<Rightarrow> ptr \<Rightarrow> ptr \<Rightarrow> u64 \<Rightarrow> (ptr \<rightharpoonup> u64)" where
  "rehold H p q n = (if n = 0 then H(p := None) else if q = NULL then H else H(p := None, q \<mapsto> n))"

inductive heap_step :: "'k sys \<Rightarrow> 'k st \<times> (ptr \<rightharpoonup> u64) \<Rightarrow> 'k st \<times> (ptr \<rightharpoonup> u64) \<Rightarrow> bool" for sy where
  malloc_step: "libc_malloc sy n s = Inr (p, s') \<Longrightarrow> heap_step sy (s, H) (s', hold H p n)"
| calloc_step: "libc_calloc sy k n s = Inr (p, s') \<Longrightarrow> heap_step sy (s, H) (s', hold H p (k * n))"
| realloc_step: "H p = Some k \<Longrightarrow> libc_realloc sy p n s = Inr (q, s') \<Longrightarrow> heap_step sy (s, H) (s', rehold H p q n)"
| free_step: "H p = Some n \<Longrightarrow> libc_free sy p s = Inr s' \<Longrightarrow> heap_step sy (s, H) (s', H(p := None))"
| write_step: "H p = Some n \<Longrightarrow> inside p n a \<Longrightarrow> a AND 7 = 0 \<Longrightarrow>
    heap_step sy (s, H) (s\<lparr>mem := (mem s)(a := v)\<rparr>, H)"

inductive_cases heap_stepE: "heap_step sy (s, H) c"

text \<open>The invariant: an arena whose live blocks are those of the program, each large enough.\<close>

definition roomy :: "memory \<Rightarrow> (ptr \<rightharpoonup> u64) \<Rightarrow> bool" where
  "roomy m H \<longleftrightarrow> (\<forall>p n. H p = Some n \<longrightarrow> unat n + 8 \<le> unat (chunksize m (mem2chunk p)))"

definition heap_inv :: "'k sys \<Rightarrow> ptr \<Rightarrow> ptr \<Rightarrow> 'k st \<times> (ptr \<rightharpoonup> u64) \<Rightarrow> bool" where
  "heap_inv sy av base c \<longleftrightarrow> exhausted sy \<and> (\<exists>bs F. arena_ok sy av base (fst c) bs F \<and> dom (snd c) = chunk2mem ` live bs F \<and>
     roomy (mem (fst c)) (snd c))"

lemma heap_invE:
  assumes "heap_inv sy av base (s, H)"
  obtains bs F where "arena_ok sy av base s bs F" "dom H = chunk2mem ` live bs F" "roomy (mem s) H" "exhausted sy"
  using assms unfolding heap_inv_def by auto

lemma heap_invI:
  assumes "arena_ok sy av base s bs F" "dom H = chunk2mem ` live bs F" "roomy (mem s) H" "exhausted sy"
  shows "heap_inv sy av base (s, H)"
  using assms unfolding heap_inv_def by auto

lemma chunk2mem_inj: "chunk2mem x = chunk2mem y \<longleftrightarrow> x = y"
  by (simp add: chunk2mem_def)

text \<open>Where a held block lies.\<close>

lemma live_block:
  assumes A: "arena_ok sy av base s bs F" and x: "x \<in> live bs F"
  shows "unat (chunk2mem x) = unat x + 16" "aligned (chunk2mem x)" "unat base \<le> unat x"
    "unat x + unat (chunksize (mem s) x) \<le> unat (get_top (mem s) av)"
proof -
  obtain L where H: "heap_ok s av base bs L" by (rule arena_heap [OF A])
  obtain w where B: "block (mem s) w x True" "unat base \<le> unat x"
    "unat x + unat (chunksize (mem s) x) \<le> unat (get_top (mem s) av)"
    by (rule used_block [OF H live_used [OF x]])
  note X = blockD [OF B(1)]
  show "unat (chunk2mem x) = unat x + 16"
    using X(4) unfolding chunk2mem_def by (intro unat_offset [of _ 16, simplified]) simp
  show "aligned (chunk2mem x)" using aligned_add [OF X(1), of 16] by (simp add: chunk2mem_def)
  show "unat base \<le> unat x" "unat x + unat (chunksize (mem s) x) \<le> unat (get_top (mem s) av)" using B(2,3) .
qed

lemma held_block:
  assumes A: "arena_ok sy av base s bs F" "dom H = chunk2mem ` live bs F" "roomy (mem s) H" and p: "H p = Some n"
  obtains x where "p = chunk2mem x" "x \<in> live bs F" "unat p = unat x + 16" "unat n + 8 \<le> unat (chunksize (mem s) x)"
    "\<And>a. inside p n a \<Longrightarrow> unat x + 16 \<le> unat a \<and> unat a \<le> unat x + unat (chunksize (mem s) x)"
proof -
  obtain x where x: "p = chunk2mem x" "x \<in> live bs F" using p A(2) by (metis domI imageE)
  have n: "unat n + 8 \<le> unat (chunksize (mem s) x)" using A(3) p unfolding roomy_def x(1) by fastforce
  then show thesis using that [OF x] live_block(1) [OF A(1) x(2)] x(1) by (simp add: inside_def)
qed

text \<open>Blocks that keep their chunks keep their words and their room.\<close>

lemma held_words:
  assumes A: "arena_ok sy av base s bs F" "dom H = chunk2mem ` live bs F" "roomy (mem s) H"
    and u: "untouched (mem s) m' (live bs F - X)"
  shows "H q = Some m \<Longrightarrow> mem2chunk q \<notin> X \<Longrightarrow> inside q m a \<Longrightarrow> m' a = mem s a" (is "?p \<Longrightarrow> ?q \<Longrightarrow> ?r \<Longrightarrow> ?c")
    "H q = Some m \<Longrightarrow> mem2chunk q \<notin> X \<Longrightarrow> unat m + 8 \<le> unat (chunksize m' (mem2chunk q))"
proof -
  assume q: "H q = Some m" "mem2chunk q \<notin> X"
  obtain x where x: "q = chunk2mem x" "x \<in> live bs F" "unat m + 8 \<le> unat (chunksize (mem s) x)"
    "\<And>a. inside q m a \<Longrightarrow> unat x + 16 \<le> unat a \<and> unat a \<le> unat x + unat (chunksize (mem s) x)"
    by (rule held_block [OF A q(1)]) (rule that)
  have xX: "x \<in> live bs F - X" using q(2) x(1,2) by simp
  show "inside q m a \<Longrightarrow> m' a = mem s a" using u xX x(4) unfolding untouched_def by blast
  show "unat m + 8 \<le> unat (chunksize m' (mem2chunk q))" using u xX x(1,3) unfolding untouched_def by simp
qed

lemma null_not_held:
  assumes "arena_ok sy av base s bs F" "dom H = chunk2mem ` live bs F"
  shows "NULL \<notin> dom H"
proof
  assume "NULL \<in> dom H"
  then obtain x where x: "NULL = chunk2mem x" "x \<in> live bs F" using assms(2) by auto
  have "unat (chunk2mem x) = 0" unfolding x(1) [symmetric] by simp
  then show False using live_block(1) [OF assms(1) x(2)] by simp
qed

text \<open>A block is handed out, or refused.\<close>

lemma given_keeps:
  assumes I: "heap_inv sy av base (s, H)" and A: "arena_ok sy av base s bs F" "dom H = chunk2mem ` live bs F"
    and g: "gives sy av base s bs F nb x s' bs' F'" and n: "unat n + 8 \<le> unat nb" and r: "roomy (mem s) H"
  shows "heap_inv sy av base (s', hold H (chunk2mem x) n)" "chunk2mem x \<notin> dom H" "aligned (chunk2mem x)" "chunk2mem x \<noteq> NULL"
    "H q = Some m \<Longrightarrow> inside q m a \<Longrightarrow> mem s' a = mem s a"
proof -
  have ex: "exhausted sy" by (rule heap_invE [OF I])
  have A': "arena_ok sy av base s' bs' F'" and lv: "live bs' F' = insert x (live bs F)" and x: "x \<notin> live bs F"
    and u: "untouched (mem s) (mem s') (live bs F)" and nb: "nb \<le> chunksize (mem s') x" using g unfolding gives_def by blast+
  note held = held_words [OF A r, where X = "{}", simplified]
  have "unat (chunk2mem x) = unat x + 16" using live_block(1) [OF A', of x] lv by simp
  then show nn: "chunk2mem x \<noteq> NULL" by auto
  then have hold: "hold H (chunk2mem x) n = H(chunk2mem x \<mapsto> n)" by (simp add: hold_def)
  show "chunk2mem x \<notin> dom H" using A(2) x chunk2mem_inj by auto
  have "unat n + 8 \<le> unat (chunksize (mem s') x)" using n nb by (simp add: word_le_nat_alt)
  then have "roomy (mem s') (H(chunk2mem x \<mapsto> n))"
    unfolding roomy_def using held(2) [OF u] by (auto split: if_splits)
  moreover have "dom (H(chunk2mem x \<mapsto> n)) = chunk2mem ` live bs' F'" using A(2) lv by simp
  ultimately show "heap_inv sy av base (s', hold H (chunk2mem x) n)" unfolding hold using heap_invI [OF A' _ _ ex] by blast
  show "aligned (chunk2mem x)" using live_block(2) [OF A', of x] lv by simp
  show "H q = Some m \<Longrightarrow> inside q m a \<Longrightarrow> mem s' a = mem s a" by (rule held(1) [OF u])
qed

lemma refused_keeps:
  assumes I: "heap_inv sy av base (s, H)" and A: "arena_ok sy av base s bs F" "dom H = chunk2mem ` live bs F"
    and t: "takes sy av base s bs F {} s' bs' F'" and r: "roomy (mem s) H"
  shows "heap_inv sy av base (s', H)" "NULL \<notin> dom H" "H q = Some m \<Longrightarrow> inside q m a \<Longrightarrow> mem s' a = mem s a"
proof -
  have ex: "exhausted sy" by (rule heap_invE [OF I])
  note held = held_words [OF A r, where X = "{}", simplified]
  have A': "arena_ok sy av base s' bs' F'" and lv: "live bs' F' = live bs F"
    and u: "untouched (mem s) (mem s') (live bs F)" using t unfolding takes_def by auto
  have "roomy (mem s') H" unfolding roomy_def using held(2) [OF u] by blast
  then show "heap_inv sy av base (s', H)" using heap_invI [OF A' _ _ ex] A(2) lv by simp
  show "NULL \<notin> dom H" by (rule null_not_held [OF A])
  show "H q = Some m \<Longrightarrow> inside q m a \<Longrightarrow> mem s' a = mem s a" by (rule held(1) [OF u])
qed

lemma errno_takes: "arena_ok sy av base s bs F \<Longrightarrow> takes sy av base s bs F {} (set_errno e s) bs F"
  unfolding takes_def using arena_ok_same [of sy av base s bs F "set_errno e s"] by (simp add: set_errno_def)

lemma hold_null [simp]: "hold H NULL n = H"
  by (simp add: hold_def)

lemma malloc_keeps:
  assumes I: "heap_inv sy av base (s, H)"
  shows "\<exists>p s'. libc_malloc sy n s = Inr (p, s') \<and> heap_inv sy av base (s', hold H p n) \<and> p \<notin> dom H \<and> aligned p \<and>
    (\<forall>q m a. H q = Some m \<longrightarrow> inside q m a \<longrightarrow> mem s' a = mem s a)"
proof -
  obtain bs F where A: "arena_ok sy av base s bs F" "dom H = chunk2mem ` live bs F" "roomy (mem s) H" and ex: "exhausted sy"
    by (rule heap_invE [OF I])
  note o = arena_okD [OF A(1)]
  consider x s' bs' F' where "libc_malloc sy n s = Inr (chunk2mem x, s')"
      "gives sy av base s bs F (checked_request2size n) x s' bs' F'" "n \<le> PTRDIFF_MAX"
    | s' bs' F' where "libc_malloc sy n s = Inr (NULL, s')" "takes sy av base s bs F {} s' bs' F'"
  proof (cases "n \<le> PTRDIFF_MAX")
    case True
    then show thesis using libc_malloc_returns [OF A(1) ex True] that unfolding returns_def by blast
  next
    case False
    have "libc_malloc sy n s = libc_malloc2 sy n s"
      using o(2) by (auto simp: libc_malloc_def Let_def tcache_malloc_init_def tcache_init_def settled_def)
    then have "libc_malloc sy n s = Inr (NULL, set_errno ENOMEM s)"
      using False by (simp add: libc_malloc2_def int_malloc_def arena_assert_def assertE_def not_le)
    then show thesis using that(2) errno_takes [OF A(1)] by blast
  qed
  then show ?thesis
  proof cases
    case (1 x s' bs' F')
    note g = given_keeps [OF I A(1,2) 1(2) request_size(4) [OF 1(3)] A(3)]
    show ?thesis using 1(1) g by blast
  next
    case (2 s' bs' F')
    note t = refused_keeps [OF I A(1,2) 2(2) A(3)]
    have "aligned NULL" by (simp add: aligned_def)
    then show ?thesis using 2(1) t by (intro exI [of _ NULL] exI [of _ s']) auto
  qed
qed

lemma calloc_keeps:
  assumes I: "heap_inv sy av base (s, H)"
  shows "\<exists>p s'. libc_calloc sy k n s = Inr (p, s') \<and> heap_inv sy av base (s', hold H p (k * n)) \<and> p \<notin> dom H \<and> aligned p \<and>
    (p \<noteq> NULL \<longrightarrow> unat (k * n) = unat k * unat n \<and> (\<forall>a. inside p (k * n) a \<longrightarrow> a AND 7 = 0 \<longrightarrow> mem s' a = 0)) \<and>
    (\<forall>q m a. H q = Some m \<longrightarrow> inside q m a \<longrightarrow> mem s' a = mem s a)"
proof -
  obtain bs F where A: "arena_ok sy av base s bs F" "dom H = chunk2mem ` live bs F" "roomy (mem s) H" and ex: "exhausted sy"
    by (rule heap_invE [OF I])
  note o = arena_okD [OF A(1)]
  let ?n = "k * n" let ?r = "libc_calloc sy k n s"
  consider x s' bs' F' where "?r = Inr (chunk2mem x, s')" "gives sy av base s bs F (checked_request2size ?n) x s' bs' F'"
      "?n \<le> PTRDIFF_MAX" "unat k * unat n < 2 ^ 64" "blank (mem s') x"
    | s' bs' F' where "?r = Inr (NULL, s')" "takes sy av base s bs F {} s' bs' F'"
  proof (cases "unat k * unat n < 2 ^ 64")
    case False
    then have "?r = Inr (NULL, set_errno ENOMEM s)" by (simp add: libc_calloc_def)
    then show thesis using that(2) errno_takes [OF A(1)] by blast
  next
    case fits: True
    have e: "?r = libc_calloc2 sy ?n s"
      using o(2) fits by (auto simp: libc_calloc_def Let_def tcache_calloc_init_def tcache_init_def settled_def)
    show thesis
    proof (cases "?n \<le> PTRDIFF_MAX")
      case True
      then show thesis using calloc2_returns [OF A(1) ex True] that fits unfolding e by blast
    next
      case False
      have "?r = Inr (NULL, set_errno ENOMEM s)"
        unfolding e libc_calloc2_def using False
        by (simp add: int_malloc_def arena_assert_def assertE_def not_le Let_def split: prod.splits)
      then show thesis using that(2) errno_takes [OF A(1)] by blast
    qed
  qed
  then show ?thesis
  proof cases
    case (1 x s' bs' F')
    note g = given_keeps [OF I A(1,2) 1(2) request_size(4) [OF 1(3)] A(3)]
    have A': "arena_ok sy av base s' bs' F'" "x \<in> live bs' F'" "checked_request2size ?n \<le> chunksize (mem s') x"
      using 1(2) unfolding gives_def by auto
    have "mem s' a = 0" if "inside (chunk2mem x) ?n a" "a AND 7 = 0" for a
    proof -
      have "unat ?n + 8 \<le> unat (chunksize (mem s') x)"
        using request_size(4) [OF 1(3)] A'(3) by (simp add: word_le_nat_alt)
      then have "unat x + 16 \<le> unat a" "unat a \<le> unat x + unat (chunksize (mem s') x)"
        using that(1) live_block(1) [OF A'(1,2)] by (simp_all add: inside_def)
      then show ?thesis using 1(5) that(2) unfolding blank_def by blast
    qed
    moreover have "unat ?n = unat k * unat n" using 1(4) by (simp add: unat_mult_small)
    ultimately show ?thesis using 1(1) g by blast
  next
    case (2 s' bs' F')
    note t = refused_keeps [OF I A(1,2) 2(2) A(3)]
    have "aligned NULL" by (simp add: aligned_def)
    then show ?thesis using 2(1) t by (intro exI [of _ NULL] exI [of _ s']) auto
  qed
qed

text \<open>A block gets a new size.\<close>

lemma resized_keeps:
  assumes I: "heap_inv sy av base (s, H)" and A: "arena_ok sy av base s bs F" "dom H = chunk2mem ` live bs F" "roomy (mem s) H"
    and x: "H (chunk2mem x) = Some k" and n: "n \<noteq> 0" "unat n + 8 < 2 ^ 64"
    and g: "resizes sy av base s bs F x (n + SIZE_SZ) y s' bs' F'"
  shows "heap_inv sy av base (s', rehold H (chunk2mem x) (chunk2mem y) n)" "chunk2mem y \<notin> dom (H(chunk2mem x := None))"
    "aligned (chunk2mem y)" "chunk2mem y \<noteq> NULL"
    "j AND 7 = 0 \<Longrightarrow> unat j + 8 \<le> unat k \<Longrightarrow> unat j + 8 \<le> unat n \<Longrightarrow> mem s' (chunk2mem y + j) = mem s (chunk2mem x + j)"
    "q \<noteq> chunk2mem x \<Longrightarrow> H q = Some m \<Longrightarrow> inside q m a \<Longrightarrow> mem s' a = mem s a"
proof -
  have ex: "exhausted sy" by (rule heap_invE [OF I])
  have A': "arena_ok sy av base s' bs' F'" and lv: "live bs' F' = insert y (live bs F - {x})" and y: "y \<notin> live bs F - {x}"
    and u: "untouched (mem s) (mem s') (live bs F - {x})" and nb: "n + SIZE_SZ \<le> chunksize (mem s') y"
    and c: "carried (mem s) (mem s') x y (n + SIZE_SZ)" using g unfolding resizes_def by blast+
  note held = held_words [OF A u]
  have n8: "unat (n + SIZE_SZ) = unat n + 8" using n(2) by (intro unat_offset [of _ 8, simplified]) simp
  have ne: "mem2chunk q \<notin> {x}" if "q \<noteq> chunk2mem x" for q using that by (metis chunk2mem_mem2chunk(1) singletonD)
  have "unat (chunk2mem y) = unat y + 16" using live_block(1) [OF A', of y] lv by simp
  then show nn: "chunk2mem y \<noteq> NULL" by auto
  let ?H = "H(chunk2mem x := None, chunk2mem y \<mapsto> n)"
  have rh: "rehold H (chunk2mem x) (chunk2mem y) n = ?H" using nn n(1) by (simp add: rehold_def)
  show "chunk2mem y \<notin> dom (H(chunk2mem x := None))" using A(2) y chunk2mem_inj by auto
  show "aligned (chunk2mem y)" using live_block(2) [OF A', of y] lv by simp
  have "unat n + 8 \<le> unat (chunksize (mem s') y)" using n8 nb by (simp add: word_le_nat_alt)
  then have "roomy (mem s') ?H" unfolding roomy_def using held(2) [OF _ ne] by (auto split: if_splits)
  moreover have "dom ?H = chunk2mem ` live bs' F'" using A(2) lv chunk2mem_inj by (auto split: if_splits)
  ultimately show "heap_inv sy av base (s', rehold H (chunk2mem x) (chunk2mem y) n)"
    unfolding rh using heap_invI [OF A' _ _ ex] by blast
  show "mem s' (chunk2mem y + j) = mem s (chunk2mem x + j)"
    if j: "j AND 7 = 0" "unat j + 8 \<le> unat k" "unat j + 8 \<le> unat n"
  proof -
    have "unat k + 8 \<le> unat (chunksize (mem s) x)" using A(3) x unfolding roomy_def by fastforce
    then show ?thesis using c j n8 unfolding carried_def by simp
  qed
  show "q \<noteq> chunk2mem x \<Longrightarrow> H q = Some m \<Longrightarrow> inside q m a \<Longrightarrow> mem s' a = mem s a" using held(1) ne by blast
qed

lemma free_keeps:
  assumes I: "heap_inv sy av base (s, H)" and p: "H p = Some n"
  shows "\<exists>s'. libc_free sy p s = Inr s' \<and> heap_inv sy av base (s', H(p := None)) \<and>
    (\<forall>q m a. q \<noteq> p \<longrightarrow> H q = Some m \<longrightarrow> inside q m a \<longrightarrow> mem s' a = mem s a)"
proof -
  obtain bs F where A: "arena_ok sy av base s bs F" "dom H = chunk2mem ` live bs F" "roomy (mem s) H" and ex: "exhausted sy"
    by (rule heap_invE [OF I])
  obtain x where x: "p = chunk2mem x" "x \<in> live bs F" using p A(2) by (metis domI imageE)
  obtain s' bs' F' where f: "libc_free sy p s = Inr s'" "takes sy av base s bs F {x} s' bs' F'"
    using libc_free_takes [OF A(1) x(2)] unfolding x(1) by blast
  have A': "arena_ok sy av base s' bs' F'" and lv: "live bs' F' = live bs F - {x}"
    and u: "untouched (mem s) (mem s') (live bs F - {x})" using f(2) unfolding takes_def by auto
  note held = held_words [OF A u]
  have ne: "mem2chunk q \<notin> {x}" if "q \<noteq> p" for q using that unfolding x(1) by (metis chunk2mem_mem2chunk(1) singletonD)
  have "roomy (mem s') (H(p := None))" unfolding roomy_def using held(2) [OF _ ne] by auto
  moreover have "dom (H(p := None)) = chunk2mem ` live bs' F'"
    using A(2) lv x(1) chunk2mem_inj by (auto simp: inj_def)
  ultimately have "heap_inv sy av base (s', H(p := None))" using heap_invI [OF A' _ _ ex] by blast
  then show ?thesis using f(1) held(1) ne by blast
qed

lemma write_keeps:
  assumes I: "heap_inv sy av base (s, H)" and p: "H p = Some n" and a: "inside p n a"
  shows "heap_inv sy av base (s\<lparr>mem := (mem s)(a := v)\<rparr>, H)"
    "H q = Some m \<Longrightarrow> q \<noteq> p \<Longrightarrow> inside q m b \<Longrightarrow> ((mem s)(a := v)) b = mem s b"
proof -
  obtain bs F where A: "arena_ok sy av base s bs F" "dom H = chunk2mem ` live bs F" "roomy (mem s) H" and ex: "exhausted sy"
    by (rule heap_invE [OF I])
  obtain x where x: "p = chunk2mem x" "x \<in> live bs F"
    "unat n + 8 \<le> unat (chunksize (mem s) x)"
    "\<And>a. inside p n a \<Longrightarrow> unat x + 16 \<le> unat a \<and> unat a \<le> unat x + unat (chunksize (mem s) x)"
    by (rule held_block [OF A p]) (rule that)
  have ax: "unat x + 16 \<le> unat a" "unat a \<le> unat x + unat (chunksize (mem s) x)" using x(4) [OF a] by auto
  have "\<forall>b. ((mem s)(a := v)) b \<noteq> mem s b \<longrightarrow> unat x + 16 \<le> unat b \<and> unat b \<le> unat x + unat (chunksize (mem s) x)"
    using ax by simp
  note W = words_arena_ok [where m' = "(mem s)(a := v)", OF A(1) x(2) this]
  note held = held_words [OF A, where X = "{x}" and m' = "(mem s)(a := v)"]
  have u: "untouched (mem s) ((mem s)(a := v)) (live bs F - {x})" using W(2) by simp
  have ne: "mem2chunk q \<notin> {x}" if "q \<noteq> p" for q using that unfolding x(1) by (metis chunk2mem_mem2chunk(1) singletonD)
  show "H q = Some m \<Longrightarrow> q \<noteq> p \<Longrightarrow> inside q m b \<Longrightarrow> ((mem s)(a := v)) b = mem s b"
    using held(1) [OF u] ne by blast
  have "unat m + 8 \<le> unat (chunksize ((mem s)(a := v)) (mem2chunk q))" if q: "H q = Some m" for q m
  proof (cases "q = p")
    case True
    then show ?thesis using x(1,3) p q W(3) by simp
  next
    case False
    show ?thesis by (rule held(2) [OF u q ne [OF False]])
  qed
  then have "roomy ((mem s)(a := v)) H" unfolding roomy_def by blast
  then show "heap_inv sy av base (s\<lparr>mem := (mem s)(a := v)\<rparr>, H)" using heap_invI [OF W(1) _ _ ex] A(2) by simp
qed

lemma realloc_keeps:
  assumes I: "heap_inv sy av base (s, H)" and p: "H p = Some k"
  shows "\<exists>q s'. libc_realloc sy p n s = Inr (q, s') \<and> heap_inv sy av base (s', rehold H p q n) \<and>
    q \<notin> dom (H(p := None)) \<and> aligned q \<and>
    (q \<noteq> NULL \<longrightarrow> (\<forall>j. j AND 7 = 0 \<longrightarrow> unat j + 8 \<le> unat k \<longrightarrow> unat j + 8 \<le> unat n \<longrightarrow> mem s' (q + j) = mem s (p + j))) \<and>
    (\<forall>r m a. H r = Some m \<longrightarrow> inside r m a \<longrightarrow> r \<noteq> p \<or> q = NULL \<and> n \<noteq> 0 \<longrightarrow> mem s' a = mem s a)"
proof -
  obtain bs F where A: "arena_ok sy av base s bs F" "dom H = chunk2mem ` live bs F" "roomy (mem s) H" and ex: "exhausted sy"
    by (rule heap_invE [OF I])
  obtain x where x: "p = chunk2mem x" "x \<in> live bs F" using p A(2) by (metis domI imageE)
  have nh: "NULL \<notin> dom H" "aligned NULL" using null_not_held [OF A(1,2)] by (simp_all add: aligned_def)
  show ?thesis
  proof (cases "n = 0")
    case True
    obtain s' where f: "libc_free sy p s = Inr s'" "heap_inv sy av base (s', H(p := None))"
      "\<forall>q m a. q \<noteq> p \<longrightarrow> H q = Some m \<longrightarrow> inside q m a \<longrightarrow> mem s' a = mem s a"
      using free_keeps [OF I p] by blast
    have "p \<noteq> NULL" using nh(1) p by auto
    then have "libc_realloc sy p n s = Inr (NULL, s')" using f(1) True by (simp add: libc_realloc_def)
    then show ?thesis using f(2,3) True nh by (intro exI [of _ NULL] exI [of _ s']) (auto simp: rehold_def)
  next
    case False
    consider y s' bs' F' where "libc_realloc sy p n s = Inr (chunk2mem y, s')"
        "resizes sy av base s bs F x (n + SIZE_SZ) y s' bs' F'" "unat n + 8 < 2 ^ 64"
      | s' bs' F' where "libc_realloc sy p n s = Inr (NULL, s')" "takes sy av base s bs F {} s' bs' F'"
      using libc_realloc_reallocs [OF A(1) x(2) ex False] errno_takes [OF A(1)] unfolding reallocs_def x(1) by blast
    then show ?thesis
    proof cases
      case (1 y s' bs' F')
      note R = resized_keeps [OF I A p [unfolded x(1)] False 1(3,2), folded x(1)]
      show ?thesis using 1(1) R by (intro exI [of _ "chunk2mem y"] exI [of _ s']) blast
    next
      case (2 s' bs' F')
      note t = refused_keeps [OF I A(1,2) 2(2) A(3)]
      have "rehold H p NULL n = H" using False by (simp add: rehold_def)
      then show ?thesis using 2(1) t nh by (intro exI [of _ NULL] exI [of _ s']) auto
    qed
  qed
qed

lemma step_keeps: "heap_step sy c c' \<Longrightarrow> heap_inv sy av base c \<Longrightarrow> heap_inv sy av base c'"
proof (induction rule: heap_step.induct)
  case (malloc_step n s p s' H)
  then show ?case using malloc_keeps [of sy av base s H n] by auto
next
  case (calloc_step k n s p s' H)
  then show ?case using calloc_keeps [of sy av base s H k n] by auto
next
  case (realloc_step H p k n s q s')
  then show ?case using realloc_keeps [of sy av base s H p k n] by auto
next
  case (free_step H p n s s')
  then show ?case using free_keeps [of sy av base s H p n] by auto
next
  case (write_step H p n a s v)
  then show ?case using write_keeps(1) [of sy av base s H p n a v] by blast
qed

lemma run_keeps: "(heap_step sy)\<^sup>*\<^sup>* c c' \<Longrightarrow> heap_inv sy av base c \<Longrightarrow> heap_inv sy av base c'"
  by (induction rule: rtranclp_induct) (blast intro: step_keeps)+

text \<open>Two held blocks do not overlap.\<close>

lemma held_apart:
  assumes I: "heap_inv sy av base (s, H)" and p: "H p = Some n" and q: "H q = Some k" and ne: "p \<noteq> q"
  shows "unat p + unat n \<le> unat q \<or> unat q + unat k \<le> unat p"
proof -
  obtain bs F where A: "arena_ok sy av base s bs F" "dom H = chunk2mem ` live bs F" "roomy (mem s) H" and ex: "exhausted sy"
    by (rule heap_invE [OF I])
  obtain L where hp: "heap_ok s av base bs L" by (rule arena_heap [OF A(1)])
  obtain x where x: "p = chunk2mem x" "x \<in> live bs F" "unat p = unat x + 16" "unat n + 8 \<le> unat (chunksize (mem s) x)"
    by (rule held_block [OF A p]) (rule that)
  obtain y where y: "q = chunk2mem y" "y \<in> live bs F" "unat q = unat y + 16" "unat k + 8 \<le> unat (chunksize (mem s) y)"
    by (rule held_block [OF A q]) (rule that)
  have "(x, True) \<noteq> (y, True)" using ne x(1) y(1) by blast
  then have "unat x + unat (chunksize (mem s) x) \<le> unat y \<or> unat y + unat (chunksize (mem s) y) \<le> unat x"
    using seg_disjoint(1) [OF layD(3) [OF heap_okD(1) [OF hp]] live_used [OF x(2)] live_used [OF y(2)]] by blast
  then show ?thesis using x(3,4) y(3,4) by linarith
qed

section \<open>Freeing all blocks\<close>

fun free_all :: "'k sys \<Rightarrow> ptr list \<Rightarrow> 'k st \<Rightarrow> abort + 'k st" where
  "free_all sy [] s = Inr s"
| "free_all sy (p # ps) s = bindE (libc_free sy p s) (free_all sy ps)"

lemma free_all_takes:
  assumes "arena_ok sy av base s bs F" "distinct xs" "set xs \<subseteq> live bs F"
  shows "\<exists>s' bs' F'. free_all sy (map chunk2mem xs) s = Inr s' \<and> arena_ok sy av base s' bs' F' \<and>
    live bs' F' = live bs F - set xs \<and> heap_end s' av = heap_end s av"
  using assms
proof (induction xs arbitrary: s bs F)
  case (Cons x xs)
  obtain s1 bs1 F1 where f: "libc_free sy (chunk2mem x) s = Inr s1" "takes sy av base s bs F {x} s1 bs1 F1"
    using libc_free_takes [OF Cons.prems(1)] Cons.prems(3) by fastforce
  have t: "arena_ok sy av base s1 bs1 F1" "live bs1 F1 = live bs F - {x}" "heap_end s1 av = heap_end s av"
    using f(2) unfolding takes_def by auto
  have "set xs \<subseteq> live bs1 F1" using Cons.prems(2,3) t(2) by auto
  then obtain s' bs' F' where "free_all sy (map chunk2mem xs) s1 = Inr s'" "arena_ok sy av base s' bs' F'"
    "live bs' F' = live bs1 F1 - set xs" "heap_end s' av = heap_end s1 av"
    using Cons.IH [OF t(1)] Cons.prems(2) by auto
  then show ?case using f(1) t(2,3) by (intro exI [of _ s'] exI [of _ bs'] exI [of _ F']) auto
qed auto

section \<open>Properties\<close>

text \<open>
  C1: \<open>malloc\<close> in a heap that a program uses (the invariant \<open>heap_inv\<close>; no cache of the thread, a heap
  that the kernel does not extend). For every size the call returns, without any check of the code
  failing: NULL, or an aligned pointer that the program does not hold, to a chunk with room for the
  request. The heap is well-formed afterwards (layout, bins, skip lists, bin map, fast bins), and no
  word of the blocks that the program holds has changed.
\<close>
theorem malloc_hands_out_fresh_block:
  assumes "heap_inv sy av base (s, H)"
  shows "\<exists>p s'. libc_malloc sy n s = Inr (p, s') \<and> heap_inv sy av base (s', hold H p n) \<and> p \<notin> dom H \<and>
    aligned p \<and> (\<forall>q m a. H q = Some m \<longrightarrow> inside q m a \<longrightarrow> mem s' a = mem s a)"
  using assms by (rule malloc_keeps)

text \<open>
  C2: \<open>free\<close> of a block that the program holds, whatever its size and its neighbours: the call returns
  without any check of the code failing, the heap is well-formed for the remaining blocks, and none of
  their words has changed.
\<close>
theorem free_takes_block_back:
  assumes "heap_inv sy av base (s, H)" "H p = Some n"
  shows "\<exists>s'. libc_free sy p s = Inr s' \<and> heap_inv sy av base (s', H(p := None)) \<and>
    (\<forall>q m a. q \<noteq> p \<longrightarrow> H q = Some m \<longrightarrow> inside q m a \<longrightarrow> mem s' a = mem s a)"
  using assms by (rule free_keeps)

text \<open>
  C3: a program with one thread that starts in a heap of the invariant \<open>heap_inv\<close>: the main arena, with any blocks
  in use and free chunks, while the kernel refuses every further \<open>sbrk\<close> and \<open>mmap\<close> (\<open>exhausted\<close>), the thread
  has no cache, and the heap is below the trim threshold, without perturbation and small enough for the bound on
  loops. This is not the heap at the start of a program, which is empty and has to grow. From there the program
  may call \<open>malloc\<close>, \<open>calloc\<close>, \<open>realloc\<close> and \<open>free\<close> in any order and write what it likes into
  the blocks it holds: in every state it reaches the heap is well-formed, the blocks it holds do not
  overlap, each further \<open>malloc\<close> and \<open>calloc\<close> returns, and so does the \<open>realloc\<close> to any size and the \<open>free\<close>
  of each block; no check of the code ever fails.
\<close>
theorem running_program_keeps_heap:
  assumes "heap_inv sy av base c" "(heap_step sy)\<^sup>*\<^sup>* c (s, H)"
  shows "heap_inv sy av base (s, H) \<and>
    (\<forall>p q n k. H p = Some n \<longrightarrow> H q = Some k \<longrightarrow> p \<noteq> q \<longrightarrow> unat p + unat n \<le> unat q \<or> unat q + unat k \<le> unat p) \<and>
    (\<forall>n. \<exists>p s'. libc_malloc sy n s = Inr (p, s')) \<and> (\<forall>k n. \<exists>p s'. libc_calloc sy k n s = Inr (p, s')) \<and>
    (\<forall>p \<in> dom H. \<forall>n. \<exists>q s'. libc_realloc sy p n s = Inr (q, s')) \<and> (\<forall>p \<in> dom H. \<exists>s'. libc_free sy p s = Inr s')"
proof -
  have I: "heap_inv sy av base (s, H)" using run_keeps [OF assms(2,1)] .
  have calls: "\<exists>p s'. libc_malloc sy n s = Inr (p, s')" "\<exists>p s'. libc_calloc sy k n s = Inr (p, s')" for k n
    using malloc_keeps [OF I] calloc_keeps [OF I] by blast+
  have held: "\<exists>q s'. libc_realloc sy p n s = Inr (q, s')" "\<exists>s'. libc_free sy p s = Inr s'" if "p \<in> dom H" for p n
    using that realloc_keeps [OF I] free_keeps [OF I] by blast+
  show ?thesis using I held_apart [OF I] calls held by blast
qed

text \<open>
  C4: \<open>_int_malloc\<close> in a well-formed arena, with fast chunks or without: it hands out a block that was not
  in use, of the size of the request up to less than \<open>MINSIZE\<close> bytes more, or, with no check failing,
  comes to \<open>sysmalloc\<close>, and then top is too small for the request. In both cases the arena is
  well-formed, the other blocks of the program are the same as before, and so are their contents.
\<close>
theorem int_malloc_serves_or_asks:
  assumes "arena_ok sy av base s bs F" "bytes \<le> PTRDIFF_MAX"
  defines "nb \<equiv> checked_request2size bytes"
  shows "(\<exists>x s' bs' F'. int_malloc sy av bytes s = Inr (chunk2mem x, s') \<and> arena_ok sy av base s' bs' F' \<and>
      live bs' F' = insert x (live bs F) \<and> x \<notin> live bs F \<and> untouched (mem s) (mem s') (live bs F) \<and>
      nb \<le> chunksize (mem s') x \<and> chunksize (mem s') x - nb < MINSIZE) \<or>
    (\<exists>s1 bs1 F1. int_malloc sy av bytes s = int_malloc_sys sy nb av bytes s1 \<and> arena_ok sy av base s1 bs1 F1 \<and>
      live bs1 F1 = live bs F \<and> untouched (mem s) (mem s1) (live bs F) \<and>
      chunksize (mem s1) (get_top (mem s1) av) < nb + MINSIZE)"
proof -
  consider x s' bs' F' where "int_malloc sy av bytes s = Inr (chunk2mem x, s')" "gives sy av base s bs F nb x s' bs' F'"
    | s1 bs1 F1 where "int_malloc sy av bytes s = int_malloc_sys sy nb av bytes s1" "takes sy av base s bs F {} s1 bs1 F1"
      "chunksize (mem s1) (get_top (mem s1) av) < nb + MINSIZE"
    using int_malloc_answers [OF assms(1,2)] unfolding answers_def nb_def by blast
  then show ?thesis
  proof cases
    case 1
    then show ?thesis unfolding gives_def by blast
  next
    case 2
    then have "arena_ok sy av base s1 bs1 F1 \<and> live bs1 F1 = live bs F \<and> untouched (mem s) (mem s1) (live bs F)"
      unfolding takes_def by simp
    then show ?thesis using 2(1,3) by blast
  qed
qed

text \<open>
  C5: \<open>realloc\<close> of a held block in a heap that a program uses, whatever lies behind the block: the chunk
  is large enough, is cut, grows into top or into a free neighbour, or the block moves. The call
  returns without any check failing. Size 0 frees the block; otherwise the result is NULL, and every
  block is as it was, or an aligned block of the new size, apart from all others, whose words are
  those of the old block as far as both reach. The words of the other blocks have not changed, and
  the heap is well-formed.
\<close>
theorem realloc_keeps_contents:
  assumes "heap_inv sy av base (s, H)" "H p = Some k"
  shows "\<exists>q s'. libc_realloc sy p n s = Inr (q, s') \<and> heap_inv sy av base (s', rehold H p q n) \<and>
    q \<notin> dom (H(p := None)) \<and> aligned q \<and>
    (q \<noteq> NULL \<longrightarrow> (\<forall>j. j AND 7 = 0 \<longrightarrow> unat j + 8 \<le> unat k \<longrightarrow> unat j + 8 \<le> unat n \<longrightarrow> mem s' (q + j) = mem s (p + j))) \<and>
    (\<forall>r m a. H r = Some m \<longrightarrow> inside r m a \<longrightarrow> r \<noteq> p \<or> q = NULL \<and> n \<noteq> 0 \<longrightarrow> mem s' a = mem s a)"
  using assms by (rule realloc_keeps)

text \<open>
  C6: \<open>calloc\<close> in a heap that a program uses: for any two factors, the product being too large for 64 bits
  included, the call returns without any check failing. The result is NULL, or an aligned pointer
  that the program does not hold to a block with room for the product, all of whose words are zero;
  the heap is well-formed and the blocks that the program holds have not changed.
\<close>
theorem calloc_hands_out_zeroed_block:
  assumes "heap_inv sy av base (s, H)"
  shows "\<exists>p s'. libc_calloc sy k n s = Inr (p, s') \<and> heap_inv sy av base (s', hold H p (k * n)) \<and> p \<notin> dom H \<and>
    aligned p \<and> (p \<noteq> NULL \<longrightarrow> unat (k * n) = unat k * unat n \<and> (\<forall>a. inside p (k * n) a \<longrightarrow> a AND 7 = 0 \<longrightarrow> mem s' a = 0)) \<and>
    (\<forall>q m a. H q = Some m \<longrightarrow> inside q m a \<longrightarrow> mem s' a = mem s a)"
  using assms by (rule calloc_keeps)

text \<open>
  C8: when a program frees all the blocks that it holds, small or large and in whatever order, every call of
  \<open>free\<close> returns; the smallest blocks are then still in the fast bins, and when \<open>malloc_consolidate\<close> has run, which
  succeeds, the heap is as it was at the start: top is at its base and reaches to the same end, and all bins and
  fast bins are empty. The heap is that of the main arena (\<open>arena_ok\<close>), of a thread without a cache, below the
  trim threshold and without perturbation.
\<close>
theorem freeing_all_restores_top:
  assumes "arena_ok sy av base s bs F" "distinct ps" "set ps = chunk2mem ` live bs F"
  shows "\<exists>s1 s'. free_all sy ps s = Inr s1 \<and> malloc_consolidate sy av s1 = Inr s' \<and> get_top (mem s') av = base \<and>
    next_chunk (mem s') base = heap_end s av \<and> (\<forall>i. 1 \<le> i \<and> i < 128 \<longrightarrow> bin_list (mem s') (header av i) []) \<and>
    (\<forall>i \<in> set fastbin_indices. mem s' (fastbin_addr av i) = NULL)"
proof -
  let ?xs = "map mem2chunk ps"
  have ps: "map chunk2mem ?xs = ps" by (simp add: o_def)
  have xs: "set ?xs = live bs F" unfolding set_map assms(3) by (simp add: image_image)
  have "distinct ?xs" using assms(2) ps by (metis distinct_map)
  then obtain s1 bs1 F1 where f: "free_all sy ps s = Inr s1" "arena_ok sy av base s1 bs1 F1" "live bs1 F1 = {}"
    "heap_end s1 av = heap_end s av"
    using free_all_takes [OF assms(1)] xs ps by (metis Diff_cancel subset_refl)
  obtain L where "heap_ok s1 av base bs1 L" by (rule arena_heap [OF f(2)])
  then obtain s' bs' L' where c: "malloc_consolidate sy av s1 = Inr s'" "heap_ok s' av base bs' L'"
    "\<forall>x. (x, True) \<in> set bs' \<longleftrightarrow> (x, True) \<in> set bs1 \<and> x \<notin> fast_chunks F1" "heap_end s' av = heap_end s1 av"
    "\<forall>i \<in> set fastbin_indices. mem s' (fastbin_addr av i) = NULL"
    using consolidate_drains_fast_bins [OF _ arena_okD(1) [OF f(2)]] unfolding fast_chunks_def by metis
  have "(x, True) \<notin> set bs'" for x using c(3) f(3) unfolding live_def by blast
  note N = no_used_block [OF c(2) this]
  have "next_chunk (mem s') base = heap_end s av" using c(4) f(4) unfolding N(1) by simp
  moreover have "\<forall>i. 1 \<le> i \<and> i < 128 \<longrightarrow> bin_list (mem s') (header av i) []" using N(2) by blast
  ultimately show ?thesis using f(1) c(1,5) N(1) by blast
qed

section \<open>An example\<close>

text \<open>The example heap up to a page boundary, of a thread whose cache has been shut down.\<close>

definition example_sys :: "unit sys" where
  "example_sys = bare_sys\<lparr>loop_fuel := 1000\<rparr>"

definition example_run :: "unit st" where
  "example_run = example_blocks\<lparr>mem := (mem example_blocks)(70808 := 7025), global_max_fast := 128, tcache_shutting_down := True\<rparr>"

definition example_held :: "ptr \<rightharpoonup> u64" where
  "example_held = [69648 \<mapsto> 48, 69712 \<mapsto> 56, 69776 \<mapsto> 1024]"

abbreviation example_list :: "(ptr \<times> bool) list" where
  "example_list \<equiv> [(69632, True), (69696, True), (69760, True)]"

lemma example_run_words:
  "mem example_run 65632 = 70800" "mem example_run 69640 = 65" "mem example_run 69704 = 65"
  "mem example_run 69768 = 1041" "mem example_run 70808 = 7025"
  by (simp_all add: example_run_def example_blocks_def)

lemma example_run_sizes:
  "chunksize (mem example_run) 69632 = 64" "chunksize (mem example_run) 69696 = 64"
  "chunksize (mem example_run) 69760 = 1040" "chunksize (mem example_run) 70800 = 7024"
  "get_top (mem example_run) 65536 = 70800"
  by (simp_all add: chunksize_def chunksize_nomask_def get_top_def example_run_words)

lemma example_run_heap: "heap_ok example_run 65536 69632 example_list (\<lambda>_. [])"
proof -
  have "lay (mem example_run) 65536 69632 example_list"
    by (simp add: lay_def block_def aligned_def next_chunk_def prev_inuse_def example_run_sizes
        chunksize_nomask_def example_run_words)
  moreover have "unat (heap_end example_run 65536) \<le> unat (69632 :: ptr) + unat (system_mem example_run 65536)"
    by (simp add: next_chunk_def example_run_sizes) (simp add: example_run_def example_blocks_def)
  moreover have "bins_hold (mem example_run) 65536 (\<lambda>_. [])"
  proof (rule empty_bins_hold)
    fix a :: u64 assume a: "65648 \<le> unat a" "unat a < 67680"
    then have "a \<noteq> 65632" "a \<noteq> 69640" "a \<noteq> 69704" "a \<noteq> 69768" "a \<noteq> 70808" by auto
    then show "mem example_run a = (if a AND 15 = 0 then a - 16 else a - 24)"
      using a by (simp add: example_run_def example_blocks_def word_le_nat_alt word_less_nat_alt)
  qed
  ultimately show ?thesis by (simp add: heap_ok_def binned_def)
qed

lemma example_arena_ok: "arena_ok example_sys 65536 69632 example_run example_list (\<lambda>_. [])"
proof -
  have "fast_bins example_sys example_run 65536 example_list (\<lambda>_. []) fastbin_indices" "fast_chunks (\<lambda>_. []) = {}"
    by (simp_all add: fast_bins_def fast_chunks_def fastbin_indices_def fastbin_addr_def example_run_def example_blocks_def)
  moreover have "settled example_sys 65536 69632 example_run"
    by (simp add: settled_def next_chunk_def example_run_sizes)
      (simp add: example_sys_def bare_sys_def example_run_def example_blocks_def static_state_def mp_init_def)
  moreover have "chunksize_nomask (mem example_run) x AND (IS_MMAPPED OR NON_MAIN_ARENA) = 0"
    if "(x, True) \<in> set example_list" for x
    using that by (auto simp: chunksize_nomask_def example_run_words)
  ultimately show ?thesis unfolding arena_ok_def using example_run_heap by blast
qed

lemma example_inv: "heap_inv example_sys 65536 69632 (example_run, example_held)"
proof (rule heap_invI [OF example_arena_ok])
  have "live example_list (\<lambda>_. []) = {69632, 69696, 69760}" by (auto simp: live_def fast_chunks_def fastbin_indices_def)
  then show "dom example_held = chunk2mem ` live example_list (\<lambda>_. [])"
    by (auto simp: example_held_def chunk2mem_def)
  show "roomy (mem example_run) example_held"
    by (auto simp: roomy_def example_held_def mem2chunk_def example_run_sizes split: if_splits)
  show "exhausted example_sys" by (simp add: exhausted_def example_sys_def bare_sys_def)
qed

theorem malloc_hands_out_fresh_block_witness:
  "\<exists>p s'. libc_malloc example_sys 2000 example_run = Inr (p, s') \<and>
    heap_inv example_sys 65536 69632 (s', hold example_held p 2000) \<and> p \<notin> dom example_held \<and> aligned p \<and>
    (\<forall>q m a. example_held q = Some m \<longrightarrow> inside q m a \<longrightarrow> mem s' a = mem example_run a)"
  by (rule malloc_hands_out_fresh_block [OF example_inv])

theorem free_takes_block_back_witness:
  "\<exists>s'. libc_free example_sys 69712 example_run = Inr s' \<and>
    heap_inv example_sys 65536 69632 (s', example_held(69712 := None)) \<and>
    (\<forall>q m a. q \<noteq> 69712 \<longrightarrow> example_held q = Some m \<longrightarrow> inside q m a \<longrightarrow> mem s' a = mem example_run a)"
  by (rule free_takes_block_back [OF example_inv, where n = 56]) (simp add: example_held_def)

theorem running_program_keeps_heap_witness:
  "\<exists>s. (heap_step example_sys)\<^sup>*\<^sup>* (example_run, example_held) (s, example_held) \<and> mem s 69656 = 7 \<and>
    heap_inv example_sys 65536 69632 (s, example_held) \<and> (\<exists>s'. libc_free example_sys 69648 s = Inr s')"
proof -
  let ?s = "example_run\<lparr>mem := (mem example_run)(69656 := 7)\<rparr>"
  have "heap_step example_sys (example_run, example_held) (?s, example_held)"
    by (rule write_step [where p = 69648 and n = 48]) (simp_all add: example_held_def inside_def)
  then have r: "(heap_step example_sys)\<^sup>*\<^sup>* (example_run, example_held) (?s, example_held)" by blast
  have "69648 \<in> dom example_held" by (simp add: example_held_def)
  then show ?thesis using running_program_keeps_heap [OF example_inv r] r by (intro exI [of _ ?s]) simp
qed

theorem int_malloc_serves_or_asks_witness:
  "(\<exists>x s' bs' F'. int_malloc example_sys 65536 600 example_run = Inr (chunk2mem x, s') \<and>
      arena_ok example_sys 65536 69632 s' bs' F' \<and> live bs' F' = insert x (live example_list (\<lambda>_. [])) \<and>
      x \<notin> live example_list (\<lambda>_. []) \<and> untouched (mem example_run) (mem s') (live example_list (\<lambda>_. [])) \<and>
      608 \<le> chunksize (mem s') x \<and> chunksize (mem s') x - 608 < MINSIZE) \<or>
    (\<exists>s1 bs1 F1. int_malloc example_sys 65536 600 example_run = int_malloc_sys example_sys 608 65536 600 s1 \<and>
      arena_ok example_sys 65536 69632 s1 bs1 F1 \<and> live bs1 F1 = live example_list (\<lambda>_. []) \<and>
      untouched (mem example_run) (mem s1) (live example_list (\<lambda>_. [])) \<and>
      chunksize (mem s1) (get_top (mem s1) 65536) < 608 + MINSIZE)"
proof -
  have "checked_request2size 600 = 608" by (simp add: checked_request2size_def request2size_def)
  then show ?thesis using int_malloc_serves_or_asks [OF example_arena_ok, of 600] by simp
qed

theorem realloc_keeps_contents_witness:
  "\<exists>q s'. libc_realloc example_sys 69648 300 example_run = Inr (q, s') \<and>
    heap_inv example_sys 65536 69632 (s', rehold example_held 69648 q 300) \<and>
    (q \<noteq> NULL \<longrightarrow> mem s' (q + 40) = mem example_run 69688) \<and> mem s' 69720 = mem example_run 69720"
proof -
  have "example_held 69648 = Some 48" by (simp add: example_held_def)
  then obtain q s' where r: "libc_realloc example_sys 69648 300 example_run = Inr (q, s')"
    "heap_inv example_sys 65536 69632 (s', rehold example_held 69648 q 300)"
    "q \<noteq> NULL \<longrightarrow> (\<forall>j. j AND 7 = 0 \<longrightarrow> unat j + 8 \<le> unat (48 :: u64) \<longrightarrow> unat j + 8 \<le> unat (300 :: u64) \<longrightarrow>
       mem s' (q + j) = mem example_run (69648 + j))"
    "\<forall>r m a. example_held r = Some m \<longrightarrow> inside r m a \<longrightarrow> r \<noteq> 69648 \<or> q = NULL \<and> 300 \<noteq> (0 :: u64) \<longrightarrow>
       mem s' a = mem example_run a"
    using realloc_keeps_contents [OF example_inv] by blast
  have "q \<noteq> NULL \<longrightarrow> mem s' (q + 40) = mem example_run 69688" using r(3) spec [of _ "40 :: u64"] by fastforce
  moreover have "example_held 69712 = Some 56" "inside 69712 56 69720" by (simp_all add: example_held_def inside_def)
  then have "mem s' 69720 = mem example_run 69720" using r(4) by fastforce
  ultimately show ?thesis using r(1,2) by blast
qed

theorem calloc_hands_out_zeroed_block_witness:
  "\<exists>p s'. libc_calloc example_sys 25 40 example_run = Inr (p, s') \<and>
    heap_inv example_sys 65536 69632 (s', hold example_held p (25 * 40)) \<and>
    (p \<noteq> NULL \<longrightarrow> (\<forall>a. inside p (25 * 40) a \<longrightarrow> a AND 7 = 0 \<longrightarrow> mem s' a = 0))"
  using calloc_hands_out_zeroed_block [OF example_inv, of 25 40] by blast

text \<open>Two of the three blocks go to a fast bin.\<close>

theorem freeing_all_restores_top_witness:
  "\<exists>s1 s'. free_all example_sys [69712, 69648, 69776] example_run = Inr s1 \<and> malloc_consolidate example_sys 65536 s1 = Inr s' \<and>
    get_top (mem s') 65536 = 69632 \<and> next_chunk (mem s') 69632 = heap_end example_run 65536 \<and>
    (\<forall>i. 1 \<le> i \<and> i < 128 \<longrightarrow> bin_list (mem s') (header 65536 i) []) \<and>
    (\<forall>i \<in> set fastbin_indices. mem s' (fastbin_addr 65536 i) = NULL)"
proof (rule freeing_all_restores_top [OF example_arena_ok])
  have "live example_list (\<lambda>_. []) = {69632, 69696, 69760}" by (auto simp: live_def fast_chunks_def fastbin_indices_def)
  then show "set [69712, 69648, 69776] = chunk2mem ` live example_list (\<lambda>_. [])" by (auto simp: chunk2mem_def)
qed simp

end
