(* ===== verification/Spec2Isabelle.thy ===== *)
theory Spec2Isabelle
  imports Mallopt Check Smemset Sgoto Snprintf Srecv Constants SizeClasses
    Binned FastProps ApiProps Memalign Mmap MalloptProps Growth Info
    LargeBin HeapRun
begin

text \<open>
  SecureC is a collection of C replacements for standard library functions. Its parts:

  \<^item> \<^verbatim>\<open>scalloc/src/scalloc.c\<close>, a copy of the ptmalloc allocator of glibc (\<open>malloc\<close>, \<open>free\<close>,
    \<open>realloc\<close>, \<open>calloc\<close>, the aligned allocations, \<open>mallopt\<close>, \<open>mallinfo\<close>, \<open>malloc_trim\<close>), with the
    getters of \<^verbatim>\<open>scalloc/include/malloc_constants.c\<close> and the timing check of
    \<^verbatim>\<open>scalloc/include/smalloc.h\<close>;
  \<^item> \<^verbatim>\<open>smemset\<close>, a \<open>memset\<close> that the compiler may not remove, with checked wrappers;
  \<^item> \<^verbatim>\<open>sgoto\<close>, indirect jumps behind an integrity check, with its tagged pointers and lock-free
    stack in \<^verbatim>\<open>sgoto/third-party/ephemeral-hash-cas\<close>;
  \<^item> \<^verbatim>\<open>snprintf/src/snprintf.c\<close>, a search for percent signs in x86-64 and AArch64 assembly;
  \<^item> \<^verbatim>\<open>srecv/src/srecv.c\<close>, a checked \<open>recv\<close>.

  \<^bold>\<open>The model of the allocator.\<close> Memory is a total function from addresses to 64-bit words; a
  chunk is its address and \<^verbatim>\<open>Chunk\<close> has the header and boundary tag macros over it. \<^verbatim>\<open>State\<close> has
  the record \<open>st\<close> of the arenas, \<open>mp_\<close> and the static variables, and the record \<open>sys\<close> of what the
  code calls outside \<^verbatim>\<open>scalloc/src\<close> (kernel, \<open>arena.c\<close>, random numbers). The operations follow the
  code function by function: \<^verbatim>\<open>Bins\<close> (\<open>unlink_chunk\<close>), \<^verbatim>\<open>Tcache\<close> (the cache of a thread),
  \<^verbatim>\<open>Free\<close> (\<open>systrim\<close>, \<open>munmap_chunk\<close>, \<open>mremap_chunk\<close>, \<open>malloc_consolidate\<close>, \<open>_int_free_*\<close>),
  \<^verbatim>\<open>Sysmalloc\<close>, \<^verbatim>\<open>Malloc\<close> (\<open>_int_malloc\<close>), \<^verbatim>\<open>Alloc\<close> (the public functions), \<^verbatim>\<open>Mallopt\<close>
  (\<open>mallopt\<close>, \<open>malloc_trim\<close>, \<open>mallinfo\<close>), \<^verbatim>\<open>Info\<close> (\<open>malloc_stats\<close>,
  \<open>malloc_info\<close>) and \<^verbatim>\<open>Check\<close> (the \<open>do_check_*\<close> routines). A function that can
  abort returns \<open>abort + 'a\<close>: \<open>Printerr\<close> with the message of \<open>malloc_printerr\<close>, \<open>Assertion\<close>,
  \<open>Trap\<close> for \<open>__builtin_unreachable\<close>, or \<open>Out_of_fuel\<close>.

  \<^bold>\<open>Fuel.\<close> Loops that follow pointers in memory need not end when the memory is corrupt. They take
  \<open>loop_fuel\<close> of \<open>sys\<close> as bound and give \<open>Out_of_fuel\<close> beyond it; a property that a walk returns
  asks for fuel above the length of the list that is walked. The search of the bin map has the
  bound 129 (each round clears one of 128 bits), a shift loop 64, \<open>has_percent\<close> 7 steps per byte
  and 9 more. Loops that count down have termination proofs.

  \<^bold>\<open>What is shown.\<close> \<^verbatim>\<open>SizeClasses\<close>: the size arithmetic and the four
  classifications of sizes, all instances of one locale. \<^verbatim>\<open>TcacheProps\<close>: the cache is a
  counted stack (\<^verbatim>\<open>Lifo\<close>), its large bins are sorted and best fit, and when a masked link
  detects an overwrite. \<^verbatim>\<open>Bins\<close>: unlinking a small chunk refines the removal of a list element, and which
  words an unlinking on arbitrary memory can change. \<^verbatim>\<open>Layout\<close>: the tiling of the heap by chunks, kept by allocation from
  top and by the free of the chunk before top. \<^verbatim>\<open>Binned\<close>: freeing into a bin and taking a
  chunk back from a small bin refine insertion and removal in its list, and a double free aborts.
  \<^verbatim>\<open>FastProps\<close>: the fast bins are stacks of the same locale, and what their double free check
  misses. \<^verbatim>\<open>ApiProps\<close>: \<open>malloc\<close> and \<open>free\<close> through the cache.
  \<^verbatim>\<open>Memalign\<close>: alignment of the aligned allocations. \<^verbatim>\<open>Binmap\<close>: the
  search over the words of the bin map is the linear search over the bins, and ends.
  \<^verbatim>\<open>LargeBin\<close>: placing, finding and unlinking in a large bin with its skip list.
  \<^verbatim>\<open>FreshHeap\<close>: \<open>malloc_init_state\<close> makes an arena without free chunks, and
  \<open>_int_malloc\<close>, from its first stage to its last, serves any sequence of requests in such an arena with
  adjacent chunks from top. \<^verbatim>\<open>CheckProps\<close>: the \<open>do_check_*\<close> routines accept such a
  heap before and after an allocation from top. \<^verbatim>\<open>Growth\<close>: \<open>sysmalloc\<close> extends a heap without free
  chunks when top is too small, so that every request is served while the kernel has memory. \<^verbatim>\<open>Mmap\<close>: a mapped chunk
  is unmapped as it was mapped. \<^verbatim>\<open>MalloptProps\<close>: the settings keep the limits that the
  allocator relies on, but for one value of the cache's largest size. \<^verbatim>\<open>Info\<close>: what the reports count. \<^verbatim>\<open>Smemset\<close>:
  the unrolled fill is the plain fill. \<^verbatim>\<open>Ehash\<close>: linearizability of the stack over all
  interleavings, and what the tags are worth with the seed 0. \<^verbatim>\<open>Sgoto\<close>: the targets of the jump. \<^verbatim>\<open>Snprintf\<close>: both
  loops compute the same answer. \<^verbatim>\<open>Srecv\<close>: the retries. \<^verbatim>\<open>Constants\<close>:
  the getters against the allocator.

  \<^bold>\<open>The whole heap.\<close> From \<^verbatim>\<open>Blocks\<close> on one invariant covers all of it: \<open>lay\<close>, the list of blocks
  with their use between the base and top; \<open>bins_hold\<close>, all bins with their skip lists; \<open>heap_ok\<close>, both of
  them with the bin map, the free blocks being exactly the binned ones; \<open>arena_ok\<close>, with the fast
  bins. \<^verbatim>\<open>Blocks\<close>, \<^verbatim>\<open>Rebin\<close>, \<^verbatim>\<open>Coalesce\<close> and \<^verbatim>\<open>FreeHalves\<close>: blocks leave
  bins, become free, are merged; \<^verbatim>\<open>HeapFree\<close> and \<^verbatim>\<open>Consolidate\<close>: freeing and consolidation
  are operations on the list of blocks (a locale with the two ways in which the code ends a free).
  \<^verbatim>\<open>HeapUse\<close> and \<^verbatim>\<open>HeapMalloc\<close>: blocks come into use whole or split, in each part of
  \<open>_int_malloc\<close>. \<^verbatim>\<open>Refit\<close>: blocks in use that are cut, joined or written into.
  \<^verbatim>\<open>Arena\<close> and \<^verbatim>\<open>ArenaMalloc\<close>: \<open>free\<close> and \<open>malloc\<close> as a whole,
  fast bins included. \<^verbatim>\<open>Calloc\<close> and \<^verbatim>\<open>Resize\<close>: \<open>calloc\<close>, whose block is zero, and
  \<open>realloc\<close> in its five ways (enough room, cut, into top, into a free neighbour, elsewhere), each of
  which carries the contents along. \<^verbatim>\<open>HeapRun\<close>: a program as a step relation; what it may rely on in every
  state it reaches, and the heap when it has freed all its blocks. There the thread has no cache, the heap is the one of the main arena and stays below the trim threshold, and
  the kernel gives no more memory (\<^verbatim>\<open>Growth\<close> has the other case, without free chunks); a run of such a
  program starts in any heap of this kind, not in the empty heap of program start. The loop bound asked for is one
  step for each 32 bytes of the heap, since no chunk is smaller.

  \<^bold>\<open>Not modelled.\<close> Contention between threads inside the allocator: the model follows the
  \<open>SINGLE_THREAD_P\<close> paths, where locks have no effect, a compare-and-exchange succeeds and the
  arena is the main one (\<open>arena_get\<close> and the retries in another arena belong to \<^verbatim>\<open>arena.c\<close>, which
  is not in the repository). Memory tagging (\<open>mtag_enabled\<close>) is off, so that the tag functions are
  the identity; \<open>MALLOC_DEBUG\<close> is 0, so that the checks of \<^verbatim>\<open>Check\<close> are not called by the
  operations. \<open>__libc_message\<close> only prints; the reports are modelled by the items that they
  print. Tests, examples and
  assembly listings are left out.
\<close>

end
